(* ===== verification/Prelude.thy ===== *)
theory Prelude
  imports Main "HOL-Library.Word"
begin

text \<open>
  Shared vocabulary of the development: the state-and-failure monad the C functions are
  translated into, its weakest precondition calculus, a locale for inductive invariants of
  step relations, and a few generic lemmas on lists and words.

  A C function that works on the shared temp file is a term of type \<open>('e, 's, 'a) M\<close>:
  from a state it either returns a value and a new state (\<open>Ok\<close>), or ends the process
  through \<open>speedy_util_die\<close> or \<open>DIE_QUIET\<close> (\<open>Die\<close>, with the reason and the state it
  leaves behind), or never returns (\<open>Hang\<close>, the value of a loop whose fuel ran out).
\<close>

section \<open>The monad\<close>

datatype ('e, 's, 'a) res = Ok 'a 's | Die 'e 's | Hang

type_synonym ('e, 's, 'a) M = "'s \<Rightarrow> ('e, 's, 'a) res"

definition ret :: "'a \<Rightarrow> ('e, 's, 'a) M" where
  "ret a = (\<lambda>s. Ok a s)"

definition bnd :: "('e, 's, 'a) M \<Rightarrow> ('a \<Rightarrow> ('e, 's, 'b) M) \<Rightarrow> ('e, 's, 'b) M" where
  "bnd m f = (\<lambda>s. case m s of Ok a t \<Rightarrow> f a t | Die e t \<Rightarrow> Die e t | Hang \<Rightarrow> Hang)"

definition die :: "'e \<Rightarrow> ('e, 's, 'a) M" where
  "die e = (\<lambda>s. Die e s)"

definition hang :: "('e, 's, 'a) M" where
  "hang = (\<lambda>s. Hang)"

definition gets :: "('s \<Rightarrow> 'a) \<Rightarrow> ('e, 's, 'a) M" where
  "gets f = (\<lambda>s. Ok (f s) s)"

definition modify :: "('s \<Rightarrow> 's) \<Rightarrow> ('e, 's, unit) M" where
  "modify f = (\<lambda>s. Ok () (f s))"

definition whenM :: "bool \<Rightarrow> ('e, 's, unit) M \<Rightarrow> ('e, 's, unit) M" where
  "whenM b m = (if b then m else ret ())"

text \<open>Statements in sequence: \<open>seqM [m1, m2, m3]\<close> is \<open>m1; m2; m3;\<close>.\<close>

primrec seqM :: "('e, 's, unit) M list \<Rightarrow> ('e, 's, unit) M" where
  "seqM [] = ret ()"
| "seqM (m # ms) = bnd m (\<lambda>_. seqM ms)"

text \<open>Statements in sequence and then a value: the shape of a function body.\<close>

definition thenM :: "('e, 's, unit) M list \<Rightarrow> ('e, 's, 'a) M \<Rightarrow> ('e, 's, 'a) M" where
  "thenM ms m = bnd (seqM ms) (\<lambda>_. m)"

text \<open>The simplifier executes a monadic term on a state with these equations.\<close>

named_theorems run_simps

lemma run_ret [run_simps]: "ret a s = Ok a s"
  by (simp add: ret_def)

lemma run_bnd [run_simps]:
  "bnd m f s = (case m s of Ok a t \<Rightarrow> f a t | Die e t \<Rightarrow> Die e t | Hang \<Rightarrow> Hang)"
  by (simp add: bnd_def)

lemma run_die [run_simps]: "die e s = Die e s"
  by (simp add: die_def)

lemma run_hang [run_simps]: "hang s = Hang"
  by (simp add: hang_def)

lemma run_gets [run_simps]: "gets f s = Ok (f s) s"
  by (simp add: gets_def)

lemma run_modify [run_simps]: "modify f s = Ok () (f s)"
  by (simp add: modify_def)

lemma run_whenM [run_simps]: "whenM b m s = (if b then m s else Ok () s)"
  by (simp add: whenM_def ret_def)

lemma run_thenM [run_simps]: "thenM ms m s = bnd (seqM ms) (\<lambda>_. m) s"
  by (simp add: thenM_def)

declare seqM.simps [run_simps]

section \<open>Weakest preconditions\<close>

text \<open>
  \<open>wp m Q s\<close>: run from \<open>s\<close>, \<open>m\<close> returns (it neither dies nor hangs) and what it
  returns satisfies \<open>Q\<close>. So every \<open>wp\<close> statement is one of total correctness.
\<close>

definition wp :: "('e, 's, 'a) M \<Rightarrow> ('a \<Rightarrow> 's \<Rightarrow> bool) \<Rightarrow> 's \<Rightarrow> bool" where
  "wp m Q s = (case m s of Ok a t \<Rightarrow> Q a t | Die e t \<Rightarrow> False | Hang \<Rightarrow> False)"

named_theorems wps

lemma wp_ret [wps]: "wp (ret a) Q = Q a"
  by (simp add: fun_eq_iff wp_def ret_def)

lemma wp_bnd [wps]: "wp (bnd m f) Q = wp m (\<lambda>a. wp (f a) Q)"
  by (simp add: fun_eq_iff wp_def bnd_def split: res.splits)

lemma wp_die [wps]: "wp (die e) Q s = False"
  by (simp add: wp_def die_def)

lemma wp_hang [wps]: "wp hang Q s = False"
  by (simp add: wp_def hang_def)

lemma wp_gets [wps]: "wp (gets f) Q s = Q (f s) s"
  by (simp add: wp_def gets_def)

lemma wp_modify [wps]: "wp (modify f) Q s = Q () (f s)"
  by (simp add: wp_def modify_def)

lemma wp_if [wps]: "wp (if b then m else m') Q s = (if b then wp m Q s else wp m' Q s)"
  by simp

lemma wp_whenM [wps]: "wp (whenM b m) Q s = (if b then wp m Q s else Q () s)"
  by (simp add: whenM_def wps)

lemma wp_seqM_Nil [wps]: "wp (seqM []) Q = Q ()"
  by (simp add: wps)

lemma wp_seqM_Cons [wps]: "wp (seqM (m # ms)) Q = wp m (\<lambda>_. wp (seqM ms) Q)"
  by (simp add: wps)

lemma wp_thenM [wps]: "wp (thenM ms m) Q = wp (seqM ms) (\<lambda>_. wp m Q)"
  by (simp add: thenM_def wps)

lemma wp_mono:
  assumes "wp m Q s" and "\<And>a t. Q a t \<Longrightarrow> R a t"
  shows "wp m R s"
  using assms by (auto simp: wp_def split: res.splits)

lemma wp_conjI: "wp m Q s \<Longrightarrow> wp m R s \<Longrightarrow> wp m (\<lambda>a t. Q a t \<and> R a t) s"
  by (auto simp: wp_def split: res.splits)

lemma wp_Ok: "m s = Ok a t \<Longrightarrow> wp m Q s = Q a t"
  by (simp add: wp_def)

lemma wp_imp_Ok: "wp m Q s \<Longrightarrow> \<exists>a t. m s = Ok a t \<and> Q a t"
  by (auto simp: wp_def split: res.splits)

lemma wpE:
  assumes "wp m Q s"
  obtains a t where "m s = Ok a t" and "Q a t"
  using assms by (auto simp: wp_def split: res.splits)

section \<open>Partial correctness\<close>

text \<open>
  \<open>wpx h m Q E s\<close>: what \<open>m\<close> returns satisfies \<open>Q\<close>, the process ends only as \<open>E\<close>
  allows, and \<open>m\<close> fails to return only if \<open>h\<close>. It is for the functions that wait for
  other processes or start new ones; \<open>wp\<close> is the case that allows neither.
\<close>

definition wpx :: "bool \<Rightarrow> ('e, 's, 'a) M \<Rightarrow> ('a \<Rightarrow> 's \<Rightarrow> bool) \<Rightarrow> ('e \<Rightarrow> bool) \<Rightarrow> 's \<Rightarrow> bool" where
  "wpx h m Q E s = (case m s of Ok a t \<Rightarrow> Q a t | Die e t \<Rightarrow> E e | Hang \<Rightarrow> h)"

lemma wpx_wp: "wp m Q s \<Longrightarrow> wpx h m Q E s"
  by (auto simp: wp_def wpx_def split: res.splits)

lemma wpx_mono:
  assumes "wpx h m Q E s" and "\<And>a t. Q a t \<Longrightarrow> R a t"
  shows "wpx h m R E s"
  using assms by (auto simp: wpx_def split: res.splits)

lemma wpx_hang_mono: "wpx h m Q E s \<Longrightarrow> (h \<Longrightarrow> h') \<Longrightarrow> wpx h' m Q E s"
  by (auto simp: wpx_def split: res.splits)

lemma wpx_eq:
  assumes "\<And>Q. wp m Q s = Q a t"
  shows "wpx h m Q E s = Q a t"
proof -
  have "wp m (\<lambda>x y. x = a \<and> y = t) s" by (simp add: assms)
  then have "m s = Ok a t" by (auto elim: wpE)
  then show ?thesis by (simp add: wpx_def)
qed

named_theorems wpxs

lemma wpx_ret [wpxs]: "wpx h (ret a) Q E = Q a"
  by (simp add: fun_eq_iff wpx_def ret_def)

lemma wpx_bnd [wpxs]: "wpx h (bnd m f) Q E = wpx h m (\<lambda>a. wpx h (f a) Q E) E"
  by (simp add: fun_eq_iff wpx_def bnd_def split: res.splits)

lemma wpx_die [wpxs]: "wpx h (die e) Q E s = E e"
  by (simp add: wpx_def die_def)

lemma wpx_hang [wpxs]: "wpx h hang Q E s = h"
  by (simp add: wpx_def hang_def)

lemma wpx_gets [wpxs]: "wpx h (gets f) Q E s = Q (f s) s"
  by (simp add: wpx_def gets_def)

lemma wpx_modify [wpxs]: "wpx h (modify f) Q E s = Q () (f s)"
  by (simp add: wpx_def modify_def)

lemma wpx_if [wpxs]: "wpx h (if b then m else m') Q E s = (if b then wpx h m Q E s else wpx h m' Q E s)"
  by simp

lemma wpx_whenM [wpxs]: "wpx h (whenM b m) Q E s = (if b then wpx h m Q E s else Q () s)"
  by (simp add: whenM_def wpxs)

lemma wpx_seqM [wpxs]:
  "wpx h (seqM []) Q E = Q ()"
  "wpx h (seqM (m # ms)) Q E = wpx h m (\<lambda>_. wpx h (seqM ms) Q E) E"
  by (simp_all add: wpxs)

lemma wpx_thenM [wpxs]: "wpx h (thenM ms m) Q E = wpx h (seqM ms) (\<lambda>_. wpx h m Q E) E"
  by (simp add: thenM_def wpxs)

section \<open>Invariants of step relations\<close>

text \<open>
  The contract every state machine of the development is held to: its initial states
  satisfy an invariant and each step keeps it.
\<close>

inductive reach :: "('s \<Rightarrow> bool) \<Rightarrow> ('s \<Rightarrow> 's \<Rightarrow> bool) \<Rightarrow> 's \<Rightarrow> bool"
  for ini :: "'s \<Rightarrow> bool" and step :: "'s \<Rightarrow> 's \<Rightarrow> bool" where
  reach_init: "ini s \<Longrightarrow> reach ini step s"
| reach_step: "reach ini step s \<Longrightarrow> step s t \<Longrightarrow> reach ini step t"

locale inv_system =
  fixes ini :: "'s \<Rightarrow> bool"
    and step :: "'s \<Rightarrow> 's \<Rightarrow> bool"
    and inv :: "'s \<Rightarrow> bool"
  assumes init_inv: "ini s \<Longrightarrow> inv s"
    and step_inv: "inv s \<Longrightarrow> step s t \<Longrightarrow> inv t"
begin

lemma reach_inv: "reach ini step s \<Longrightarrow> inv s"
  by (induction rule: reach.induct) (auto intro: init_inv step_inv)

lemma steps_inv: "step\<^sup>*\<^sup>* s t \<Longrightarrow> inv s \<Longrightarrow> inv t"
  by (induction rule: rtranclp_induct) (auto intro: step_inv)

end

section \<open>Lists and words\<close>

lemma remove1_split: "x \<notin> set ys \<Longrightarrow> remove1 x (ys @ x # zs) = ys @ zs"
  by (induction ys) auto

lemma word_less_Suc_unat: "(a::'a::len word) < b \<Longrightarrow> unat (a + 1) = Suc (unat a)"
  by unat_arith

end
