(* ===== verification/Slots.thy ===== *)
theory Slots
  imports Prelude
begin

text \<open>
  The slot array of the shared temp file: src/src/speedy_slot.h, src/src/speedy_slot.c and
  the file header of src/src/speedy_file.h.

  The temp file is a header followed by an array of slots. Every slot carries two links
  (\<open>next_slot\<close>, \<open>prev_slot\<close>) and a union of five structs. The model keeps the union as a
  tagged datatype \<open>slot_u\<close>: the constructor records the member that was written last and
  \<open>U_zero\<close> is the all-zero content that \<open>speedy_slot_alloc\<close> leaves, which every member reads
  as zero. Reading a member other than the one written would reinterpret bytes in C; the
  model stops there with \<open>Union_confusion\<close>, a reason the C program does not have, and the
  total-correctness theorems show that it is never reached.

  Slot numbers are \<open>unsigned short\<close>, so they are 16-bit words. A loop along a list gets
  \<open>Suc (unat slots_alloced)\<close> units of fuel: a list without repetition has no more members
  than there are allocated slots, so a walk that runs out of fuel has entered a cycle and
  the C loop does not end (\<open>Hang\<close>).

  \<open>sys\<close> is the state a process works on while it holds the lock of the file: the mapped
  file, the parts of its own memory this code reads, and the operating system as far
  as this code talks to it. Whether \<open>kill(2)\<close> succeeds is up to the environment: \<open>kenv\<close> is an arbitrary
  function of the signals sent so far, the pid and the signal.
\<close>

section \<open>Data\<close>

type_synonym slotnum = "16 word"

definition GR_NAMELEN :: nat where "GR_NAMELEN = 12"

record scr_slot =
  dev_num :: int
  ino_num :: int
  mtime :: int

record be_slot =
  be_pid :: int
  fe_running :: slotnum
  maturity :: int

record fe_slot =
  fe_pid :: int
  exit_val :: int
  backend :: slotnum
  exit_on_sig :: int
  sent_sig :: int

record gr_slot =
  be_starting :: int
  be_parent :: int
  script_head :: slotnum
  name_slot :: slotnum
  be_head :: slotnum
  be_tail :: slotnum
  fe_head :: slotnum
  fe_tail :: slotnum

record grnm_slot =
  grnm_name :: string

datatype slot_u = U_zero | U_scr scr_slot | U_be be_slot | U_fe fe_slot | U_gr gr_slot
  | U_grnm grnm_slot

record slot =
  slot_u :: slot_u
  next_slot :: slotnum
  prev_slot :: slotnum

record file_head =
  create_time :: "int \<times> int"
  lock_owner :: int
  group_head :: slotnum
  group_tail :: slotnum
  slot_free :: slotnum
  slots_alloced :: slotnum
  fe_run_head :: slotnum
  fe_run_tail :: slotnum
  file_removed :: bool

text \<open>
  What the environment answers. \<open>tick\<close> counts how often the process has locked the file, so an
  answer that may differ every time the process comes back is a function of it.
  \<open>kspawn\<close>: how starting a process through a double fork ends; \<open>kfork\<close>: the pid \<open>fork(2)\<close>
  returns; \<open>kconn\<close>: whether \<open>connect(2)\<close> to the socket of a backend succeeds; \<open>kstat\<close>: the
  stat data of the script; \<open>kchanged\<close>: whether it changed since the last look;
  \<open>kreaped\<close>: the children \<open>waitpid(2)\<close> reports, with their status; \<open>kgot\<close>: whether a
  signal was received during the last wait; \<open>kclock\<close>, \<open>kleft\<close>: the time, and what
  is left of the alarm, when the wait is over.
\<close>

datatype spawn = Fork_fails | Wait_fails | Child_fork_fails | Spawned int

record answers =
  kspawn :: "(int \<times> int) list \<Rightarrow> spawn"
  kfork :: "nat \<Rightarrow> int"
  kconn :: "nat \<Rightarrow> slotnum \<Rightarrow> bool"
  kstat :: "nat \<Rightarrow> scr_slot"
  kchanged :: "nat \<Rightarrow> bool"
  kreaped :: "nat \<Rightarrow> (int \<times> int) list"
  kgot :: "nat \<Rightarrow> int \<Rightarrow> bool"
  kclock :: "nat \<Rightarrow> int"
  kleft :: "nat \<Rightarrow> int"

text \<open>Memory of the process the temp file does not hold: the alarm it has set and the static
  variables of src/src/speedy_frontend.c.\<close>

record plocal =
  tick :: nat
  did_clean :: bool
  now :: int
  alarm_left :: int
  sig_setup_done :: bool
  next_alarm :: int

record sys =
  fhd :: file_head
  slots :: "slotnum \<Rightarrow> slot"
  maplen :: int
  mypid :: int
  kenv :: "(int \<times> int) list \<Rightarrow> int \<Rightarrow> int \<Rightarrow> bool"
  klog :: "(int \<times> int) list"
  unlinked :: "slotnum list"
  o_group :: string
  o_maxbackends :: int
  o_becheck :: int
  orc :: answers
  loc :: plocal

text \<open>The reasons for which the slot code ends the process.\<close>

datatype why = Slotnum_range slotnum | Out_of_slots | File_too_small slotnum
  | Freeing_free slotnum | Freeing_zero | Union_confusion slotnum | Lists_corrupt
  | Fork_failed | Wait_failed | Script_missing | Script_open_failed | Exited int

type_synonym 'a io = "(why, sys, 'a) M"

definition zero_scr :: scr_slot where
  "zero_scr = \<lparr>dev_num = 0, ino_num = 0, mtime = 0\<rparr>"

definition zero_be :: be_slot where
  "zero_be = \<lparr>be_pid = 0, fe_running = 0, maturity = 0\<rparr>"

definition zero_fe :: fe_slot where
  "zero_fe = \<lparr>fe_pid = 0, exit_val = 0, backend = 0, exit_on_sig = 0, sent_sig = 0\<rparr>"

definition zero_gr :: gr_slot where
  "zero_gr = \<lparr>be_starting = 0, be_parent = 0, script_head = 0, name_slot = 0,
     be_head = 0, be_tail = 0, fe_head = 0, fe_tail = 0\<rparr>"

definition zero_grnm :: grnm_slot where
  "zero_grnm = \<lparr>grnm_name = replicate GR_NAMELEN (CHR 0x00)\<rparr>"

definition zero_slot :: slot where
  "zero_slot = \<lparr>slot_u = U_zero, next_slot = 0, prev_slot = 0\<rparr>"

text \<open>
  \<open>MAX_SLOTS\<close> is \<open>(1<<(sizeof(slotnum_t)*8))-6\<close>, an \<open>int\<close>. The sizes of the header and
  of a slot are those of an LP64 target: 40 and 32 bytes.
\<close>

definition MAX_SLOTS :: int where "MAX_SLOTS = 2 ^ 16 - 6"
definition SIZEOF_HEAD :: int where "SIZEOF_HEAD = 40"
definition SIZEOF_SLOT :: int where "SIZEOF_SLOT = 32"

section \<open>Access to slots\<close>

text \<open>\<open>BAD_SLOTNUM\<close>, \<open>speedy_slot_check\<close> and the macros \<open>SLOT_CHECK\<close>, \<open>SLOT\<close>.\<close>

definition BAD_SLOTNUM :: "sys \<Rightarrow> slotnum \<Rightarrow> bool" where
  "BAD_SLOTNUM s n \<longleftrightarrow> n = 0 \<or> slots_alloced (fhd s) < n"

definition speedy_slot_check :: "slotnum \<Rightarrow> slotnum io" where
  "speedy_slot_check n =
     bnd (gets (\<lambda>s. BAD_SLOTNUM s n)) (\<lambda>bad.
     if bad then die (Slotnum_range n) else ret n)"

definition SLOT :: "slotnum \<Rightarrow> slot io" where
  "SLOT n = bnd (speedy_slot_check n) (\<lambda>n. gets (\<lambda>s. slots s n))"

definition put_slot :: "slotnum \<Rightarrow> (slot \<Rightarrow> slot) \<Rightarrow> sys \<Rightarrow> sys" where
  "put_slot n f s = s\<lparr>slots := (slots s)(n := f (slots s n))\<rparr>"

definition upd_slot :: "slotnum \<Rightarrow> (slot \<Rightarrow> slot) \<Rightarrow> unit io" where
  "upd_slot n f = bnd (speedy_slot_check n) (\<lambda>n. modify (put_slot n f))"

definition set_next :: "slotnum \<Rightarrow> slotnum \<Rightarrow> unit io" where
  "set_next n v = upd_slot n (next_slot_update (\<lambda>_. v))"

definition set_prev :: "slotnum \<Rightarrow> slotnum \<Rightarrow> unit io" where
  "set_prev n v = upd_slot n (prev_slot_update (\<lambda>_. v))"

definition speedy_slot_next :: "slotnum \<Rightarrow> slotnum io" where
  "speedy_slot_next n = bnd (SLOT n) (\<lambda>sl. ret (next_slot sl))"

definition speedy_slot_prev :: "slotnum \<Rightarrow> slotnum io" where
  "speedy_slot_prev n = bnd (SLOT n) (\<lambda>sl. ret (prev_slot sl))"

text \<open>
  \<open>FILE_SLOT(member, n)\<close> for each member: how the union is read (\<open>None\<close> when another
  member was written last) and written.
\<close>

fun as_scr :: "slot_u \<Rightarrow> scr_slot option" where
  "as_scr U_zero = Some zero_scr"
| "as_scr (U_scr x) = Some x"
| "as_scr _ = None"

fun as_be :: "slot_u \<Rightarrow> be_slot option" where
  "as_be U_zero = Some zero_be"
| "as_be (U_be x) = Some x"
| "as_be _ = None"

fun as_fe :: "slot_u \<Rightarrow> fe_slot option" where
  "as_fe U_zero = Some zero_fe"
| "as_fe (U_fe x) = Some x"
| "as_fe _ = None"

fun as_gr :: "slot_u \<Rightarrow> gr_slot option" where
  "as_gr U_zero = Some zero_gr"
| "as_gr (U_gr x) = Some x"
| "as_gr _ = None"

fun as_grnm :: "slot_u \<Rightarrow> grnm_slot option" where
  "as_grnm U_zero = Some zero_grnm"
| "as_grnm (U_grnm x) = Some x"
| "as_grnm _ = None"

definition read_member :: "(slot_u \<Rightarrow> 'a option) \<Rightarrow> slotnum \<Rightarrow> 'a io" where
  "read_member as n =
     bnd (SLOT n) (\<lambda>sl. case as (slot_u sl) of None \<Rightarrow> die (Union_confusion n) | Some x \<Rightarrow> ret x)"

definition write_member ::
    "(slot_u \<Rightarrow> 'a option) \<Rightarrow> ('a \<Rightarrow> slot_u) \<Rightarrow> slotnum \<Rightarrow> ('a \<Rightarrow> 'a) \<Rightarrow> unit io" where
  "write_member as mk n f =
     bnd (read_member as n) (\<lambda>x. upd_slot n (slot_u_update (\<lambda>_. mk (f x))))"

definition scr_get :: "slotnum \<Rightarrow> scr_slot io" where "scr_get = read_member as_scr"
definition be_get :: "slotnum \<Rightarrow> be_slot io" where "be_get = read_member as_be"
definition fe_get :: "slotnum \<Rightarrow> fe_slot io" where "fe_get = read_member as_fe"
definition gr_get :: "slotnum \<Rightarrow> gr_slot io" where "gr_get = read_member as_gr"
definition grnm_get :: "slotnum \<Rightarrow> grnm_slot io" where "grnm_get = read_member as_grnm"

definition scr_upd :: "slotnum \<Rightarrow> (scr_slot \<Rightarrow> scr_slot) \<Rightarrow> unit io" where
  "scr_upd = write_member as_scr U_scr"
definition be_upd :: "slotnum \<Rightarrow> (be_slot \<Rightarrow> be_slot) \<Rightarrow> unit io" where
  "be_upd = write_member as_be U_be"
definition fe_upd :: "slotnum \<Rightarrow> (fe_slot \<Rightarrow> fe_slot) \<Rightarrow> unit io" where
  "fe_upd = write_member as_fe U_fe"
definition gr_upd :: "slotnum \<Rightarrow> (gr_slot \<Rightarrow> gr_slot) \<Rightarrow> unit io" where
  "gr_upd = write_member as_gr U_gr"
definition grnm_upd :: "slotnum \<Rightarrow> (grnm_slot \<Rightarrow> grnm_slot) \<Rightarrow> unit io" where
  "grnm_upd = write_member as_grnm U_grnm"

section \<open>Pointers to slot numbers\<close>

text \<open>
  The list operations take pointers to the head and the tail of a list. A pointer of type
  \<open>slotnum_t *\<close> points into the header, into a group slot, or at the \<open>next_slot\<close> of a slot
  (the cursor of \<open>speedy_slot_insert_sorted\<close>).
\<close>

datatype lref = GROUP_HEAD | GROUP_TAIL | FE_RUN_HEAD | FE_RUN_TAIL
  | SCRIPT_HEAD slotnum | NAME_SLOT slotnum | BE_HEAD slotnum | BE_TAIL slotnum
  | FE_HEAD slotnum | FE_TAIL slotnum | NEXT_OF slotnum

fun getref :: "lref \<Rightarrow> slotnum io" where
  "getref GROUP_HEAD = gets (\<lambda>s. group_head (fhd s))"
| "getref GROUP_TAIL = gets (\<lambda>s. group_tail (fhd s))"
| "getref FE_RUN_HEAD = gets (\<lambda>s. fe_run_head (fhd s))"
| "getref FE_RUN_TAIL = gets (\<lambda>s. fe_run_tail (fhd s))"
| "getref (SCRIPT_HEAD g) = bnd (gr_get g) (\<lambda>r. ret (script_head r))"
| "getref (NAME_SLOT g) = bnd (gr_get g) (\<lambda>r. ret (name_slot r))"
| "getref (BE_HEAD g) = bnd (gr_get g) (\<lambda>r. ret (be_head r))"
| "getref (BE_TAIL g) = bnd (gr_get g) (\<lambda>r. ret (be_tail r))"
| "getref (FE_HEAD g) = bnd (gr_get g) (\<lambda>r. ret (fe_head r))"
| "getref (FE_TAIL g) = bnd (gr_get g) (\<lambda>r. ret (fe_tail r))"
| "getref (NEXT_OF n) = speedy_slot_next n"

definition upd_head :: "(file_head \<Rightarrow> file_head) \<Rightarrow> unit io" where
  "upd_head f = modify (\<lambda>s. s\<lparr>fhd := f (fhd s)\<rparr>)"

fun setref :: "lref \<Rightarrow> slotnum \<Rightarrow> unit io" where
  "setref GROUP_HEAD v = upd_head (\<lambda>h. h\<lparr>group_head := v\<rparr>)"
| "setref GROUP_TAIL v = upd_head (\<lambda>h. h\<lparr>group_tail := v\<rparr>)"
| "setref FE_RUN_HEAD v = upd_head (\<lambda>h. h\<lparr>fe_run_head := v\<rparr>)"
| "setref FE_RUN_TAIL v = upd_head (\<lambda>h. h\<lparr>fe_run_tail := v\<rparr>)"
| "setref (SCRIPT_HEAD g) v = gr_upd g (\<lambda>r. r\<lparr>script_head := v\<rparr>)"
| "setref (NAME_SLOT g) v = gr_upd g (\<lambda>r. r\<lparr>name_slot := v\<rparr>)"
| "setref (BE_HEAD g) v = gr_upd g (\<lambda>r. r\<lparr>be_head := v\<rparr>)"
| "setref (BE_TAIL g) v = gr_upd g (\<lambda>r. r\<lparr>be_tail := v\<rparr>)"
| "setref (FE_HEAD g) v = gr_upd g (\<lambda>r. r\<lparr>fe_head := v\<rparr>)"
| "setref (FE_TAIL g) v = gr_upd g (\<lambda>r. r\<lparr>fe_tail := v\<rparr>)"
| "setref (NEXT_OF n) v = set_next n v"

section \<open>List operations\<close>

text \<open>The \<open>tail\<close> pointer may be \<open>NULL\<close> (\<open>None\<close>), as it is for the script list.\<close>

fun deref_eq :: "lref option \<Rightarrow> slotnum \<Rightarrow> bool io" where
  "deref_eq None v = ret False"
| "deref_eq (Some t) v = bnd (getref t) (\<lambda>x. ret (x = v))"

fun set_opt :: "lref option \<Rightarrow> slotnum \<Rightarrow> unit io" where
  "set_opt None v = ret ()"
| "set_opt (Some t) v = setref t v"

definition speedy_slot_remove :: "slotnum \<Rightarrow> lref \<Rightarrow> lref option \<Rightarrow> unit io" where
  "speedy_slot_remove slotnum head tail =
     bnd (speedy_slot_next slotnum) (\<lambda>n.
     bnd (speedy_slot_prev slotnum) (\<lambda>p.
     seqM
      [whenM (n \<noteq> 0) (set_prev n p),
       whenM (p \<noteq> 0) (set_next p n),
       bnd (getref head) (\<lambda>h. whenM (h = slotnum) (setref head n)),
       bnd (deref_eq tail slotnum) (\<lambda>b. whenM b (set_opt tail p))]))"

definition speedy_slot_insert :: "slotnum \<Rightarrow> lref \<Rightarrow> lref option \<Rightarrow> unit io" where
  "speedy_slot_insert slotnum head tail =
     seqM
      [bnd (getref head) (set_next slotnum),
       set_prev slotnum 0,
       bnd (getref head) (\<lambda>h. whenM (h \<noteq> 0) (set_prev h slotnum)),
       setref head slotnum,
       bnd (deref_eq tail 0) (\<lambda>b. whenM b (set_opt tail slotnum))]"

definition speedy_slot_append :: "slotnum \<Rightarrow> lref \<Rightarrow> lref \<Rightarrow> unit io" where
  "speedy_slot_append slotnum head tail =
     seqM
      [bnd (getref tail) (set_prev slotnum),
       set_next slotnum 0,
       bnd (getref tail) (\<lambda>t. whenM (t \<noteq> 0) (set_next t slotnum)),
       setref tail slotnum,
       bnd (getref head) (\<lambda>h. whenM (h = 0) (setref head slotnum))]"

text \<open>The body of the \<open>if\<close> in the loop: insert \<open>slotnum\<close> in front of \<open>*next_ptr\<close>.\<close>

definition insert_before :: "slotnum \<Rightarrow> lref \<Rightarrow> unit io" where
  "insert_before slotnum next_ptr =
     seqM
      [bnd (getref next_ptr) (set_next slotnum),
       bnd (getref next_ptr) (\<lambda>y. bnd (speedy_slot_prev y) (set_prev slotnum)),
       bnd (getref next_ptr) (\<lambda>y. set_prev y slotnum),
       setref next_ptr slotnum]"

primrec insert_sorted_loop ::
    "nat \<Rightarrow> slotnum \<Rightarrow> lref \<Rightarrow> lref \<Rightarrow> lref \<Rightarrow> (slotnum \<Rightarrow> slotnum \<Rightarrow> int io) \<Rightarrow> unit io" where
  "insert_sorted_loop 0 slotnum next_ptr head tail compar = hang"
| "insert_sorted_loop (Suc fuel) slotnum next_ptr head tail compar =
     bnd (getref next_ptr) (\<lambda>y.
     if y = 0 then speedy_slot_append slotnum head tail
     else bnd (compar slotnum y) (\<lambda>c.
       if c \<le> 0 then insert_before slotnum next_ptr
       else insert_sorted_loop fuel slotnum (NEXT_OF y) head tail compar))"

definition list_fuel :: "sys \<Rightarrow> nat" where
  "list_fuel s = Suc (unat (slots_alloced (fhd s)))"

definition speedy_slot_insert_sorted ::
    "slotnum \<Rightarrow> lref \<Rightarrow> lref \<Rightarrow> (slotnum \<Rightarrow> slotnum \<Rightarrow> int io) \<Rightarrow> unit io" where
  "speedy_slot_insert_sorted slotnum head tail compar =
     bnd (gets list_fuel) (\<lambda>fuel. insert_sorted_loop fuel slotnum head head tail compar)"

definition speedy_slot_move_head :: "slotnum \<Rightarrow> lref \<Rightarrow> lref option \<Rightarrow> unit io" where
  "speedy_slot_move_head s h t =
     bnd (getref h) (\<lambda>x. whenM (x \<noteq> s)
       (seqM [speedy_slot_remove s h t, speedy_slot_insert s h t]))"

definition speedy_slot_move_tail :: "slotnum \<Rightarrow> lref \<Rightarrow> lref \<Rightarrow> unit io" where
  "speedy_slot_move_tail s h t =
     bnd (getref t) (\<lambda>x. whenM (x \<noteq> s)
       (seqM [speedy_slot_remove s h (Some t), speedy_slot_append s h t]))"

section \<open>Allocation\<close>

definition speedy_file_size :: "int io" where
  "speedy_file_size = gets maplen"

text \<open>
  \<open>slotnum = slots_alloced + 1\<close> is computed in \<open>int\<close> and truncated to 16 bits, and the
  comparisons with \<open>MAX_SLOTS\<close> and with the file size promote it back to \<open>int\<close>.
\<close>

definition speedy_slot_alloc :: "slotnum io" where
  "speedy_slot_alloc =
     bnd (gets (\<lambda>s. slot_free (fhd s))) (\<lambda>free.
     bnd
      (if free \<noteq> 0
       then bnd (speedy_slot_next free) (\<lambda>n.
            thenM [upd_head (\<lambda>h. h\<lparr>slot_free := n\<rparr>)] (ret free))
       else bnd (gets (\<lambda>s. slots_alloced (fhd s) + 1)) (\<lambda>slotnum.
            bnd speedy_file_size (\<lambda>fsize.
            thenM
             [whenM (uint slotnum \<ge> MAX_SLOTS) (die Out_of_slots),
              whenM (SIZEOF_HEAD + uint slotnum * SIZEOF_SLOT > fsize)
                (die (File_too_small slotnum)),
              upd_head (\<lambda>h. h\<lparr>slots_alloced := slots_alloced h + 1\<rparr>)]
             (ret slotnum))))
      (\<lambda>slotnum. thenM [modify (put_slot slotnum (\<lambda>_. zero_slot))] (ret slotnum)))"

definition speedy_slot_free :: "slotnum \<Rightarrow> unit io" where
  "speedy_slot_free slotnum =
     (if slotnum \<noteq> 0
      then seqM
       [bnd (speedy_slot_prev slotnum) (\<lambda>p. whenM (p = slotnum) (die (Freeing_free slotnum))),
        set_prev slotnum slotnum,
        bnd (gets (\<lambda>s. slot_free (fhd s))) (set_next slotnum),
        upd_head (\<lambda>h. h\<lparr>slot_free := slotnum\<rparr>)]
      else die Freeing_zero)"

end
