(* ===== verification/SlotViews.thy ===== *)
theory SlotViews
  imports Slots
begin

text \<open>
  Pure views of the slot array and the weakest preconditions of the access primitives of
  theory Slots. The two links and the payload of a slot are three independent functions of
  the slot number, every pointer \<open>lref\<close> can be read (\<open>rd\<close>) and written (\<open>wrt\<close>) as a pure
  function of the state, and the primitives do exactly that when their checks succeed.
\<close>

section \<open>Views\<close>

definition okn :: "sys \<Rightarrow> slotnum \<Rightarrow> bool" where
  "okn s n \<longleftrightarrow> n \<noteq> 0 \<and> n \<le> slots_alloced (fhd s)"

definition nxt :: "sys \<Rightarrow> slotnum \<Rightarrow> slotnum" where "nxt s n = next_slot (slots s n)"
definition prv :: "sys \<Rightarrow> slotnum \<Rightarrow> slotnum" where "prv s n = prev_slot (slots s n)"
definition pay :: "sys \<Rightarrow> slotnum \<Rightarrow> slot_u" where "pay s n = slot_u (slots s n)"

definition is_scr :: "slot_u \<Rightarrow> bool" where "is_scr u \<longleftrightarrow> as_scr u \<noteq> None"
definition is_be :: "slot_u \<Rightarrow> bool" where "is_be u \<longleftrightarrow> as_be u \<noteq> None"
definition is_fe :: "slot_u \<Rightarrow> bool" where "is_fe u \<longleftrightarrow> as_fe u \<noteq> None"
definition is_gr :: "slot_u \<Rightarrow> bool" where "is_gr u \<longleftrightarrow> as_gr u \<noteq> None"
definition is_grnm :: "slot_u \<Rightarrow> bool" where "is_grnm u \<longleftrightarrow> as_grnm u \<noteq> None"

definition scr :: "sys \<Rightarrow> slotnum \<Rightarrow> scr_slot" where "scr s n = the (as_scr (pay s n))"
definition be :: "sys \<Rightarrow> slotnum \<Rightarrow> be_slot" where "be s n = the (as_be (pay s n))"
definition fe :: "sys \<Rightarrow> slotnum \<Rightarrow> fe_slot" where "fe s n = the (as_fe (pay s n))"
definition gr :: "sys \<Rightarrow> slotnum \<Rightarrow> gr_slot" where "gr s n = the (as_gr (pay s n))"
definition grnm :: "sys \<Rightarrow> slotnum \<Rightarrow> grnm_slot" where "grnm s n = the (as_grnm (pay s n))"

definition pnext :: "slotnum \<Rightarrow> slotnum \<Rightarrow> sys \<Rightarrow> sys" where
  "pnext n v = put_slot n (next_slot_update (\<lambda>_. v))"
definition pprev :: "slotnum \<Rightarrow> slotnum \<Rightarrow> sys \<Rightarrow> sys" where
  "pprev n v = put_slot n (prev_slot_update (\<lambda>_. v))"
definition ppay :: "slotnum \<Rightarrow> slot_u \<Rightarrow> sys \<Rightarrow> sys" where
  "ppay n u = put_slot n (slot_u_update (\<lambda>_. u))"
definition phead :: "(file_head \<Rightarrow> file_head) \<Rightarrow> sys \<Rightarrow> sys" where
  "phead f s = s\<lparr>fhd := f (fhd s)\<rparr>"

lemmas upd_defs = pnext_def pprev_def ppay_def put_slot_def phead_def

lemma is_U [simp]:
  "is_scr (U_scr a)" "is_be (U_be b)" "is_fe (U_fe c)" "is_gr (U_gr d)" "is_grnm (U_grnm e)"
  "is_scr U_zero" "is_be U_zero" "is_fe U_zero" "is_gr U_zero" "is_grnm U_zero"
  by (simp_all add: is_scr_def is_be_def is_fe_def is_gr_def is_grnm_def)

lemma is_not_U [simp]:
  "\<not> is_gr (U_be b)" "\<not> is_gr (U_fe c)" "\<not> is_gr (U_scr a)" "\<not> is_gr (U_grnm e)"
  "\<not> is_be (U_gr d)" "\<not> is_fe (U_gr d)" "\<not> is_scr (U_gr d)" "\<not> is_grnm (U_gr d)"
  "\<not> is_fe (U_be b)" "\<not> is_be (U_fe c)"
  by (simp_all add: is_scr_def is_be_def is_fe_def is_gr_def is_grnm_def)

section \<open>Views of updated states\<close>

named_theorems views

lemma views_pnext [views]:
  "nxt (pnext n v s) m = (if m = n then v else nxt s m)"
  "prv (pnext n v s) = prv s" "pay (pnext n v s) = pay s" "fhd (pnext n v s) = fhd s"
  by (auto simp: nxt_def prv_def pay_def upd_defs)

lemma views_pprev [views]:
  "prv (pprev n v s) m = (if m = n then v else prv s m)"
  "nxt (pprev n v s) = nxt s" "pay (pprev n v s) = pay s" "fhd (pprev n v s) = fhd s"
  by (auto simp: nxt_def prv_def pay_def upd_defs)

lemma views_ppay [views]:
  "pay (ppay n u s) m = (if m = n then u else pay s m)"
  "nxt (ppay n u s) = nxt s" "prv (ppay n u s) = prv s" "fhd (ppay n u s) = fhd s"
  by (auto simp: nxt_def prv_def pay_def upd_defs)

lemma views_phead [views]:
  "pay (phead f s) = pay s" "nxt (phead f s) = nxt s" "prv (phead f s) = prv s"
  "fhd (phead f s) = f (fhd s)"
  by (auto simp: nxt_def prv_def pay_def upd_defs)

text \<open>The parts of the state outside the file are not touched by any of these.\<close>

definition osv :: "sys \<Rightarrow> int \<times> int \<times> ((int \<times> int) list \<Rightarrow> int \<Rightarrow> int \<Rightarrow> bool)
    \<times> (int \<times> int) list \<times> slotnum list \<times> string \<times> int \<times> int \<times> answers \<times> plocal" where
  "osv s = (maplen s, mypid s, kenv s, klog s, unlinked s, o_group s, o_maxbackends s,
     o_becheck s, orc s, loc s)"

lemma views_osv [views]:
  "osv (pnext n v s) = osv s" "osv (pprev n v s) = osv s" "osv (ppay n u s) = osv s"
  "osv (phead f s) = osv s"
  by (simp_all add: osv_def upd_defs)

lemma typed_ppay [views]:
  "scr (ppay n u s) m = (if m = n then the (as_scr u) else scr s m)"
  "be (ppay n u s) m = (if m = n then the (as_be u) else be s m)"
  "fe (ppay n u s) m = (if m = n then the (as_fe u) else fe s m)"
  "gr (ppay n u s) m = (if m = n then the (as_gr u) else gr s m)"
  "grnm (ppay n u s) m = (if m = n then the (as_grnm u) else grnm s m)"
  by (simp_all add: scr_def be_def fe_def gr_def grnm_def views)

lemma typed_links [views]:
  "scr (pnext n v s) = scr s" "be (pnext n v s) = be s" "fe (pnext n v s) = fe s"
  "gr (pnext n v s) = gr s" "grnm (pnext n v s) = grnm s"
  "scr (pprev n v s) = scr s" "be (pprev n v s) = be s" "fe (pprev n v s) = fe s"
  "gr (pprev n v s) = gr s" "grnm (pprev n v s) = grnm s"
  "scr (phead f s) = scr s" "be (phead f s) = be s" "fe (phead f s) = fe s"
  "gr (phead f s) = gr s" "grnm (phead f s) = grnm s"
  by (simp_all add: fun_eq_iff scr_def be_def fe_def gr_def grnm_def views)

lemma okn_upd [views]:
  "okn (pnext n v s) = okn s" "okn (pprev n v s) = okn s" "okn (ppay n u s) = okn s"
  by (simp_all add: fun_eq_iff okn_def views)

section \<open>Pointers as pure functions\<close>

fun rd :: "sys \<Rightarrow> lref \<Rightarrow> slotnum" where
  "rd s GROUP_HEAD = group_head (fhd s)"
| "rd s GROUP_TAIL = group_tail (fhd s)"
| "rd s FE_RUN_HEAD = fe_run_head (fhd s)"
| "rd s FE_RUN_TAIL = fe_run_tail (fhd s)"
| "rd s (SCRIPT_HEAD g) = script_head (gr s g)"
| "rd s (NAME_SLOT g) = name_slot (gr s g)"
| "rd s (BE_HEAD g) = be_head (gr s g)"
| "rd s (BE_TAIL g) = be_tail (gr s g)"
| "rd s (FE_HEAD g) = fe_head (gr s g)"
| "rd s (FE_TAIL g) = fe_tail (gr s g)"
| "rd s (NEXT_OF n) = nxt s n"

text \<open>The group slot a pointer points into, if it does.\<close>

fun in_group :: "lref \<Rightarrow> slotnum option" where
  "in_group (SCRIPT_HEAD g) = Some g"
| "in_group (NAME_SLOT g) = Some g"
| "in_group (BE_HEAD g) = Some g"
| "in_group (BE_TAIL g) = Some g"
| "in_group (FE_HEAD g) = Some g"
| "in_group (FE_TAIL g) = Some g"
| "in_group _ = None"

fun wrt :: "lref \<Rightarrow> slotnum \<Rightarrow> sys \<Rightarrow> sys" where
  "wrt GROUP_HEAD v s = phead (\<lambda>h. h\<lparr>group_head := v\<rparr>) s"
| "wrt GROUP_TAIL v s = phead (\<lambda>h. h\<lparr>group_tail := v\<rparr>) s"
| "wrt FE_RUN_HEAD v s = phead (\<lambda>h. h\<lparr>fe_run_head := v\<rparr>) s"
| "wrt FE_RUN_TAIL v s = phead (\<lambda>h. h\<lparr>fe_run_tail := v\<rparr>) s"
| "wrt (SCRIPT_HEAD g) v s = ppay g (U_gr ((gr s g)\<lparr>script_head := v\<rparr>)) s"
| "wrt (NAME_SLOT g) v s = ppay g (U_gr ((gr s g)\<lparr>name_slot := v\<rparr>)) s"
| "wrt (BE_HEAD g) v s = ppay g (U_gr ((gr s g)\<lparr>be_head := v\<rparr>)) s"
| "wrt (BE_TAIL g) v s = ppay g (U_gr ((gr s g)\<lparr>be_tail := v\<rparr>)) s"
| "wrt (FE_HEAD g) v s = ppay g (U_gr ((gr s g)\<lparr>fe_head := v\<rparr>)) s"
| "wrt (FE_TAIL g) v s = ppay g (U_gr ((gr s g)\<lparr>fe_tail := v\<rparr>)) s"
| "wrt (NEXT_OF n) v s = pnext n v s"

definition refok :: "sys \<Rightarrow> lref \<Rightarrow> bool" where
  "refok s r \<longleftrightarrow> (case in_group r of
       Some g \<Rightarrow> okn s g \<and> is_gr (pay s g)
     | None \<Rightarrow> (case r of NEXT_OF n \<Rightarrow> okn s n | _ \<Rightarrow> True))"

lemma rd_wrt [views]: "rd (wrt r v s) r' = (if r' = r then v else rd s r')"
  by (cases r; cases r') (simp_all add: views)

lemma rd_pprev [views]: "rd (pprev n v s) r = rd s r"
  by (cases r) (simp_all add: views)

lemma rd_pnext [views]: "rd (pnext n v s) r = (if r = NEXT_OF n then v else rd s r)"
  by (cases r) (simp_all add: views)

lemma prv_wrt [views]: "prv (wrt r v s) = prv s"
  by (cases r) (simp_all add: views)

lemma nxt_wrt [views]: "nxt (wrt r v s) n = (if r = NEXT_OF n then v else nxt s n)"
  by (cases r) (auto simp: views)

lemma pay_wrt [views]: "in_group r \<noteq> Some n \<Longrightarrow> pay (wrt r v s) n = pay s n"
  by (cases r) (auto simp: views)

lemma osv_wrt [views]: "osv (wrt r v s) = osv s"
  by (cases r) (simp_all add: views)

lemma hdr_wrt [views]:
  "slots_alloced (fhd (wrt r v s)) = slots_alloced (fhd s)"
  "slot_free (fhd (wrt r v s)) = slot_free (fhd s)"
  "lock_owner (fhd (wrt r v s)) = lock_owner (fhd s)"
  "create_time (fhd (wrt r v s)) = create_time (fhd s)"
  "file_removed (fhd (wrt r v s)) = file_removed (fhd s)"
  by (cases r; simp add: views)+

lemma okn_wrt [views]: "okn (wrt r v s) = okn s"
  by (simp add: fun_eq_iff okn_def views)

lemma is_gr_wrt: "in_group r = Some g \<Longrightarrow> is_gr (pay (wrt r v s) g)"
  by (cases r) (auto simp: views)

lemma is_gr_wrt_iff: "refok s r \<Longrightarrow> is_gr (pay (wrt r v s) g) = is_gr (pay s g)"
  by (cases "in_group r = Some g") (auto simp: refok_def is_gr_wrt pay_wrt)

lemma refok_wrt [views]: "refok s r \<Longrightarrow> refok (wrt r v s) r' = refok s r'"
  unfolding refok_def [of _ r'] by (cases r') (simp_all add: is_gr_wrt_iff okn_wrt)

lemma refok_link [views]:
  "refok (pnext n v s) = refok s" "refok (pprev n v s) = refok s"
  by (auto simp: fun_eq_iff refok_def views split: option.splits lref.splits)

section \<open>Weakest preconditions of the primitives\<close>

lemma wp_slot_check [wps]: "wp (speedy_slot_check n) Q s \<longleftrightarrow> okn s n \<and> Q n s"
  by (auto simp: speedy_slot_check_def BAD_SLOTNUM_def okn_def wps)

lemma wp_SLOT [wps]: "wp (SLOT n) Q s \<longleftrightarrow> okn s n \<and> Q (slots s n) s"
  by (simp add: SLOT_def wps)

lemma wp_set_next [wps]: "wp (set_next n v) Q s \<longleftrightarrow> okn s n \<and> Q () (pnext n v s)"
  by (simp add: set_next_def upd_slot_def wps pnext_def)

lemma wp_set_prev [wps]: "wp (set_prev n v) Q s \<longleftrightarrow> okn s n \<and> Q () (pprev n v s)"
  by (simp add: set_prev_def upd_slot_def wps pprev_def)

lemma wp_slot_next [wps]: "wp (speedy_slot_next n) Q s \<longleftrightarrow> okn s n \<and> Q (nxt s n) s"
  by (simp add: speedy_slot_next_def wps nxt_def)

lemma wp_slot_prev [wps]: "wp (speedy_slot_prev n) Q s \<longleftrightarrow> okn s n \<and> Q (prv s n) s"
  by (simp add: speedy_slot_prev_def wps prv_def)

lemma wp_read_member:
  "wp (read_member as n) Q s \<longleftrightarrow> okn s n \<and> as (pay s n) \<noteq> None \<and> Q (the (as (pay s n))) s"
  by (auto simp: read_member_def wps pay_def split: option.splits)

lemma wp_write_member:
  "wp (write_member as mk n f) Q s \<longleftrightarrow> okn s n \<and> as (pay s n) \<noteq> None \<and>
     Q () (ppay n (mk (f (the (as (pay s n))))) s)"
  by (auto simp: write_member_def wp_bnd wp_read_member upd_slot_def ppay_def wps)

lemmas member_wp_defs = wp_read_member wp_write_member is_scr_def is_be_def is_fe_def
  is_gr_def is_grnm_def scr_def be_def fe_def gr_def grnm_def

lemma wp_scr_get [wps]: "wp (scr_get n) Q s \<longleftrightarrow> okn s n \<and> is_scr (pay s n) \<and> Q (scr s n) s"
  by (simp add: scr_get_def member_wp_defs)

lemma wp_be_get [wps]: "wp (be_get n) Q s \<longleftrightarrow> okn s n \<and> is_be (pay s n) \<and> Q (be s n) s"
  by (simp add: be_get_def member_wp_defs)

lemma wp_fe_get [wps]: "wp (fe_get n) Q s \<longleftrightarrow> okn s n \<and> is_fe (pay s n) \<and> Q (fe s n) s"
  by (simp add: fe_get_def member_wp_defs)

lemma wp_gr_get [wps]: "wp (gr_get n) Q s \<longleftrightarrow> okn s n \<and> is_gr (pay s n) \<and> Q (gr s n) s"
  by (simp add: gr_get_def member_wp_defs)

lemma wp_grnm_get [wps]:
  "wp (grnm_get n) Q s \<longleftrightarrow> okn s n \<and> is_grnm (pay s n) \<and> Q (grnm s n) s"
  by (simp add: grnm_get_def member_wp_defs)

lemma wp_scr_upd [wps]:
  "wp (scr_upd n f) Q s \<longleftrightarrow> okn s n \<and> is_scr (pay s n) \<and> Q () (ppay n (U_scr (f (scr s n))) s)"
  by (simp add: scr_upd_def member_wp_defs)

lemma wp_be_upd [wps]:
  "wp (be_upd n f) Q s \<longleftrightarrow> okn s n \<and> is_be (pay s n) \<and> Q () (ppay n (U_be (f (be s n))) s)"
  by (simp add: be_upd_def member_wp_defs)

lemma wp_fe_upd [wps]:
  "wp (fe_upd n f) Q s \<longleftrightarrow> okn s n \<and> is_fe (pay s n) \<and> Q () (ppay n (U_fe (f (fe s n))) s)"
  by (simp add: fe_upd_def member_wp_defs)

lemma wp_gr_upd [wps]:
  "wp (gr_upd n f) Q s \<longleftrightarrow> okn s n \<and> is_gr (pay s n) \<and> Q () (ppay n (U_gr (f (gr s n))) s)"
  by (simp add: gr_upd_def member_wp_defs)

lemma wp_grnm_upd [wps]:
  "wp (grnm_upd n f) Q s \<longleftrightarrow>
     okn s n \<and> is_grnm (pay s n) \<and> Q () (ppay n (U_grnm (f (grnm s n))) s)"
  by (simp add: grnm_upd_def member_wp_defs)

lemma wp_upd_head [wps]: "wp (upd_head f) Q s = Q () (phead f s)"
  by (simp add: upd_head_def wps phead_def)

lemma wp_getref [wps]: "wp (getref r) Q s \<longleftrightarrow> refok s r \<and> Q (rd s r) s"
  by (cases r) (auto simp: refok_def wps)

lemma wp_setref [wps]: "wp (setref r v) Q s \<longleftrightarrow> refok s r \<and> Q () (wrt r v s)"
  by (cases r) (auto simp: refok_def wps)

lemma wp_deref_eq [wps]:
  "wp (deref_eq t v) Q s \<longleftrightarrow>
     (case t of None \<Rightarrow> Q False s | Some r \<Rightarrow> refok s r \<and> Q (rd s r = v) s)"
  by (cases t) (auto simp: wps)

lemma wp_set_opt [wps]:
  "wp (set_opt t v) Q s \<longleftrightarrow>
     (case t of None \<Rightarrow> Q () s | Some r \<Rightarrow> refok s r \<and> Q () (wrt r v s))"
  by (cases t) (auto simp: wps)

end
