(* ===== verification/SlotLists.thy ===== *)
theory SlotLists
  imports SlotViews
begin

text \<open>
  The abstract view of the temp file and the correctness of the list operations of
  src/src/speedy_slot.c.

  The slots of a file belong to a family of lists, indexed by \<open>lid\<close>: the list of groups, the
  list of running frontends and, for each group, its backends, its waiting frontends, its
  scripts and its (at most one) name slot. \<open>fstate\<close> gives the members of every list as an
  Isabelle list, the free list, and the set of slots that are groups. \<open>repr a s\<close> says that
  the links, heads and tails in the file \<open>s\<close> represent \<open>a\<close>: every list is a doubly
  linked chain from its head to its tail, no slot is on two lists, every slot has the type
  its list wants, and the free slots are exactly those marked by \<open>prev_slot\<close> pointing to
  the slot itself. Every list operation is proved once for all lists of the family.
\<close>

section \<open>Segments of doubly linked lists\<close>

fun dseg :: "sys \<Rightarrow> slotnum \<Rightarrow> slotnum \<Rightarrow> slotnum list \<Rightarrow> slotnum \<Rightarrow> bool" where
  "dseg s p h [] q \<longleftrightarrow> h = q"
| "dseg s p h (x # xs) q \<longleftrightarrow> h = x \<and> x \<noteq> 0 \<and> prv s x = p \<and> dseg s x (nxt s x) xs q"

definition last0 :: "slotnum \<Rightarrow> slotnum list \<Rightarrow> slotnum" where
  "last0 p xs = (if xs = [] then p else last xs)"

lemma last0_simps [simp]:
  "last0 p [] = p" "last0 p (xs @ [x]) = x" "last0 p (x # xs) = last0 x xs"
  by (simp_all add: last0_def)

lemma last0_eq_0: "0 \<notin> set xs \<Longrightarrow> last0 0 xs = 0 \<longleftrightarrow> xs = []"
  by (metis last0_def last_in_set)

lemma dseg_append:
  "dseg s p h (xs @ ys) q \<longleftrightarrow> (\<exists>m. dseg s p h xs m \<and> dseg s (last0 p xs) m ys q)"
  by (induction xs arbitrary: p h) auto

lemma dseg_cong:
  assumes "\<And>x. x \<in> set xs \<Longrightarrow> nxt t x = nxt s x \<and> prv t x = prv s x"
  shows "dseg t p h xs q = dseg s p h xs q"
  using assms by (induction xs arbitrary: p h) auto

lemma dseg_nonzero: "dseg s p h xs q \<Longrightarrow> 0 \<notin> set xs"
  by (induction xs arbitrary: p h) auto

lemma dseg_head: "dseg s p h xs 0 \<Longrightarrow> h = 0 \<longleftrightarrow> xs = []"
  by (cases xs) auto

lemma dseg_hd: "dseg s p h xs 0 \<Longrightarrow> xs \<noteq> [] \<Longrightarrow> h = hd xs"
  by (cases xs) auto

lemma dseg_head0: "dseg s p h xs 0 \<Longrightarrow> h = (if xs = [] then 0 else hd xs)"
  by (cases xs) auto

lemma dseg_nxt_member:
  "dseg s p h (ys @ x # zs) 0 \<Longrightarrow> nxt s x = (if zs = [] then 0 else hd zs)"
  by (auto simp: dseg_append dest: dseg_head0)

lemma dseg_prv_member: "dseg s p h (ys @ x # zs) q \<Longrightarrow> prv s x = last0 p ys"
  by (auto simp: dseg_append)

text \<open>The free list is chained by \<open>next_slot\<close> only.\<close>

fun fseg :: "sys \<Rightarrow> slotnum \<Rightarrow> slotnum list \<Rightarrow> bool" where
  "fseg s h [] \<longleftrightarrow> h = 0"
| "fseg s h (x # xs) \<longleftrightarrow> h = x \<and> x \<noteq> 0 \<and> fseg s (nxt s x) xs"

lemma fseg_cong:
  assumes "\<And>x. x \<in> set xs \<Longrightarrow> nxt t x = nxt s x"
  shows "fseg t h xs = fseg s h xs"
  using assms by (induction xs arbitrary: h) auto

lemma fseg_head: "fseg s h xs \<Longrightarrow> h = 0 \<longleftrightarrow> xs = []"
  by (cases xs) auto

section \<open>The lists of a file\<close>

datatype lid = LGroups | LFeRun | LBe slotnum | LFe slotnum | LScr slotnum | LName slotnum

fun href :: "lid \<Rightarrow> lref" where
  "href LGroups = GROUP_HEAD"
| "href LFeRun = FE_RUN_HEAD"
| "href (LBe g) = BE_HEAD g"
| "href (LFe g) = FE_HEAD g"
| "href (LScr g) = SCRIPT_HEAD g"
| "href (LName g) = NAME_SLOT g"

fun tref :: "lid \<Rightarrow> lref option" where
  "tref LGroups = Some GROUP_TAIL"
| "tref LFeRun = Some FE_RUN_TAIL"
| "tref (LBe g) = Some (BE_TAIL g)"
| "tref (LFe g) = Some (FE_TAIL g)"
| "tref _ = None"

definition owner :: "lid \<Rightarrow> slotnum option" where
  "owner l = in_group (href l)"

lemma owner_simps [simp]:
  "owner LGroups = None" "owner LFeRun = None" "owner (LBe g) = Some g"
  "owner (LFe g) = Some g" "owner (LScr g) = Some g" "owner (LName g) = Some g"
  by (simp_all add: owner_def)

lemma href_inj [simp]: "href l = href l' \<longleftrightarrow> l = l'"
  by (cases l; cases l') auto

lemma tref_inj: "tref l = Some t \<Longrightarrow> tref l' = Some t \<Longrightarrow> l = l'"
  by (cases l; cases l') auto

lemma tref_href [simp]: "tref l = Some t \<Longrightarrow> href l' \<noteq> t"
  by (cases l; cases l') auto

lemma tref_ne_href [simp]: "tref l \<noteq> Some (href l')"
  by (cases l; cases l') auto

lemma href_not_next [simp]: "href l \<noteq> NEXT_OF n" "NEXT_OF n \<noteq> href l"
  by (cases l; simp)+

lemma tref_not_next [simp]: "tref l \<noteq> Some (NEXT_OF n)"
  by (cases l) auto

lemma in_group_tref: "tref l = Some t \<Longrightarrow> in_group t = owner l"
  by (cases l) auto

lemma in_group_href [simp]: "in_group (href l) = owner l"
  by (simp add: owner_def)

fun kind :: "lid \<Rightarrow> slot_u \<Rightarrow> bool" where
  "kind LGroups = is_gr"
| "kind LFeRun = is_fe"
| "kind (LBe g) = is_be"
| "kind (LFe g) = is_fe"
| "kind (LScr g) = is_scr"
| "kind (LName g) = is_grnm"

record fstate =
  lst :: "lid \<Rightarrow> slotnum list"
  freel :: "slotnum list"
  live :: "slotnum set"

definition active :: "fstate \<Rightarrow> lid \<Rightarrow> bool" where
  "active a l \<longleftrightarrow> (case owner l of None \<Rightarrow> True | Some g \<Rightarrow> g \<in> live a)"

definition dll :: "sys \<Rightarrow> lid \<Rightarrow> slotnum list \<Rightarrow> bool" where
  "dll s l xs \<longleftrightarrow> dseg s 0 (rd s (href l)) xs 0 \<and>
     (case tref l of None \<Rightarrow> True | Some t \<Rightarrow> rd s t = last0 0 xs)"

definition listed :: "fstate \<Rightarrow> slotnum set" where
  "listed a = (\<Union>l. set (lst a l))"

text \<open>
  The invariant. \<open>repr_sets\<close> is about the abstract lst alone, \<open>repr_types\<close> about the
  payloads and \<open>repr_links\<close> about links, heads and tails.
\<close>

definition repr_sets :: "fstate \<Rightarrow> bool" where
  "repr_sets a \<longleftrightarrow>
     (\<forall>l n. n \<in> set (lst a l) \<longrightarrow>
        active a l \<and> n \<notin> set (freel a) \<and> (n \<in> live a \<longleftrightarrow> l = LGroups) \<and>
        (\<forall>l'. n \<in> set (lst a l') \<longrightarrow> l' = l)) \<and>
     (\<forall>l. distinct (lst a l)) \<and>
     live a \<inter> set (freel a) = {} \<and>
     distinct (freel a) \<and>
     (\<forall>g. length (lst a (LName g)) \<le> 1)"

definition repr_types :: "fstate \<Rightarrow> sys \<Rightarrow> bool" where
  "repr_types a s \<longleftrightarrow>
     (\<forall>l n. n \<in> set (lst a l) \<longrightarrow> okn s n \<and> kind l (pay s n)) \<and>
     (\<forall>g. g \<in> live a \<longrightarrow> okn s g \<and> is_gr (pay s g)) \<and>
     (\<forall>n. n \<in> set (freel a) \<longrightarrow> okn s n) \<and>
     uint (slots_alloced (fhd s)) < MAX_SLOTS"

definition repr_links :: "fstate \<Rightarrow> sys \<Rightarrow> bool" where
  "repr_links a s \<longleftrightarrow>
     (\<forall>l. active a l \<longrightarrow> dll s l (lst a l)) \<and>
     fseg s (slot_free (fhd s)) (freel a) \<and>
     (\<forall>n. okn s n \<longrightarrow> prv s n = n \<longleftrightarrow> n \<in> set (freel a))"

definition repr :: "fstate \<Rightarrow> sys \<Rightarrow> bool" where
  "repr a s \<longleftrightarrow> repr_sets a \<and> repr_types a s \<and> repr_links a s"

text \<open>A slot that is allocated but on no list: some process holds its number.\<close>

definition held :: "fstate \<Rightarrow> sys \<Rightarrow> slotnum \<Rightarrow> bool" where
  "held a s n \<longleftrightarrow> okn s n \<and> n \<notin> listed a \<and> n \<notin> set (freel a) \<and> n \<notin> live a"

definition upl :: "lid \<Rightarrow> slotnum list \<Rightarrow> fstate \<Rightarrow> fstate" where
  "upl l xs a = a\<lparr>lst := (lst a)(l := xs)\<rparr>"

lemma upl_simps [simp]:
  "lst (upl l xs a) = (lst a)(l := xs)" "freel (upl l xs a) = freel a"
  "live (upl l xs a) = live a" "active (upl l xs a) = active a"
  by (simp_all add: upl_def fun_eq_iff active_def split: option.split)

section \<open>Frames\<close>

definition core :: "gr_slot \<Rightarrow> int \<times> int" where
  "core r = (be_starting r, be_parent r)"

definition hdr :: "sys \<Rightarrow> (int \<times> int) \<times> int \<times> slotnum \<times> slotnum \<times> bool" where
  "hdr s = (create_time (fhd s), lock_owner (fhd s), slots_alloced (fhd s), slot_free (fhd s),
            file_removed (fhd s))"

text \<open>
  \<open>frame L s t\<close>: from \<open>s\<close> to \<open>t\<close> only links, heads and tails of lists have changed, the latter
  in the header and in group slots of \<open>L\<close>;
  \<open>lk l s t\<close>: and only the head and the tail of list \<open>l\<close>.
\<close>

definition frame :: "slotnum set \<Rightarrow> sys \<Rightarrow> sys \<Rightarrow> bool" where
  "frame L s t \<longleftrightarrow> osv t = osv s \<and> hdr t = hdr s \<and>
     (\<forall>m. m \<notin> L \<longrightarrow> pay t m = pay s m) \<and>
     (\<forall>m. is_gr (pay s m) \<longrightarrow> is_gr (pay t m) \<and> core (gr t m) = core (gr s m))"

definition lk :: "lid \<Rightarrow> sys \<Rightarrow> sys \<Rightarrow> bool" where
  "lk l s t \<longleftrightarrow> osv t = osv s \<and> hdr t = hdr s \<and>
     (\<forall>m. owner l \<noteq> Some m \<longrightarrow> pay t m = pay s m) \<and>
     (\<forall>g. owner l = Some g \<longrightarrow> is_gr (pay s g) \<longrightarrow>
        is_gr (pay t g) \<and> core (gr t g) = core (gr s g)) \<and>
     (\<forall>l'. l' \<noteq> l \<longrightarrow> rd t (href l') = rd s (href l')) \<and>
     (\<forall>l' r. l' \<noteq> l \<longrightarrow> tref l' = Some r \<longrightarrow> rd t r = rd s r)"

lemma frame_refl [simp, intro]: "frame L s s"
  by (simp add: frame_def)

lemma frame_trans: "frame L s t \<Longrightarrow> frame L t u \<Longrightarrow> frame L s u"
  unfolding frame_def by simp

lemma frame_mono: "frame L s t \<Longrightarrow> L \<subseteq> L' \<Longrightarrow> frame L' s t"
  unfolding frame_def by blast

lemma frame_pay: "frame L s t \<Longrightarrow> m \<notin> L \<Longrightarrow> pay t m = pay s m"
  by (simp add: frame_def)

lemma lk_refl [simp, intro]: "lk l s s"
  by (simp add: lk_def)

lemma lk_trans: "lk l s t \<Longrightarrow> lk l t u \<Longrightarrow> lk l s u"
  unfolding lk_def by simp

lemma lk_links [intro!]: "lk l s t \<Longrightarrow> lk l s (pnext n v t)" "lk l s t \<Longrightarrow> lk l s (pprev n v t)"
  by (auto simp: lk_def views hdr_def)

lemma core_wrt: "core (gr (wrt r v s) g) = core (gr s g)"
  by (cases r) (auto simp: views core_def)

lemma lk_wrt_href [intro!]: "lk l s t \<Longrightarrow> lk l s (wrt (href l) v t)"
  unfolding lk_def
  by (auto simp: views hdr_def core_wrt is_gr_wrt dest: tref_href)

lemma lk_wrt_tref [intro]: "lk l s t \<Longrightarrow> tref l = Some r \<Longrightarrow> lk l s (wrt r v t)"
  unfolding lk_def
  by (auto simp: views hdr_def core_wrt is_gr_wrt in_group_tref dest: tref_href tref_inj)

lemma lk_frame:
  assumes lk: "lk l s t" and L: "\<And>g. owner l = Some g \<Longrightarrow> is_gr (pay s g) \<and> g \<in> L"
  shows "frame L s t"
proof -
  have "is_gr (pay t m) \<and> core (gr t m) = core (gr s m)" if "is_gr (pay s m)" for m
  proof (cases "owner l = Some m")
    case True then show ?thesis using lk that by (simp add: lk_def)
  next
    case False
    then have "pay t m = pay s m" using lk by (simp add: lk_def)
    then show ?thesis using that by (simp add: gr_def)
  qed
  moreover have "pay t m = pay s m" if "m \<notin> L" for m
  proof -
    have "owner l \<noteq> Some m" using L that by blast
    then show ?thesis using lk by (simp add: lk_def)
  qed
  ultimately show ?thesis using lk by (simp add: frame_def lk_def)
qed

lemma lk_okn: "lk l s t \<Longrightarrow> okn t = okn s"
  by (auto simp: lk_def okn_def hdr_def fun_eq_iff)

lemma frame_okn: "frame L s t \<Longrightarrow> okn t = okn s"
  by (auto simp: frame_def okn_def hdr_def fun_eq_iff)

lemma dll_frame:
  assumes "\<And>x. x \<in> set xs \<Longrightarrow> nxt t x = nxt s x \<and> prv t x = prv s x"
    and "rd t (href l) = rd s (href l)" and "\<And>r. tref l = Some r \<Longrightarrow> rd t r = rd s r"
  shows "dll t l xs = dll s l xs"
  using assms dseg_cong [of xs t s] by (auto simp: dll_def split: option.splits)

section \<open>Consequences of the invariant\<close>

lemma repr_live: "repr a s \<Longrightarrow> g \<in> live a \<Longrightarrow> okn s g \<and> is_gr (pay s g) \<and> g \<noteq> 0"
  by (auto simp: repr_def repr_types_def okn_def)

lemma repr_mem: "repr a s \<Longrightarrow> n \<in> set (lst a l) \<Longrightarrow> okn s n \<and> kind l (pay s n) \<and> n \<noteq> 0"
  by (auto simp: repr_def repr_types_def okn_def)

lemma repr_active: "repr a s \<Longrightarrow> n \<in> set (lst a l) \<Longrightarrow> active a l"
  by (simp add: repr_def repr_sets_def)

lemma repr_dll: "repr a s \<Longrightarrow> active a l \<Longrightarrow> dll s l (lst a l)"
  by (simp add: repr_def repr_links_def)

lemma repr_distinct: "repr a s \<Longrightarrow> distinct (lst a l)"
  by (simp add: repr_def repr_sets_def)

lemma repr_disjoint: "repr a s \<Longrightarrow> n \<in> set (lst a l) \<Longrightarrow> n \<in> set (lst a l') \<Longrightarrow> l = l'"
  unfolding repr_def repr_sets_def by blast

lemma repr_not_live: "repr a s \<Longrightarrow> n \<in> set (lst a l) \<Longrightarrow> l \<noteq> LGroups \<Longrightarrow> n \<notin> live a"
  by (auto simp: repr_def repr_sets_def)

lemma repr_not_free: "repr a s \<Longrightarrow> n \<in> set (lst a l) \<Longrightarrow> n \<notin> set (freel a)"
  by (auto simp: repr_def repr_sets_def)

lemma repr_name: "repr a s \<Longrightarrow> length (lst a (LName g)) \<le> 1"
  by (simp add: repr_def repr_sets_def)

lemma repr_prv: "repr a s \<Longrightarrow> okn s n \<Longrightarrow> prv s n = n \<longleftrightarrow> n \<in> set (freel a)"
  by (simp add: repr_def repr_links_def)

lemma repr_refok:
  assumes "repr a s" and "active a l"
  shows "refok s (href l)" and "tref l = Some r \<Longrightarrow> refok s r"
proof -
  have g: "owner l = Some g \<Longrightarrow> okn s g \<and> is_gr (pay s g)" for g
    using assms repr_live by (auto simp: active_def)
  show "refok s (href l)"
    using g by (cases l) (auto simp: refok_def)
  show "tref l = Some r \<Longrightarrow> refok s r"
    using g by (cases l) (auto simp: refok_def)
qed

lemma repr_owner: "repr a s \<Longrightarrow> active a l \<Longrightarrow> owner l = Some g \<Longrightarrow> is_gr (pay s g)"
  using repr_live by (auto simp: active_def)

lemma repr_head: "repr a s \<Longrightarrow> active a l \<Longrightarrow> rd s (href l) = (if lst a l = [] then 0 else hd (lst a l))"
  using repr_dll [of a s l] by (auto simp: dll_def dest: dseg_head0)

lemma repr_tail: "repr a s \<Longrightarrow> active a l \<Longrightarrow> tref l = Some t \<Longrightarrow> rd s t = last0 0 (lst a l)"
  using repr_dll [of a s l] by (auto simp: dll_def)

lemma repr_nxt:
  "repr a s \<Longrightarrow> lst a l = ys @ x # zs \<Longrightarrow> nxt s x = (if zs = [] then 0 else hd zs)"
  using repr_dll [of a s l] repr_active [of a s x l]
  by (auto simp: dll_def dest: dseg_nxt_member)

lemma repr_prev:
  "repr a s \<Longrightarrow> lst a l = ys @ x # zs \<Longrightarrow> prv s x = last0 0 ys"
  using repr_dll [of a s l] repr_active [of a s x l]
  by (auto simp: dll_def dest: dseg_prv_member)

text \<open>Lists of slots fit into the slots allocated, so \<open>list_fuel\<close> is enough for a walk.\<close>

lemma okn_length: "distinct xs \<Longrightarrow> (\<And>n. n \<in> set xs \<Longrightarrow> okn s n) \<Longrightarrow>
    length xs \<le> unat (slots_alloced (fhd s))"
proof -
  assume d: "distinct xs" and ok: "\<And>n. n \<in> set xs \<Longrightarrow> okn s n"
  let ?A = "unat (slots_alloced (fhd s))"
  have "unat n \<in> {1..?A}" if "n \<in> set xs" for n
    using ok [OF that] by (auto simp: okn_def word_le_nat_alt unat_gt_0 Suc_le_eq)
  then have "unat ` set xs \<subseteq> {1..?A}" by blast
  then have "card (unat ` set xs) \<le> ?A" using card_mono [of "{1..?A}"] by fastforce
  moreover have "inj_on unat (set xs)" by (rule inj_onI) (simp add: word_unat_eq_iff)
  then have "card (unat ` set xs) = length xs"
    using d by (simp add: card_image distinct_card)
  ultimately show ?thesis by simp
qed

lemma repr_fuel: "repr a s \<Longrightarrow> length (lst a l) < list_fuel s"
  using okn_length [of "lst a l" s] repr_distinct repr_mem
  by (fastforce simp: list_fuel_def less_Suc_eq_le)

section \<open>Replacing one list\<close>

lemma repr_sets_upl:
  assumes R: "repr_sets a" and act: "active a l" and "distinct xs"
    and xs: "\<And>n. n \<in> set xs \<Longrightarrow> n \<in> set (lst a l) \<or>
      (n \<notin> set (freel a) \<and> n \<notin> listed a \<and> (n \<in> live a \<longleftrightarrow> l = LGroups))"
    and "\<And>g. l = LName g \<Longrightarrow> length xs \<le> 1"
  shows "repr_sets (upl l xs a)"
proof -
  have new: "n \<notin> set (freel a) \<and> (n \<in> live a \<longleftrightarrow> l = LGroups) \<and>
      (\<forall>l'. l' \<noteq> l \<longrightarrow> n \<notin> set (lst a l'))" if "n \<in> set xs" for n
    using xs [OF that] R unfolding repr_sets_def listed_def by blast
  show ?thesis
    unfolding repr_sets_def
  proof (intro conjI allI impI)
    fix l' n assume n: "n \<in> set (lst (upl l xs a) l')"
    have "if l' = l then n \<in> set xs else n \<in> set (lst a l')" using n by (auto split: if_splits)
    then show "active (upl l xs a) l'" "n \<notin> set (freel (upl l xs a))"
        "n \<in> live (upl l xs a) \<longleftrightarrow> l' = LGroups"
      using new [of n] R act unfolding repr_sets_def by (auto split: if_splits)
    fix l'' assume "n \<in> set (lst (upl l xs a) l'')"
    then show "l'' = l'"
      using n new [of n] R unfolding repr_sets_def
      by (cases "l'' = l"; cases "l' = l"; simp; blast)
  qed (use assms in \<open>auto simp: repr_sets_def\<close>)
qed

theorem repr_upl:
  assumes R: "repr a s" and act: "active a l" and lk: "lk l s t"
    and dl: "dll t l xs" and dist: "distinct xs"
    and xs: "\<And>n. n \<in> set xs \<Longrightarrow> n \<in> set (lst a l) \<or>
      (n \<notin> set (freel a) \<and> n \<notin> listed a \<and> (n \<in> live a \<longleftrightarrow> l = LGroups)
       \<and> okn s n \<and> kind l (pay s n))"
    and X: "\<And>n. n \<in> X \<Longrightarrow> n \<in> set (lst a l) \<or> n \<in> set xs"
    and links: "\<And>m. m \<notin> X \<Longrightarrow> nxt t m = nxt s m \<and> prv t m = prv s m"
    and pX: "\<And>m. m \<in> X \<Longrightarrow> prv t m \<noteq> m"
    and nm: "\<And>g. l = LName g \<Longrightarrow> length xs \<le> 1"
  shows "repr (upl l xs a) t \<and> frame (live a) s t"
proof -
  have S: "repr_sets a" and T: "repr_types a s" and L: "repr_links a s"
    using R by (auto simp: repr_def)
  have ok: "okn t = okn s" using lk by (rule lk_okn)
  have pX': "okn s m \<Longrightarrow> prv t m = m \<longleftrightarrow> m \<in> set (freel a)" for m
  proof (cases "m \<in> X")
    case True
    then have "m \<notin> set (freel a)" using X [OF True] xs [of m] S unfolding repr_sets_def by blast
    then show ?thesis using pX [OF True] by simp
  next
    case False
    then show "okn s m \<Longrightarrow> prv t m = m \<longleftrightarrow> m \<in> set (freel a)"
      using links [OF False] L by (simp add: repr_links_def)
  qed
  have oth: "m \<notin> X" if "m \<in> set (lst a l')" "l' \<noteq> l" for m l'
    using X [of m] xs [of m] that S unfolding repr_sets_def listed_def by blast
  have frX: "m \<notin> X" if "m \<in> set (freel a)" for m
    using X [of m] xs [of m] that S unfolding repr_sets_def by blast
  have own: "owner l = Some g \<Longrightarrow> is_gr (pay s g) \<and> g \<in> live a" for g
    using act repr_owner [OF R act] by (auto simp: active_def)
  have fr: "frame (live a) s t" using lk by (rule lk_frame) (simp add: own)
  have kd: "kind l' (pay t n)" if "kind l' (pay s n)" "n \<in> live a \<Longrightarrow> l' = LGroups" for n l'
  proof (cases "owner l = Some n")
    case True
    then have "l' = LGroups" using own that(2) by blast
    then show ?thesis using lk True that(1) own by (simp add: lk_def)
  next
    case False
    then show ?thesis using lk that(1) by (simp add: lk_def)
  qed
  have gk: "is_gr (pay t n)" if "is_gr (pay s n)" for n
    using fr that unfolding frame_def by metis
  have "repr_sets (upl l xs a)"
    by (rule repr_sets_upl [OF S act dist]) (use xs nm in blast)+
  moreover have "repr_types (upl l xs a) t"
    unfolding repr_types_def
  proof (intro conjI allI impI)
    fix l' n assume n: "n \<in> set (lst (upl l xs a) l')"
    have "okn s n \<and> kind l' (pay s n) \<and> (n \<in> live a \<longrightarrow> l' = LGroups)"
      using n xs [of n] T S unfolding repr_types_def repr_sets_def
      by (cases "l' = l"; simp; blast)
    then show "okn t n" "kind l' (pay t n)" using kd ok by auto
  next
    show "uint (slots_alloced (fhd t)) < MAX_SLOTS"
      using T lk by (simp add: repr_types_def lk_def hdr_def)
  qed (use T ok gk in \<open>auto simp: repr_types_def\<close>)
  moreover have "repr_links (upl l xs a) t"
    unfolding repr_links_def
  proof (intro conjI allI impI)
    fix l' assume act': "active (upl l xs a) l'"
    show "dll t l' (lst (upl l xs a) l')"
    proof (cases "l' = l")
      case True then show ?thesis using dl by simp
    next
      case False
      have "dll t l' (lst a l') = dll s l' (lst a l')"
        by (rule dll_frame) (use False lk links oth in \<open>auto simp: lk_def\<close>)
      then show ?thesis using L act' False by (simp add: repr_links_def)
    qed
  next
    have "fseg t (slot_free (fhd t)) (freel a) = fseg s (slot_free (fhd t)) (freel a)"
      by (rule fseg_cong) (use links frX in blast)
    then show "fseg t (slot_free (fhd t)) (freel (upl l xs a))"
      using L lk by (simp add: repr_links_def lk_def hdr_def)
  next
    fix n assume "okn t n"
    then show "prv t n = n \<longleftrightarrow> n \<in> set (freel (upl l xs a))" using pX' ok by simp
  qed
  ultimately show ?thesis using fr by (simp add: repr_def)
qed

end
