(* ===== verification/SlotListOps.thy ===== *)
theory SlotListOps
  imports SlotLists
begin

text \<open>
  Correctness of \<open>speedy_slot_remove\<close>, \<open>speedy_slot_insert\<close>, \<open>speedy_slot_append\<close>,
  \<open>speedy_slot_insert_sorted\<close> and the move macros: on every list of the file they do what
  the Isabelle list operation of the same purpose does, they touch no other list, and they
  neither die nor run out of fuel.
\<close>

definition hd0 :: "slotnum list \<Rightarrow> slotnum" where
  "hd0 xs = (if xs = [] then 0 else hd xs)"

lemma hd0_simps [simp]: "hd0 [] = 0" "hd0 (x # xs) = x"
  by (simp_all add: hd0_def)

text \<open>What a process needs to know to put slot \<open>n\<close> on list \<open>l\<close>.\<close>

definition insertable :: "fstate \<Rightarrow> sys \<Rightarrow> lid \<Rightarrow> slotnum \<Rightarrow> bool" where
  "insertable a s l n \<longleftrightarrow> okn s n \<and> n \<notin> listed a \<and> n \<notin> set (freel a) \<and>
     (n \<in> live a \<longleftrightarrow> l = LGroups) \<and> kind l (pay s n)"

lemma not_listedD: "n \<notin> listed a \<Longrightarrow> n \<notin> set (lst a l)"
  by (auto simp: listed_def)

section \<open>Removal\<close>

definition rm_state :: "lid \<Rightarrow> slotnum \<Rightarrow> sys \<Rightarrow> sys" where
  "rm_state l n s =
    (let q = nxt s n; p = prv s n;
         s1 = (if q \<noteq> 0 then pprev q p s else s);
         s2 = (if p \<noteq> 0 then pnext p q s1 else s1);
         s3 = (if rd s (href l) = n then wrt (href l) q s2 else s2)
     in case tref l of None \<Rightarrow> s3 | Some t \<Rightarrow> if rd s t = n then wrt t p s3 else s3)"

lemma wp_remove:
  assumes "okn s n" and "nxt s n = 0 \<or> okn s (nxt s n)" and "prv s n = 0 \<or> okn s (prv s n)"
    and "refok s (href l)" and "\<And>r. tref l = Some r \<Longrightarrow> refok s r"
  shows "wp (speedy_slot_remove n (href l) (tref l)) Q s = Q () (rm_state l n s)"
  using assms
  by (auto simp: speedy_slot_remove_def rm_state_def Let_def wps views split: option.split)

lemma rm_state_views:
  "nxt (rm_state l n s) m = (if prv s n \<noteq> 0 \<and> m = prv s n then nxt s n else nxt s m)"
  "prv (rm_state l n s) m = (if nxt s n \<noteq> 0 \<and> m = nxt s n then prv s n else prv s m)"
  "rd (rm_state l n s) (href l) = (if rd s (href l) = n then nxt s n else rd s (href l))"
  "tref l = Some r \<Longrightarrow> rd (rm_state l n s) r = (if rd s r = n then prv s n else rd s r)"
  by (cases l; auto simp: rm_state_def Let_def views split: option.split)+

lemma rm_state_lk: "lk l s (rm_state l n s)"
  unfolding rm_state_def Let_def
  by (auto split: option.split intro!: lk_wrt_tref [of l s])

lemma dseg_remove:
  assumes "dseg s 0 h (ys @ n # zs) 0" and "distinct (ys @ n # zs)"
    and "\<And>m. nxt t m = (if last0 0 ys \<noteq> 0 \<and> m = last0 0 ys then hd0 zs else nxt s m)"
    and "\<And>m. prv t m = (if hd0 zs \<noteq> 0 \<and> m = hd0 zs then last0 0 ys else prv s m)"
  shows "dseg t 0 (if h = n then hd0 zs else h) (ys @ zs) 0"
proof -
  have nz: "0 \<notin> set (ys @ n # zs)" using assms(1) by (rule dseg_nonzero)
  have lst: "ys = [] \<or> last ys \<notin> set zs"
    using assms(2) last_in_set [of ys] by (metis disjoint_iff distinct_append list.set_intros(2))
  have Z: "dseg t (last0 0 ys) (hd0 zs) zs 0"
  proof (cases zs)
    case (Cons z zs')
    have "dseg t z (nxt s z) zs' 0 = dseg s z (nxt s z) zs' 0"
      by (rule dseg_cong) (use assms(2-4) nz lst Cons in \<open>auto simp: last0_def\<close>)
    then show ?thesis using assms nz Cons by (auto simp: dseg_append last0_def)
  qed simp
  show ?thesis
  proof (cases ys rule: rev_cases)
    case Nil
    then show ?thesis using Z assms(1) by simp
  next
    case (snoc ys' p)
    have "dseg t a b ys' c = dseg s a b ys' c" for a b c
      by (rule dseg_cong) (use assms(2-4) nz snoc in \<open>cases zs; auto\<close>)
    moreover have "h \<noteq> n"
      using assms(1,2) snoc by (cases ys') (auto simp: dseg_append)
    ultimately show ?thesis
      using Z assms nz snoc by (cases zs) (auto simp: dseg_append)
  qed
qed

lemma dll_remove:
  assumes R: "repr a s" and l: "lst a l = ys @ n # zs"
  shows "dll (rm_state l n s) l (ys @ zs)"
proof -
  have act: "active a l" using repr_active [OF R, of n l] l by simp
  have d: "dll s l (ys @ n # zs)" using repr_dll [OF R act] l by simp
  have dist: "distinct (ys @ n # zs)" using repr_distinct [OF R, of l] l by simp
  have nx: "nxt s n = hd0 zs" using repr_nxt [OF R l] by (simp add: hd0_def)
  have pv: "prv s n = last0 0 ys" by (rule repr_prev [OF R l])
  have "dseg (rm_state l n s) 0 (if rd s (href l) = n then hd0 zs else rd s (href l)) (ys @ zs) 0"
    by (rule dseg_remove) (use d dist nx pv in \<open>auto simp: dll_def rm_state_views\<close>)
  moreover have "last0 0 (ys @ n # zs) = n \<longleftrightarrow> zs = []"
    using dist by (auto simp: last0_def)
  ultimately show ?thesis
    using d nx pv by (auto simp: dll_def rm_state_views last0_def split: option.split)
qed

theorem remove_repr:
  assumes R: "repr a s" and n: "n \<in> set (lst a l)"
  shows "wp (speedy_slot_remove n (href l) (tref l))
     (\<lambda>_ t. repr (upl l (remove1 n (lst a l)) a) t \<and> frame (live a) s t) s"
proof -
  obtain ys zs where l: "lst a l = ys @ n # zs" using n by (meson split_list)
  have act: "active a l" by (rule repr_active [OF R n])
  have dist: "distinct (ys @ n # zs)" using repr_distinct [OF R, of l] l by simp
  have rm: "remove1 n (lst a l) = ys @ zs" using l dist by (simp add: remove1_split)
  have nx: "nxt s n = hd0 zs" using repr_nxt [OF R l] by (simp add: hd0_def)
  have pv: "prv s n = last0 0 ys" by (rule repr_prev [OF R l])
  have mem: "m \<in> set (lst a l) \<Longrightarrow> okn s m \<and> m \<noteq> 0" for m
    using repr_mem [OF R, of m l] by simp
  have oknx: "nxt s n = 0 \<or> okn s (nxt s n)" using mem nx l by (cases zs) auto
  have okpv: "prv s n = 0 \<or> okn s (prv s n)" using mem pv l by (auto simp: last0_def)
  let ?X = "{prv s n, nxt s n} - {0}"
  have X: "m \<in> ?X \<Longrightarrow> m \<in> set (lst a l)" for m
    using nx pv l by (cases zs) (auto simp: last0_def)
  have px: "prv (rm_state l n s) m \<noteq> m" if m: "m \<in> ?X" for m
  proof (cases "m = nxt s n")
    case True
    moreover have "last0 0 ys \<in> insert 0 (set ys)" by (simp add: last0_def)
    ultimately show ?thesis using m pv nx dist by (cases zs) (auto simp: rm_state_views)
  next
    case False
    then show ?thesis
      using repr_prv [OF R, of m] mem [OF X [OF m]] repr_not_free [OF R X [OF m]]
      by (simp add: rm_state_views)
  qed
  have "repr (upl l (ys @ zs) a) (rm_state l n s) \<and> frame (live a) s (rm_state l n s)"
  proof (rule repr_upl [OF R act rm_state_lk dll_remove [OF R l], where X = ?X])
    show "length (ys @ zs) \<le> 1" if "l = LName g" for g
      using repr_name [OF R, of g] l that by simp
  next
    show "prv (rm_state l n s) m \<noteq> m" if "m \<in> ?X" for m using that by (rule px)
  qed (use dist l X rm_state_views(1,2) in auto)
  moreover have "wp (speedy_slot_remove n (href l) (tref l)) Q s = Q () (rm_state l n s)" for Q
    by (rule wp_remove) (use oknx okpv mem [OF n] repr_refok [OF R act] in simp_all)
  ultimately show ?thesis by (simp only: rm)
qed

section \<open>Insertion at the head\<close>

definition ins_state :: "lid \<Rightarrow> slotnum \<Rightarrow> sys \<Rightarrow> sys" where
  "ins_state l n s =
    (let h = rd s (href l);
         s1 = pprev n 0 (pnext n h s);
         s2 = (if h \<noteq> 0 then pprev h n s1 else s1);
         s3 = wrt (href l) n s2
     in case tref l of None \<Rightarrow> s3 | Some t \<Rightarrow> if rd s t = 0 then wrt t n s3 else s3)"

lemma wp_insert:
  assumes "okn s n" and "rd s (href l) = 0 \<or> okn s (rd s (href l))"
    and "refok s (href l)" and "\<And>r. tref l = Some r \<Longrightarrow> refok s r"
  shows "wp (speedy_slot_insert n (href l) (tref l)) Q s = Q () (ins_state l n s)"
  using assms
  by (auto simp: speedy_slot_insert_def ins_state_def Let_def wps views split: option.split)

lemma ins_state_views:
  "nxt (ins_state l n s) m = (if m = n then rd s (href l) else nxt s m)"
  "prv (ins_state l n s) m =
     (if rd s (href l) \<noteq> 0 \<and> m = rd s (href l) then n else if m = n then 0 else prv s m)"
  "rd (ins_state l n s) (href l) = n"
  "tref l = Some r \<Longrightarrow> rd (ins_state l n s) r = (if rd s r = 0 then n else rd s r)"
  by (cases l; auto simp: ins_state_def Let_def views split: option.split)+

lemma ins_state_lk: "lk l s (ins_state l n s)"
  unfolding ins_state_def Let_def by (auto split: option.split intro!: lk_wrt_tref [of l s])

lemma dll_insert:
  assumes d: "dll s l xs" and n: "n \<notin> set xs" "n \<noteq> 0" and dist: "distinct xs"
  shows "dll (ins_state l n s) l (n # xs)"
proof -
  have nz: "0 \<notin> set xs" using d by (auto simp: dll_def dest: dseg_nonzero)
  have h: "rd s (href l) = hd0 xs"
    using d by (auto simp: dll_def hd0_def dest: dseg_head0)
  have "dseg (ins_state l n s) 0 n (n # xs) 0"
  proof (cases xs)
    case Nil
    then show ?thesis using n h by (simp add: ins_state_views)
  next
    case (Cons x xs')
    have "dseg (ins_state l n s) x (nxt s x) xs' 0 = dseg s x (nxt s x) xs' 0"
      by (rule dseg_cong) (use n h Cons dist in \<open>auto simp: ins_state_views\<close>)
    then show ?thesis using n h Cons d nz by (auto simp: ins_state_views dll_def)
  qed
  moreover have "last0 0 xs = 0 \<longleftrightarrow> xs = []"
    using nz by (rule last0_eq_0)
  ultimately show ?thesis
    using d by (auto simp: dll_def ins_state_views last0_def split: option.split)
qed

theorem insert_repr:
  assumes R: "repr a s" and act: "active a l" and i: "insertable a s l n"
    and nm: "\<And>g. l = LName g \<Longrightarrow> lst a l = []"
  shows "wp (speedy_slot_insert n (href l) (tref l))
     (\<lambda>_ t. repr (upl l (n # lst a l) a) t \<and> frame (live a) s t) s"
proof -
  have n: "okn s n" "n \<notin> set (lst a l)" "n \<noteq> 0"
    using i by (auto simp: insertable_def okn_def dest: not_listedD)
  have h: "rd s (href l) = hd0 (lst a l)" using repr_head [OF R act] by (simp add: hd0_def)
  have mem: "m \<in> set (lst a l) \<Longrightarrow> okn s m \<and> m \<noteq> 0" for m
    using repr_mem [OF R, of m l] by simp
  let ?X = "{n, rd s (href l)} - {0}"
  have "repr (upl l (n # lst a l) a) (ins_state l n s) \<and> frame (live a) s (ins_state l n s)"
  proof (rule repr_upl [OF R act ins_state_lk dll_insert, where X = ?X])
    show "prv (ins_state l n s) m \<noteq> m" if "m \<in> ?X" for m
      using that n h by (cases "lst a l") (auto simp: ins_state_views)
    show "m \<in> set (lst a l) \<or> m \<in> set (n # lst a l)" if "m \<in> ?X" for m
      using that h by (cases "lst a l") auto
  qed (use repr_dll [OF R act] repr_distinct [OF R] n nm i ins_state_views(1,2) in
      \<open>auto simp: insertable_def\<close>)
  moreover have "wp (speedy_slot_insert n (href l) (tref l)) Q s = Q () (ins_state l n s)" for Q
    by (rule wp_insert)
      (use h mem n(1) repr_refok [OF R act] in \<open>cases "lst a l"; simp\<close>)+
  ultimately show ?thesis by simp
qed

section \<open>Insertion at the tail\<close>

definition app_state :: "lid \<Rightarrow> lref \<Rightarrow> slotnum \<Rightarrow> sys \<Rightarrow> sys" where
  "app_state l r n s =
    (let t = rd s r;
         s1 = pnext n 0 (pprev n t s);
         s2 = (if t \<noteq> 0 then pnext t n s1 else s1);
         s3 = wrt r n s2
     in if rd s (href l) = 0 then wrt (href l) n s3 else s3)"

lemma wp_append:
  assumes "okn s n" and "rd s r = 0 \<or> okn s (rd s r)"
    and "refok s (href l)" and "refok s r" and "tref l = Some r"
  shows "wp (speedy_slot_append n (href l) r) Q s = Q () (app_state l r n s)"
  using assms
  by (auto simp: speedy_slot_append_def app_state_def Let_def wps views)

lemma app_state_views:
  assumes "tref l = Some r"
  shows "nxt (app_state l r n s) m =
     (if rd s r \<noteq> 0 \<and> m = rd s r then n else if m = n then 0 else nxt s m)"
    and "prv (app_state l r n s) m = (if m = n then rd s r else prv s m)"
    and "rd (app_state l r n s) r = n"
    and "rd (app_state l r n s) (href l) = (if rd s (href l) = 0 then n else rd s (href l))"
  using assms by (cases l; auto simp: app_state_def Let_def views)+

lemma app_state_lk: "tref l = Some r \<Longrightarrow> lk l s (app_state l r n s)"
  unfolding app_state_def Let_def by (auto intro!: lk_wrt_tref [of l s])

lemma dll_append:
  assumes d: "dll s l xs" and r: "tref l = Some r" and n: "n \<notin> set xs" "n \<noteq> 0"
    and dist: "distinct xs"
  shows "dll (app_state l r n s) l (xs @ [n])"
proof -
  note v = app_state_views [OF r]
  have nz: "0 \<notin> set xs" using d by (auto simp: dll_def dest: dseg_nonzero)
  have h: "rd s (href l) = hd0 xs"
    using d by (auto simp: dll_def hd0_def dest: dseg_head0)
  have t: "rd s r = last0 0 xs" using d r by (simp add: dll_def)
  have "dseg (app_state l r n s) 0 (hd0 (xs @ [n])) (xs @ [n]) 0"
  proof (cases xs rule: rev_cases)
    case Nil
    then show ?thesis using n t by (simp add: v)
  next
    case (snoc xs' x)
    have "dseg (app_state l r n s) b c xs' e = dseg s b c xs' e" for b c e
      by (rule dseg_cong) (use n t snoc dist in \<open>auto simp: v\<close>)
    moreover have "hd0 (xs @ [n]) = hd0 xs" using snoc by (cases xs') auto
    ultimately show ?thesis
      using n t snoc d nz h by (auto simp: v dll_def dseg_append)
  qed
  moreover have "rd (app_state l r n s) (href l) = hd0 (xs @ [n])"
    using h nz by (cases xs) (auto simp: v)
  ultimately show ?thesis using r by (auto simp: dll_def v)
qed

theorem append_repr:
  assumes R: "repr a s" and act: "active a l" and r: "tref l = Some r"
    and i: "insertable a s l n"
  shows "wp (speedy_slot_append n (href l) r)
     (\<lambda>_ t. repr (upl l (lst a l @ [n]) a) t \<and> frame (live a) s t) s"
proof -
  note v = app_state_views [OF r]
  have n: "okn s n" "n \<notin> set (lst a l)" "n \<noteq> 0"
    using i by (auto simp: insertable_def okn_def dest: not_listedD)
  have t: "rd s r = last0 0 (lst a l)" by (rule repr_tail [OF R act r])
  have tm: "rd s r = 0 \<or> rd s r \<in> set (lst a l)" using t by (auto simp: last0_def)
  have mem: "m \<in> set (lst a l) \<Longrightarrow> okn s m \<and> m \<noteq> 0 \<and> prv s m \<noteq> m" for m
    using repr_mem [OF R, of m l] repr_prv [OF R, of m] repr_not_free [OF R] by auto
  let ?X = "{n, rd s r} - {0}"
  have "repr (upl l (lst a l @ [n]) a) (app_state l r n s) \<and> frame (live a) s (app_state l r n s)"
  proof (rule repr_upl [OF R act app_state_lk [OF r] dll_append [OF _ r], where X = ?X])
    show "prv (app_state l r n s) m \<noteq> m" if "m \<in> ?X" for m
      using that n tm mem by (auto simp: v)
  qed (use r repr_dll [OF R act] repr_distinct [OF R] n tm i v(1,2) in
      \<open>auto simp: insertable_def\<close>)
  moreover have "wp (speedy_slot_append n (href l) r) Q s = Q () (app_state l r n s)" for Q
    by (rule wp_append) (use tm mem n(1) repr_refok [OF R act] r in auto)
  ultimately show ?thesis by simp
qed

section \<open>Sorted insertion\<close>

definition before_state :: "lref \<Rightarrow> slotnum \<Rightarrow> sys \<Rightarrow> sys" where
  "before_state np n s =
    (let y = rd s np in wrt np n (pprev y n (pprev n (prv s y) (pnext n y s))))"

lemma wp_insert_before:
  assumes "okn s n" and "okn s (rd s np)" and "refok s np" and "np \<noteq> NEXT_OF n" and "rd s np \<noteq> n"
  shows "wp (insert_before n np) Q s = Q () (before_state np n s)"
  using assms by (auto simp: insert_before_def before_state_def Let_def wps views)

text \<open>The cursor of the loop: where the link to the rest of the list is stored.\<close>

definition cursor :: "lid \<Rightarrow> slotnum list \<Rightarrow> lref" where
  "cursor l ys = (if ys = [] then href l else NEXT_OF (last ys))"

lemma cursor_next [simp]: "cursor l ys = NEXT_OF m \<longleftrightarrow> ys \<noteq> [] \<and> m = last ys"
  by (auto simp: cursor_def)

lemma before_state_views:
  assumes "rd s np = y"
  shows "nxt (before_state np n s) m =
      (if np = NEXT_OF m then n else if m = n then y else nxt s m)"
    and "prv (before_state np n s) m = (if m = y then n else if m = n then prv s y else prv s m)"
  using assms by (auto simp: before_state_def Let_def views)

lemma rd_cursor:
  assumes "dll s l (ys @ zs)" shows "rd s (cursor l ys) = hd0 zs"
proof (cases ys rule: rev_cases)
  case Nil
  then show ?thesis using assms by (auto simp: cursor_def dll_def hd0_def dest: dseg_head0)
next
  case (snoc ys' p)
  then show ?thesis
    using assms by (auto simp: cursor_def dll_def hd0_def dseg_append dest: dseg_head0)
qed

lemma before_state_lk: "lk l s (before_state (cursor l ys) n s)"
  unfolding before_state_def Let_def cursor_def by auto

lemma dseg_insert_before:
  assumes d: "dseg s p h (y # zs) 0" and n: "n \<notin> set (y # zs)" "n \<noteq> 0"
    and t: "nxt t n = y" "prv t n = p" "prv t y = n"
    and o: "\<And>m. m \<in> set (y # zs) \<Longrightarrow> nxt t m = nxt s m"
    and o': "\<And>m. m \<in> set zs \<Longrightarrow> prv t m = prv s m"
  shows "dseg t p n (n # y # zs) 0"
proof -
  have "dseg t y (nxt s y) zs 0 = dseg s y (nxt s y) zs 0"
    by (rule dseg_cong) (simp add: o o')
  then show ?thesis using d n t o by simp
qed

lemma dll_insert_before:
  assumes d: "dll s l (ys @ y # zs)" and n: "n \<notin> set (ys @ y # zs)" "n \<noteq> 0"
    and dist: "distinct (ys @ y # zs)"
  shows "dll (before_state (cursor l ys) n s) l (ys @ n # y # zs)"
proof -
  let ?t = "before_state (cursor l ys) n s"
  have np: "rd s (cursor l ys) = y" using rd_cursor [OF d] by simp
  have d0: "dseg s 0 (rd s (href l)) (ys @ y # zs) 0" using d by (simp add: dll_def)
  have pv: "prv s y = last0 0 ys" by (rule dseg_prv_member [OF d0])
  note v = before_state_views [OF np, where n = n]
  have ly: "ys \<noteq> [] \<Longrightarrow> last ys \<in> set ys" by simp
  have nxo: "nxt ?t m = nxt s m" if "m \<noteq> n" "ys = [] \<or> m \<noteq> last ys" for m
    using that by (auto simp: v)
  have pvo: "prv ?t m = prv s m" if "m \<noteq> n" "m \<noteq> y" for m
    using that by (auto simp: v)
  have nn: "nxt ?t n = y" using n ly by (auto simp: v)
  have pn: "prv ?t n = last0 0 ys" using n pv by (simp add: v)
  have py: "prv ?t y = n" by (simp add: v)
  have tail: "dseg ?t (last0 0 ys) n (n # y # zs) 0" if "dseg s (last0 0 ys) h (y # zs) 0" for h
  proof (rule dseg_insert_before [OF that _ n(2) nn pn py])
    show "n \<notin> set (y # zs)" using n by simp
    show "nxt ?t m = nxt s m" if m: "m \<in> set (y # zs)" for m
    proof (rule nxo)
      show "m \<noteq> n" using m n by auto
      show "ys = [] \<or> m \<noteq> last ys"
        using m dist last_in_set [of ys] by (auto simp del: last_in_set)
    qed
    show "prv ?t m = prv s m" if m: "m \<in> set zs" for m
      using m n dist by (intro pvo) auto
  qed
  have "dseg ?t 0 (rd ?t (href l)) (ys @ n # y # zs) 0"
  proof (cases ys rule: rev_cases)
    case Nil
    have "rd ?t (href l) = n"
      using Nil by (simp add: before_state_def Let_def views cursor_def)
    then show ?thesis using tail [of y] d0 Nil by simp
  next
    case (snoc ys' p)
    have h: "rd ?t (href l) = rd s (href l)"
      using snoc by (simp add: before_state_def Let_def views cursor_def)
    obtain h' where h': "dseg s 0 (rd s (href l)) ys' p" "prv s p = last0 0 ys'" "p \<noteq> 0"
        "nxt s p = y" and tl: "dseg s p y (y # zs) 0"
      using d0 snoc by (auto simp: dseg_append)
    have "dseg ?t 0 (rd s (href l)) ys' p = dseg s 0 (rd s (href l)) ys' p"
    proof (rule dseg_cong)
      fix x assume x: "x \<in> set ys'"
      have "x \<noteq> n" "x \<noteq> y" "ys = [] \<or> x \<noteq> last ys" using x n dist snoc by auto
      then show "nxt ?t x = nxt s x \<and> prv ?t x = prv s x" by (simp add: nxo pvo)
    qed
    moreover have "prv ?t p = last0 0 ys'" using h'(2) n dist snoc by (subst pvo) auto
    moreover have "nxt ?t p = n" using v(1) [of p] snoc by simp
    ultimately show ?thesis
      using tail [of y] tl h h' snoc by (simp add: dseg_append)
  qed
  moreover have "rd ?t r = rd s r" if "tref l = Some r" for r
    using that by (cases l) (auto simp: before_state_def Let_def views cursor_def)
  ultimately show ?thesis using d by (auto simp: dll_def last0_def split: option.splits)
qed

lemma insert_before_repr:
  assumes R: "repr a s" and act: "active a l" and i: "insertable a s l n"
    and l: "lst a l = ys @ y # zs" and nm: "\<And>g. l \<noteq> LName g"
  shows "wp (insert_before n (cursor l ys))
     (\<lambda>_ t. repr (upl l (ys @ n # y # zs) a) t \<and> frame (live a) s t) s"
proof -
  let ?t = "before_state (cursor l ys) n s"
  have n: "okn s n" "n \<notin> set (ys @ y # zs)" "n \<noteq> 0"
    using i not_listedD [of n a l] by (auto simp: insertable_def okn_def l)
  have d: "dll s l (ys @ y # zs)" using repr_dll [OF R act] l by simp
  have np: "rd s (cursor l ys) = y" using rd_cursor [OF d] by simp
  have dist: "distinct (ys @ y # zs)" using repr_distinct [OF R, of l] l by simp
  have pv: "prv s y = last0 0 ys" by (rule repr_prev [OF R l])
  have mem: "m \<in> set (ys @ y # zs) \<Longrightarrow> okn s m \<and> m \<noteq> 0 \<and> prv s m \<noteq> m" for m
    using repr_mem [OF R, of m l] repr_prv [OF R, of m] repr_not_free [OF R, of m l] l by simp
  have ly: "ys = [] \<or> last ys \<in> set ys" using last_in_set by blast
  let ?X = "insert n (insert y (if ys = [] then {} else {last ys}))"
  have nx: "m \<notin> ?X \<Longrightarrow> nxt ?t m = nxt s m \<and> prv ?t m = prv s m" for m
    by (auto simp: before_state_views [OF np] split: if_splits)
  have "repr (upl l (ys @ n # y # zs) a) ?t \<and> frame (live a) s ?t"
  proof (rule repr_upl [OF R act before_state_lk dll_insert_before [OF d], where X = ?X])
    show "prv ?t m \<noteq> m" if "m \<in> ?X" for m
      using that n ly mem [of m] dist pv
      by (auto simp: before_state_views [OF np] last0_def split: if_splits)
  qed (use nx n dist ly l i nm in \<open>auto simp: insertable_def split: if_splits\<close>)
  moreover have "wp (insert_before n (cursor l ys)) Q s = Q () ?t" for Q
    by (rule wp_insert_before)
      (use n np mem ly repr_refok [OF R act] in \<open>auto simp: cursor_def refok_def\<close>)
  ultimately show ?thesis by simp
qed

lemma insert_sorted_loop_repr:
  assumes R: "repr a s" and act: "active a l" and i: "insertable a s l n"
    and r: "tref l = Some r"
    and cmp: "\<And>m. m \<in> set (lst a l) \<Longrightarrow> compar n m s = Ok (cmp n m) s"
  shows "lst a l = ys @ zs \<Longrightarrow> length zs < fuel \<Longrightarrow>
    wp (insert_sorted_loop fuel n (cursor l ys) (href l) r compar)
     (\<lambda>_ t. repr (upl l (ys @ takeWhile (\<lambda>m. cmp n m > 0) zs @ n #
              dropWhile (\<lambda>m. cmp n m > 0) zs) a) t \<and> frame (live a) s t) s"
proof (induction zs arbitrary: ys fuel)
  case Nil
  have "rd s (cursor l ys) = 0"
    using rd_cursor [of s l ys "[]"] repr_dll [OF R act] Nil.prems by simp
  moreover have "refok s (cursor l ys)"
    using repr_refok [OF R act] repr_mem [OF R, of "last ys" l] Nil.prems
    by (auto simp: cursor_def refok_def)
  ultimately show ?case
    using append_repr [OF R act r i] Nil.prems by (cases fuel) (auto simp: wps)
next
  case (Cons y zs)
  obtain f where f: "fuel = Suc f" using Cons.prems by (cases fuel) auto
  have y: "rd s (cursor l ys) = y"
    using rd_cursor [of s l ys "y # zs"] repr_dll [OF R act] Cons.prems by simp
  have ok: "refok s (cursor l ys)"
    using repr_refok [OF R act] repr_mem [OF R, of "last ys" l] Cons.prems
    by (auto simp: cursor_def refok_def)
  have ym: "y \<in> set (lst a l)" using Cons.prems by simp
  have c: "wp (compar n y) Q s = Q (cmp n y) s" for Q
    using cmp [OF ym] by (simp add: wp_Ok)
  have nm: "l \<noteq> LName g" for g using r by (cases l) auto
  show ?case
  proof (cases "cmp n y \<le> 0")
    case True
    then show ?thesis
      using insert_before_repr [OF R act i Cons.prems(1) nm] ok y c repr_mem [OF R ym]
      by (simp add: f wps)
  next
    case False
    have "NEXT_OF y = cursor l (ys @ [y])" by (simp add: cursor_def)
    then show ?thesis
      using Cons.IH [of "ys @ [y]" f] Cons.prems False ok y c repr_mem [OF R ym]
      by (simp add: f wps)
  qed
qed

theorem insert_sorted_repr:
  assumes R: "repr a s" and act: "active a l" and i: "insertable a s l n"
    and r: "tref l = Some r"
    and cmp: "\<And>m. m \<in> set (lst a l) \<Longrightarrow> compar n m s = Ok (cmp n m) s"
  shows "wp (speedy_slot_insert_sorted n (href l) r compar)
     (\<lambda>_ t. repr (upl l (takeWhile (\<lambda>m. cmp n m > 0) (lst a l) @ n #
              dropWhile (\<lambda>m. cmp n m > 0) (lst a l)) a) t \<and> frame (live a) s t) s"
  using insert_sorted_loop_repr [where compar = compar and cmp = cmp, OF R act i r cmp,
      of "[]" "lst a l" "list_fuel s"] repr_fuel [OF R]
  by (simp add: speedy_slot_insert_sorted_def wps cursor_def)

section \<open>Moving a member to the head or the tail\<close>

lemma insertable_removed:
  assumes R: "repr a s" and n: "n \<in> set (lst a l)" and F: "frame (live a) s t"
  shows "insertable (upl l (remove1 n (lst a l)) a) t l n"
proof -
  have m: "okn t n" "n \<notin> set (freel a)" "n \<in> live a \<longleftrightarrow> l = LGroups"
    using repr_mem [OF R n] repr_not_free [OF R n] R n frame_okn [OF F]
    by (auto simp: repr_def repr_sets_def)
  have "n \<notin> listed (upl l (remove1 n (lst a l)) a)"
    using repr_disjoint [OF R n] repr_distinct [OF R, of l] by (auto simp: listed_def)
  moreover have "kind l (pay t n)"
  proof (cases "l = LGroups")
    case True then show ?thesis using repr_mem [OF R n] F by (simp add: frame_def)
  next
    case False then show ?thesis using repr_mem [OF R n] F m by (simp add: frame_def)
  qed
  ultimately show ?thesis using m by (simp add: insertable_def)
qed

lemma upl_upl [simp]: "upl l xs (upl l ys a) = upl l xs a"
  by (simp add: upl_def)

lemma upl_same [simp]: "upl l (lst a l) a = a"
  by (simp add: upl_def)

lemma remove1_last: "distinct xs \<Longrightarrow> xs \<noteq> [] \<Longrightarrow> remove1 (last xs) xs @ [last xs] = xs"
  by (cases xs rule: rev_cases) (auto simp: remove1_append)

theorem move_tail_repr:
  assumes R: "repr a s" and r: "tref l = Some r" and n: "n \<in> set (lst a l)"
  shows "wp (speedy_slot_move_tail n (href l) r)
     (\<lambda>_ t. repr (upl l (remove1 n (lst a l) @ [n]) a) t \<and> frame (live a) s t) s"
proof -
  have act: "active a l" by (rule repr_active [OF R n])
  note ok = repr_refok [OF R act]
  have ne: "lst a l \<noteq> []" using n by auto
  let ?b = "upl l (remove1 n (lst a l)) a"
  have "remove1 n (lst a l) @ [n] = lst a l" if "rd s r = n"
  proof -
    have "last (lst a l) = n" using repr_tail [OF R act r] that ne by (simp add: last0_def)
    then show ?thesis using remove1_last [OF repr_distinct [OF R, of l] ne] by simp
  qed
  moreover have "wp (speedy_slot_append n (href l) r)
      (\<lambda>_ u. repr (upl l (remove1 n (lst a l) @ [n]) a) u \<and> frame (live a) s u) t"
    if t: "repr ?b t \<and> frame (live a) s t" for t
    using append_repr [of ?b t l r n] t act r insertable_removed [OF R n, of t]
    by (auto elim!: wp_mono intro: frame_trans)
  ultimately show ?thesis
    using ok r R remove_repr [OF R n]
    by (auto simp: speedy_slot_move_tail_def wps elim!: wp_mono)
qed

theorem move_head_repr:
  assumes R: "repr a s" and n: "n \<in> set (lst a l)" and l: "\<And>g. l \<noteq> LName g"
  shows "wp (speedy_slot_move_head n (href l) (tref l))
     (\<lambda>_ t. repr (upl l (n # remove1 n (lst a l)) a) t \<and> frame (live a) s t) s"
proof -
  have act: "active a l" by (rule repr_active [OF R n])
  note ok = repr_refok [OF R act]
  let ?b = "upl l (remove1 n (lst a l)) a"
  have "n # remove1 n (lst a l) = lst a l" if "rd s (href l) = n"
    using that repr_head [OF R act] n by (cases "lst a l") auto
  moreover have "wp (speedy_slot_insert n (href l) (tref l))
      (\<lambda>_ u. repr (upl l (n # remove1 n (lst a l)) a) u \<and> frame (live a) s u) t"
    if t: "repr ?b t \<and> frame (live a) s t" for t
    using insert_repr [of ?b t l n] t act l insertable_removed [OF R n, of t]
    by (auto elim!: wp_mono intro: frame_trans)
  ultimately show ?thesis
    using ok R remove_repr [OF R n]
    by (auto simp: speedy_slot_move_head_def wps elim!: wp_mono)
qed

end
