(* ===== verification/SlotAlloc.thy ===== *)
theory SlotAlloc
  imports SlotListOps
begin

text \<open>
  Allocation and freeing of slots (\<open>speedy_slot_alloc\<close>, \<open>speedy_slot_free\<close>) against the
  abstract state of theory SlotLists: allocation hands out a slot nobody else has, zeroed;
  freeing puts a held slot at the front of the free list; a slot that is already free is
  refused. \<open>room k s\<close> is what the file code promises when the file is locked: \<open>k\<close>
  allocations cannot fail. Also the three ways the abstract state changes without a list
  operation: a payload is written, a held slot becomes a group, a group is retired.
\<close>

section \<open>Payload updates\<close>

definition heads :: "gr_slot \<Rightarrow> slotnum list" where
  "heads r = [script_head r, name_slot r, be_head r, be_tail r, fe_head r, fe_tail r]"

text \<open>The content \<open>u\<close> may replace that of slot \<open>n\<close> without breaking the lists.\<close>

definition payable :: "fstate \<Rightarrow> sys \<Rightarrow> slotnum \<Rightarrow> slot_u \<Rightarrow> bool" where
  "payable a s n u \<longleftrightarrow> (\<forall>l. n \<in> set (lst a l) \<longrightarrow> kind l u) \<and>
     (n \<in> live a \<longrightarrow> is_gr u \<and> heads (the (as_gr u)) = heads (gr s n))"

lemma rd_ppay:
  assumes "active a l" and "payable a s n u"
  shows "rd (ppay n u s) (href l) = rd s (href l)"
    and "tref l = Some r \<Longrightarrow> rd (ppay n u s) r = rd s r"
  using assms by (cases l; auto simp: active_def payable_def views heads_def)+

theorem repr_ppay:
  assumes R: "repr a s" and p: "payable a s n u"
  shows "repr a (ppay n u s)"
proof -
  have "repr_types a (ppay n u s)"
    using R p unfolding repr_def repr_types_def payable_def by (auto simp: views)
  moreover have "dll (ppay n u s) l (lst a l)" if act: "active a l" for l
    using repr_dll [OF R act] rd_ppay [OF act p]
      dll_frame [of "lst a l" "ppay n u s" s l] by (simp add: views)
  then have "repr_links a (ppay n u s)"
    using R fseg_cong [of "freel a" "ppay n u s" s]
    unfolding repr_def repr_links_def by (simp add: views)
  ultimately show ?thesis using R by (simp add: repr_def)
qed

lemma repr_cong:
  assumes "fhd t = fhd s" and "slots t = slots s"
  shows "repr a t = repr a s"
proof -
  have v: "nxt t = nxt s" "prv t = prv s" "pay t = pay s" "okn t = okn s"
    using assms by (auto simp: fun_eq_iff nxt_def prv_def pay_def okn_def)
  then have "gr t = gr s" by (simp add: fun_eq_iff gr_def)
  then have rd: "rd t r = rd s r" for r using v assms by (cases r) simp_all
  have d: "dll t l xs = dll s l xs" for l xs
    by (rule dll_frame) (simp_all add: v rd)
  have f: "fseg t h xs = fseg s h xs" for h xs by (rule fseg_cong) (simp add: v)
  show ?thesis
    using assms v by (simp add: repr_def repr_types_def repr_links_def d f)
qed

lemma gr_pay: "is_gr (pay s g) \<Longrightarrow> as_gr (pay s g) = Some (gr s g)"
  by (auto simp: is_gr_def gr_def)

lemma payable_listed:
  assumes R: "repr a s" and n: "n \<in> set (lst a l)" and l: "l \<noteq> LGroups" and k: "kind l u"
  shows "payable a s n u"
proof -
  have "kind l' u" if "n \<in> set (lst a l')" for l'
    using repr_disjoint [OF R n that] k by simp
  then show ?thesis using repr_not_live [OF R n l] by (simp add: payable_def)
qed

lemma payable_be: "repr a s \<Longrightarrow> n \<in> set (lst a (LBe g)) \<Longrightarrow> payable a s n (U_be b)"
  by (rule payable_listed [where l = "LBe g"]) simp_all

lemma payable_fe: "repr a s \<Longrightarrow> n \<in> set (lst a (LFe g)) \<Longrightarrow> payable a s n (U_fe f)"
  by (rule payable_listed [where l = "LFe g"]) simp_all

lemma payable_fe_run: "repr a s \<Longrightarrow> n \<in> set (lst a LFeRun) \<Longrightarrow> payable a s n (U_fe f)"
  by (rule payable_listed [where l = "LFeRun"]) simp_all

lemma payable_held: "held a s n \<Longrightarrow> payable a s n u"
  by (auto simp: payable_def held_def listed_def)

lemma payable_gr:
  "repr a s \<Longrightarrow> g \<in> live a \<Longrightarrow> heads r = heads (gr s g) \<Longrightarrow> payable a s g (U_gr r)"
  by (auto simp: payable_def repr_def repr_sets_def)

section \<open>Becoming a group and ceasing to be one\<close>

definition add_live :: "slotnum \<Rightarrow> fstate \<Rightarrow> fstate" where
  "add_live g a = a\<lparr>live := insert g (live a)\<rparr>"

definition del_live :: "slotnum \<Rightarrow> fstate \<Rightarrow> fstate" where
  "del_live g a = a\<lparr>live := live a - {g}\<rparr>"

lemma live_simps [simp]:
  "lst (add_live g a) = lst a" "freel (add_live g a) = freel a"
  "live (add_live g a) = insert g (live a)"
  "lst (del_live g a) = lst a" "freel (del_live g a) = freel a"
  "live (del_live g a) = live a - {g}"
  by (simp_all add: add_live_def del_live_def)

theorem repr_add_live:
  assumes R: "repr a s" and h: "held a s g" and z: "pay s g = U_zero"
  shows "repr (add_live g a) s"
proof -
  have nl: "g \<notin> live a" "g \<notin> set (freel a)" "okn s g" "\<And>l. g \<notin> set (lst a l)"
    using h by (auto simp: held_def listed_def)
  have gz: "gr s g = zero_gr" by (simp add: gr_def z)
  have own: "lst a l = []" if "owner l = Some g" for l
  proof (rule ccontr)
    assume "lst a l \<noteq> []"
    then obtain n where "n \<in> set (lst a l)" by (cases "lst a l") auto
    then have "active a l" using R by (simp add: repr_def repr_sets_def)
    then show False using that nl(1) by (simp add: active_def)
  qed
  have new: "dll s l (lst a l)" if "owner l = Some g" for l
    using own [OF that] that by (cases l) (simp_all add: dll_def gz zero_gr_def)
  have act: "active (add_live g a) l \<longleftrightarrow> active a l \<or> owner l = Some g" for l
    by (auto simp: active_def split: option.split)
  have "repr_sets (add_live g a)"
    using R nl by (auto simp: repr_def repr_sets_def act)
  moreover have "repr_types (add_live g a) s"
    using R nl z by (auto simp: repr_def repr_types_def)
  moreover have "repr_links (add_live g a) s"
    using R new by (auto simp: repr_def repr_links_def act)
  ultimately show ?thesis by (simp add: repr_def)
qed

theorem repr_del_live:
  assumes R: "repr a s" and g: "g \<in> live a" and e: "\<And>l. owner l = Some g \<Longrightarrow> lst a l = []"
    and out: "g \<notin> set (lst a LGroups)"
  shows "repr (del_live g a) s" and "held (del_live g a) s g"
proof -
  have act: "active (del_live g a) l \<longleftrightarrow> active a l \<and> owner l \<noteq> Some g" for l
    by (auto simp: active_def split: option.split)
  have ne: "n \<in> set (lst a l) \<Longrightarrow> owner l \<noteq> Some g" for n l using e [of l] by auto
  have ng: "g \<notin> set (lst a l)" for l
    using R g out by (cases "l = LGroups") (auto simp: repr_def repr_sets_def)
  have "repr_sets (del_live g a)"
    unfolding repr_sets_def
  proof (intro conjI allI impI)
    fix l n assume n: "n \<in> set (lst (del_live g a) l)"
    have "n \<noteq> g" using n ng by auto
    then show "active (del_live g a) l" "n \<notin> set (freel (del_live g a))"
        "n \<in> live (del_live g a) \<longleftrightarrow> l = LGroups"
      using n R ne by (auto simp: repr_def repr_sets_def act)
    fix l' assume "n \<in> set (lst (del_live g a) l')"
    then show "l' = l" using repr_disjoint [OF R, of n l' l] n by simp
  qed (use R in \<open>auto simp: repr_def repr_sets_def\<close>)
  moreover have "repr_types (del_live g a) s" "repr_links (del_live g a) s"
    using R by (auto simp: repr_def repr_types_def repr_links_def act)
  ultimately show "repr (del_live g a) s" by (simp add: repr_def)
  show "held (del_live g a) s g"
    using R g ng by (auto simp: held_def listed_def repr_def repr_sets_def repr_types_def)
qed

section \<open>Allocation\<close>

definition room :: "nat \<Rightarrow> sys \<Rightarrow> bool" where
  "room k s \<longleftrightarrow> uint (slots_alloced (fhd s)) + int k < MAX_SLOTS \<and>
     SIZEOF_HEAD + (uint (slots_alloced (fhd s)) + int k) * SIZEOF_SLOT \<le> maplen s"

lemma room_less: "room k s \<Longrightarrow> j \<le> k \<Longrightarrow> room j s"
  by (simp add: room_def SIZEOF_SLOT_def)

definition alloc_num :: "sys \<Rightarrow> slotnum" where
  "alloc_num s = (if slot_free (fhd s) \<noteq> 0 then slot_free (fhd s) else slots_alloced (fhd s) + 1)"

definition alloc_state :: "sys \<Rightarrow> sys" where
  "alloc_state s = put_slot (alloc_num s) (\<lambda>_. zero_slot)
     (phead (\<lambda>h. if slot_free h \<noteq> 0 then h\<lparr>slot_free := nxt s (slot_free h)\<rparr>
                else h\<lparr>slots_alloced := slots_alloced h + 1\<rparr>) s)"

lemma uint_Suc: "uint (n :: slotnum) + 1 < 2 ^ 16 \<Longrightarrow> uint (n + 1) = uint n + 1"
  by (simp add: uint_word_ariths)

lemma wp_alloc:
  assumes "slot_free (fhd s) \<noteq> 0 \<Longrightarrow> okn s (slot_free (fhd s))"
    and "slot_free (fhd s) = 0 \<Longrightarrow> room (Suc k) s"
  shows "wp speedy_slot_alloc Q s = Q (alloc_num s) (alloc_state s)"
proof (cases "slot_free (fhd s) = 0")
  case True
  have r: "room 1 s" using room_less [OF assms(2) [OF True], of 1] by simp
  then have "uint (slots_alloced (fhd s) + 1) = uint (slots_alloced (fhd s)) + 1"
    by (intro uint_Suc) (simp add: room_def MAX_SLOTS_def)
  then show ?thesis
    using True r
    by (simp add: speedy_slot_alloc_def wps speedy_file_size_def room_def alloc_num_def
        alloc_state_def upd_defs)
next
  case False
  then show ?thesis
    using assms(1)
    by (simp add: speedy_slot_alloc_def wps alloc_num_def alloc_state_def phead_def)
qed

lemma alloc_views [views]:
  "nxt (alloc_state s) m = (if m = alloc_num s then 0 else nxt s m)"
  "prv (alloc_state s) m = (if m = alloc_num s then 0 else prv s m)"
  "pay (alloc_state s) m = (if m = alloc_num s then U_zero else pay s m)"
  "osv (alloc_state s) = osv s"
  "rd (alloc_state s) (FE_RUN_HEAD) = rd s FE_RUN_HEAD"
  by (auto simp: alloc_state_def nxt_def prv_def pay_def upd_defs zero_slot_def osv_def)

lemma alloc_fhd:
  "slot_free (fhd (alloc_state s)) =
     (if slot_free (fhd s) \<noteq> 0 then nxt s (slot_free (fhd s)) else 0)"
  "slots_alloced (fhd (alloc_state s)) =
     (if slot_free (fhd s) \<noteq> 0 then slots_alloced (fhd s) else slots_alloced (fhd s) + 1)"
  "lock_owner (fhd (alloc_state s)) = lock_owner (fhd s)"
  "create_time (fhd (alloc_state s)) = create_time (fhd s)"
  "file_removed (fhd (alloc_state s)) = file_removed (fhd s)"
  "maplen (alloc_state s) = maplen s"
  by (auto simp: alloc_state_def put_slot_def phead_def)

text \<open>What allocating slot \<open>n\<close> changes of the rest of the system.\<close>

definition grow :: "slotnum \<Rightarrow> sys \<Rightarrow> sys \<Rightarrow> bool" where
  "grow n s t \<longleftrightarrow> osv t = osv s \<and> lock_owner (fhd t) = lock_owner (fhd s) \<and>
     create_time (fhd t) = create_time (fhd s) \<and> file_removed (fhd t) = file_removed (fhd s) \<and>
     (\<forall>m. m \<noteq> n \<longrightarrow> pay t m = pay s m) \<and> (\<forall>m. okn s m \<longrightarrow> okn t m)"

definition take_free :: "fstate \<Rightarrow> fstate" where
  "take_free a = a\<lparr>freel := tl (freel a)\<rparr>"

lemma take_free_simps [simp]:
  "lst (take_free a) = lst a" "freel (take_free a) = tl (freel a)" "live (take_free a) = live a"
  "active (take_free a) = active a" "listed (take_free a) = listed a"
  by (simp_all add: take_free_def active_def listed_def fun_eq_iff split: option.split)

lemma alloc_num_fresh:
  assumes R: "repr a s" and room: "room (Suc k) s"
  shows "alloc_num s \<notin> listed a" and "alloc_num s \<notin> live a" and "alloc_num s \<noteq> 0"
    and "held a s m \<Longrightarrow> m \<noteq> alloc_num s" and "freel a = [] \<Longrightarrow> \<not> okn s (alloc_num s)"
    and "okn (alloc_state s) m \<longleftrightarrow> okn s m \<or> m = alloc_num s"
    and "freel a \<noteq> [] \<Longrightarrow> alloc_num s = hd (freel a)"
proof -
  have f: "fseg s (slot_free (fhd s)) (freel a)" using R by (simp add: repr_def repr_links_def)
  let ?A = "slots_alloced (fhd s)"
  have U: "uint (?A + 1) = uint ?A + 1"
    using room by (intro uint_Suc) (simp add: room_def MAX_SLOTS_def)
  have no: "\<not> okn s (alloc_num s) \<and> alloc_num s \<noteq> 0" if "freel a = []"
  proof -
    have "?A + 1 \<noteq> 0"
    proof
      assume "?A + 1 = 0"
      then have "uint ?A + 1 = 0" using U by simp
      then show False using uint_ge_0 [of ?A] by linarith
    qed
    then show ?thesis using f that U by (auto simp: alloc_num_def okn_def word_le_def)
  qed
  have hd: "alloc_num s = hd (freel a)" "slot_free (fhd s) \<noteq> 0" if "freel a \<noteq> []"
    using f that by (cases "freel a"; auto simp: alloc_num_def)+
  have z: "slot_free (fhd s) = 0" if "freel a = []" using f that by simp
  have lok: "n \<in> listed a \<or> n \<in> live a \<or> n \<in> set (freel a) \<Longrightarrow> okn s n" for n
    using R by (auto simp: listed_def repr_def repr_types_def)
  have nofree: "n \<in> listed a \<or> n \<in> live a \<Longrightarrow> n \<notin> set (freel a)" for n
    using R by (auto simp: listed_def repr_def repr_sets_def)
  have hdin: "freel a \<noteq> [] \<Longrightarrow> alloc_num s \<in> set (freel a)" using hd by simp
  show "alloc_num s \<notin> listed a" "alloc_num s \<notin> live a"
    using no lok nofree hdin by (metis (full_types))+
  show "alloc_num s \<noteq> 0" using no lok hdin by (metis okn_def)
  show "held a s m \<Longrightarrow> m \<noteq> alloc_num s"
    using no hdin by (auto simp: held_def)
  show "freel a = [] \<Longrightarrow> \<not> okn s (alloc_num s)" using no by simp
  show "freel a \<noteq> [] \<Longrightarrow> alloc_num s = hd (freel a)" using hd by simp
  have "okn s (alloc_num s)" if "freel a \<noteq> []" using lok hdin that by blast
  moreover have "m \<noteq> 0 \<and> m \<le> ?A + 1 \<longleftrightarrow> m \<noteq> 0 \<and> m \<le> ?A \<or> m = ?A + 1"
    using U uint_ge_0 [of ?A] uint_ge_0 [of m] unfolding word_le_def word_uint_eq_iff
    by (simp only: unsigned_0) linarith
  ultimately show "okn (alloc_state s) m \<longleftrightarrow> okn s m \<or> m = alloc_num s"
    using z hd by (cases "freel a = []") (auto simp: okn_def alloc_fhd alloc_num_def)
qed

lemma alloc_repr:
  assumes R: "repr a s" and room: "room (Suc k) s"
  shows "repr (take_free a) (alloc_state s)" and "held (take_free a) (alloc_state s) (alloc_num s)"
    and "grow (alloc_num s) s (alloc_state s)" and "room k (alloc_state s)"
proof -
  note fresh = alloc_num_fresh [OF R room]
  let ?t = "alloc_state s" and ?n = "alloc_num s"
  have f: "fseg s (slot_free (fhd s)) (freel a)" using R by (simp add: repr_def repr_links_def)
  have d: "distinct (freel a)" using R by (simp add: repr_def repr_sets_def)
  have nl: "?n \<notin> set (lst a l)" for l using fresh(1) by (rule not_listedD)
  have ntl: "?n \<notin> set (tl (freel a))"
    using d fresh(7) by (cases "freel a") auto
  have g: "gr ?t g = gr s g" "pay ?t g = pay s g" if "g \<in> live a" for g
  proof -
    have "g \<noteq> ?n" using fresh(2) that by blast
    then show "gr ?t g = gr s g" "pay ?t g = pay s g" by (simp_all add: gr_def views)
  qed
  have hd: "group_head (fhd ?t) = group_head (fhd s)" "group_tail (fhd ?t) = group_tail (fhd s)"
    "fe_run_head (fhd ?t) = fe_run_head (fhd s)" "fe_run_tail (fhd ?t) = fe_run_tail (fhd s)"
    by (simp_all add: alloc_state_def put_slot_def phead_def)
  have rdeq: "rd ?t (href l) = rd s (href l) \<and> (\<forall>r. tref l = Some r \<longrightarrow> rd ?t r = rd s r)"
    if "active a l" for l
    using that g hd by (cases l) (auto simp: active_def)
  have "repr_sets (take_free a)"
    using R list.set_sel(2) [of "freel a"] distinct_tl [OF d]
    by (auto simp: repr_def repr_sets_def) (metis list.set_sel(2) list.sel(2) disjoint_iff)+
  moreover have "uint (slots_alloced (fhd ?t)) < MAX_SLOTS"
    using R room uint_Suc [of "slots_alloced (fhd s)"]
    by (auto simp: alloc_fhd room_def repr_def repr_types_def MAX_SLOTS_def)
  then have "repr_types (take_free a) ?t"
    using R nl g fresh(2,6) unfolding repr_def repr_types_def
    by (cases "freel a") (auto simp: views)
  moreover have "repr_links (take_free a) ?t"
    unfolding repr_links_def
  proof (intro conjI allI impI)
    fix l assume "active (take_free a) l"
    then have act: "active a l" by simp
    have "x \<noteq> ?n" if "x \<in> set (lst a l)" for x using nl [of l] that by blast
    then have "dll ?t l (lst a l) = dll s l (lst a l)"
      using rdeq [OF act] by (intro dll_frame) (simp_all add: views)
    then show "dll ?t l (lst (take_free a) l)" using repr_dll [OF R act] by simp
  next
    have "fseg ?t h (tl (freel a)) = fseg s h (tl (freel a))" for h
      by (rule fseg_cong) (use ntl in \<open>auto simp: views\<close>)
    then show "fseg ?t (slot_free (fhd ?t)) (freel (take_free a))"
      using f by (cases "freel a") (auto simp: alloc_fhd)
  next
    fix n assume ok: "okn ?t n"
    show "prv ?t n = n \<longleftrightarrow> n \<in> set (freel (take_free a))"
    proof (cases "n = ?n")
      case True
      then show ?thesis using ntl fresh(3) by (simp add: views)
    next
      case False
      then have "okn s n" using ok fresh(6) by simp
      moreover have "n \<in> set (freel a) \<longleftrightarrow> n \<in> set (tl (freel a))"
        using False fresh(7) by (cases "freel a") auto
      ultimately show ?thesis using R False by (simp add: views repr_def repr_links_def)
    qed
  qed
  ultimately show "repr (take_free a) ?t" by (simp add: repr_def)
  show "held (take_free a) ?t ?n" using fresh ntl by (simp add: held_def)
  show "grow ?n s ?t" using fresh(6) by (simp add: grow_def views alloc_fhd)
  show "room k ?t"
    using room uint_Suc [of "slots_alloced (fhd s)"]
    by (auto simp: room_def alloc_fhd MAX_SLOTS_def SIZEOF_SLOT_def)
qed

theorem alloc_spec:
  assumes R: "repr a s" and room: "room (Suc k) s"
  shows "wp speedy_slot_alloc (\<lambda>n t. repr (take_free a) t \<and> held (take_free a) t n \<and>
     pay t n = U_zero \<and> nxt t n = 0 \<and> prv t n = 0 \<and> grow n s t \<and> room k t \<and>
     n \<notin> listed a \<and> n \<notin> live a \<and> \<not> held a s n) s"
proof -
  have "fseg s (slot_free (fhd s)) (freel a)" using R by (simp add: repr_def repr_links_def)
  then have "slot_free (fhd s) \<noteq> 0 \<Longrightarrow> slot_free (fhd s) \<in> set (freel a)"
    by (cases "freel a") auto
  then have "slot_free (fhd s) \<noteq> 0 \<Longrightarrow> okn s (slot_free (fhd s))"
    using R by (auto simp: repr_def repr_types_def)
  then show ?thesis
    using alloc_repr [OF R room] alloc_num_fresh [OF R room] room
    by (subst wp_alloc [where k = k]) (auto simp: views)
qed

lemma in_tl: "x \<in> set (tl xs) \<Longrightarrow> x \<in> set xs"
  by (cases xs) auto

lemma held_take_free:
  "held a s m \<Longrightarrow> grow n s t \<Longrightarrow> held (take_free a) t m"
  by (auto simp: held_def grow_def dest: in_tl)

section \<open>Freeing\<close>

definition pfree :: "slotnum \<Rightarrow> sys \<Rightarrow> sys" where
  "pfree n s = phead (\<lambda>h. h\<lparr>slot_free := n\<rparr>) (pnext n (slot_free (fhd s)) (pprev n n s))"

definition give_free :: "slotnum \<Rightarrow> fstate \<Rightarrow> fstate" where
  "give_free n a = a\<lparr>freel := n # freel a\<rparr>"

lemma give_free_simps [simp]:
  "lst (give_free n a) = lst a" "freel (give_free n a) = n # freel a"
  "live (give_free n a) = live a" "active (give_free n a) = active a"
  "listed (give_free n a) = listed a"
  by (simp_all add: give_free_def active_def listed_def fun_eq_iff split: option.split)

lemma wp_free [wps]:
  "wp (speedy_slot_free n) Q s \<longleftrightarrow> okn s n \<and> prv s n \<noteq> n \<and> Q () (pfree n s)"
  by (auto simp: speedy_slot_free_def wps pfree_def okn_def views)

lemma pfree_views [views]:
  "nxt (pfree n s) m = (if m = n then slot_free (fhd s) else nxt s m)"
  "prv (pfree n s) m = (if m = n then n else prv s m)"
  "pay (pfree n s) = pay s" "osv (pfree n s) = osv s" "gr (pfree n s) = gr s"
  "be (pfree n s) = be s" "fe (pfree n s) = fe s" "okn (pfree n s) = okn s"
  "slot_free (fhd (pfree n s)) = n" "slots_alloced (fhd (pfree n s)) = slots_alloced (fhd s)"
  "lock_owner (fhd (pfree n s)) = lock_owner (fhd s)"
  "create_time (fhd (pfree n s)) = create_time (fhd s)"
  "file_removed (fhd (pfree n s)) = file_removed (fhd s)"
  by (auto simp: pfree_def views okn_def fun_eq_iff)

lemma rd_pfree [views]: "in_group r \<noteq> None \<or> r \<in> {GROUP_HEAD, GROUP_TAIL, FE_RUN_HEAD, FE_RUN_TAIL}
    \<Longrightarrow> rd (pfree n s) r = rd s r"
  by (cases r) (auto simp: pfree_def views)

lemma repr_pfree:
  assumes R: "repr a s" and h: "held a s n"
  shows "repr (give_free n a) (pfree n s)"
proof -
  have n: "okn s n" "n \<noteq> 0" "n \<notin> set (freel a)" "n \<notin> live a" "\<And>l. n \<notin> set (lst a l)"
    using h by (auto simp: held_def listed_def okn_def)
  have "repr_sets (give_free n a)"
    using R n by (auto simp: repr_def repr_sets_def)
  moreover have "repr_types (give_free n a) (pfree n s)"
    using R n by (auto simp: repr_def repr_types_def views)
  moreover have "dll (pfree n s) l (lst a l)" if act: "active a l" for l
  proof -
    have "x \<noteq> n" if "x \<in> set (lst a l)" for x using n(5) that by blast
    moreover have "rd (pfree n s) (href l) = rd s (href l)"
      by (rule rd_pfree) (cases l; simp)
    moreover have "rd (pfree n s) r = rd s r" if "tref l = Some r" for r
      by (rule rd_pfree) (use that in \<open>cases l; auto\<close>)
    ultimately have "dll (pfree n s) l (lst a l) = dll s l (lst a l)"
      by (intro dll_frame) (auto simp: views)
    then show ?thesis using repr_dll [OF R act] by simp
  qed
  moreover have "fseg (pfree n s) h (freel a) = fseg s h (freel a)" for h
    by (rule fseg_cong) (use n in \<open>auto simp: views\<close>)
  ultimately show ?thesis
    using R n by (auto simp: repr_def repr_links_def views)
qed

theorem free_spec:
  assumes R: "repr a s" and h: "held a s n"
  shows "wp (speedy_slot_free n)
     (\<lambda>_ t. repr (give_free n a) t \<and> t = pfree n s) s"
  using repr_pfree [OF R h] repr_prv [OF R, of n] h by (auto simp: wps held_def)

lemma free_twice_dies:
  assumes "repr a s" and "n \<in> set (freel a)"
  shows "speedy_slot_free n s = Die (Freeing_free n) s"
proof -
  have "okn s n" using assms by (simp add: repr_def repr_types_def)
  moreover from this have "prv s n = n" using repr_prv [OF assms(1)] assms(2) by simp
  ultimately show ?thesis
    by (simp add: speedy_slot_free_def run_simps speedy_slot_prev_def SLOT_def
        speedy_slot_check_def BAD_SLOTNUM_def okn_def prv_def not_less)
qed

end
