(* ===== verification/FileInv.thy ===== *)
theory FileInv
  imports SlotAlloc
begin

text \<open>
  Signals (\<open>speedy_util_kill\<close> of src/src/speedy_util.c), the removal of socket files
  (\<open>speedy_ipc_cleanup\<close>), and the invariant of the temp file's content that the frontend,
  backend and group code maintains on top of the list structure: a running frontend and the
  backend that serves it point to each other, and pids recorded in the file belong where
  they are.
\<close>

section \<open>Signals\<close>

definition SIGKILL :: int where "SIGKILL = 9"
definition SIGUSR1 :: int where "SIGUSR1 = 10"
definition SIGALRM :: int where "SIGALRM = 14"
definition SIGTERM :: int where "SIGTERM = 15"

definition speedy_util_getpid :: "int io" where
  "speedy_util_getpid = gets mypid"

text \<open>
  The system call: whether it succeeds is up to the environment, which may take everything
  sent so far into account.
\<close>

definition os_kill :: "int \<Rightarrow> int \<Rightarrow> int io" where
  "os_kill pid sig =
     bnd (gets (\<lambda>s. kenv s (klog s) pid sig)) (\<lambda>ok.
     thenM [modify (\<lambda>s. s\<lparr>klog := klog s @ [(pid, sig)]\<rparr>)]
       (ret (if ok then 0 else - 1)))"

definition speedy_util_kill :: "int \<Rightarrow> int \<Rightarrow> int io" where
  "speedy_util_kill pid sig =
     (if pid \<noteq> 0
      then bnd speedy_util_getpid (\<lambda>me. if pid = me then ret 0 else os_kill pid sig)
      else ret (- 1))"

text \<open>\<open>speedy_ipc_cleanup\<close> unlinks the socket file named after the slot number.\<close>

definition speedy_ipc_cleanup :: "slotnum \<Rightarrow> unit io" where
  "speedy_ipc_cleanup n = modify (\<lambda>s. s\<lparr>unlinked := unlinked s @ [n]\<rparr>)"

definition plog :: "int \<Rightarrow> int \<Rightarrow> sys \<Rightarrow> sys" where
  "plog pid sig s = s\<lparr>klog := klog s @ [(pid, sig)]\<rparr>"

definition punlink :: "slotnum \<Rightarrow> sys \<Rightarrow> sys" where
  "punlink n s = s\<lparr>unlinked := unlinked s @ [n]\<rparr>"

definition kill_ok :: "sys \<Rightarrow> int \<Rightarrow> int \<Rightarrow> bool" where
  "kill_ok s pid sig \<longleftrightarrow> pid \<noteq> 0 \<and> (pid = mypid s \<or> kenv s (klog s) pid sig)"

definition kill_state :: "int \<Rightarrow> int \<Rightarrow> sys \<Rightarrow> sys" where
  "kill_state pid sig s = (if pid = 0 \<or> pid = mypid s then s else plog pid sig s)"

lemma wp_kill [wps]:
  "wp (speedy_util_kill pid sig) Q s \<longleftrightarrow>
     Q (if kill_ok s pid sig then 0 else - 1) (kill_state pid sig s)"
  by (auto simp: speedy_util_kill_def speedy_util_getpid_def os_kill_def kill_ok_def
      kill_state_def plog_def wps)

lemma wp_ipc_cleanup [wps]: "wp (speedy_ipc_cleanup n) Q s = Q () (punlink n s)"
  by (simp add: speedy_ipc_cleanup_def punlink_def wps)

text \<open>Neither touches the file.\<close>

definition samefile :: "sys \<Rightarrow> sys \<Rightarrow> bool" where
  "samefile s t \<longleftrightarrow> fhd t = fhd s \<and> slots t = slots s"

lemma samefile_kill [simp]: "samefile s (kill_state pid sig s)" "samefile s (punlink n s)"
  by (simp_all add: samefile_def kill_state_def plog_def punlink_def)

lemma samefile_views:
  assumes "samefile s t"
  shows "pay t = pay s" "nxt t = nxt s" "prv t = prv s" "okn t = okn s" "be t = be s"
    "fe t = fe s" "gr t = gr s" "scr t = scr s" "grnm t = grnm s" "fhd t = fhd s"
    "rd t r = rd s r" "repr a t = repr a s"
proof -
  show v: "pay t = pay s" "nxt t = nxt s" "prv t = prv s" "okn t = okn s" "fhd t = fhd s"
    using assms by (auto simp: fun_eq_iff samefile_def pay_def nxt_def prv_def okn_def)
  show g: "be t = be s" "fe t = fe s" "gr t = gr s" "scr t = scr s" "grnm t = grnm s"
    by (simp_all add: fun_eq_iff be_def fe_def gr_def scr_def grnm_def v)
  show "rd t r = rd s r" by (cases r) (simp_all add: v g)
  show "repr a t = repr a s" using assms by (auto simp: samefile_def intro!: repr_cong)
qed

lemmas kill_views [views] = samefile_views [OF samefile_kill(1)]
lemmas unlink_views [views] = samefile_views [OF samefile_kill(2)]

section \<open>What stays fixed while the lock is held\<close>

definition env :: "sys \<Rightarrow> int \<times> int \<times> ((int \<times> int) list \<Rightarrow> int \<Rightarrow> int \<Rightarrow> bool) \<times> string \<times> int
    \<times> int \<times> answers \<times> plocal" where
  "env s = (maplen s, mypid s, kenv s, o_group s, o_maxbackends s, o_becheck s, orc s, loc s)"

lemma env_osv: "osv t = osv s \<Longrightarrow> env t = env s"
  by (simp add: env_def osv_def)

lemma env_views [views]:
  "env (pnext n v s) = env s" "env (pprev n v s) = env s" "env (ppay n u s) = env s"
  "env (phead f s) = env s" "env (wrt r v s) = env s" "env (pfree n s) = env s"
  "env (alloc_state s) = env s"
  by (rule env_osv; simp add: views)+

lemma env_kill [views]: "env (kill_state pid sig s) = env s" "env (punlink n s) = env s"
  by (simp_all add: env_def kill_state_def plog_def punlink_def)

lemma env_frame: "frame L s t \<Longrightarrow> env t = env s"
  by (rule env_osv) (simp add: frame_def)

lemma env_grow: "grow n s t \<Longrightarrow> env t = env s"
  by (rule env_osv) (simp add: grow_def)

lemma env_proj: "env t = env s \<Longrightarrow> mypid t = mypid s \<and> kenv t = kenv s \<and> maplen t = maplen s \<and>
    o_group t = o_group s \<and> o_maxbackends t = o_maxbackends s \<and> o_becheck t = o_becheck s \<and>
    orc t = orc s \<and> loc t = loc s"
  by (simp add: env_def)

section \<open>Running frontends and their backends\<close>

definition bes :: "fstate \<Rightarrow> slotnum set" where
  "bes a = (\<Union>g. set (lst a (LBe g)))"

definition links :: "fstate \<Rightarrow> sys \<Rightarrow> bool" where
  "links a s \<longleftrightarrow>
     (\<forall>f \<in> set (lst a LFeRun). backend (fe s f) \<noteq> 0 \<longrightarrow>
        backend (fe s f) \<in> bes a \<and> fe_running (be s (backend (fe s f))) = f) \<and>
     (\<forall>b \<in> bes a. fe_running (be s b) \<noteq> 0 \<longrightarrow> fe_running (be s b) \<noteq> b \<longrightarrow>
        fe_running (be s b) \<in> set (lst a LFeRun) \<and> backend (fe s (fe_running (be s b))) = b)"

definition wfile :: "fstate \<Rightarrow> sys \<Rightarrow> bool" where
  "wfile a s \<longleftrightarrow> repr a s \<and> links a s"

lemma wfile_repr: "wfile a s \<Longrightarrow> repr a s"
  by (simp add: wfile_def)

lemma bes_mem:
  assumes "repr a s" and "b \<in> bes a"
  shows "okn s b" "is_be (pay s b)" "b \<noteq> 0" "b \<notin> set (lst a LFeRun)" "b \<notin> live a"
proof -
  obtain g where g: "b \<in> set (lst a (LBe g))" using assms(2) by (auto simp: bes_def)
  show "okn s b" "is_be (pay s b)" "b \<noteq> 0" using repr_mem [OF assms(1) g] by auto
  show "b \<notin> set (lst a LFeRun)" using repr_disjoint [OF assms(1) g] by blast
  show "b \<notin> live a" by (rule repr_not_live [OF assms(1) g]) simp
qed

lemma links_cong:
  assumes "\<And>b. b \<in> bes a \<Longrightarrow> be t b = be s b"
    and "\<And>f. f \<in> set (lst a LFeRun) \<Longrightarrow> fe t f = fe s f"
  shows "links a t = links a s"
  unfolding links_def by (simp add: assms cong: conj_cong ball_cong imp_cong)

lemma links_pay:
  assumes R: "repr a s" and p: "\<And>m. m \<in> bes a \<or> m \<in> set (lst a LFeRun) \<Longrightarrow> pay t m = pay s m"
  shows "links a t = links a s"
  by (rule links_cong) (simp_all add: be_def fe_def p)

lemma links_frame:
  assumes "repr a s" and "frame (live a) s t"
  shows "links a t = links a s"
proof (rule links_pay [OF assms(1)])
  fix m assume "m \<in> bes a \<or> m \<in> set (lst a LFeRun)"
  then have "m \<notin> live a" using assms(1) bes_mem repr_not_live [of a s m LFeRun] by auto
  then show "pay t m = pay s m" using assms(2) by (simp add: frame_def)
qed

text \<open>Operations on other lists do not matter, only who is a backend and who is running.\<close>

lemma links_lists:
  "bes b = bes a \<Longrightarrow> set (lst b LFeRun) = set (lst a LFeRun) \<Longrightarrow> links b s = links a s"
  by (simp add: links_def)

lemma bes_upl_other [simp]: "(\<And>g. l \<noteq> LBe g) \<Longrightarrow> bes (upl l xs a) = bes a"
  unfolding bes_def upl_simps by (metis (no_types, lifting) fun_upd_apply)

lemma bes_upl_same: "set xs = set (lst a (LBe g)) \<Longrightarrow> bes (upl (LBe g) xs a) = bes a"
  by (auto simp: bes_def split: if_splits)

lemma bes_simps [simp]:
  "bes (give_free n a) = bes a" "bes (take_free a) = bes a" "bes (add_live g a) = bes a"
  "bes (del_live g a) = bes a"
  by (simp_all add: bes_def)

lemma links_simps [simp]:
  "links (give_free n a) s = links a s" "links (take_free a) s = links a s"
  "links (add_live g a) s = links a s" "links (del_live g a) s = links a s"
  by (rule links_lists; simp)+

lemma links_samefile: "samefile s t \<Longrightarrow> links a t = links a s"
  by (rule links_cong) (simp_all add: samefile_views)

lemma wfile_samefile: "samefile s t \<Longrightarrow> wfile a t = wfile a s"
  by (simp add: wfile_def samefile_views links_samefile)

lemmas wfile_kill [views] = wfile_samefile [OF samefile_kill(1)]
lemmas wfile_unlink [views] = wfile_samefile [OF samefile_kill(2)]

end
