(* ===== verification/Backends.thy ===== *)
theory Backends
  imports FileInv
begin

text \<open>
  The operations on backend slots (src/src/speedy_backend.c) and the two frontend
  operations they need (\<open>speedy_frontend_dispose\<close> and \<open>speedy_frontend_remove_running\<close> of
  src/src/speedy_frontend.c), with \<open>speedy_group_be_starting\<close> of src/src/speedy_group.c.
\<close>

section \<open>The operations\<close>

text \<open>\<open>&FILE_SLOT(member, n)\<close>: the address alone, with its range check.\<close>

definition slot_addr :: "slotnum \<Rightarrow> unit io" where
  "slot_addr n = bnd (speedy_slot_check n) (\<lambda>_. ret ())"

definition speedy_frontend_dispose :: "slotnum \<Rightarrow> slotnum \<Rightarrow> unit io" where
  "speedy_frontend_dispose gslotnum fslotnum =
     whenM (fslotnum \<noteq> 0)
       (seqM
         [slot_addr gslotnum,
          speedy_slot_remove fslotnum (FE_HEAD gslotnum) (Some (FE_TAIL gslotnum)),
          speedy_slot_free fslotnum])"

definition speedy_frontend_remove_running :: "slotnum \<Rightarrow> unit io" where
  "speedy_frontend_remove_running fslotnum =
     seqM
      [bnd (fe_get fslotnum) (\<lambda>fslot. whenM (backend fslot \<noteq> 0)
         (bnd (be_get (backend fslot)) (\<lambda>bslot. whenM (fe_running bslot = fslotnum)
           (be_upd (backend fslot) (\<lambda>r. r\<lparr>fe_running := backend fslot\<rparr>))))),
       speedy_slot_remove fslotnum FE_RUN_HEAD (Some FE_RUN_TAIL),
       speedy_slot_free fslotnum]"

definition speedy_backend_exited :: "slotnum \<Rightarrow> int \<Rightarrow> int \<Rightarrow> unit io" where
  "speedy_backend_exited bslotnum sig_exit val =
     bnd (be_get bslotnum) (\<lambda>bslot.
     let fslotnum = fe_running bslot in
     whenM (fslotnum \<noteq> 0)
       (seqM
         [be_upd bslotnum (\<lambda>r. r\<lparr>fe_running := bslotnum\<rparr>),
          whenM (fslotnum \<noteq> bslotnum)
           (seqM
             [fe_upd fslotnum (\<lambda>r. r\<lparr>backend := 0, exit_on_sig := sig_exit, exit_val := val\<rparr>),
              bnd (fe_get fslotnum) (\<lambda>fslot.
              bnd (speedy_util_kill (fe_pid fslot) SIGUSR1) (\<lambda>k.
              whenM (k = - 1) (speedy_frontend_remove_running fslotnum)))])]))"

text \<open>The macros of speedy_backend.h and speedy_frontend.h.\<close>

definition speedy_backend_alive :: "slotnum \<Rightarrow> bool io" where
  "speedy_backend_alive b =
     bnd (be_get b) (\<lambda>r. bnd (speedy_util_kill (be_pid r) 0) (\<lambda>k. ret (k \<noteq> - 1)))"

definition speedy_backend_dead :: "slotnum \<Rightarrow> bool io" where
  "speedy_backend_dead b = bnd (speedy_backend_alive b) (\<lambda>x. ret (\<not> x))"

definition speedy_backend_died :: "slotnum \<Rightarrow> unit io" where
  "speedy_backend_died b = speedy_backend_exited b 1 SIGKILL"

definition speedy_frontend_alive :: "slotnum \<Rightarrow> bool io" where
  "speedy_frontend_alive f =
     bnd (fe_get f) (\<lambda>r. bnd (speedy_util_kill (fe_pid r) 0) (\<lambda>k. ret (k \<noteq> - 1)))"

definition speedy_frontend_dead :: "slotnum \<Rightarrow> bool io" where
  "speedy_frontend_dead f = bnd (speedy_frontend_alive f) (\<lambda>x. ret (\<not> x))"

definition speedy_backend_dispose :: "slotnum \<Rightarrow> slotnum \<Rightarrow> unit io" where
  "speedy_backend_dispose gslotnum bslotnum =
     whenM (gslotnum \<noteq> 0 \<and> bslotnum \<noteq> 0)
       (seqM
         [slot_addr gslotnum,
          bnd (be_get bslotnum) (\<lambda>r. whenM (fe_running r \<noteq> 0) (speedy_backend_died bslotnum)),
          speedy_slot_remove bslotnum (BE_HEAD gslotnum) (Some (BE_TAIL gslotnum)),
          speedy_ipc_cleanup bslotnum,
          speedy_slot_free bslotnum])"

definition speedy_group_be_starting :: "slotnum \<Rightarrow> int io" where
  "speedy_group_be_starting gslotnum =
     bnd (gr_get gslotnum) (\<lambda>gslot.
     let pid = be_starting gslot in
     if pid \<noteq> 0
     then bnd (speedy_util_kill pid 0) (\<lambda>k.
       if k \<noteq> - 1 then ret pid
       else thenM [gr_upd gslotnum (\<lambda>r. r\<lparr>be_starting := 0\<rparr>)] (ret 0))
     else ret 0)"

definition speedy_backend_be_wait_get :: "slotnum \<Rightarrow> slotnum io" where
  "speedy_backend_be_wait_get gslotnum =
     bnd (getref (BE_HEAD gslotnum)) (\<lambda>head.
     bnd (speedy_group_be_starting gslotnum) (\<lambda>pid.
     if pid \<noteq> 0 \<or> head = 0 then ret 0
     else bnd (be_get head) (\<lambda>r.
       if fe_running r \<noteq> 0 then ret 0
       else thenM [speedy_slot_move_tail head (BE_HEAD gslotnum) (BE_TAIL gslotnum)]
              (ret head))))"

definition do_sort :: "slotnum \<Rightarrow> slotnum \<Rightarrow> int io" where
  "do_sort bslotnum_a bslotnum_b =
     bnd (be_get bslotnum_a) (\<lambda>a. bnd (be_get bslotnum_b) (\<lambda>b.
     let diff = (if fe_running b \<noteq> 0 then 0 else 1) - (if fe_running a \<noteq> 0 then 0 else 1) in
     ret (if diff \<noteq> 0 then diff else maturity b - maturity a)))"

definition speedy_backend_be_wait_put :: "slotnum \<Rightarrow> slotnum \<Rightarrow> unit io" where
  "speedy_backend_be_wait_put gslotnum bslotnum =
     seqM
      [slot_addr gslotnum,
       be_upd bslotnum (\<lambda>r. r\<lparr>fe_running := 0\<rparr>),
       speedy_slot_remove bslotnum (BE_HEAD gslotnum) (Some (BE_TAIL gslotnum)),
       speedy_slot_insert_sorted bslotnum (BE_HEAD gslotnum) (BE_TAIL gslotnum) do_sort]"

definition speedy_backend_create_slot :: "slotnum \<Rightarrow> slotnum io" where
  "speedy_backend_create_slot gslotnum =
     bnd (speedy_slot_check gslotnum) (\<lambda>_.
     bnd speedy_slot_alloc (\<lambda>bslotnum.
     thenM
      [be_upd bslotnum (\<lambda>r. r\<lparr>fe_running := bslotnum\<rparr>),
       speedy_slot_append bslotnum (BE_HEAD gslotnum) (BE_TAIL gslotnum)]
      (ret bslotnum)))"

primrec remove_be_wait_loop :: "nat \<Rightarrow> slotnum \<Rightarrow> unit io" where
  "remove_be_wait_loop 0 bslotnum = hang"
| "remove_be_wait_loop (Suc fuel) bslotnum =
     (if bslotnum = 0 then ret ()
      else bnd (be_get bslotnum) (\<lambda>r.
        if fe_running r \<noteq> 0 then ret ()
        else bnd (speedy_slot_next bslotnum) (\<lambda>next.
          bnd (speedy_util_kill (be_pid r) SIGTERM) (\<lambda>_.
          remove_be_wait_loop fuel next))))"

definition speedy_backend_remove_be_wait :: "slotnum \<Rightarrow> unit io" where
  "speedy_backend_remove_be_wait gslotnum =
     bnd (gets list_fuel) (\<lambda>fuel.
     bnd (getref (BE_HEAD gslotnum)) (remove_be_wait_loop fuel))"

primrec count_bes_loop :: "nat \<Rightarrow> slotnum \<Rightarrow> int \<Rightarrow> int \<Rightarrow> int io" where
  "count_bes_loop 0 bslotnum count mx = hang"
| "count_bes_loop (Suc fuel) bslotnum count mx =
     (if bslotnum \<noteq> 0 \<and> count < mx
      then bnd (speedy_slot_next bslotnum) (\<lambda>next. count_bes_loop fuel next (count + 1) mx)
      else ret count)"

definition count_bes :: "slotnum \<Rightarrow> int \<Rightarrow> int io" where
  "count_bes gslotnum mx =
     bnd (gets list_fuel) (\<lambda>fuel.
     bnd (getref (BE_HEAD gslotnum)) (\<lambda>head. count_bes_loop fuel head 0 mx))"

definition speedy_backend_below_maxbe :: "slotnum \<Rightarrow> bool io" where
  "speedy_backend_below_maxbe gslotnum =
     bnd (gets o_maxbackends) (\<lambda>m.
     if m = 0 then ret True
     else bnd (count_bes gslotnum m) (\<lambda>c. ret (c < m)))"

lemma wp_slot_addr [wps]: "wp (slot_addr n) Q s \<longleftrightarrow> okn s n \<and> Q () s"
  by (simp add: slot_addr_def wps)

section \<open>What an operation leaves alone\<close>

definition meta :: "sys \<Rightarrow> (int \<times> int) \<times> int \<times> slotnum \<times> bool" where
  "meta s = (create_time (fhd s), lock_owner (fhd s), slots_alloced (fhd s), file_removed (fhd s))"

definition keep :: "slotnum set \<Rightarrow> sys \<Rightarrow> sys \<Rightarrow> bool" where
  "keep L s t \<longleftrightarrow> env t = env s \<and> meta t = meta s \<and> (\<forall>m. m \<notin> L \<longrightarrow> pay t m = pay s m)"

definition cores :: "slotnum set \<Rightarrow> sys \<Rightarrow> sys \<Rightarrow> bool" where
  "cores G s t \<longleftrightarrow> (\<forall>g \<in> G. core (gr t g) = core (gr s g))"

lemma keep_refl [simp, intro]: "keep L s s" by (simp add: keep_def)
lemma cores_refl [simp, intro]: "cores L s s" by (simp add: cores_def)

lemma keep_trans: "keep L s t \<Longrightarrow> keep L t u \<Longrightarrow> keep L s u"
  by (simp add: keep_def)

lemma cores_trans: "cores L s t \<Longrightarrow> cores L t u \<Longrightarrow> cores L s u"
  by (simp add: cores_def)

lemma keep_mono: "keep L s t \<Longrightarrow> L \<subseteq> L' \<Longrightarrow> keep L' s t"
  unfolding keep_def by blast

lemma cores_mono: "cores L s t \<Longrightarrow> L' \<subseteq> L \<Longrightarrow> cores L' s t"
  unfolding cores_def by blast

lemma keep_okn: "keep L s t \<Longrightarrow> okn t = okn s"
  by (auto simp: keep_def meta_def okn_def fun_eq_iff)

lemma keep_pay: "keep L s t \<Longrightarrow> m \<notin> L \<Longrightarrow> pay t m = pay s m"
  by (simp add: keep_def)

lemma keep_room: "keep L s t \<Longrightarrow> room k t = room k s"
  by (simp add: keep_def meta_def env_def room_def)

lemma keep_views:
  assumes "keep L s t" and "m \<notin> L"
  shows "be t m = be s m" "fe t m = fe s m" "gr t m = gr s m" "scr t m = scr s m"
  using keep_pay [OF assms] by (simp_all add: be_def fe_def gr_def scr_def)

lemma keep_frame: "frame L s t \<Longrightarrow> keep L s t"
  using env_frame [of L s t] by (simp add: frame_def keep_def meta_def hdr_def)

lemma cores_frame: "frame L s t \<Longrightarrow> (\<And>g. g \<in> G \<Longrightarrow> is_gr (pay s g)) \<Longrightarrow> cores G s t"
  by (simp add: frame_def cores_def)

lemma keep_pfree [simp]: "keep L s (pfree n t) = keep L s t" "cores G s (pfree n t) = cores G s t"
  by (simp_all add: keep_def meta_def views cores_def)

lemma keep_samefile: "samefile t u \<Longrightarrow> env u = env t \<Longrightarrow> keep L s u = keep L s t"
  by (simp add: keep_def meta_def samefile_views)

lemma cores_samefile: "samefile t u \<Longrightarrow> cores G s u = cores G s t"
  by (simp add: cores_def samefile_views)

lemma keep_env [simp]:
  "keep L s (kill_state p g t) = keep L s t" "cores G s (kill_state p g t) = cores G s t"
  "keep L s (punlink n t) = keep L s t" "cores G s (punlink n t) = cores G s t"
  by (simp_all only: keep_def cores_def meta_def env_kill kill_views unlink_views)

lemma keep_ppay [simp]: "n \<in> L \<Longrightarrow> keep L s (ppay n u t) = keep L s t"
  by (auto simp: keep_def meta_def views)

lemma cores_ppay:
  assumes "n \<notin> G \<or> core (the (as_gr u)) = core (gr t n)"
  shows "cores G s (ppay n u t) = cores G s t"
proof -
  have "core (gr (ppay n u t) g) = core (gr t g)" if "g \<in> G" for g
    using assms that by (cases "g = n") (simp_all add: typed_ppay)
  then show ?thesis by (simp add: cores_def)
qed

lemma repr_cores: "repr a s \<Longrightarrow> frame L s t \<Longrightarrow> cores (live a) s t"
  by (rule cores_frame) (auto dest: repr_live)

end
