(* ===== verification/BackendSpecs.thy ===== *)
theory BackendSpecs
  imports Backends
begin

text \<open>
  Correctness of the backend operations of theory Backends against the invariant \<open>wfile\<close>:
  each of them returns, keeps the lists and the links between running frontends and their
  backends, and changes no more than it says.
\<close>

section \<open>Relations between abstract states\<close>

definition discard :: "lid \<Rightarrow> slotnum \<Rightarrow> fstate \<Rightarrow> fstate" where
  "discard l n a = give_free n (upl l (remove1 n (lst a l)) a)"

lemma discard_simps [simp]:
  "lst (discard l n a) = (lst a)(l := remove1 n (lst a l))" "live (discard l n a) = live a"
  "freel (discard l n a) = n # freel a" "active (discard l n a) = active a"
  by (simp_all add: discard_def)

text \<open>\<open>shrink X a b\<close>: from \<open>a\<close> to \<open>b\<close> only lists of \<open>X\<close> change, and they only lose members.\<close>

definition shrink :: "lid set \<Rightarrow> fstate \<Rightarrow> fstate \<Rightarrow> bool" where
  "shrink X a b \<longleftrightarrow> live b = live a \<and> (\<forall>l. l \<notin> X \<longrightarrow> lst b l = lst a l) \<and>
     (\<forall>l. \<exists>P. lst b l = filter P (lst a l)) \<and>
     set (freel b) \<subseteq> set (freel a) \<union> listed a"

lemma shrink_refl [simp, intro]: "shrink X a a"
  by (auto simp: shrink_def intro: exI [of _ "\<lambda>_. True"])

lemma shrink_filter: "shrink X a b \<Longrightarrow> \<exists>P. lst b l = filter P (lst a l)"
  unfolding shrink_def by blast

lemma shrink_listed: "shrink X a b \<Longrightarrow> listed b \<subseteq> listed a"
proof
  fix n assume s: "shrink X a b" and "n \<in> listed b"
  then obtain l where "n \<in> set (lst b l)" by (auto simp: listed_def)
  moreover obtain P where "lst b l = filter P (lst a l)" using shrink_filter [OF s] by blast
  ultimately show "n \<in> listed a" by (auto simp: listed_def)
qed

lemma shrink_trans:
  assumes "shrink X a b" and "shrink Y b c"
  shows "shrink (X \<union> Y) a c"
proof -
  have "\<exists>P. lst c l = filter P (lst a l)" for l
  proof -
    obtain P Q where "lst b l = filter P (lst a l)" "lst c l = filter Q (lst b l)"
      using shrink_filter [OF assms(1)] shrink_filter [OF assms(2)] by metis
    then have "lst c l = filter (\<lambda>x. P x \<and> Q x) (lst a l)"
      by (simp add: filter_filter conj_commute)
    then show ?thesis by blast
  qed
  then show ?thesis using assms shrink_listed [OF assms(1)] by (auto simp: shrink_def)
qed

lemma shrink_mono: "shrink X a b \<Longrightarrow> X \<subseteq> Y \<Longrightarrow> shrink Y a b"
  unfolding shrink_def by blast

lemma shrink_mem: "shrink X a b \<Longrightarrow> n \<in> set (lst b l) \<Longrightarrow> n \<in> set (lst a l)"
  unfolding shrink_def by (metis filter_is_subset in_mono)

lemma shrink_same: "shrink X a b \<Longrightarrow> l \<notin> X \<Longrightarrow> lst b l = lst a l"
  by (simp add: shrink_def)

lemma shrink_live: "shrink X a b \<Longrightarrow> live b = live a"
  by (simp add: shrink_def)

lemma shrink_held: "shrink X a b \<Longrightarrow> okn t = okn s \<Longrightarrow> held a s n \<Longrightarrow> held b t n"
  using shrink_listed by (auto simp: held_def shrink_def)

lemma shrink_discard:
  assumes "repr a s" and "n \<in> set (lst a l)"
  shows "shrink {l} a (discard l n a)"
proof -
  have "remove1 n (lst a l) = filter (\<lambda>x. x \<noteq> n) (lst a l)"
    using repr_distinct [OF assms(1), of l] by (simp add: distinct_remove1_removeAll removeAll_filter_not_eq)
       (metis)
  then show ?thesis
    using assms(2) by (auto simp: shrink_def listed_def intro: exI [of _ "\<lambda>_. True"])
qed

section \<open>Removing a slot from its list and freeing it\<close>

lemma pfree_punlink: "pfree n (punlink m s) = punlink m (pfree n s)"
  by (simp add: pfree_def punlink_def phead_def pnext_def pprev_def put_slot_def)

lemma remove_held:
  assumes R: "repr a s" and n: "n \<in> set (lst a l)" and l: "l \<noteq> LGroups"
  shows "wp (speedy_slot_remove n (href l) (tref l)) (\<lambda>_ t.
     repr (upl l (remove1 n (lst a l)) a) t \<and> held (upl l (remove1 n (lst a l)) a) t n \<and>
     frame (live a) s t \<and> cores (live a) s t) s"
proof (rule wp_mono [OF remove_repr [OF R n]])
  fix t assume t: "repr (upl l (remove1 n (lst a l)) a) t \<and> frame (live a) s t"
  then have "insertable (upl l (remove1 n (lst a l)) a) t l n"
    using insertable_removed [OF R n] by simp
  then show "repr (upl l (remove1 n (lst a l)) a) t \<and>
      held (upl l (remove1 n (lst a l)) a) t n \<and> frame (live a) s t \<and> cores (live a) s t"
    using t l repr_cores [OF R] by (auto simp: insertable_def held_def)
qed

lemma wp_remove_free:
  assumes R: "repr a s" and n: "n \<in> set (lst a l)" and l: "l \<noteq> LGroups"
    and Q: "\<And>t. repr (discard l n a) (pfree n t) \<Longrightarrow> keep (live a) s t \<Longrightarrow> cores (live a) s t \<Longrightarrow>
      okn t n \<Longrightarrow> prv t n \<noteq> n \<Longrightarrow> Q () t"
  shows "wp (speedy_slot_remove n (href l) (tref l)) Q s"
proof (rule wp_mono [OF remove_held [OF R n l]])
  fix u t let ?b = "upl l (remove1 n (lst a l)) a"
  assume t: "repr ?b t \<and> held ?b t n \<and> frame (live a) s t \<and> cores (live a) s t"
  have "repr (discard l n a) (pfree n t)"
    using repr_pfree [of ?b t n] t by (simp add: discard_def)
  then show "Q u t"
    using t Q repr_prv [of ?b t n] keep_frame by (simp add: held_def)
qed

section \<open>Frames for backends\<close>

text \<open>What the lists of backends are ordered by, and whose process a slot stands for.\<close>

definition bv :: "sys \<Rightarrow> slotnum \<Rightarrow> int \<times> int \<times> bool" where
  "bv s b = (be_pid (be s b), maturity (be s b), fe_running (be s b) = 0)"

definition calm :: "slotnum set \<Rightarrow> slotnum set \<Rightarrow> slotnum set \<Rightarrow> sys \<Rightarrow> sys \<Rightarrow> bool" where
  "calm L G M s t \<longleftrightarrow> keep L s t \<and> cores G s t \<and> (\<forall>m \<in> M. bv t m = bv s m)"

definition busy :: "fstate \<Rightarrow> slotnum set" where
  "busy a = live a \<union> bes a \<union> set (lst a LFeRun)"

lemma calm_refl [simp, intro]: "calm L G M s s" by (simp add: calm_def)

lemma calm_trans: "calm L G M s t \<Longrightarrow> calm L G M t u \<Longrightarrow> calm L G M s u"
  by (auto simp: calm_def intro: keep_trans cores_trans)

lemma calm_mono:
  "calm L G M s t \<Longrightarrow> L \<subseteq> L' \<Longrightarrow> G' \<subseteq> G \<Longrightarrow> M' \<subseteq> M \<Longrightarrow> calm L' G' M' s t"
  by (auto simp: calm_def intro: keep_mono cores_mono)

lemma calm_keep:
  assumes "keep L s t" and "cores G s t" and "L \<inter> M = {}"
  shows "calm L G M s t"
proof -
  have "be t m = be s m" if "m \<in> M" for m
    using keep_views(1) [OF assms(1), of m] assms(3) that by blast
  then show ?thesis using assms by (simp add: calm_def bv_def)
qed

lemma calm_okn: "calm L G M s t \<Longrightarrow> okn t = okn s"
  using keep_okn by (auto simp: calm_def)

lemma calm_env: "calm L G M s t \<Longrightarrow> env t = env s"
  by (simp add: calm_def keep_def)

lemma calm_samefile [simp]:
  "calm L G M s (kill_state p g t) = calm L G M s t" "calm L G M s (punlink n t) = calm L G M s t"
  by (simp_all add: calm_def bv_def kill_views unlink_views)

lemma live_bes_disjoint: "repr a s \<Longrightarrow> live a \<inter> bes a = {}"
  using bes_mem by blast

section \<open>Frontends\<close>

theorem frontend_dispose_spec:
  assumes W: "wfile a s" and f: "f \<in> set (lst a (LFe g))"
  shows "wp (speedy_frontend_dispose g f)
     (\<lambda>_ t. wfile (discard (LFe g) f a) t \<and> calm (live a) (live a) (bes a) s t) s"
proof -
  have R: "repr a s" using W by (rule wfile_repr)
  have g: "okn s g" using repr_active [OF R f] repr_live [OF R] by (auto simp: active_def)
  have f0: "f \<noteq> 0" using repr_mem [OF R f] by simp
  have "wfile (discard (LFe g) f a) t \<and> calm (live a) (live a) (bes a) s t"
    if r: "repr (discard (LFe g) f a) t" and k: "keep (live a) s t" and c: "cores (live a) s t" for t
  proof -
    have "links a t = links a s"
      by (rule links_pay [OF R], rule keep_pay [OF k])
         (use bes_mem [OF R] repr_not_live [OF R, of _ LFeRun] in auto)
    moreover have "links (discard (LFe g) f a) t = links a t"
      by (rule links_lists) (simp_all add: discard_def)
    ultimately have "wfile (discard (LFe g) f a) t" using W r by (simp add: wfile_def)
    then show ?thesis using calm_keep [OF k c live_bes_disjoint [OF R]] by simp
  qed
  note post = this
  have "wp (speedy_slot_remove f (href (LFe g)) (tref (LFe g))) (\<lambda>_. wp (speedy_slot_free f)
      (\<lambda>_ t. wfile (discard (LFe g) f a) t \<and> calm (live a) (live a) (bes a) s t)) s"
    by (rule wp_remove_free [OF R f]) (use post in \<open>simp_all add: wps\<close>)
  then show ?thesis using g f0 by (simp add: speedy_frontend_dispose_def wps)
qed

lemma frontend_dispose_0: "wp (speedy_frontend_dispose g 0) Q s = Q () s"
  by (simp add: speedy_frontend_dispose_def wps)

lemma links_backend:
  "wfile a s \<Longrightarrow> f \<in> set (lst a LFeRun) \<Longrightarrow> backend (fe s f) \<noteq> 0 \<Longrightarrow>
     backend (fe s f) \<in> bes a \<and> fe_running (be s (backend (fe s f))) = f"
  by (simp add: wfile_def links_def)

lemma links_running:
  "wfile a s \<Longrightarrow> b \<in> bes a \<Longrightarrow> fe_running (be s b) \<noteq> 0 \<Longrightarrow> fe_running (be s b) \<noteq> b \<Longrightarrow>
     fe_running (be s b) \<in> set (lst a LFeRun) \<and> backend (fe s (fe_running (be s b))) = b"
  by (simp add: wfile_def links_def)

lemma payable_bes: "repr a s \<Longrightarrow> b \<in> bes a \<Longrightarrow> payable a s b (U_be r)"
  by (auto simp: bes_def payable_be)

text \<open>The state in which \<open>remove_running\<close> has unlinked the frontend from its backend.\<close>

definition unlinked_from :: "slotnum \<Rightarrow> slotnum \<Rightarrow> sys \<Rightarrow> sys" where
  "unlinked_from b f s =
     (if b \<noteq> 0 \<and> fe_running (be s b) = f then ppay b (U_be ((be s b)\<lparr>fe_running := b\<rparr>)) s else s)"

lemma unlinked_from:
  assumes W: "wfile a s" and f: "f \<in> set (lst a LFeRun)" and b: "b = backend (fe s f)"
  defines "t \<equiv> unlinked_from b f s"
  shows "repr a t" and "calm (bes a) (live a) (bes a) s t" and "okn t = okn s"
    and "links (discard LFeRun f a) t" and "b = 0 \<Longrightarrow> t = s"
proof -
  have R: "repr a s" using W by (rule wfile_repr)
  have f0: "f \<noteq> 0" using repr_mem [OF R f] by simp
  have B: "b \<in> bes a" "fe_running (be s b) = f" if "b \<noteq> 0"
    using links_backend [OF W f] b that by auto
  have bL: "b \<notin> live a" if "b \<noteq> 0" using bes_mem [OF R B(1) [OF that]] by simp
  show r: "repr a t"
    using B repr_ppay [OF R payable_bes [OF R]] R by (simp add: t_def unlinked_from_def)
  show "okn t = okn s" by (simp add: t_def unlinked_from_def views)
  show "b = 0 \<Longrightarrow> t = s" by (simp add: t_def unlinked_from_def)
  have be: "be t m = (if b \<noteq> 0 \<and> m = b then (be s b)\<lparr>fe_running := b\<rparr> else be s m)" for m
    using B by (simp add: t_def unlinked_from_def typed_ppay)
  have k: "keep (bes a) s t" "cores (live a) s t"
    using B bL by (simp_all add: t_def unlinked_from_def cores_ppay)
  show "calm (bes a) (live a) (bes a) s t"
    using k B f0 by (auto simp: calm_def bv_def be)
  have fe: "fe t m = fe s m" if "m \<in> set (lst a LFeRun)" for m
    using keep_views(2) [OF k(1)] bes_mem(4) [OF R] that by blast
  have run: "set (lst (discard LFeRun f a) LFeRun) = set (lst a LFeRun) - {f}"
    using repr_distinct [OF R, of LFeRun] by simp
  have bs: "bes (discard LFeRun f a) = bes a" by (simp add: discard_def)
  show "links (discard LFeRun f a) t"
    unfolding links_def run bs
  proof (intro conjI ballI impI)
    fix f' assume f': "f' \<in> set (lst a LFeRun) - {f}" and nz: "backend (fe t f') \<noteq> 0"
    have l: "backend (fe s f') \<in> bes a" "fe_running (be s (backend (fe s f'))) = f'"
      using links_backend [OF W, of f'] f' nz fe [of f'] by auto
    then show "backend (fe t f') \<in> bes a" using fe [of f'] f' by simp
    have "backend (fe s f') \<noteq> b" using l B f' bes_mem(3) [OF R l(1)] by auto
    then show "fe_running (be t (backend (fe t f'))) = f'"
      using l fe [of f'] f' by (auto simp: be)
  next
    fix b' assume b': "b' \<in> bes a" and nz: "fe_running (be t b') \<noteq> 0" "fe_running (be t b') \<noteq> b'"
    have ne: "b = 0 \<or> b' \<noteq> b" using nz by (auto simp: be)
    then have same: "be t b' = be s b'" by (auto simp: be)
    then have l: "fe_running (be s b') \<in> set (lst a LFeRun)"
        "backend (fe s (fe_running (be s b'))) = b'"
      using links_running [OF W b'] nz by auto
    have "fe_running (be s b') \<noteq> f" using l(2) b ne bes_mem(3) [OF R b'] by auto
    then show "fe_running (be t b') \<in> set (lst a LFeRun) - {f}"
        and "backend (fe t (fe_running (be t b'))) = b'"
      using l same fe by auto
  qed
qed

theorem remove_running_spec:
  assumes W: "wfile a s" and f: "f \<in> set (lst a LFeRun)"
  shows "wp (speedy_frontend_remove_running f) (\<lambda>_ t.
     wfile (discard LFeRun f a) t \<and> calm (live a \<union> bes a) (live a) (bes a) s t \<and>
     (backend (fe s f) = 0 \<longrightarrow> keep (live a) s t)) s"
proof -
  have R: "repr a s" using W by (rule wfile_repr)
  let ?b = "backend (fe s f)"
  let ?u = "unlinked_from ?b f s"
  note u = unlinked_from [OF W f refl]
  have ru: "repr a ?u" by (rule u(1))
  have post: "wfile (discard LFeRun f a) (pfree f t) \<and>
      calm (live a \<union> bes a) (live a) (bes a) s (pfree f t) \<and>
      (?b = 0 \<longrightarrow> keep (live a) s (pfree f t))"
    if r: "repr (discard LFeRun f a) (pfree f t)" and k: "keep (live a) ?u t"
      and c: "cores (live a) ?u t" for t
  proof -
    have "links (discard LFeRun f a) (pfree f t) = links (discard LFeRun f a) ?u"
    proof (rule links_cong)
      fix b assume "b \<in> bes (discard LFeRun f a)"
      then have "b \<in> bes a" by (simp add: discard_def)
      then show "be (pfree f t) b = be ?u b"
        using keep_views(1) [OF k] bes_mem(5) [OF R] by (simp add: views)
    next
      fix f' assume "f' \<in> set (lst (discard LFeRun f a) LFeRun)"
      then have "f' \<in> set (lst a LFeRun)" using set_remove1_subset by fastforce
      then have "f' \<notin> live a" using repr_not_live [OF R] by blast
      then show "fe (pfree f t) f' = fe ?u f'"
        using keep_views(2) [OF k] by (simp add: views)
    qed
    then have w: "wfile (discard LFeRun f a) (pfree f t)" using r u(4) by (simp add: wfile_def)
    have "calm (live a) (live a) (bes a) ?u (pfree f t)"
      by (rule calm_keep) (use k c live_bes_disjoint [OF R] in simp_all)
    then have "calm (live a \<union> bes a) (live a) (bes a) s (pfree f t)"
      using u(2) by (auto intro: calm_trans [where t = ?u] elim: calm_mono)
    then show ?thesis using w u(5) k by auto
  qed
  have "wp (speedy_slot_remove f (href LFeRun) (tref LFeRun)) (\<lambda>_. wp (speedy_slot_free f) (\<lambda>_ t.
      wfile (discard LFeRun f a) t \<and> calm (live a \<union> bes a) (live a) (bes a) s t \<and>
      (?b = 0 \<longrightarrow> keep (live a) s t))) ?u"
    by (rule wp_remove_free [OF ru f]) (simp, unfold wp_free, use post in blast)
  moreover have "okn s f" "is_fe (pay s f)" using repr_mem [OF R f] by auto
  moreover have "okn s ?b" "is_be (pay s ?b)" if "?b \<noteq> 0"
    using bes_mem [OF R] links_backend [OF W f that] by auto
  ultimately show ?thesis
    by (auto simp: speedy_frontend_remove_running_def wps unlinked_from_def split: if_splits)
qed

section \<open>A backend that has finished a request or died\<close>

definition exited_state :: "slotnum \<Rightarrow> int \<Rightarrow> int \<Rightarrow> sys \<Rightarrow> sys" where
  "exited_state b x v s =
     (let f = fe_running (be s b); u = ppay b (U_be ((be s b)\<lparr>fe_running := b\<rparr>)) s
      in if f = 0 then s else if f = b then u
         else ppay f (U_fe ((fe s f)\<lparr>backend := 0, exit_on_sig := x, exit_val := v\<rparr>)) u)"

lemma exited_state:
  fixes x v :: int
  assumes W: "wfile a s" and b: "b \<in> bes a"
    and t: "t = exited_state b x v s"
  shows "wfile a t" and "calm (busy a) (live a) (bes a) s t" and "okn t = okn s"
    and "be t m = (if m = b \<and> fe_running (be s b) \<noteq> 0 then (be s b)\<lparr>fe_running := b\<rparr> else
      if m = fe_running (be s b) \<and> m \<noteq> 0 \<and> m \<noteq> b then be t m else be s m)"
    and "m \<in> set (lst a LFeRun) \<Longrightarrow> fe t m = (if m = fe_running (be s b)
      then (fe s m)\<lparr>backend := 0, exit_on_sig := x, exit_val := v\<rparr> else fe s m)"
proof -
  have R: "repr a s" using W by (rule wfile_repr)
  note bm = bes_mem [OF R b]
  let ?f = "fe_running (be s b)"
  have F: "?f \<in> set (lst a LFeRun)" "backend (fe s ?f) = b" "?f \<notin> live a" "?f \<notin> bes a"
    if "?f \<noteq> 0" "?f \<noteq> b"
    using links_running [OF W b that] repr_not_live [OF R, of _ LFeRun] bes_mem(4) [OF R] by auto
  have R1: "repr a (ppay b (U_be r) s)" for r
    by (rule repr_ppay [OF R payable_bes [OF R b]])
  have R2: "repr a (ppay ?f (U_fe q) (ppay b (U_be r) s))" if "?f \<noteq> 0" "?f \<noteq> b" for q r
    by (rule repr_ppay [OF R1 payable_fe_run [OF R1 F(1) [OF that]]])
  have r: "repr a t" using R R1 R2 by (simp add: t exited_state_def Let_def)
  show "okn t = okn s" by (simp add: t exited_state_def Let_def views)
  show be: "be t m = (if m = b \<and> ?f \<noteq> 0 then (be s b)\<lparr>fe_running := b\<rparr> else
      if m = ?f \<and> m \<noteq> 0 \<and> m \<noteq> b then be t m else be s m)" for m
    by (simp add: t exited_state_def Let_def typed_ppay)
  have beB: "be t m = (if m = b \<and> ?f \<noteq> 0 then (be s b)\<lparr>fe_running := b\<rparr> else be s m)"
    if "m \<in> bes a" for m
    using be [of m] F that by (auto split: if_splits)
  show fe: "fe t m = (if m = ?f then (fe s m)\<lparr>backend := 0, exit_on_sig := x, exit_val := v\<rparr>
      else fe s m)" if "m \<in> set (lst a LFeRun)" for m
  proof -
    have "m \<noteq> 0" "m \<noteq> b" using repr_mem [OF R that] bm(4) that by auto
    then show ?thesis by (auto simp: t exited_state_def Let_def typed_ppay)
  qed
  have "keep (busy a) s t" "cores (live a) s t"
    using F b bm by (auto simp: t exited_state_def Let_def busy_def cores_ppay)
  moreover have "bv t m = bv s m" if "m \<in> bes a" for m
    using beB [OF that] bm by (auto simp: bv_def)
  ultimately show "calm (busy a) (live a) (bes a) s t" by (simp add: calm_def)
  have "links a t"
    unfolding links_def
  proof (intro conjI ballI impI)
    fix f assume f: "f \<in> set (lst a LFeRun)" and nz: "backend (fe t f) \<noteq> 0"
    have ne: "f \<noteq> ?f" using nz fe [OF f] by auto
    then have l: "backend (fe s f) \<in> bes a" "fe_running (be s (backend (fe s f))) = f"
      using links_backend [OF W f] nz fe [OF f] by auto
    then have "backend (fe s f) \<noteq> b" using ne by auto
    then show "backend (fe t f) \<in> bes a" "fe_running (be t (backend (fe t f))) = f"
      using l ne fe [OF f] beB [OF l(1)] by auto
  next
    fix c assume c: "c \<in> bes a" and nz: "fe_running (be t c) \<noteq> 0" "fe_running (be t c) \<noteq> c"
    have ne: "c \<noteq> b" using nz beB [OF c] by (auto split: if_splits)
    then have l: "fe_running (be s c) \<in> set (lst a LFeRun)" "backend (fe s (fe_running (be s c))) = c"
      using links_running [OF W c] nz beB [OF c] by auto
    have "fe_running (be s c) \<noteq> ?f"
      using F(2) l ne links_running [OF W c] nz beB [OF c] repr_mem [OF R l(1)] bm(4)
      by (metis)
    then show "fe_running (be t c) \<in> set (lst a LFeRun)" "backend (fe t (fe_running (be t c))) = c"
      using l ne fe [OF l(1)] beB [OF c] by auto
  qed
  then show "wfile a t" using r by (simp add: wfile_def)
qed

theorem exited_spec:
  assumes W: "wfile a s" and b: "b \<in> bes a"
  shows "wp (speedy_backend_exited b x v) (\<lambda>_ t. \<exists>a'. wfile a' t \<and> shrink {LFeRun} a a' \<and>
     calm (busy a) (live a) (bes a) s t \<and> fe_running (be t b) \<in> {0, b} \<and>
     (\<forall>f. f = fe_running (be s b) \<longrightarrow> f \<in> set (lst a' LFeRun) \<longrightarrow>
        fe t f = (fe s f)\<lparr>backend := 0, exit_on_sig := x, exit_val := v\<rparr>) \<and>
     (fe_pid (fe s (fe_running (be s b))) = mypid s \<longrightarrow> mypid s \<noteq> 0 \<longrightarrow> a' = a)) s"
    (is "wp _ ?Q s")
proof -
  have R: "repr a s" using W by (rule wfile_repr)
  note bm = bes_mem [OF R b]
  let ?f = "fe_running (be s b)" and ?t = "exited_state b x v s"
  note e = exited_state [OF W b refl, where x = x and v = v]
  have f: "?f \<in> set (lst a LFeRun)" if "?f \<noteq> 0" "?f \<noteq> b"
    using links_running [OF W b that] by simp
  have tb: "fe_running (be ?t b) = (if ?f = 0 then 0 else b)"
    using e(4) [of b] by auto
  have post: "?Q () u" if u: "u = kill_state p SIGUSR1 ?t \<or> u = ?t" for u p
  proof (intro exI [of _ a] conjI)
    have k: "wfile a u" "calm (busy a) (live a) (bes a) s u" "be u = be ?t" "fe u = fe ?t"
      using u e(1,2) by (auto simp: kill_views wfile_kill)
    show "wfile a u" "calm (busy a) (live a) (bes a) s u" "fe_running (be u b) \<in> {0, b}"
      using k tb by auto
    show "\<forall>f. f = ?f \<longrightarrow> f \<in> set (lst a LFeRun) \<longrightarrow>
        fe u f = (fe s f)\<lparr>backend := 0, exit_on_sig := x, exit_val := v\<rparr>"
      using e(5) k(4) by auto
  qed simp_all
  have gone: "wp (speedy_frontend_remove_running ?f) ?Q u"
    if fz: "?f \<noteq> 0" "?f \<noteq> b" and u: "u = kill_state p SIGUSR1 ?t"
      and p: "p = fe_pid (fe ?t ?f)" and no: "\<not> kill_ok ?t p SIGUSR1" for u p
  proof -
    have me: "\<not> (fe_pid (fe s ?f) = mypid s \<and> mypid s \<noteq> 0)"
      using no p e(5) [OF f [OF fz]] env_proj [OF calm_env [OF e(2)]] by (auto simp: kill_ok_def)
    have W': "wfile a u" using e(1) u by (simp add: wfile_kill)
    have bk: "backend (fe u ?f) = 0" using e(5) [OF f [OF fz]] u by (simp add: kill_views)
    have beu: "be u b = be ?t b" using u by (simp add: kill_views)
    show ?thesis
    proof (rule wp_mono [OF remove_running_spec [OF W' f [OF fz]]])
      fix w t' assume p: "wfile (discard LFeRun ?f a) t' \<and>
         calm (live a \<union> bes a) (live a) (bes a) u t' \<and> (backend (fe u ?f) = 0 \<longrightarrow> keep (live a) u t')"
      have "calm (busy a) (live a) (bes a) s t'"
        using p e(2) u by (auto intro: calm_trans [where t = u] elim!: calm_mono simp: busy_def)
      moreover have "be t' b = be u b"
        using p bk keep_views(1) [of "live a" u t' b] bm(5) by simp
      moreover have "shrink {LFeRun} a (discard LFeRun ?f a)"
        by (rule shrink_discard [OF R f [OF fz]])
      moreover have "?f \<notin> set (lst (discard LFeRun ?f a) LFeRun)"
        using repr_distinct [OF R, of LFeRun] by simp
      ultimately show "?Q w t'" using p tb beu me by (intro exI [of _ "discard LFeRun ?f a"]) auto
    qed
  qed
  have ok: "okn s ?f" "is_fe (pay s ?f)" if "?f \<noteq> 0" "?f \<noteq> b"
    using repr_mem [OF R f [OF that]] by auto
  have run: "wp (speedy_backend_exited b x v) Q s \<longleftrightarrow>
      (if ?f = 0 \<or> ?f = b then Q () ?t
       else let p = fe_pid (fe ?t ?f); u = kill_state p SIGUSR1 ?t
         in if kill_ok ?t p SIGUSR1 then Q () u else wp (speedy_frontend_remove_running ?f) Q u)" for Q
    using bm ok by (auto simp: speedy_backend_exited_def Let_def wps views exited_state_def)
  show ?thesis
    unfolding run using post gone by (auto simp only: Let_def split: if_splits)
qed

section \<open>Disposing of a backend\<close>

lemma bes_discard:
  "repr a s \<Longrightarrow> b \<in> set (lst a (LBe g)) \<Longrightarrow> bes (discard (LBe g) b a) = bes a - {b}"
proof -
  assume R: "repr a s" and b: "b \<in> set (lst a (LBe g))"
  have "b \<in> set (lst a (LBe g')) \<Longrightarrow> g' = g" for g' using repr_disjoint [OF R b] by blast
  then show ?thesis
    using repr_distinct [OF R, of "LBe g"] by (auto simp: bes_def split: if_splits)
qed

lemma dispose_idle:
  assumes W: "wfile a s" and b: "b \<in> set (lst a (LBe g))" and fr: "fe_running (be s b) \<in> {0, b}"
  shows "wp (seqM [speedy_slot_remove b (BE_HEAD g) (Some (BE_TAIL g)), speedy_ipc_cleanup b,
      speedy_slot_free b])
     (\<lambda>_ t. wfile (discard (LBe g) b a) t \<and> calm (live a) (live a) (bes a) s t) s"
proof -
  have R: "repr a s" using W by (rule wfile_repr)
  have bb: "b \<in> bes a" using b by (auto simp: bes_def)
  have post: "wfile (discard (LBe g) b a) (pfree b (punlink b t)) \<and>
      calm (live a) (live a) (bes a) s (pfree b (punlink b t))"
    if r: "repr (discard (LBe g) b a) (pfree b t)" and k: "keep (live a) s t"
      and c: "cores (live a) s t" for t
  proof -
    let ?u = "pfree b t"
    have k': "keep (live a) s ?u" using k by simp
    have be: "be ?u m = be s m" if "m \<in> bes a" for m
      using keep_views(1) [OF k'] bes_mem(5) [OF R that] by blast
    have fe: "fe ?u m = fe s m" if "m \<in> set (lst a LFeRun)" for m
      using keep_views(2) [OF k'] repr_not_live [OF R that] by blast
    have "links (discard (LBe g) b a) ?u"
      unfolding links_def bes_discard [OF R b]
    proof (intro conjI ballI impI)
      fix f assume "f \<in> set (lst (discard (LBe g) b a) LFeRun)" and nz: "backend (fe ?u f) \<noteq> 0"
      then have f: "f \<in> set (lst a LFeRun)" by simp
      have l: "backend (fe s f) \<in> bes a" "fe_running (be s (backend (fe s f))) = f"
        using links_backend [OF W f] nz fe [OF f] by auto
      have "f \<noteq> 0" "f \<noteq> b" using repr_mem [OF R f] bes_mem(4) [OF R bb] f by auto
      then have "backend (fe s f) \<noteq> b" using l fr by auto
      then show "backend (fe ?u f) \<in> bes a - {b}" "fe_running (be ?u (backend (fe ?u f))) = f"
        using l fe [OF f] be by auto
    next
      fix c assume "c \<in> bes a - {b}" and nz: "fe_running (be ?u c) \<noteq> 0" "fe_running (be ?u c) \<noteq> c"
      then have c: "c \<in> bes a" by simp
      have l: "fe_running (be s c) \<in> set (lst a LFeRun)" "backend (fe s (fe_running (be s c))) = c"
        using links_running [OF W c] nz be [OF c] by auto
      then show "fe_running (be ?u c) \<in> set (lst (discard (LBe g) b a) LFeRun)"
          "backend (fe ?u (fe_running (be ?u c))) = c"
        using be [OF c] fe by auto
    qed
    then have "wfile (discard (LBe g) b a) ?u" using r by (simp add: wfile_def)
    then show ?thesis
      using calm_keep [OF k' _ live_bes_disjoint [OF R], of "live a"] c
      by (simp add: pfree_punlink wfile_unlink)
  qed
  have "wp (speedy_slot_remove b (href (LBe g)) (tref (LBe g))) (\<lambda>_. wp (seqM [speedy_ipc_cleanup b,
      speedy_slot_free b]) (\<lambda>_ t. wfile (discard (LBe g) b a) t \<and> calm (live a) (live a) (bes a) s t)) s"
    by (rule wp_remove_free [OF R b]) (simp, simp add: wps unlink_views post)
  then show ?thesis by (simp add: wps)
qed

theorem dispose_spec:
  assumes W: "wfile a s" and b: "b \<in> set (lst a (LBe g))"
  shows "wp (speedy_backend_dispose g b) (\<lambda>_ t. \<exists>a'. wfile a' t \<and> shrink {LFeRun, LBe g} a a' \<and>
     lst a' (LBe g) = remove1 b (lst a (LBe g)) \<and> calm (busy a) (live a) (bes a) s t) s"
proof -
  have R: "repr a s" using W by (rule wfile_repr)
  have bb: "b \<in> bes a" using b by (auto simp: bes_def)
  have g: "okn s g" "g \<noteq> 0" using repr_active [OF R b] repr_live [OF R] by (auto simp: active_def)
  note bm = bes_mem [OF R bb]
  let ?Q = "\<lambda>_ t. \<exists>a'. wfile a' t \<and> shrink {LFeRun, LBe g} a a' \<and>
     lst a' (LBe g) = remove1 b (lst a (LBe g)) \<and> calm (busy a) (live a) (bes a) s t"
  let ?rest = "seqM [speedy_slot_remove b (BE_HEAD g) (Some (BE_TAIL g)), speedy_ipc_cleanup b,
      speedy_slot_free b]"
  have rest: "wp ?rest ?Q t" if w: "wfile c t" and sh: "shrink {LFeRun} a c"
    and cm: "calm (busy a) (live a) (bes a) s t" and fr: "fe_running (be t b) \<in> {0, b}" for c t
  proof -
    have eq: "lst c (LBe g) = lst a (LBe g)" using shrink_same [OF sh] by simp
    have bc: "b \<in> set (lst c (LBe g))" using b eq by simp
    have be: "bes c = bes a" using shrink_same [OF sh] by (simp add: bes_def)
    have lc: "live c = live a" by (rule shrink_live [OF sh])
    show ?thesis
    proof (rule wp_mono [OF dispose_idle [OF w bc fr]])
      fix x u assume p: "wfile (discard (LBe g) b c) u \<and> calm (live c) (live c) (bes c) t u"
      have "calm (busy a) (live a) (bes a) t u"
        by (rule calm_mono [of "live c" "live c" "bes c"]) (use p be lc in \<open>auto simp: busy_def\<close>)
      then have "calm (busy a) (live a) (bes a) s u" by (rule calm_trans [OF cm])
      moreover have "shrink {LFeRun, LBe g} a (discard (LBe g) b c)"
        using shrink_trans [OF sh shrink_discard [OF wfile_repr [OF w] bc]] by (simp add: insert_commute)
      ultimately show "?Q x u" using p eq by (intro exI [of _ "discard (LBe g) b c"]) simp
    qed
  qed
  have "wp (speedy_backend_exited b 1 SIGKILL) (\<lambda>_. wp ?rest ?Q) s"
    by (rule wp_mono [OF exited_spec [OF W bb]]) (use rest in blast)
  moreover have "wp ?rest ?Q s" if "fe_running (be s b) = 0"
    by (rule rest [OF W]) (use that in simp_all)
  ultimately show ?thesis
    using g bm by (simp add: speedy_backend_dispose_def speedy_backend_died_def wps)
qed

end
