(* ===== verification/BackendQueue.thy ===== *)
theory BackendQueue
  imports BackendSpecs
begin

text \<open>
  The backend list of a group as a priority queue: backends waiting for work come first,
  the most mature one at the head. \<open>speedy_backend_be_wait_put\<close> inserts into that order,
  \<open>speedy_backend_be_wait_get\<close> takes the head, \<open>speedy_backend_create_slot\<close> appends a
  backend that is not waiting, and \<open>speedy_backend_remove_be_wait\<close> and \<open>count_bes\<close> walk it.
\<close>

section \<open>The order\<close>

definition waiting :: "sys \<Rightarrow> slotnum \<Rightarrow> bool" where
  "waiting s b \<longleftrightarrow> fe_running (be s b) = 0"

text \<open>\<open>P\<close> holds on a prefix of the list and nowhere after it.\<close>

definition prefix_ok :: "('a \<Rightarrow> bool) \<Rightarrow> 'a list \<Rightarrow> bool" where
  "prefix_ok P xs \<longleftrightarrow> list_all (\<lambda>x. \<not> P x) (dropWhile P xs)"

definition be_order :: "sys \<Rightarrow> slotnum list \<Rightarrow> bool" where
  "be_order s xs \<longleftrightarrow> prefix_ok (waiting s) xs \<and>
     sorted_wrt (\<lambda>x y. maturity (be s y) \<le> maturity (be s x)) (takeWhile (waiting s) xs)"

lemma prefix_ok_simps [simp]:
  "prefix_ok P []" "prefix_ok P (x # xs) \<longleftrightarrow> (if P x then prefix_ok P xs else list_all (\<lambda>y. \<not> P y) xs)"
  by (simp_all add: prefix_ok_def)

lemma prefix_ok_none: "list_all (\<lambda>y. \<not> P y) xs \<Longrightarrow> prefix_ok P xs"
  by (cases xs) auto

lemma prefix_ok_filter: "prefix_ok P xs \<Longrightarrow> prefix_ok P (filter Q xs)"
  by (induction xs) (auto simp: list_all_iff intro: prefix_ok_none)

lemma prefix_ok_append_no: "prefix_ok P xs \<Longrightarrow> \<not> P x \<Longrightarrow> prefix_ok P (xs @ [x])"
  by (induction xs) auto

lemma prefix_ok_cong: "(\<And>x. x \<in> set xs \<Longrightarrow> P x = Q x) \<Longrightarrow> prefix_ok P xs = prefix_ok Q xs"
  by (induction xs) (auto simp: list_all_iff)

lemma takeWhile_prefix_ok: "prefix_ok P xs \<Longrightarrow> takeWhile P xs = filter P xs"
  by (induction xs) (auto simp: list_all_iff filter_empty_conv [symmetric])

lemma be_order_filter_form:
  "be_order s xs \<longleftrightarrow> prefix_ok (waiting s) xs \<and>
     sorted_wrt (\<lambda>x y. maturity (be s y) \<le> maturity (be s x)) (filter (waiting s) xs)"
  using takeWhile_prefix_ok [of "waiting s" xs] by (auto simp: be_order_def)

lemma be_order_filter: "be_order s xs \<Longrightarrow> be_order s (filter P xs)"
proof -
  assume o: "be_order s xs"
  have "filter (waiting s) (filter P xs) = filter P (filter (waiting s) xs)"
    by (simp add: filter_filter conj_commute)
  then show ?thesis
    using o prefix_ok_filter [of "waiting s" xs P] sorted_wrt_filter
    by (simp only: be_order_filter_form) blast
qed

lemma be_order_cong:
  assumes "\<And>x. x \<in> set xs \<Longrightarrow> bv t x = bv s x"
  shows "be_order t xs = be_order s xs"
proof -
  have w: "x \<in> set xs \<Longrightarrow> waiting t x = waiting s x \<and> maturity (be t x) = maturity (be s x)" for x
    using assms [of x] by (auto simp: bv_def waiting_def)
  have f: "filter (waiting t) xs = filter (waiting s) xs" using w by (auto intro: filter_cong)
  have "sorted_wrt (\<lambda>x y. maturity (be t y) \<le> maturity (be t x)) (filter (waiting s) xs) =
      sorted_wrt (\<lambda>x y. maturity (be s y) \<le> maturity (be s x)) (filter (waiting s) xs)"
    by (rule iffI; erule sorted_wrt_mono_rel [rotated]) (use w in auto)
  then show ?thesis
    using prefix_ok_cong [of xs "waiting t" "waiting s"] w f by (auto simp: be_order_filter_form)
qed

lemma be_order_append: "be_order s xs \<Longrightarrow> \<not> waiting s b \<Longrightarrow> be_order s (xs @ [b])"
  by (simp add: be_order_filter_form prefix_ok_append_no)

text \<open>Where \<open>be_wait_put\<close> inserts: behind the waiting backends that are more mature.\<close>

definition before :: "sys \<Rightarrow> slotnum \<Rightarrow> slotnum \<Rightarrow> bool" where
  "before s b m \<longleftrightarrow> waiting s m \<and> maturity (be s b) < maturity (be s m)"

definition put_sorted :: "sys \<Rightarrow> slotnum \<Rightarrow> slotnum list \<Rightarrow> slotnum list" where
  "put_sorted s b xs = takeWhile (before s b) xs @ b # dropWhile (before s b) xs"

lemma set_put_sorted [simp]: "set (put_sorted s b xs) = insert b (set xs)"
  by (metis put_sorted_def Un_insert_right list.simps(15) set_append takeWhile_dropWhile_id)

lemma be_order_put:
  assumes "be_order s xs" and "waiting s b"
  shows "be_order s (put_sorted s b xs)"
  using assms
proof (induction xs)
  case Nil
  then show ?case by (simp add: put_sorted_def be_order_def)
next
  case (Cons x xs)
  have o: "be_order s xs"
    using Cons.prems(1) by (auto simp: be_order_filter_form intro: prefix_ok_none split: if_splits)
  show ?case
  proof (cases "before s b x")
    case True
    then have w: "waiting s x" "maturity (be s b) \<le> maturity (be s x)" by (auto simp: before_def)
    have e: "put_sorted s b (x # xs) = x # put_sorted s b xs" using True by (simp add: put_sorted_def)
    have "maturity (be s y) \<le> maturity (be s x)" if "y \<in> set xs" "waiting s y" for y
      using Cons.prems(1) w that by (auto simp: be_order_filter_form)
    then show ?thesis
      using Cons.IH [OF o Cons.prems(2)] w unfolding e by (auto simp: be_order_filter_form)
  next
    case False
    have e: "put_sorted s b (x # xs) = b # x # xs" using False by (simp add: put_sorted_def)
    have "maturity (be s y) \<le> maturity (be s b)" if y: "y \<in> set (x # xs)" "waiting s y" for y
    proof (cases "waiting s x")
      case True
      then have "maturity (be s x) \<le> maturity (be s b)" using False by (simp add: before_def)
      moreover have "maturity (be s y) \<le> maturity (be s x)"
        using Cons.prems(1) True y by (auto simp: be_order_filter_form)
      ultimately show ?thesis by simp
    next
      case n: False
      then have "list_all (\<lambda>y. \<not> waiting s y) xs" using Cons.prems(1) by (simp add: be_order_def)
      then show ?thesis using y n by (auto simp: list_all_iff)
    qed
    then show ?thesis
      using Cons.prems unfolding e by (auto simp: be_order_filter_form)
  qed
qed

section \<open>Starting backends\<close>

lemma wp_be_starting:
  "wp (speedy_group_be_starting g) Q s \<longleftrightarrow> okn s g \<and> is_gr (pay s g) \<and>
     (let p = be_starting (gr s g); u = kill_state p 0 s in
      if p = 0 then Q 0 s
      else if kill_ok s p 0 then Q p u
      else Q 0 (ppay g (U_gr ((gr s g)\<lparr>be_starting := 0\<rparr>)) u))"
  by (auto simp: speedy_group_be_starting_def Let_def wps views)

lemma wfile_gr:
  assumes W: "wfile a s" and g: "g \<in> live a" and h: "heads r = heads (gr s g)"
  shows "wfile a (ppay g (U_gr r) s)"
proof -
  have R: "repr a s" using W by (rule wfile_repr)
  have "links a (ppay g (U_gr r) s) = links a s"
  proof (rule links_pay [OF R])
    fix m assume m: "m \<in> bes a \<or> m \<in> set (lst a LFeRun)"
    have "g \<notin> bes a" "g \<notin> set (lst a LFeRun)"
      using g bes_mem(5) [OF R] repr_not_live [OF R, of g LFeRun] by auto
    then show "pay (ppay g (U_gr r) s) m = pay s m" using m by (auto simp: views)
  qed
  then show ?thesis
    using W repr_ppay [OF R payable_gr [OF R g h]] by (simp add: wfile_def)
qed

lemma calm_gr: "g \<in> L \<Longrightarrow> g \<notin> M \<Longrightarrow> g \<notin> G \<or> core r = core (gr s g) \<Longrightarrow> calm L G M s (ppay g (U_gr r) s)"
  by (auto simp: calm_def bv_def views cores_ppay)

text \<open>\<open>alone g a s t\<close>: the lists are the same and only the core of group \<open>g\<close> has changed.\<close>

definition coreupd :: "fstate \<Rightarrow> slotnum \<Rightarrow> sys \<Rightarrow> sys \<Rightarrow> bool" where
  "coreupd a g s t \<longleftrightarrow> calm (live a) (live a - {g}) (bes a) s t"

lemma coreupd_trans: "coreupd a g s t \<Longrightarrow> coreupd a g t u \<Longrightarrow> coreupd a g s u"
  by (auto simp: coreupd_def intro: calm_trans)

lemma calm_coreupd: "calm (live a) (live a) (bes a) s t \<Longrightarrow> coreupd a g s t"
  by (auto simp: coreupd_def elim: calm_mono)

lemma coreupd_gr: "repr a s \<Longrightarrow> g \<in> live a \<Longrightarrow> coreupd a g s (ppay g (U_gr r) s)"
  unfolding coreupd_def using live_bes_disjoint by (intro calm_gr) auto

theorem be_starting_spec:
  assumes W: "wfile a s" and g: "g \<in> live a"
  shows "wp (speedy_group_be_starting g) (\<lambda>p t. wfile a t \<and> coreupd a g s t \<and>
     gr t g = (gr s g)\<lparr>be_starting := p\<rparr> \<and>
     (p \<noteq> 0 \<longrightarrow> p = be_starting (gr s g) \<and> kill_ok s p 0)) s"
proof -
  have R: "repr a s" using W by (rule wfile_repr)
  have ok: "okn s g" "is_gr (pay s g)" using repr_live [OF R g] by auto
  let ?u = "kill_state (be_starting (gr s g)) 0 s"
  have Ru: "repr a ?u" "wfile a ?u" using R W by (simp_all add: kill_views wfile_kill)
  have cu: "coreupd a g s ?u" by (simp add: coreupd_def)
  let ?v = "ppay g (U_gr ((gr s g)\<lparr>be_starting := 0\<rparr>)) ?u"
  have "wfile a ?v" by (rule wfile_gr [OF Ru(2) g]) (simp add: heads_def kill_views)
  moreover have "coreupd a g s ?v"
    by (rule coreupd_trans [OF cu coreupd_gr [OF Ru(1) g]])
  ultimately show ?thesis
    using W ok Ru cu by (simp add: wp_be_starting Let_def kill_views typed_ppay coreupd_def)
qed

section \<open>Taking the head and putting back\<close>

lemma wfile_upl_perm:
  assumes W: "wfile a s" and r: "repr (upl (LBe g) xs a) t" and f: "frame (live a) s t"
    and xs: "set xs = set (lst a (LBe g))"
  shows "wfile (upl (LBe g) xs a) t"
proof -
  have "links (upl (LBe g) xs a) t = links a t"
    by (rule links_lists) (simp_all add: bes_upl_same [OF xs])
  then show ?thesis using W r links_frame [OF wfile_repr [OF W] f] by (simp add: wfile_def)
qed

lemma calm_frame:
  assumes "repr a s" and "frame (live a) s t"
  shows "calm (live a) (live a) (bes a) s t"
  by (rule calm_keep) (use assms keep_frame repr_cores live_bes_disjoint in auto)

theorem be_wait_get_spec:
  assumes W: "wfile a s" and g: "g \<in> live a"
  shows "wp (speedy_backend_be_wait_get g) (\<lambda>b t. coreupd a g s t \<and>
     be_parent (gr t g) = be_parent (gr s g) \<and>
     (if b = 0 then wfile a t
      else \<exists>xs. lst a (LBe g) = b # xs \<and> waiting s b \<and> be_starting (gr t g) = 0 \<and>
        wfile (upl (LBe g) (xs @ [b]) a) t)) s"
proof -
  have R: "repr a s" using W by (rule wfile_repr)
  have act: "active a (LBe g)" using g by (simp add: active_def)
  have rf: "refok s (BE_HEAD g)" using repr_refok(1) [OF R act] by simp
  let ?h = "be_head (gr s g)"
  have h: "?h = hd0 (lst a (LBe g))" using repr_head [OF R act] by (simp add: hd0_def)
  have bm: "okn s ?h" "is_be (pay s ?h)" "?h \<in> bes a" "?h \<notin> live a" if "?h \<noteq> 0"
  proof -
    have m: "?h \<in> set (lst a (LBe g))" using that h by (cases "lst a (LBe g)") auto
    then show b: "?h \<in> bes a" by (auto simp: bes_def)
    show "okn s ?h" "is_be (pay s ?h)" "?h \<notin> live a" using bes_mem [OF R b] by auto
  qed
  have step: "wp (if p \<noteq> 0 \<or> ?h = 0 then ret 0 else bnd (be_get ?h) (\<lambda>r.
       if fe_running r \<noteq> 0 then ret 0
       else thenM [speedy_slot_move_tail ?h (BE_HEAD g) (BE_TAIL g)] (ret ?h)))
     (\<lambda>b t. coreupd a g s t \<and> be_parent (gr t g) = be_parent (gr s g) \<and>
     (if b = 0 then wfile a t
      else \<exists>xs. lst a (LBe g) = b # xs \<and> waiting s b \<and> be_starting (gr t g) = 0 \<and>
        wfile (upl (LBe g) (xs @ [b]) a) t)) u"
    if u: "wfile a u" "coreupd a g s u" "gr u g = (gr s g)\<lparr>be_starting := p\<rparr>" for p u
  proof (cases "p \<noteq> 0 \<or> ?h = 0")
    case True
    then show ?thesis using u by (auto simp: wps)
  next
    case False
    have Ru: "repr a u" using u(1) by (rule wfile_repr)
    have k: "keep (live a) s u" using u(2) by (simp add: coreupd_def calm_def)
    have same: "okn u ?h" "is_be (pay u ?h)" "be u ?h = be s ?h"
      using bm False keep_okn [OF k] keep_pay [OF k] keep_views(1) [OF k] by auto
    obtain xs where xs: "lst a (LBe g) = ?h # xs"
      using h False by (cases "lst a (LBe g)") auto
    have mv: "wp (speedy_slot_move_tail ?h (href (LBe g)) (BE_TAIL g))
        (\<lambda>_ t. repr (upl (LBe g) (xs @ [?h]) a) t \<and> frame (live a) u t) u"
      using move_tail_repr [OF Ru, of "LBe g" "BE_TAIL g" ?h] xs by simp
    have perm: "set (xs @ [?h]) = set (lst a (LBe g))" using xs by simp
    have post: "coreupd a g s t \<and> be_parent (gr t g) = be_parent (gr s g) \<and>
        be_starting (gr t g) = 0 \<and> wfile (upl (LBe g) (xs @ [?h]) a) t"
      if t: "repr (upl (LBe g) (xs @ [?h]) a) t" "frame (live a) u t" for t
    proof (intro conjI)
      have "core (gr t g) = core (gr u g)"
        using repr_cores [OF Ru t(2)] g by (simp add: cores_def)
      then show "be_parent (gr t g) = be_parent (gr s g)" "be_starting (gr t g) = 0"
        using u(3) False by (simp_all add: core_def)
      show "coreupd a g s t"
        using u(2) calm_frame [OF Ru t(2)] by (blast intro: coreupd_trans calm_coreupd)
      show "wfile (upl (LBe g) (xs @ [?h]) a) t"
        by (rule wfile_upl_perm [OF u(1) t perm])
    qed
    show ?thesis
    proof (cases "waiting s ?h")
      case True
      then show ?thesis
        using False same wp_mono [OF mv] post xs by (simp add: wps waiting_def)
    next
      case nw: False
      then show ?thesis using False same u by (simp add: wps waiting_def)
    qed
  qed
  have eq: "wp (speedy_backend_be_wait_get g) Q s =
      wp (speedy_group_be_starting g) (\<lambda>p. wp (if p \<noteq> 0 \<or> ?h = 0 then ret 0 else bnd (be_get ?h) (\<lambda>r.
       if fe_running r \<noteq> 0 then ret 0
       else thenM [speedy_slot_move_tail ?h (BE_HEAD g) (BE_TAIL g)] (ret ?h))) Q) s" for Q
    using rf repr_live [OF R g] by (simp add: speedy_backend_be_wait_get_def wps)
  show ?thesis
    unfolding eq by (rule wp_mono [OF be_starting_spec [OF W g]]) (use step in blast)
qed

text \<open>\<open>do_sort\<close> as a function of the state.\<close>

definition sort_key :: "sys \<Rightarrow> slotnum \<Rightarrow> slotnum \<Rightarrow> int" where
  "sort_key s x y =
     (let d = (if waiting s y then 1 else 0) - (if waiting s x then 1 else (0::int))
      in if d \<noteq> 0 then d else maturity (be s y) - maturity (be s x))"

lemma do_sort_Ok:
  assumes "okn s x" "is_be (pay s x)" "okn s y" "is_be (pay s y)"
  shows "do_sort x y s = Ok (sort_key s x y) s"
proof -
  have "wp (do_sort x y) (\<lambda>c t. c = sort_key s x y \<and> t = s) s"
    using assms by (simp add: do_sort_def wps Let_def sort_key_def waiting_def)
  then show ?thesis by (auto dest: wp_imp_Ok)
qed

lemma sort_key_before: "waiting s b \<Longrightarrow> 0 < sort_key s b m \<longleftrightarrow> before s b m"
  by (auto simp: sort_key_def before_def)

theorem be_wait_put_spec:
  assumes W: "wfile a s" and b: "b \<in> set (lst a (LBe g))" and fr: "fe_running (be s b) \<in> {0, b}"
  shows "wp (speedy_backend_be_wait_put g b) (\<lambda>_ t.
     wfile (upl (LBe g) (put_sorted t b (remove1 b (lst a (LBe g)))) a) t \<and>
     waiting t b \<and> be_pid (be t b) = be_pid (be s b) \<and> maturity (be t b) = maturity (be s b) \<and>
     calm (live a \<union> {b}) (live a) (bes a - {b}) s t) s"
proof -
  have R: "repr a s" using W by (rule wfile_repr)
  have bb: "b \<in> bes a" using b by (auto simp: bes_def)
  note bm = bes_mem [OF R bb]
  have act: "active a (LBe g)" by (rule repr_active [OF R b])
  have gl: "okn s g" using act repr_live [OF R] by (simp add: active_def)
  let ?u = "ppay b (U_be ((be s b)\<lparr>fe_running := 0\<rparr>)) s"
  let ?xs = "remove1 b (lst a (LBe g))"
  have Ru: "repr a ?u" by (rule repr_ppay [OF R payable_bes [OF R bb]])
  have cu: "calm (live a \<union> {b}) (live a) (bes a - {b}) s ?u"
    using bm by (simp add: calm_def cores_ppay bv_def views)
  have "links a ?u"
    unfolding links_def
  proof (intro conjI ballI impI)
    fix f assume f: "f \<in> set (lst a LFeRun)" and nz: "backend (fe ?u f) \<noteq> 0"
    have "f \<noteq> b" "f \<noteq> 0" using repr_mem [OF R f] bm(4) f by auto
    then have l: "backend (fe s f) \<in> bes a" "fe_running (be s (backend (fe s f))) = f"
      using links_backend [OF W f] nz by (auto simp: views)
    then have "backend (fe s f) \<noteq> b" using fr \<open>f \<noteq> b\<close> \<open>f \<noteq> 0\<close> by auto
    then show "backend (fe ?u f) \<in> bes a" "fe_running (be ?u (backend (fe ?u f))) = f"
      using l \<open>f \<noteq> b\<close> by (auto simp: views)
  next
    fix c assume c: "c \<in> bes a" and nz: "fe_running (be ?u c) \<noteq> 0" "fe_running (be ?u c) \<noteq> c"
    have "c \<noteq> b" using nz by (auto simp: views)
    then have l: "fe_running (be s c) \<in> set (lst a LFeRun)" "backend (fe s (fe_running (be s c))) = c"
      using links_running [OF W c] nz by (auto simp: views)
    then show "fe_running (be ?u c) \<in> set (lst a LFeRun)" "backend (fe ?u (fe_running (be ?u c))) = c"
      using \<open>c \<noteq> b\<close> bm(4) by (auto simp: views)
  qed
  then have Wu: "wfile a ?u" using Ru by (simp add: wfile_def)
  have post: "wp (speedy_slot_insert_sorted b (BE_HEAD g) (BE_TAIL g) do_sort) (\<lambda>_ t.
     wfile (upl (LBe g) (put_sorted t b ?xs) a) t \<and>
     waiting t b \<and> be_pid (be t b) = be_pid (be s b) \<and> maturity (be t b) = maturity (be s b) \<and>
     calm (live a \<union> {b}) (live a) (bes a - {b}) s t) v"
    if v: "repr (upl (LBe g) ?xs a) v" "frame (live a) ?u v" for v
  proof -
    let ?a = "upl (LBe g) ?xs a"
    have acta: "active ?a (LBe g)" using act by simp
    have beq: "be v m = be ?u m" if "m \<in> bes a" for m
      using keep_views(1) [OF keep_frame [OF v(2)]] bes_mem(5) [OF Ru that] by blast
    have ins: "insertable ?a v (LBe g) b" by (rule insertable_removed [OF Ru b v(2)])
    have cmp: "do_sort b m v = Ok (sort_key v b m) v" if m: "m \<in> set (lst ?a (LBe g))" for m
      by (rule do_sort_Ok) (use ins repr_mem [OF v(1) m] in \<open>auto simp: insertable_def\<close>)
    have wb: "waiting v b" using beq [OF bb] by (simp add: waiting_def views)
    have ps: "takeWhile (\<lambda>m. 0 < sort_key v b m) ?xs @ b # dropWhile (\<lambda>m. 0 < sort_key v b m) ?xs
        = put_sorted v b ?xs"
      by (simp add: put_sorted_def sort_key_before [OF wb])
    have i: "wp (speedy_slot_insert_sorted b (href (LBe g)) (BE_TAIL g) do_sort)
        (\<lambda>_ t. repr (upl (LBe g) (put_sorted v b ?xs) a) t \<and> frame (live a) v t) v"
      using insert_sorted_repr [OF v(1) acta ins, of "BE_TAIL g" do_sort "sort_key v"] cmp ps by simp
    have fin: "wfile (upl (LBe g) (put_sorted t b ?xs) a) t \<and> waiting t b \<and>
        be_pid (be t b) = be_pid (be s b) \<and> maturity (be t b) = maturity (be s b) \<and>
        calm (live a \<union> {b}) (live a) (bes a - {b}) s t"
      if t: "repr (upl (LBe g) (put_sorted v b ?xs) a) t" "frame (live a) v t" for t
    proof -
      have f: "frame (live a) ?u t" by (rule frame_trans [OF v(2) t(2)])
      have be: "be t m = be ?u m" if "m \<in> bes a" for m
        using keep_views(1) [OF keep_frame [OF f]] bes_mem(5) [OF Ru that] by blast
      have xs: "set ?xs \<subseteq> bes a" using set_remove1_subset by (fastforce simp: bes_def)
      have bf: "before t b m = before v b m" if "m \<in> bes a" for m
        using be [OF that] beq [OF that] be [OF bb] beq [OF bb] by (simp add: before_def waiting_def)
      have ps: "put_sorted t b ?xs = put_sorted v b ?xs"
        unfolding put_sorted_def using bf xs by (intro arg_cong2 [where f = append]
          takeWhile_cong arg_cong2 [where f = Cons] dropWhile_cong refl) auto
      have set: "set (put_sorted v b ?xs) = set (lst a (LBe g))"
        using b repr_distinct [OF R, of "LBe g"] by auto
      have w: "wfile (upl (LBe g) (put_sorted t b ?xs) a) t"
        unfolding ps by (rule wfile_upl_perm [OF Wu t(1) f set])
      have "calm (live a) (live a) (bes a) ?u t" by (rule calm_frame [OF Ru f])
      then have "calm (live a \<union> {b}) (live a) (bes a - {b}) s t"
        by (intro calm_trans [OF cu]) (auto elim: calm_mono)
      then show ?thesis using w be [OF bb] by (simp add: waiting_def views)
    qed
    show ?thesis using wp_mono [OF i] fin by simp
  qed
  have rm: "wp (speedy_slot_remove b (href (LBe g)) (tref (LBe g)))
     (\<lambda>_ t. repr (upl (LBe g) ?xs a) t \<and> frame (live a) ?u t) ?u"
    by (rule remove_repr [OF Ru b])
  show ?thesis
    using gl bm wp_mono [OF rm] post by (simp add: speedy_backend_be_wait_put_def wps)
qed

section \<open>A new backend\<close>

text \<open>As \<open>calm\<close>, but slots may have been allocated.\<close>

definition mild :: "slotnum set \<Rightarrow> slotnum set \<Rightarrow> slotnum set \<Rightarrow> sys \<Rightarrow> sys \<Rightarrow> bool" where
  "mild L G M s t \<longleftrightarrow> env t = env s \<and> (\<forall>m. m \<notin> L \<longrightarrow> pay t m = pay s m) \<and> cores G s t \<and>
     (\<forall>m \<in> M. bv t m = bv s m) \<and> (\<forall>m. okn s m \<longrightarrow> okn t m)"

lemma calm_mild: "calm L G M s t \<Longrightarrow> mild L G M s t"
  using keep_okn by (auto simp: calm_def mild_def keep_def)

lemma mild_refl [simp, intro]: "mild L G M s s" by (simp add: mild_def)

lemma mild_trans: "mild L G M s t \<Longrightarrow> mild L G M t u \<Longrightarrow> mild L G M s u"
  by (auto simp: mild_def intro: cores_trans)

lemma mild_mono:
  "mild L G M s t \<Longrightarrow> L \<subseteq> L' \<Longrightarrow> G' \<subseteq> G \<Longrightarrow> M' \<subseteq> M \<Longrightarrow> mild L' G' M' s t"
  by (auto simp: mild_def elim: cores_mono)

lemma mild_grow:
  assumes "grow n s t" and "n \<in> L" and "n \<notin> G" and "n \<notin> M"
  shows "mild L G M s t"
proof -
  have "pay t m = pay s m" if "m \<noteq> n" for m using assms(1) that by (simp add: grow_def)
  then have "be t m = be s m" "gr t m = gr s m" if "m \<noteq> n" for m
    using that by (simp_all add: be_def gr_def)
  moreover have "m \<in> M \<Longrightarrow> m \<noteq> n" "m \<in> G \<Longrightarrow> m \<noteq> n" "m \<notin> L \<Longrightarrow> m \<noteq> n" for m
    using assms(2-4) by auto
  ultimately show ?thesis
    using assms(1) env_grow [OF assms(1)] by (simp add: mild_def grow_def cores_def bv_def)
qed

lemma wfile_take_free:
  assumes W: "wfile a s" and r: "repr (take_free a) t" and gr: "grow n s t" and n: "n \<notin> listed a"
  shows "wfile (take_free a) t"
proof -
  have R: "repr a s" using W by (rule wfile_repr)
  have "links a t = links a s"
  proof (rule links_pay [OF R])
    fix m assume "m \<in> bes a \<or> m \<in> set (lst a LFeRun)"
    then have "m \<noteq> n" using n by (auto simp: bes_def listed_def)
    then show "pay t m = pay s m" using gr by (simp add: grow_def)
  qed
  then show ?thesis using W r by (simp add: wfile_def)
qed

theorem alloc_wfile:
  assumes W: "wfile a s" and room: "room (Suc k) s"
  shows "wp speedy_slot_alloc (\<lambda>n t. wfile (take_free a) t \<and> held (take_free a) t n \<and>
     pay t n = U_zero \<and> grow n s t \<and> room k t \<and> n \<notin> listed a \<and> n \<notin> live a \<and>
     \<not> held a s n \<and> n \<noteq> 0) s"
  by (rule wp_mono [OF alloc_spec [OF wfile_repr [OF W] room]])
     (auto simp: held_def okn_def intro: wfile_take_free [OF W])

lemma wfile_held_pay:
  assumes W: "wfile a s" and h: "held a s n"
  shows "wfile a (ppay n u s)"
proof -
  have R: "repr a s" using W by (rule wfile_repr)
  have "links a (ppay n u s) = links a s"
  proof (rule links_pay [OF R])
    fix m assume "m \<in> bes a \<or> m \<in> set (lst a LFeRun)"
    then have "m \<noteq> n" using h by (auto simp: bes_def held_def listed_def)
    then show "pay (ppay n u s) m = pay s m" by (simp add: views)
  qed
  then show ?thesis using W repr_ppay [OF R payable_held [OF h]] by (simp add: wfile_def)
qed

theorem create_slot_spec:
  assumes W: "wfile a s" and g: "g \<in> live a" and room: "room (Suc k) s"
  shows "wp (speedy_backend_create_slot g) (\<lambda>b t.
     wfile (upl (LBe g) (lst a (LBe g) @ [b]) (take_free a)) t \<and> \<not> waiting t b \<and>
     fe_running (be t b) = b \<and> b \<notin> listed a \<and> b \<notin> live a \<and> \<not> held a s b \<and> room k t \<and>
     mild (live a \<union> {b}) (live a) (bes a) s t) s"
proof -
  have R: "repr a s" using W by (rule wfile_repr)
  let ?c = "take_free a"
  have act: "active ?c (LBe g)" using g by (simp add: active_def)
  have ok: "okn s g" using repr_live [OF R g] by simp
  have post: "wp (seqM [be_upd b (\<lambda>r. r\<lparr>fe_running := b\<rparr>),
        speedy_slot_append b (BE_HEAD g) (BE_TAIL g)]) (\<lambda>_ t.
     wfile (upl (LBe g) (lst a (LBe g) @ [b]) ?c) t \<and> \<not> waiting t b \<and>
     fe_running (be t b) = b \<and> b \<notin> listed a \<and> b \<notin> live a \<and> \<not> held a s b \<and> room k t \<and>
     mild (live a \<union> {b}) (live a) (bes a) s t) t"
    if t: "wfile ?c t" "held ?c t b" "pay t b = U_zero" "grow b s t" "room k t"
      "b \<notin> listed a" "b \<notin> live a" "\<not> held a s b" "b \<noteq> 0" for b t
  proof -
    let ?u = "ppay b (U_be ((be t b)\<lparr>fe_running := b\<rparr>)) t"
    have Wu: "wfile ?c ?u" by (rule wfile_held_pay [OF t(1,2)])
    have Ru: "repr ?c ?u" using Wu by (rule wfile_repr)
    have bb: "b \<notin> bes a" using t(6) by (auto simp: bes_def listed_def)
    have ins: "insertable ?c ?u (LBe g) b"
      using t(2,6,7) by (auto simp: insertable_def held_def views)
    have m: "mild (live a \<union> {b}) (live a) (bes a) s t"
      by (rule mild_grow [OF t(4)]) (use t(7) bb in auto)
    have mu: "mild (live a \<union> {b}) (live a) (bes a) t ?u"
      using t(7) bb by (auto simp: mild_def views bv_def cores_ppay)
    have fin: "wfile (upl (LBe g) (lst a (LBe g) @ [b]) ?c) v \<and> \<not> waiting v b \<and>
        fe_running (be v b) = b \<and> room k v \<and> mild (live a \<union> {b}) (live a) (bes a) s v"
      if v: "repr (upl (LBe g) (lst a (LBe g) @ [b]) ?c) v" "frame (live a) ?u v" for v
    proof -
      let ?d = "upl (LBe g) (lst a (LBe g) @ [b]) ?c"
      have k: "keep (live a) ?u v" by (rule keep_frame [OF v(2)])
      have beb: "be v b = (be t b)\<lparr>fe_running := b\<rparr>"
        using keep_views(1) [OF k t(7)] by (simp add: views)
      have bd: "bes ?d = insert b (bes a)" by (auto simp: bes_def split: if_splits)
      have be: "be v m = be ?u m" if "m \<in> bes a" for m
        using keep_views(1) [OF k] bes_mem(5) [OF R that] by blast
      have fe: "fe v f = fe ?u f" if "f \<in> set (lst a LFeRun)" for f
        using keep_views(2) [OF k] repr_not_live [OF R that] by blast
      have fb: "backend (fe ?u f) \<in> bes a" if "f \<in> set (lst a LFeRun)" "backend (fe ?u f) \<noteq> 0" for f
        using links_backend [OF Wu, of f] that by simp
      have "links ?d v"
        unfolding links_def bd
      proof (intro conjI ballI impI)
        fix f assume f: "f \<in> set (lst ?d LFeRun)" and nz: "backend (fe v f) \<noteq> 0"
        then show "backend (fe v f) \<in> insert b (bes a)" "fe_running (be v (backend (fe v f))) = f"
          using links_backend [OF Wu, of f] fe [of f] be [OF fb] by auto
      next
        fix c assume c: "c \<in> insert b (bes a)" and nz: "fe_running (be v c) \<noteq> 0" "fe_running (be v c) \<noteq> c"
        then have "c \<in> bes a" using beb by auto
        then show "fe_running (be v c) \<in> set (lst ?d LFeRun)" "backend (fe v (fe_running (be v c))) = c"
          using links_running [OF Wu, of c] nz be fe by auto
      qed
      then have "wfile ?d v" using v(1) by (simp add: wfile_def)
      moreover have "mild (live a \<union> {b}) (live a) (bes a) ?u v"
        using calm_mild [OF calm_frame [of ?c ?u v]] Ru v(2) by (auto elim: mild_mono)
      then have "mild (live a \<union> {b}) (live a) (bes a) s v"
        by (blast intro: mild_trans m mu)
      moreover have "room k v" using t(5) keep_room [OF k, of k]
        by (simp add: room_def ppay_def put_slot_def)
      ultimately show ?thesis using beb t(9) by (simp add: waiting_def)
    qed
    have "wp (speedy_slot_append b (href (LBe g)) (BE_TAIL g))
       (\<lambda>_ v. repr (upl (LBe g) (lst a (LBe g) @ [b]) ?c) v \<and> frame (live a) ?u v) ?u"
      using append_repr [OF Ru act _ ins, of "BE_TAIL g"] by simp
    then have "wp (speedy_slot_append b (BE_HEAD g) (BE_TAIL g)) (\<lambda>_ v.
       wfile (upl (LBe g) (lst a (LBe g) @ [b]) ?c) v \<and> \<not> waiting v b \<and>
       fe_running (be v b) = b \<and> b \<notin> listed a \<and> b \<notin> live a \<and> \<not> held a s b \<and> room k v \<and>
       mild (live a \<union> {b}) (live a) (bes a) s v) ?u"
      using fin t(6-8) by (auto elim!: wp_mono)
    moreover have "okn t b" "is_be (pay t b)" using t(2,3) by (auto simp: held_def)
    ultimately show ?thesis by (simp add: wps)
  qed
  have alloc: "wp speedy_slot_alloc (\<lambda>b t. wp (thenM [be_upd b (\<lambda>r. r\<lparr>fe_running := b\<rparr>),
        speedy_slot_append b (BE_HEAD g) (BE_TAIL g)] (ret b)) (\<lambda>b t.
     wfile (upl (LBe g) (lst a (LBe g) @ [b]) ?c) t \<and> \<not> waiting t b \<and>
     fe_running (be t b) = b \<and> b \<notin> listed a \<and> b \<notin> live a \<and> \<not> held a s b \<and> room k t \<and>
     mild (live a \<union> {b}) (live a) (bes a) s t) t) s"
    by (rule wp_mono [OF alloc_wfile [OF W room]]) (elim conjE, unfold wp_thenM wp_ret, rule post; assumption)
  show ?thesis
    unfolding speedy_backend_create_slot_def wp_bnd wp_slot_check using ok alloc by blast
qed

section \<open>Walking the list\<close>

lemma repr_walk:
  assumes "repr a s" and "lst a l = ys @ x # zs"
  shows "okn s x" and "x \<noteq> 0" and "kind l (pay s x)" and "nxt s x = hd0 zs"
  using repr_mem [OF assms(1), of x l] repr_nxt [OF assms] assms(2) by (auto simp: hd0_def)

lemma repr_be_head: "repr a s \<Longrightarrow> g \<in> live a \<Longrightarrow> be_head (gr s g) = hd0 (lst a (LBe g))"
  using repr_head [of a s "LBe g"] by (auto simp: active_def hd0_def)

lemma repr_fe_head: "repr a s \<Longrightarrow> g \<in> live a \<Longrightarrow> fe_head (gr s g) = hd0 (lst a (LFe g))"
  using repr_head [of a s "LFe g"] by (auto simp: active_def hd0_def)

lemma repr_script_head: "repr a s \<Longrightarrow> g \<in> live a \<Longrightarrow> script_head (gr s g) = hd0 (lst a (LScr g))"
  using repr_head [of a s "LScr g"] by (auto simp: active_def hd0_def)

lemma repr_name_slot: "repr a s \<Longrightarrow> g \<in> live a \<Longrightarrow> name_slot (gr s g) = hd0 (lst a (LName g))"
  using repr_head [of a s "LName g"] by (auto simp: active_def hd0_def)

lemma hd0_eq_0: "repr a s \<Longrightarrow> hd0 (lst a l) = 0 \<longleftrightarrow> lst a l = []"
  using repr_mem [of a s "hd (lst a l)" l] by (auto simp: hd0_def)

text \<open>The signals sent: one to each of the backends given, in order.\<close>

definition kill_all :: "slotnum list \<Rightarrow> int \<Rightarrow> sys \<Rightarrow> sys" where
  "kill_all bs sig s = fold (\<lambda>b. kill_state (be_pid (be s b)) sig) bs s"

lemma samefile_trans: "samefile s t \<Longrightarrow> samefile t u \<Longrightarrow> samefile s u"
  by (simp add: samefile_def)

lemma fold_kill:
  "samefile s (fold (\<lambda>b. kill_state (f b) sig) bs s) \<and>
   env (fold (\<lambda>b. kill_state (f b) sig) bs s) = env s \<and>
   klog (fold (\<lambda>b. kill_state (f b) sig) bs s) =
     klog s @ [(f b, sig). b \<leftarrow> bs, f b \<noteq> 0 \<and> f b \<noteq> mypid s]"
proof (induction bs arbitrary: s)
  case (Cons b bs)
  have "samefile s (kill_state (f b) sig s)" by simp
  moreover have "env (kill_state (f b) sig s) = env s" by (simp add: env_kill)
  moreover have "mypid (kill_state (f b) sig s) = mypid s" by (simp add: kill_state_def plog_def)
  moreover have "klog (kill_state (f b) sig s) =
      klog s @ (if f b \<noteq> 0 \<and> f b \<noteq> mypid s then [(f b, sig)] else [])"
    by (simp add: kill_state_def plog_def)
  moreover have "samefile s (fold (\<lambda>b. kill_state (f b) sig) bs (kill_state (f b) sig s))"
    using Cons [of "kill_state (f b) sig s"] samefile_trans [of s "kill_state (f b) sig s"] by simp
  ultimately show ?case using Cons [of "kill_state (f b) sig s"] by auto
qed (simp add: samefile_def)

lemma kill_all:
  "samefile s (kill_all bs sig s)" "env (kill_all bs sig s) = env s"
  "klog (kill_all bs sig s) =
     klog s @ [(be_pid (be s b), sig). b \<leftarrow> bs, be_pid (be s b) \<noteq> 0 \<and> be_pid (be s b) \<noteq> mypid s]"
  using fold_kill [of s "\<lambda>b. be_pid (be s b)" sig bs] by (simp_all add: kill_all_def)

lemma kill_all_step:
  "kill_all bs sig (kill_state (be_pid (be s b)) sig s) = kill_all (b # bs) sig s"
  by (simp add: kill_all_def kill_views)

lemma remove_be_wait_loop:
  assumes "repr a s" and "lst a (LBe g) = ys @ zs" and "length zs < fuel"
  shows "wp (remove_be_wait_loop fuel (hd0 zs)) Q s = Q () (kill_all (takeWhile (waiting s) zs) SIGTERM s)"
  using assms
proof (induction zs arbitrary: ys s fuel)
  case Nil
  then show ?case by (cases fuel) (simp_all add: wps kill_all_def)
next
  case (Cons x zs)
  obtain f where f: "fuel = Suc f" using Cons.prems by (cases fuel) auto
  note x = repr_walk [OF Cons.prems(1,2)]
  let ?u = "kill_state (be_pid (be s x)) SIGTERM s"
  have "wp (remove_be_wait_loop f (hd0 zs)) Q ?u = Q () (kill_all (takeWhile (waiting ?u) zs) SIGTERM ?u)"
    by (rule Cons.IH [of ?u "ys @ [x]"]) (use Cons.prems f in \<open>simp_all add: kill_views\<close>)
  moreover have "waiting ?u = waiting s" by (simp add: fun_eq_iff waiting_def kill_views)
  moreover have "fe_running (be s x) = 0 \<longleftrightarrow> waiting s x" by (simp add: waiting_def)
  ultimately show ?case
    using x by (simp add: f wps kill_all_step) (simp add: kill_all_def)
qed

theorem remove_be_wait_spec:
  assumes R: "repr a s" and g: "g \<in> live a"
  shows "wp (speedy_backend_remove_be_wait g) Q s =
     Q () (kill_all (takeWhile (waiting s) (lst a (LBe g))) SIGTERM s)"
proof -
  have "refok s (BE_HEAD g)" using repr_refok(1) [OF R, of "LBe g"] g by (simp add: active_def)
  then show ?thesis
    using remove_be_wait_loop [OF R, of g "[]" "lst a (LBe g)" "list_fuel s"] repr_fuel [OF R]
      repr_be_head [OF R g] repr_live [OF R g]
    by (simp add: speedy_backend_remove_be_wait_def wps)
qed

lemma count_bes_loop:
  assumes "repr a s" and "lst a (LBe g) = ys @ zs" and "length zs < fuel"
  shows "wp (count_bes_loop fuel (hd0 zs) c m) Q s =
     Q (if c < m then min (c + int (length zs)) m else c) s"
  using assms
proof (induction zs arbitrary: ys fuel c)
  case Nil
  then show ?case by (cases fuel) (simp_all add: wps)
next
  case (Cons x zs)
  obtain f where f: "fuel = Suc f" using Cons.prems by (cases fuel) auto
  note x = repr_walk [OF Cons.prems(1,2)]
  have IH: "wp (count_bes_loop f (hd0 zs) (c + 1) m) Q s =
      Q (if c + 1 < m then min (c + 1 + int (length zs)) m else c + 1) s"
    by (rule Cons.IH [of "ys @ [x]"]) (use Cons.prems f in simp_all)
  have e: "(if c + 1 < m then min (c + 1 + int (length zs)) m else c + 1) =
      min (c + int (length (x # zs))) m" if "c < m"
    using that by auto
  show ?case using x IH e by (auto simp: f wps)
qed

theorem below_maxbe_spec:
  assumes R: "repr a s" and g: "g \<in> live a"
  shows "wp (speedy_backend_below_maxbe g) Q s =
     Q (o_maxbackends s = 0 \<or> int (length (lst a (LBe g))) < o_maxbackends s) s"
proof -
  have r: "refok s (BE_HEAD g)" using repr_refok(1) [OF R, of "LBe g"] g by (simp add: active_def)
  have c: "wp (count_bes g m) Q s =
      Q (if 0 < m then min (int (length (lst a (LBe g)))) m else 0) s" for m Q
    using count_bes_loop [OF R, of g "[]" "lst a (LBe g)" "list_fuel s" 0 m] repr_fuel [OF R]
      repr_be_head [OF R g] r repr_live [OF R g]
    by (simp add: count_bes_def wps)
  have "(if 0 < m then min (int (length (lst a (LBe g)))) m else 0) < m \<longleftrightarrow>
      int (length (lst a (LBe g))) < m" for m
    by auto
  then show ?thesis by (simp add: speedy_backend_below_maxbe_def wps c)
qed

lemma wp_backend_dead [wps]:
  "wp (speedy_backend_dead b) Q s \<longleftrightarrow> okn s b \<and> is_be (pay s b) \<and>
     Q (\<not> kill_ok s (be_pid (be s b)) 0) (kill_state (be_pid (be s b)) 0 s)"
  by (auto simp: speedy_backend_dead_def speedy_backend_alive_def wps)

lemma wp_frontend_dead [wps]:
  "wp (speedy_frontend_dead f) Q s \<longleftrightarrow> okn s f \<and> is_fe (pay s f) \<and>
     Q (\<not> kill_ok s (fe_pid (fe s f)) 0) (kill_state (fe_pid (fe s f)) 0 s)"
  by (auto simp: speedy_frontend_dead_def speedy_frontend_alive_def wps)

end
