(* ===== verification/GroupOps.thy ===== *)
theory GroupOps
  imports BackendQueue
begin

text \<open>
  Groups: src/src/speedy_group.c. A group is valid while it has scripts; invalidating it
  frees its scripts and its name, tells its waiting backends to quit and moves it to the
  tail of the group list. A group without backends and waiting frontends is removed.
\<close>

section \<open>Group names\<close>

text \<open>
  \<open>strncpy\<close> into the 12-byte name and \<open>strncmp\<close> against the option: a C string is the list
  of its characters without the terminating NUL.
\<close>

definition NUL :: char where "NUL = CHR 0x00"

definition strncpy :: "string \<Rightarrow> nat \<Rightarrow> string" where
  "strncpy src n = take n (src @ replicate n NUL)"

fun strncmp_eq :: "string \<Rightarrow> string \<Rightarrow> nat \<Rightarrow> bool" where
  "strncmp_eq a b 0 = True"
| "strncmp_eq a b (Suc n) =
     (let x = (case a of [] \<Rightarrow> NUL | c # _ \<Rightarrow> c); y = (case b of [] \<Rightarrow> NUL | c # _ \<Rightarrow> c) in
      if x \<noteq> y then False else if x = NUL then True else strncmp_eq (tl a) (tl b) n)"

lemma strncmp_take:
  assumes "NUL \<notin> set a" and "NUL \<notin> set b"
  shows "strncmp_eq (strncpy a n) b n \<longleftrightarrow> take n a = take n b"
  using assms
proof (induction n arbitrary: a b)
  case (Suc n)
  have "take k (NUL # replicate n NUL) = replicate k NUL" if "k \<le> n" for k
    using that by (cases k) (simp_all add: min_def)
  then have cut: "take (n - m) (NUL # replicate n NUL) = replicate (n - m) NUL" for m
    by simp
  show ?case
    using Suc by (cases a; cases b) (auto simp: strncpy_def Let_def cut)
qed simp

section \<open>The operations\<close>

definition speedy_group_isvalid :: "slotnum \<Rightarrow> bool io" where
  "speedy_group_isvalid g = bnd (getref (SCRIPT_HEAD g)) (\<lambda>h. ret (h \<noteq> 0))"

text \<open>\<open>DOING_SINGLE_SCRIPT\<close> compares the first five characters of the option one by one.\<close>

definition DOING_SINGLE_SCRIPT :: "sys \<Rightarrow> bool" where
  "DOING_SINGLE_SCRIPT s \<longleftrightarrow> o_group s = ''none''"

definition speedy_group_name_match :: "slotnum \<Rightarrow> bool io" where
  "speedy_group_name_match gslotnum =
     bnd (getref (NAME_SLOT gslotnum)) (\<lambda>nslotnum.
     if nslotnum = 0 then ret False
     else bnd (grnm_get nslotnum) (\<lambda>r.
       gets (\<lambda>s. strncmp_eq (grnm_name r) (o_group s) GR_NAMELEN)))"

primrec free_scripts_loop :: "nat \<Rightarrow> slotnum \<Rightarrow> unit io" where
  "free_scripts_loop 0 snum = hang"
| "free_scripts_loop (Suc fuel) snum =
     (if snum = 0 then ret ()
      else bnd (speedy_slot_next snum) (\<lambda>next.
        bnd (speedy_slot_free snum) (\<lambda>_. free_scripts_loop fuel next)))"

definition speedy_group_invalidate :: "slotnum \<Rightarrow> unit io" where
  "speedy_group_invalidate gslotnum =
     bnd (speedy_slot_check gslotnum) (\<lambda>_.
     bnd (speedy_group_isvalid gslotnum) (\<lambda>valid.
     whenM valid
      (seqM
        [bnd (gets list_fuel) (\<lambda>fuel.
         bnd (getref (SCRIPT_HEAD gslotnum)) (free_scripts_loop fuel)),
         setref (SCRIPT_HEAD gslotnum) 0,
         bnd (getref (NAME_SLOT gslotnum)) (\<lambda>n. whenM (n \<noteq> 0)
           (seqM [speedy_slot_free n, setref (NAME_SLOT gslotnum) 0])),
         speedy_backend_remove_be_wait gslotnum,
         speedy_slot_move_tail gslotnum GROUP_HEAD GROUP_TAIL])))"

primrec sendsigs_loop :: "nat \<Rightarrow> slotnum \<Rightarrow> slotnum \<Rightarrow> unit io" where
  "sendsigs_loop 0 gslotnum fslotnum = hang"
| "sendsigs_loop (Suc fuel) gslotnum fslotnum =
     (if fslotnum = 0 then ret ()
      else bnd (fe_get fslotnum) (\<lambda>fslot.
        bnd (speedy_slot_next fslotnum) (\<lambda>next.
        bnd (speedy_util_kill (fe_pid fslot) SIGALRM) (\<lambda>k.
        if k \<noteq> - 1 then fe_upd fslotnum (\<lambda>r. r\<lparr>sent_sig := 1\<rparr>)
        else bnd (speedy_frontend_dispose gslotnum fslotnum) (\<lambda>_.
          sendsigs_loop fuel gslotnum next)))))"

text \<open>The body of the outer loop ends in \<open>break\<close>: it runs at most once.\<close>

definition speedy_group_sendsigs :: "slotnum \<Rightarrow> unit io" where
  "speedy_group_sendsigs gslotnum =
     bnd (getref (FE_HEAD gslotnum)) (\<lambda>fslotnum.
     bnd (getref (BE_HEAD gslotnum)) (\<lambda>bslotnum.
     if bslotnum \<noteq> 0 \<and> fslotnum \<noteq> 0
     then bnd (be_get bslotnum) (\<lambda>r.
       if fe_running r \<noteq> 0 then ret ()
       else bnd (gets list_fuel) (\<lambda>fuel. sendsigs_loop fuel gslotnum fslotnum))
     else ret ()))"

definition speedy_group_cleanup :: "slotnum \<Rightarrow> unit io" where
  "speedy_group_cleanup gslotnum =
     bnd (gr_get gslotnum) (\<lambda>gslot.
     if be_head gslot \<noteq> 0 \<or> fe_head gslot \<noteq> 0 then ret ()
     else seqM
       [bnd (speedy_util_kill (be_parent gslot) SIGKILL) (\<lambda>_. ret ()),
        speedy_group_invalidate gslotnum,
        speedy_slot_remove gslotnum GROUP_HEAD (Some GROUP_TAIL),
        speedy_slot_free gslotnum])"

definition speedy_group_create :: "slotnum io" where
  "speedy_group_create =
     bnd speedy_slot_alloc (\<lambda>gslotnum.
     thenM
      [speedy_slot_insert gslotnum GROUP_HEAD (Some GROUP_TAIL),
       bnd (gets DOING_SINGLE_SCRIPT) (\<lambda>single. whenM (\<not> single)
        (bnd speedy_slot_alloc (\<lambda>nslotnum.
         seqM
          [setref (NAME_SLOT gslotnum) nslotnum,
           bnd (gets o_group) (\<lambda>group.
             grnm_upd nslotnum (\<lambda>r. r\<lparr>grnm_name := strncpy group GR_NAMELEN\<rparr>))])))]
      (ret gslotnum))"

definition speedy_group_parent_sig :: "slotnum \<Rightarrow> int \<Rightarrow> bool io" where
  "speedy_group_parent_sig gslotnum sig =
     bnd (gr_get gslotnum) (\<lambda>gslot.
     bnd (speedy_util_kill (be_parent gslot) sig) (\<lambda>k.
     if k = - 1
     then thenM
       [speedy_group_invalidate gslotnum,
        gr_upd gslotnum (\<lambda>r. r\<lparr>be_parent := 0\<rparr>)] (ret False)
     else ret True))"

definition speedy_group_start_be :: "slotnum \<Rightarrow> bool io" where
  "speedy_group_start_be gslotnum =
     bnd (gr_get gslotnum) (\<lambda>gslot.
     if be_parent gslot \<noteq> 0 \<and> be_parent gslot = be_starting gslot then ret True
     else speedy_group_parent_sig gslotnum SIGUSR1)"

section \<open>Freeing a chain of slots\<close>

lemma osv_klog: "osv t = osv s \<Longrightarrow> klog t = klog s \<and> mypid t = mypid s"
  by (simp add: osv_def)


definition free_all :: "slotnum list \<Rightarrow> sys \<Rightarrow> sys" where
  "free_all xs s = fold pfree xs s"

lemma free_all_simps [simp]: "free_all [] s = s" "free_all (x # xs) s = free_all xs (pfree x s)"
  by (simp_all add: free_all_def)

lemma free_scripts_loop:
  assumes "dseg s p h zs 0" and "distinct zs" and "length zs < fuel"
    and "\<And>z. z \<in> set zs \<Longrightarrow> okn s z \<and> prv s z \<noteq> z"
  shows "wp (free_scripts_loop fuel h) Q s = Q () (free_all zs s)"
  using assms
proof (induction zs arbitrary: s p h fuel)
  case Nil
  then show ?case by (cases fuel) (simp_all add: wps)
next
  case (Cons z zs)
  obtain f where f: "fuel = Suc f" using Cons.prems by (cases fuel) auto
  have z: "h = z" "z \<noteq> 0" "okn s z" "prv s z \<noteq> z" using Cons.prems by auto
  have "dseg (pfree z s) z (nxt s z) zs 0 = dseg s z (nxt s z) zs 0"
    by (rule dseg_cong) (use Cons.prems in \<open>auto simp: views\<close>)
  then have "wp (free_scripts_loop f (nxt s z)) Q (pfree z s) = Q () (free_all zs (pfree z s))"
    by (intro Cons.IH) (use Cons.prems f in \<open>auto simp: views\<close>)
  then show ?case using z by (simp add: f wps)
qed

definition give_all :: "slotnum list \<Rightarrow> fstate \<Rightarrow> fstate" where
  "give_all xs a = a\<lparr>freel := rev xs @ freel a\<rparr>"

lemma repr_free_all:
  assumes "repr a s" and "distinct xs" and "\<And>x. x \<in> set xs \<Longrightarrow> held a s x"
  shows "repr (give_all xs a) (free_all xs s)"
  using assms
proof (induction xs arbitrary: a s)
  case Nil
  then show ?case by (simp add: give_all_def)
next
  case (Cons x xs)
  have "held (give_free x a) (pfree x s) y" if "y \<in> set xs" for y
    using Cons.prems(2) Cons.prems(3) [of y] that by (auto simp: held_def views)
  then have "repr (give_all xs (give_free x a)) (free_all xs (pfree x s))"
    using Cons.prems repr_pfree by (intro Cons.IH) auto
  then show ?case by (simp add: give_all_def give_free_def)
qed

lemma free_all_views [views]:
  "pay (free_all xs s) = pay s" "osv (free_all xs s) = osv s" "gr (free_all xs s) = gr s"
  "be (free_all xs s) = be s" "fe (free_all xs s) = fe s" "okn (free_all xs s) = okn s"
  "env (free_all xs s) = env s" "meta (free_all xs s) = meta s"
  by (induction xs arbitrary: s; simp add: views meta_def)+

lemma pfree_ppay: "pfree n (ppay g u s) = ppay g u (pfree n s)"
  by (rule sys.equality) (simp_all add: pfree_def upd_defs fun_eq_iff)

lemma pfree_wrt:
  assumes "in_group r \<noteq> None"
  shows "pfree n (wrt r v s) = wrt r v (pfree n s)"
  using assms by (cases r) (simp_all add: pfree_ppay views)

lemma free_all_ppay: "free_all xs (ppay g u s) = ppay g u (free_all xs s)"
  by (induction xs arbitrary: s) (simp_all add: pfree_ppay)

lemma free_all_wrt:
  "in_group r \<noteq> None \<Longrightarrow> free_all xs (wrt r v s) = wrt r v (free_all xs s)"
  by (induction xs arbitrary: s) (simp_all add: pfree_wrt)

text \<open>A list with no tail pointer is emptied and its slots are freed.\<close>

definition cut :: "lid \<Rightarrow> fstate \<Rightarrow> fstate" where
  "cut l a = give_all (lst a l) (upl l [] a)"

lemma cut_simps [simp]:
  "lst (cut l a) = (lst a)(l := [])" "live (cut l a) = live a"
  "freel (cut l a) = rev (lst a l) @ freel a" "active (cut l a) = active a"
  by (simp_all add: cut_def give_all_def upl_def active_def fun_eq_iff split: option.split)

lemma bes_cut [simp]: "(\<And>g. l \<noteq> LBe g) \<Longrightarrow> bes (cut l a) = bes a"
  using bes_upl_other [of l "[]" a] by (simp add: bes_def cut_def give_all_def)

lemma repr_cut:
  assumes R: "repr a s" and act: "active a l" and l: "tref l = None" "owner l = Some g"
  shows "repr (cut l a) (free_all (lst a l) (wrt (href l) 0 s))"
    and "calm (live a) (live a) (bes a) s (free_all (lst a l) (wrt (href l) 0 s))"
proof -
  let ?u = "wrt (href l) 0 s"
  have u: "repr (upl l [] a) ?u \<and> frame (live a) s ?u"
  proof (rule repr_upl [OF R act lk_wrt_href [OF lk_refl], where X = "{}"])
    show "dll ?u l []" using l by (simp add: dll_def rd_wrt)
    show "nxt ?u m = nxt s m \<and> prv ?u m = prv s m" for m
      using href_not_next by (simp add: nxt_wrt prv_wrt)
  qed simp_all
  have h: "held (upl l [] a) ?u x" if x: "x \<in> set (lst a l)" for x
  proof -
    have "okn ?u x" using repr_mem [OF R x] by (simp add: okn_wrt)
    moreover have "x \<notin> listed (upl l [] a)"
      using repr_disjoint [OF R x] by (auto simp: listed_def split: if_splits)
    moreover have "l \<noteq> LGroups" using l by auto
    ultimately show ?thesis
      using repr_not_free [OF R x] repr_not_live [OF R x] by (auto simp: held_def)
  qed
  show "repr (cut l a) (free_all (lst a l) ?u)"
    unfolding cut_def using repr_free_all [OF conjunct1 [OF u] repr_distinct [OF R] h] .
  have "calm (live a) (live a) (bes a) s ?u" using calm_frame [OF R] u by simp
  then show "calm (live a) (live a) (bes a) s (free_all (lst a l) ?u)"
    by (simp add: calm_def keep_def cores_def bv_def views)
qed

lemma links_calm:
  assumes R: "repr a s" and c: "calm (live a) G M s t"
  shows "links a t = links a s"
proof (rule links_pay [OF R])
  fix m assume "m \<in> bes a \<or> m \<in> set (lst a LFeRun)"
  then have "m \<notin> live a" using bes_mem(5) [OF R] repr_not_live [OF R, of _ LFeRun] by auto
  then show "pay t m = pay s m" using c by (simp add: calm_def keep_def)
qed

lemma calm_samefile':
  assumes "samefile t u" and "env u = env t"
  shows "calm L G M s u = calm L G M s t"
  by (simp add: calm_def keep_def cores_def bv_def meta_def assms(2) samefile_views [OF assms(1)])

section \<open>Invalidation\<close>

definition inval :: "slotnum \<Rightarrow> fstate \<Rightarrow> fstate" where
  "inval g a = (if lst a (LScr g) = [] then a
     else upl LGroups (remove1 g (lst a LGroups) @ [g]) (cut (LName g) (cut (LScr g) a)))"

lemma wp_isvalid [wps]:
  "wp (speedy_group_isvalid g) Q s \<longleftrightarrow> okn s g \<and> is_gr (pay s g) \<and> Q (script_head (gr s g) \<noteq> 0) s"
  by (auto simp: speedy_group_isvalid_def wps refok_def)

lemma isvalid_lists: "repr a s \<Longrightarrow> g \<in> live a \<Longrightarrow> script_head (gr s g) \<noteq> 0 \<longleftrightarrow> lst a (LScr g) \<noteq> []"
  using repr_script_head hd0_eq_0 by simp

lemma wp_free_script_list:
  assumes R: "repr a s" and g: "g \<in> live a"
  shows "wp (bnd (gets list_fuel) (\<lambda>fuel. bnd (getref (SCRIPT_HEAD g)) (free_scripts_loop fuel))) Q s =
     Q () (free_all (lst a (LScr g)) s)"
proof -
  have act: "active a (LScr g)" using g by (simp add: active_def)
  have d: "dseg s 0 (script_head (gr s g)) (lst a (LScr g)) 0"
    using repr_dll [OF R act] by (simp add: dll_def)
  have "okn s z \<and> prv s z \<noteq> z" if "z \<in> set (lst a (LScr g))" for z
    using repr_mem [OF R that] repr_prv [OF R] repr_not_free [OF R that] by blast
  then have "wp (free_scripts_loop (list_fuel s) (script_head (gr s g))) Q s =
      Q () (free_all (lst a (LScr g)) s)"
    using repr_distinct [OF R] repr_fuel [OF R] by (intro free_scripts_loop [OF d]) auto
  then show ?thesis using repr_live [OF R g] by (simp add: wps refok_def)
qed

theorem invalidate_spec:
  assumes W: "wfile a s" and g: "g \<in> live a" and gl: "g \<in> set (lst a LGroups)"
  shows "wp (speedy_group_invalidate g) (\<lambda>_ t. wfile (inval g a) t \<and>
     calm (live a) (live a) (bes a) s t \<and>
     klog t = klog s @ (if lst a (LScr g) = [] then [] else
       [(be_pid (be s b), SIGTERM). b \<leftarrow> takeWhile (waiting s) (lst a (LBe g)),
          be_pid (be s b) \<noteq> 0 \<and> be_pid (be s b) \<noteq> mypid s])) s"
proof (cases "lst a (LScr g) = []")
  case True
  have R: "repr a s" using W by (rule wfile_repr)
  then show ?thesis
    using True W repr_live [OF R g] isvalid_lists [OF R g]
    by (simp add: speedy_group_invalidate_def wps inval_def)
next
  case False
  have R: "repr a s" using W by (rule wfile_repr)
  have gok: "okn s g" "is_gr (pay s g)" using repr_live [OF R g] by auto
  let ?a1 = "cut (LScr g) a" and ?a2 = "cut (LName g) (cut (LScr g) a)"
  define u1 where "u1 = free_all (lst a (LScr g)) (wrt (SCRIPT_HEAD g) 0 s)"
  define u2 where "u2 = free_all (lst a (LName g)) (wrt (NAME_SLOT g) 0 u1)"
  have s1: "repr ?a1 u1" "calm (live a) (live a) (bes a) s u1"
    using repr_cut [OF R, of "LScr g" g] g by (auto simp: active_def u1_def)
  have s2: "repr ?a2 u2" "calm (live a) (live a) (bes a) u1 u2"
    using repr_cut [OF s1(1), of "LName g" g] g by (auto simp: active_def u2_def)
  have c2: "calm (live a) (live a) (bes a) s u2" by (rule calm_trans [OF s1(2) s2(2)])
  have g1: "okn u1 g" "is_gr (pay u1 g)" "g \<in> live ?a1" using repr_live [OF s1(1), of g] g by auto
  have g2: "okn u2 g" "is_gr (pay u2 g)" "g \<in> live ?a2" using repr_live [OF s2(1), of g] g by auto
  have run1: "wp (bnd (gets list_fuel) (\<lambda>fuel. bnd (getref (SCRIPT_HEAD g)) (free_scripts_loop fuel)))
      (\<lambda>_. wp (setref (SCRIPT_HEAD g) 0) Q) s = Q () u1" for Q
    using gok by (subst wp_free_script_list [OF R g]) (simp add: wps refok_def views free_all_ppay u1_def)
  have ns: "name_slot (gr u1 g) = hd0 (lst a (LName g))"
    using repr_name_slot [OF s1(1), of g] g by simp
  have run2: "wp (bnd (getref (NAME_SLOT g)) (\<lambda>n. whenM (n \<noteq> 0)
      (seqM [speedy_slot_free n, setref (NAME_SLOT g) 0]))) Q u1 = Q () u2" for Q
  proof (cases "lst a (LName g)")
    case Nil
    then have z: "name_slot (gr u1 g) = 0" using ns by simp
    have "wrt (NAME_SLOT g) 0 u1 = u1"
    proof -
      have "pay u1 g = U_gr (gr u1 g) \<or> pay u1 g = U_zero"
        using g1(2) by (cases "pay u1 g") (auto simp: gr_def is_gr_def)
      moreover have "pay u1 g \<noteq> U_zero" by (simp add: views u1_def)
      ultimately have "pay u1 g = U_gr (gr u1 g)" by blast
      moreover have "(gr u1 g)\<lparr>name_slot := 0\<rparr> = gr u1 g" using z by simp
      ultimately have "U_gr ((gr u1 g)\<lparr>name_slot := 0\<rparr>) = pay u1 g" by simp
      then show ?thesis
        by (simp add: ppay_def put_slot_def pay_def)
    qed
    then show ?thesis using Nil z g1 by (simp add: wps refok_def u2_def)
  next
    case (Cons n ns')
    then have "ns' = []" using repr_name [OF R, of g] by simp
    then have l: "lst a (LName g) = [n]" using Cons by simp
    have n: "n \<in> set (lst ?a1 (LName g))" using l by simp
    have "okn u1 n" "prv u1 n \<noteq> n" "n \<noteq> 0"
      using repr_mem [OF s1(1) n] repr_prv [OF s1(1)] repr_not_free [OF s1(1) n] by auto
    then show ?thesis
      using l ns g1 by (simp add: wps refok_def views pfree_ppay u2_def)
  qed
  let ?ws = "takeWhile (waiting u2) (lst a (LBe g))"
  define u3 where "u3 = kill_all ?ws SIGTERM u2"
  have sf: "samefile u2 u3" "env u3 = env u2" by (simp_all add: u3_def kill_all)
  have run3: "wp (speedy_backend_remove_be_wait g) Q u2 = Q () u3" for Q
    using remove_be_wait_spec [OF s2(1) g2(3)] by (simp add: u3_def)
  have r3: "repr ?a2 u3" using s2(1) samefile_views(12) [OF sf(1)] by simp
  have c3: "calm (live a) (live a) (bes a) s u3"
    using c2 calm_samefile' [OF sf] by simp
  have bb: "bv u2 b = bv s b" if "b \<in> set (lst a (LBe g))" for b
    using c2 that by (auto simp: calm_def bes_def)
  have ws: "?ws = takeWhile (waiting s) (lst a (LBe g))"
    using bb by (intro takeWhile_cong) (auto simp: bv_def waiting_def)
  have kl2: "klog u2 = klog s" "mypid u2 = mypid s" 
  proof -
    have "osv u2 = osv s" by (simp add: u1_def u2_def views)
    then show "klog u2 = klog s" "mypid u2 = mypid s" using osv_klog by blast+
  qed
  have pid: "be_pid (be u2 b) = be_pid (be s b)" if "b \<in> set ?ws" for b
    using bb set_takeWhileD [OF that] by (auto simp: bv_def)
  have kl: "klog u3 = klog s @ [(be_pid (be s b), SIGTERM). b \<leftarrow> takeWhile (waiting s) (lst a (LBe g)),
          be_pid (be s b) \<noteq> 0 \<and> be_pid (be s b) \<noteq> mypid s]"
  proof -
    have "map (\<lambda>b. if be_pid (be u2 b) \<noteq> 0 \<and> be_pid (be u2 b) \<noteq> mypid s
            then [(be_pid (be u2 b), SIGTERM)] else []) ?ws =
          map (\<lambda>b. if be_pid (be s b) \<noteq> 0 \<and> be_pid (be s b) \<noteq> mypid s
            then [(be_pid (be s b), SIGTERM)] else []) ?ws"
      by (rule map_cong [OF refl]) (simp add: pid)
    then show ?thesis by (simp only: u3_def kill_all(3) kl2 ws)
  qed
  have mv: "wp (speedy_slot_move_tail g (href LGroups) GROUP_TAIL)
     (\<lambda>_ t. repr (upl LGroups (remove1 g (lst ?a2 LGroups) @ [g]) ?a2) t \<and> frame (live ?a2) u3 t) u3"
    by (rule move_tail_repr [OF r3]) (use gl in simp_all)
  have "wfile (inval g a) t \<and> calm (live a) (live a) (bes a) s t \<and> klog t = klog u3"
    if t: "repr (upl LGroups (remove1 g (lst ?a2 LGroups) @ [g]) ?a2) t" "frame (live ?a2) u3 t" for t
  proof -
    have "calm (live a) (live a) (bes a) u3 t" using calm_frame [OF r3] t by simp
    then have c: "calm (live a) (live a) (bes a) s t" by (rule calm_trans [OF c3])
    have "links (inval g a) t = links a t" by (rule links_lists) (simp_all add: inval_def)
    then have "links (inval g a) t" using links_calm [OF R c] W by (simp add: wfile_def)
    moreover have "repr (inval g a) t" using t(1) False by (simp add: inval_def)
    moreover have "klog t = klog u3" using t(2) by (simp add: frame_def osv_def)
    ultimately show ?thesis using c by (simp add: wfile_def)
  qed
  then have fin: "wp (speedy_slot_move_tail g GROUP_HEAD GROUP_TAIL) (\<lambda>_ t. wfile (inval g a) t \<and>
     calm (live a) (live a) (bes a) s t \<and>
     klog t = klog s @ (if lst a (LScr g) = [] then [] else
       [(be_pid (be s b), SIGTERM). b \<leftarrow> takeWhile (waiting s) (lst a (LBe g)),
          be_pid (be s b) \<noteq> 0 \<and> be_pid (be s b) \<noteq> mypid s])) u3"
    using wp_mono [OF mv] False kl by simp
  have valid: "script_head (gr s g) \<noteq> 0" using isvalid_lists [OF R g] False by simp
  have body: "wp (seqM
        [bnd (gets list_fuel) (\<lambda>fuel. bnd (getref (SCRIPT_HEAD g)) (free_scripts_loop fuel)),
         setref (SCRIPT_HEAD g) 0,
         bnd (getref (NAME_SLOT g)) (\<lambda>n. whenM (n \<noteq> 0)
           (seqM [speedy_slot_free n, setref (NAME_SLOT g) 0])),
         speedy_backend_remove_be_wait g,
         speedy_slot_move_tail g GROUP_HEAD GROUP_TAIL]) Q s =
      wp (speedy_slot_move_tail g GROUP_HEAD GROUP_TAIL) Q u3" for Q
    by (simp only: wp_seqM_Cons wp_seqM_Nil run1 run2 run3 unit_abs_eta_conv)
  have "wp (speedy_group_invalidate g) Q s = wp (speedy_slot_move_tail g GROUP_HEAD GROUP_TAIL) Q u3" for Q
    unfolding speedy_group_invalidate_def wp_bnd wp_slot_check wp_isvalid wp_whenM body
    using gok valid by simp
  then show ?thesis using fin by simp
qed

end
