(* ===== verification/GroupSpecs.thy ===== *)
theory GroupSpecs
  imports GroupOps
begin

text \<open>
  Correctness of the group operations of theory GroupOps: signalling the parent, waking up a
  waiting frontend, removing an unused group and creating a new one.
\<close>

section \<open>The abstract effect of invalidation\<close>

lemma inval_simps [simp]:
  "live (inval g a) = live a" "bes (inval g a) = bes a"
  "lst (inval g a) (LBe h) = lst a (LBe h)" "lst (inval g a) (LFe h) = lst a (LFe h)"
  "lst (inval g a) LFeRun = lst a LFeRun" "lst (inval g a) (LScr g) = []"
  "h \<noteq> g \<Longrightarrow> lst (inval g a) (LScr h) = lst a (LScr h)"
  "h \<noteq> g \<Longrightarrow> lst (inval g a) (LName h) = lst a (LName h)"
  by (simp_all add: inval_def)

lemma inval_groups [simp]:
  "g \<in> set (lst a LGroups) \<Longrightarrow> repr a s \<Longrightarrow> set (lst (inval g a) LGroups) = set (lst a LGroups)"
  using repr_distinct [of a s LGroups] by (auto simp: inval_def)

section \<open>Signalling the parent\<close>

theorem parent_sig_spec:
  assumes W: "wfile a s" and g: "g \<in> live a" and gl: "g \<in> set (lst a LGroups)"
  shows "wp (speedy_group_parent_sig g sig) (\<lambda>ok t. coreupd a g s t \<and>
     ok = kill_ok s (be_parent (gr s g)) sig \<and>
     (if ok then wfile a t \<and> gr t g = gr s g
      else wfile (inval g a) t \<and> be_parent (gr t g) = 0 \<and>
        be_starting (gr t g) = be_starting (gr s g))) s"
    (is "wp _ ?Q s")
proof -
  have R: "repr a s" using W by (rule wfile_repr)
  have ok: "okn s g" "is_gr (pay s g)" using repr_live [OF R g] by auto
  let ?p = "be_parent (gr s g)"
  let ?u = "kill_state ?p sig s"
  have Wu: "wfile a ?u" and Ru: "repr a ?u" using W R by (simp_all add: wfile_kill kill_views)
  have cu: "coreupd a g s ?u" by (simp add: coreupd_def)
  have fail: "wp (speedy_group_invalidate g) (\<lambda>_ v. okn v g \<and> is_gr (pay v g) \<and>
      ?Q False (ppay g (U_gr ((gr v g)\<lparr>be_parent := 0\<rparr>)) v)) ?u"
    if no: "\<not> kill_ok s ?p sig"
  proof (rule wp_mono [OF invalidate_spec [OF Wu g gl]], elim conjE)
    fix x v assume v: "wfile (inval g a) v" "calm (live a) (live a) (bes a) ?u v"
    have Rv: "repr (inval g a) v" using v(1) by (rule wfile_repr)
    have gv: "g \<in> live (inval g a)" using g by simp
    have "core (gr v g) = core (gr ?u g)" using v(2) g by (simp add: calm_def cores_def)
    then have bs: "be_starting (gr v g) = be_starting (gr s g)" by (simp add: core_def kill_views)
    have c: "coreupd a g s v" using cu v(2) by (blast intro: coreupd_trans calm_coreupd)
    let ?w = "ppay g (U_gr ((gr v g)\<lparr>be_parent := 0\<rparr>)) v"
    have "coreupd a g v ?w"
      using coreupd_gr [OF Rv gv] by (simp add: coreupd_def)
    then have "coreupd a g s ?w" using c by (blast intro: coreupd_trans)
    moreover have "wfile (inval g a) ?w"
      by (rule wfile_gr [OF v(1) gv]) (simp add: heads_def)
    ultimately show "okn v g \<and> is_gr (pay v g) \<and> ?Q False ?w"
      using repr_live [OF Rv gv] no bs by (simp add: typed_ppay)
  qed
  show ?thesis
    using ok fail Wu cu by (auto simp: speedy_group_parent_sig_def wps kill_views elim!: wp_mono)
qed

theorem start_be_spec:
  assumes W: "wfile a s" and g: "g \<in> live a" and gl: "g \<in> set (lst a LGroups)"
  shows "wp (speedy_group_start_be g) (\<lambda>ok t. coreupd a g s t \<and>
     (if ok then wfile a t \<and> gr t g = gr s g \<and> be_parent (gr s g) \<noteq> 0
      else wfile (inval g a) t \<and> be_parent (gr t g) = 0)) s"
proof -
  have R: "repr a s" using W by (rule wfile_repr)
  have "wp (speedy_group_parent_sig g SIGUSR1) (\<lambda>ok t. coreupd a g s t \<and>
     (if ok then wfile a t \<and> gr t g = gr s g \<and> be_parent (gr s g) \<noteq> 0
      else wfile (inval g a) t \<and> be_parent (gr t g) = 0)) s"
    by (rule wp_mono [OF parent_sig_spec [OF W g gl]]) (auto simp: kill_ok_def split: if_splits)
  then show ?thesis
    using W repr_live [OF R g]
    by (simp add: speedy_group_start_be_def wps) (auto simp: coreupd_def)
qed

section \<open>Waking up a waiting frontend\<close>

lemma wfile_fe_wait:
  assumes W: "wfile a s" and f: "f \<in> set (lst a (LFe g))"
  shows "wfile a (ppay f (U_fe r) s)" and "calm {f} (live a) (bes a) s (ppay f (U_fe r) s)"
proof -
  have R: "repr a s" using W by (rule wfile_repr)
  have fl: "f \<notin> live a" by (rule repr_not_live [OF R f]) simp
  have fr: "f \<notin> set (lst a LFeRun)" using repr_disjoint [OF R f, of LFeRun] by auto
  have fb: "f \<notin> bes a" using repr_disjoint [OF R f] by (auto simp: bes_def)
  have "links a (ppay f (U_fe r) s) = links a s"
    by (rule links_pay [OF R]) (use fr fb in \<open>auto simp: views\<close>)
  then show "wfile a (ppay f (U_fe r) s)"
    using W repr_ppay [OF R payable_fe [OF R f]] by (simp add: wfile_def)
  show "calm {f} (live a) (bes a) s (ppay f (U_fe r) s)"
    using fl fb by (auto simp: calm_def cores_ppay bv_def views)
qed

text \<open>
  The frontends at the front of the queue that cannot be signalled are gone; the first that
  can be has its flag set.
\<close>

definition me :: "sys \<Rightarrow> slotnum \<Rightarrow> bool" where
  "me s f \<longleftrightarrow> fe_pid (fe s f) = mypid s \<and> mypid s \<noteq> 0"

definition woken :: "slotnum \<Rightarrow> fstate \<Rightarrow> fstate \<Rightarrow> sys \<Rightarrow> sys \<Rightarrow> bool" where
  "woken g a b s t \<longleftrightarrow> (\<exists>ds. lst a (LFe g) = ds @ lst b (LFe g) \<and>
     (\<forall>d \<in> set ds. \<not> me s d) \<and>
     (\<forall>f \<in> set (lst b (LFe g)). fe t f = fe s f \<or>
        f = hd (lst b (LFe g)) \<and> fe t f = (fe s f)\<lparr>sent_sig := 1\<rparr>))"

lemma sendsigs_loop:
  assumes "wfile a s" and "lst a (LFe g) = zs" and "length zs < fuel"
  shows "wp (sendsigs_loop fuel g (hd0 zs)) (\<lambda>_ t. \<exists>b. wfile b t \<and> shrink {LFe g} a b \<and>
     calm (live a \<union> set zs) (live a) (bes a) s t \<and> woken g a b s t) s"
  using assms
proof (induction zs arbitrary: a s fuel)
  case Nil
  then have "woken g a a s s" by (simp add: woken_def)
  then show ?case using Nil by (cases fuel) (auto simp: wps)
next
  case (Cons x zs)
  have R: "repr a s" using Cons.prems(1) by (rule wfile_repr)
  obtain n where n: "fuel = Suc n" using Cons.prems by (cases fuel) auto
  have x: "okn s x" "x \<noteq> 0" "is_fe (pay s x)" "nxt s x = hd0 zs"
    using repr_walk [OF R, of "LFe g" "[]" x zs] Cons.prems by auto
  have xm: "x \<in> set (lst a (LFe g))" using Cons.prems by simp
  let ?p = "fe_pid (fe s x)"
  let ?u = "kill_state ?p SIGALRM s"
  have Wu: "wfile a ?u" using Cons.prems by (simp add: wfile_kill)
  have okc: "\<exists>b. wfile b t \<and> shrink {LFe g} a b \<and>
      calm (live a \<union> set (x # zs)) (live a) (bes a) s t \<and> woken g a b s t"
    if t: "t = ppay x (U_fe ((fe ?u x)\<lparr>sent_sig := 1\<rparr>)) ?u" for t
  proof (intro exI [of _ a] conjI)
    show "wfile a t" unfolding t by (rule wfile_fe_wait(1) [OF Wu xm])
    have "calm {x} (live a) (bes a) ?u t" unfolding t by (rule wfile_fe_wait(2) [OF Wu xm])
    then have "calm (live a \<union> set (x # zs)) (live a) (bes a) ?u t" by (rule calm_mono) auto
    then show "calm (live a \<union> set (x # zs)) (live a) (bes a) s t"
      by (rule calm_trans [rotated]) simp
    have "fe t f = (if f = x then (fe s x)\<lparr>sent_sig := 1\<rparr> else fe s f)" for f
      by (simp add: t typed_ppay kill_views)
    then show "woken g a a s t" using Cons.prems by (auto simp: woken_def)
  qed simp
  have failc: "wp (speedy_frontend_dispose g x) (\<lambda>_. wp (sendsigs_loop n g (hd0 zs)) (\<lambda>_ t. \<exists>b.
      wfile b t \<and> shrink {LFe g} a b \<and> calm (live a \<union> set (x # zs)) (live a) (bes a) s t \<and>
      woken g a b s t)) ?u" if no: "\<not> kill_ok s ?p SIGALRM"
  proof (rule wp_mono [OF frontend_dispose_spec [OF Wu xm]])
    fix y v assume v: "wfile (discard (LFe g) x a) v \<and> calm (live a) (live a) (bes a) ?u v"
    let ?b = "discard (LFe g) x a"
    have lb: "lst ?b (LFe g) = zs" using Cons.prems by simp
    have bb: "bes ?b = bes a" by (simp add: discard_def)
    have IH: "wp (sendsigs_loop n g (hd0 zs)) (\<lambda>_ t. \<exists>b. wfile b t \<and> shrink {LFe g} ?b b \<and>
       calm (live ?b \<union> set zs) (live ?b) (bes ?b) v t \<and> woken g ?b b v t) v"
      by (rule Cons.IH) (use v lb Cons.prems n in auto)
    have xme: "\<not> me s x" using no by (auto simp: kill_ok_def me_def)
    have fev: "fe v f = fe s f" if "f \<in> set zs" for f
    proof -
      have "f \<notin> live a" using repr_not_live [OF R, of f "LFe g"] Cons.prems that by simp
      then show ?thesis using v by (auto simp: calm_def kill_views dest: keep_views(2))
    qed
    have mev: "me v f = me s f" if "f \<in> set zs" for f
      using fev [OF that] v calm_env [of "live a" "live a" "bes a" ?u v]
      by (auto simp: me_def env_kill dest: env_proj)
    show "wp (sendsigs_loop n g (hd0 zs)) (\<lambda>_ t. \<exists>b.
      wfile b t \<and> shrink {LFe g} a b \<and> calm (live a \<union> set (x # zs)) (live a) (bes a) s t \<and>
      woken g a b s t) v"
    proof (rule wp_mono [OF IH], elim exE conjE)
      fix y t b assume b: "wfile b t" "shrink {LFe g} ?b b"
        "calm (live ?b \<union> set zs) (live ?b) (bes ?b) v t" "woken g ?b b v t"
      have "shrink {LFe g} a b"
        using shrink_trans [OF shrink_discard [OF R xm] b(2)] by simp
      moreover have "calm (live a \<union> set (x # zs)) (live a) (bes a) ?u v"
        by (rule calm_mono [OF conjunct2 [OF v]]) auto
      moreover have "calm (live a \<union> set (x # zs)) (live a) (bes a) v t"
        by (rule calm_mono [OF b(3)]) (auto simp: bb)
      moreover have "calm (live a \<union> set (x # zs)) (live a) (bes a) s ?u" by simp
      moreover have "woken g a b s t"
      proof -
        obtain ds where ds: "zs = ds @ lst b (LFe g)" "\<forall>d \<in> set ds. \<not> me v d"
          "\<forall>f \<in> set (lst b (LFe g)). fe t f = fe v f \<or>
             f = hd (lst b (LFe g)) \<and> fe t f = (fe v f)\<lparr>sent_sig := 1\<rparr>"
          using b(4) lb by (auto simp: woken_def)
        have "lst a (LFe g) = (x # ds) @ lst b (LFe g)" using ds(1) Cons.prems by simp
        moreover have "\<forall>d \<in> set (x # ds). \<not> me s d" using ds(1,2) xme mev by auto
        moreover have "\<forall>f \<in> set (lst b (LFe g)). fe v f = fe s f" using fev ds(1) by simp
        ultimately show ?thesis
          unfolding woken_def using ds(3) by (intro exI [of _ "x # ds"]) simp
      qed
      ultimately show "\<exists>b. wfile b t \<and> shrink {LFe g} a b \<and>
          calm (live a \<union> set (x # zs)) (live a) (bes a) s t \<and> woken g a b s t"
        using b(1) by (blast intro: calm_trans)
    qed
  qed
  show ?case using x okc failc by (auto simp: n wps kill_views)
qed

theorem sendsigs_spec:
  assumes W: "wfile a s" and g: "g \<in> live a"
  shows "wp (speedy_group_sendsigs g) (\<lambda>_ t. \<exists>b. wfile b t \<and> shrink {LFe g} a b \<and>
     calm (live a \<union> set (lst a (LFe g))) (live a) (bes a) s t \<and> woken g a b s t) s"
    (is "wp _ ?Q s")
proof -
  have R: "repr a s" using W by (rule wfile_repr)
  let ?b = "be_head (gr s g)"
  have same: "?Q () s" using W by (auto simp: woken_def intro!: exI [of _ a] exI [of _ "[]"])
  have b: "okn s ?b" "is_be (pay s ?b)" if "?b \<noteq> 0"
  proof -
    have "?b \<in> set (lst a (LBe g))"
      using that repr_be_head [OF R g] by (cases "lst a (LBe g)") auto
    then show "okn s ?b" "is_be (pay s ?b)" using repr_mem [OF R, of ?b "LBe g"] by auto
  qed
  have "wp (sendsigs_loop (list_fuel s) g (fe_head (gr s g))) ?Q s"
    using sendsigs_loop [OF W refl repr_fuel [OF R]] repr_fe_head [OF R g] by simp
  then show ?thesis
    using b same repr_live [OF R g] by (simp add: speedy_group_sendsigs_def wps refok_def)
qed

section \<open>Removing an unused group\<close>

lemma cut_nil: "lst a l = [] \<Longrightarrow> cut l a = a"
  by (simp add: cut_def give_all_def upl_def fun_upd_idem)

definition cleaned :: "slotnum \<Rightarrow> fstate \<Rightarrow> fstate" where
  "cleaned g a = (if lst a (LBe g) \<noteq> [] \<or> lst a (LFe g) \<noteq> [] then a
     else give_free g (del_live g (upl LGroups (remove1 g (lst a LGroups))
       (cut (LName g) (cut (LScr g) a)))))"

text \<open>A group that has lost its scripts has also lost its name.\<close>

definition tidy :: "fstate \<Rightarrow> slotnum \<Rightarrow> bool" where
  "tidy a g \<longleftrightarrow> (lst a (LScr g) = [] \<longrightarrow> lst a (LName g) = [])"

theorem cleanup_spec:
  assumes W: "wfile a s" and g: "g \<in> live a" and gl: "g \<in> set (lst a LGroups)" and td: "tidy a g"
  shows "wp (speedy_group_cleanup g) (\<lambda>_ t. wfile (cleaned g a) t \<and>
     calm (live a) (live a - {g}) (bes a) s t) s"
proof (cases "lst a (LBe g) \<noteq> [] \<or> lst a (LFe g) \<noteq> []")
  case True
  have R: "repr a s" using W by (rule wfile_repr)
  show ?thesis
    using True W repr_live [OF R g] repr_be_head [OF R g] repr_fe_head [OF R g] hd0_eq_0 [OF R]
    by (auto simp: speedy_group_cleanup_def wps cleaned_def)
next
  case False
  have R: "repr a s" using W by (rule wfile_repr)
  have e: "lst a (LBe g) = []" "lst a (LFe g) = []" using False by auto
  have h: "be_head (gr s g) = 0" "fe_head (gr s g) = 0"
    using repr_be_head [OF R g] repr_fe_head [OF R g] e by simp_all
  let ?u = "kill_state (be_parent (gr s g)) SIGKILL s"
  have Wu: "wfile a ?u" using W by (simp add: wfile_kill)
  let ?Q = "\<lambda>_ t. wfile (cleaned g a) t \<and> calm (live a) (live a - {g}) (bes a) s t"
  have "wp (seqM [speedy_slot_remove g GROUP_HEAD (Some GROUP_TAIL), speedy_slot_free g]) ?Q v"
    if v: "wfile (inval g a) v" "calm (live a) (live a) (bes a) ?u v" for v
  proof -
    let ?b = "inval g a"
    have Rv: "repr ?b v" using v(1) by (rule wfile_repr)
    have gb: "g \<in> set (lst ?b LGroups)" using gl R by simp
    have names: "lst ?b (LName g) = []" using td by (auto simp: inval_def tidy_def)
    have d: "distinct (lst a LGroups)" by (rule repr_distinct [OF R])
    have "remove1 g (lst ?b LGroups) = remove1 g (lst a LGroups)"
      using d by (auto simp: inval_def remove1_append)
    then have eq: "give_free g (del_live g (upl LGroups (remove1 g (lst ?b LGroups)) ?b)) = cleaned g a"
      using e td by (auto simp: cleaned_def inval_def tidy_def cut_nil)
    have rm: "wp (speedy_slot_remove g (href LGroups) (tref LGroups))
       (\<lambda>_ t. repr (upl LGroups (remove1 g (lst ?b LGroups)) ?b) t \<and> frame (live ?b) v t) v"
      by (rule remove_repr [OF Rv gb])
    have post: "okn t g \<and> prv t g \<noteq> g \<and> ?Q () (pfree g t)"
      if t: "repr (upl LGroups (remove1 g (lst ?b LGroups)) ?b) t" "frame (live ?b) v t" for t
    proof -
      let ?c = "upl LGroups (remove1 g (lst ?b LGroups)) ?b"
      have none: "lst ?c l = []" if "owner l = Some g" for l
        using that e names by (cases l) simp_all
      have out: "g \<notin> set (lst ?c LGroups)" using repr_distinct [OF Rv, of LGroups] by simp
      have dl: "repr (del_live g ?c) t" "held (del_live g ?c) t g"
        using repr_del_live [OF t(1) _ none out] g by simp_all
      have r: "repr (cleaned g a) (pfree g t)" using repr_pfree [OF dl] eq by simp
      have "calm (live a) (live a) (bes a) v t" using calm_frame [OF Rv] t(2) by simp
      then have "calm (live a) (live a) (bes a) ?u t" by (rule calm_trans [OF v(2)])
      then have c: "calm (live a) (live a) (bes a) s t"
        by (rule calm_trans [rotated]) simp
      have "calm (live a) (live a - {g}) (bes a) s (pfree g t)"
        using c by (auto simp: calm_def bv_def views cores_def)
      moreover have "links (cleaned g a) (pfree g t)"
      proof -
        have "links a t" using links_calm [OF R c] W by (simp add: wfile_def)
        moreover have "links (cleaned g a) (pfree g t) = links a (pfree g t)"
          by (rule links_lists) (simp_all add: cleaned_def)
        moreover have "links a (pfree g t) = links a t" by (rule links_cong) (simp_all add: views)
        ultimately show ?thesis by simp
      qed
      moreover have "okn t g" "prv t g \<noteq> g"
        using dl repr_prv [OF dl(1)] by (auto simp: held_def)
      ultimately show ?thesis using r by (simp add: wfile_def)
    qed
    show ?thesis
      using wp_mono [OF rm] post by (simp add: wps)
  qed
  then have "wp (speedy_group_invalidate g) (\<lambda>_. wp (seqM
      [speedy_slot_remove g GROUP_HEAD (Some GROUP_TAIL), speedy_slot_free g]) ?Q) ?u"
    by (intro wp_mono [OF invalidate_spec [OF Wu g gl]]) blast
  then show ?thesis
    using repr_live [OF R g] h by (simp add: speedy_group_cleanup_def wps)
qed

section \<open>Creating a group\<close>

definition created :: "slotnum \<Rightarrow> fstate \<Rightarrow> fstate" where
  "created g a = upl LGroups (g # lst a LGroups) (add_live g (take_free a))"

lemma created_simps [simp]:
  "live (created g a) = insert g (live a)" "bes (created g a) = bes a"
  "lst (created g a) = (lst a)(LGroups := g # lst a LGroups)"
  "freel (created g a) = tl (freel a)"
  by (simp_all add: created_def)

lemma create_slot_of_group:
  assumes W: "wfile a s" and room: "room (Suc k) s"
  shows "wp speedy_slot_alloc (\<lambda>g. wp (speedy_slot_insert g GROUP_HEAD (Some GROUP_TAIL))
     (\<lambda>_ t. wfile (created g a) t \<and> g \<notin> listed a \<and> g \<notin> live a \<and> \<not> held a s g \<and> g \<noteq> 0 \<and>
        room k t \<and> be_starting (gr t g) = 0 \<and> be_parent (gr t g) = 0 \<and>
        mild (live a \<union> {g}) (live a) (bes a) s t)) s"
proof (rule wp_mono [OF alloc_wfile [OF W room]], elim conjE)
  fix g u assume u: "wfile (take_free a) u" "held (take_free a) u g" "pay u g = U_zero" "grow g s u"
    "room k u" "g \<notin> listed a" "g \<notin> live a" "\<not> held a s g" "g \<noteq> 0"
  have R: "repr a s" using W by (rule wfile_repr)
  have Ru: "repr (take_free a) u" using u(1) by (rule wfile_repr)
  let ?b = "add_live g (take_free a)"
  have Rb: "repr ?b u" by (rule repr_add_live [OF Ru u(2,3)])
  have ins: "insertable ?b u LGroups g"
    using u(2,3,6) by (auto simp: insertable_def held_def listed_def)
  have i: "wp (speedy_slot_insert g (href LGroups) (tref LGroups))
     (\<lambda>_ t. repr (upl LGroups (g # lst ?b LGroups) ?b) t \<and> frame (live ?b) u t) u"
    by (rule insert_repr [OF Rb _ ins]) (simp_all add: active_def)
  have bb: "g \<notin> bes a" using u(6) by (auto simp: bes_def listed_def)
  have m: "mild (live a \<union> {g}) (live a) (bes a) s u"
    by (rule mild_grow [OF u(4)]) (use u(7) bb in auto)
  have gu: "gr u g = zero_gr" by (simp add: gr_def u(3))
  show "wp (speedy_slot_insert g GROUP_HEAD (Some GROUP_TAIL)) (\<lambda>_ t. wfile (created g a) t \<and>
      g \<notin> listed a \<and> g \<notin> live a \<and> \<not> held a s g \<and> g \<noteq> 0 \<and> room k t \<and>
      be_starting (gr t g) = 0 \<and> be_parent (gr t g) = 0 \<and>
      mild (live a \<union> {g}) (live a) (bes a) s t) u"
  proof (rule wp_mono [OF i [unfolded href.simps tref.simps]], elim conjE)
    fix x t assume t: "repr (upl LGroups (g # lst ?b LGroups) ?b) t" "frame (live ?b) u t"
    have rc: "repr (created g a) t" using t(1) by (simp add: created_def)
    have c: "calm (live ?b) (live ?b) (bes ?b) u t" by (rule calm_frame [OF Rb t(2)])
    have "links ?b t" using links_calm [OF Rb c] u(1) by (simp add: wfile_def)
    moreover have "links (created g a) t = links ?b t" by (rule links_lists) simp_all
    ultimately have "wfile (created g a) t" using rc by (simp add: wfile_def)
    moreover have "core (gr t g) = core (gr u g)" using c by (simp add: calm_def cores_def)
    then have "be_starting (gr t g) = 0" "be_parent (gr t g) = 0"
      by (simp_all add: core_def gu zero_gr_def)
    moreover have "room k t" using u(5) keep_room [of _ u t k] c by (auto simp: calm_def)
    moreover have "mild (live a \<union> {g}) (live a) (bes a) u t"
      using calm_mild [OF c] by (rule mild_mono) auto
    then have "mild (live a \<union> {g}) (live a) (bes a) s t" by (rule mild_trans [OF m])
    ultimately show "wfile (created g a) t \<and> g \<notin> listed a \<and> g \<notin> live a \<and> \<not> held a s g \<and>
        g \<noteq> 0 \<and> room k t \<and> be_starting (gr t g) = 0 \<and> be_parent (gr t g) = 0 \<and>
        mild (live a \<union> {g}) (live a) (bes a) s t"
      using u(6-9) by blast
  qed
qed

lemma name_group:
  assumes W: "wfile a s" and room: "room (Suc k) s" and g: "g \<in> live a"
    and nm: "lst a (LName g) = []"
  shows "wp speedy_slot_alloc (\<lambda>n. wp (seqM [setref (NAME_SLOT g) n,
        bnd (gets o_group) (\<lambda>group. grnm_upd n (\<lambda>r. r\<lparr>grnm_name := strncpy group GR_NAMELEN\<rparr>))])
     (\<lambda>_ t. wfile (upl (LName g) [n] (take_free a)) t \<and> room k t \<and> n \<notin> listed a \<and>
        n \<notin> live a \<and> \<not> held a s n \<and>
        grnm_name (grnm t n) = strncpy (o_group s) GR_NAMELEN \<and>
        mild (live a \<union> {n}) (live a) (bes a) s t)) s"
proof (rule wp_mono [OF alloc_spec [OF wfile_repr [OF W] room]], elim conjE)
  fix n u assume u: "repr (take_free a) u" "held (take_free a) u n" "pay u n = U_zero"
    "nxt u n = 0" "prv u n = 0" "grow n s u" "room k u" "n \<notin> listed a" "n \<notin> live a" "\<not> held a s n"
  have R: "repr a s" using W by (rule wfile_repr)
  let ?a = "take_free a" and ?v = "wrt (NAME_SLOT g) n u"
  let ?w = "ppay n (U_grnm (zero_grnm\<lparr>grnm_name := strncpy (o_group s) GR_NAMELEN\<rparr>)) ?v"
  have n0: "n \<noteq> 0" "okn u n" "n \<noteq> g" using u(2,9) g by (auto simp: held_def okn_def)
  have act: "active ?a (LName g)" using g by (simp add: active_def)
  have gok: "okn u g" "is_gr (pay u g)" using repr_live [OF u(1)] g by auto
  have v: "repr (upl (LName g) [n] ?a) ?v \<and> frame (live ?a) u ?v"
  proof (rule repr_upl [OF u(1) act, where X = "{}"])
    show "lk (LName g) u ?v" using lk_wrt_href [OF lk_refl, where l = "LName g" and s = u and v = n] by simp
    show "dll ?v (LName g) [n]" using n0 u(4,5) by (simp add: dll_def views)
    show "x \<in> set (lst ?a (LName g)) \<or> x \<notin> set (freel ?a) \<and> x \<notin> listed ?a \<and>
        (x \<in> live ?a) = (LName g = LGroups) \<and> okn u x \<and> kind (LName g) (pay u x)"
      if "x \<in> set [n]" for x
      using that u(2,3) by (auto simp: held_def)
    show "nxt ?v m = nxt u m \<and> prv ?v m = prv u m" for m by (simp add: nxt_wrt prv_wrt views)
  qed simp_all
  let ?b = "upl (LName g) [n] ?a"
  have Rv: "repr ?b ?v" using v by simp
  have nb: "n \<in> set (lst ?b (LName g))" by simp
  have Rw: "repr ?b ?w" by (rule repr_ppay [OF Rv payable_listed [OF Rv nb]]) simp_all
  have bb: "n \<notin> bes a" using u(8) by (auto simp: bes_def listed_def)
  have m: "mild (live a \<union> {n}) (live a) (bes a) s u"
    by (rule mild_grow [OF u(6)]) (use u(9) bb in auto)
  have "calm (live a) (live a) (bes a) u ?v" using calm_frame [OF u(1)] v by simp
  then have mv: "mild (live a \<union> {n}) (live a) (bes a) u ?v"
    by (intro mild_mono [OF calm_mild]) auto
  have mw: "mild (live a \<union> {n}) (live a) (bes a) ?v ?w"
    using u(9) bb by (auto simp: mild_def views bv_def cores_ppay)
  have mm: "mild (live a \<union> {n}) (live a) (bes a) s ?w" by (blast intro: mild_trans m mv mw)
  have "links a ?w = links a s"
  proof (rule links_pay [OF R])
    fix x assume "x \<in> bes a \<or> x \<in> set (lst a LFeRun)"
    then have "x \<notin> live a" "x \<noteq> n"
      using bes_mem(5) [OF R] repr_not_live [OF R, of _ LFeRun] u(8) bb by (auto simp: listed_def)
    then show "pay ?w x = pay s x" using mm by (simp add: mild_def)
  qed
  moreover have "links ?b ?w = links a ?w" by (rule links_lists) simp_all
  ultimately have "wfile ?b ?w" using W Rw by (simp add: wfile_def)
  moreover have "room k ?w" using u(7)
    by (simp add: room_def upd_defs)
  moreover have og: "o_group u = o_group s" using env_grow [OF u(6)] by (simp add: env_def)
  moreover have pn: "pay ?v n = U_zero" "grnm ?v n = zero_grnm" using n0 u(3)
    by (simp_all add: views grnm_def)
  moreover have "o_group ?v = o_group u" by (simp add: upd_defs)
  ultimately show "wp (seqM [setref (NAME_SLOT g) n,
        bnd (gets o_group) (\<lambda>group. grnm_upd n (\<lambda>r. r\<lparr>grnm_name := strncpy group GR_NAMELEN\<rparr>))])
     (\<lambda>_ t. wfile ?b t \<and> room k t \<and> n \<notin> listed a \<and> n \<notin> live a \<and> \<not> held a s n \<and>
        grnm_name (grnm t n) = strncpy (o_group s) GR_NAMELEN \<and>
        mild (live a \<union> {n}) (live a) (bes a) s t) u"
    using gok n0 u(8-10) mm
    by (simp add: wp_seqM_Cons wp_seqM_Nil wp_setref wp_bnd wp_gets wp_grnm_upd wp_ret refok_def
        okn_wrt typed_ppay del: wrt.simps setref.simps)
qed

text \<open>Slots that no list and no process had before.\<close>

definition fresh :: "fstate \<Rightarrow> sys \<Rightarrow> slotnum set" where
  "fresh a s = {n. n \<notin> listed a \<and> n \<notin> live a \<and> \<not> held a s n}"

definition named :: "slotnum \<Rightarrow> slotnum \<Rightarrow> fstate \<Rightarrow> fstate" where
  "named g n a = upl (LName g) [n] (take_free a)"

lemma named_simps [simp]:
  "lst (named g n a) = (lst a)(LName g := [n])" "live (named g n a) = live a"
  "bes (named g n a) = bes a" "freel (named g n a) = tl (freel a)"
  by (simp_all add: named_def)

lemma listed_created [simp]: "listed (created g a) = insert g (listed a)"
  by (auto simp: listed_def split: if_splits)

theorem create_spec:
  assumes W: "wfile a s" and room: "room (Suc (Suc k)) s"
  shows "wp speedy_group_create (\<lambda>g t. g \<in> fresh a s \<and> g \<noteq> 0 \<and>
     (\<exists>b. wfile b t \<and> (if DOING_SINGLE_SCRIPT s then b = created g a
        else \<exists>n \<in> fresh a s. b = named g n (created g a) \<and>
          grnm_name (grnm t n) = strncpy (o_group s) GR_NAMELEN)) \<and>
     room k t \<and> be_starting (gr t g) = 0 \<and> be_parent (gr t g) = 0 \<and>
     mild (live a \<union> fresh a s) (live a) (bes a) s t) s"
    (is "wp _ ?Q s")
proof -
  have R: "repr a s" using W by (rule wfile_repr)
  let ?name = "\<lambda>g. bnd speedy_slot_alloc (\<lambda>n. seqM [setref (NAME_SLOT g) n,
        bnd (gets o_group) (\<lambda>group. grnm_upd n (\<lambda>r. r\<lparr>grnm_name := strncpy group GR_NAMELEN\<rparr>))])"
  have post: "wp (bnd (gets DOING_SINGLE_SCRIPT) (\<lambda>single. whenM (\<not> single) (?name g)))
      (\<lambda>_. ?Q g) t"
    if t: "wfile (created g a) t" "g \<notin> listed a" "g \<notin> live a" "\<not> held a s g" "g \<noteq> 0"
      "room (Suc k) t" "be_starting (gr t g) = 0" "be_parent (gr t g) = 0"
      "mild (live a \<union> {g}) (live a) (bes a) s t" for g t
  proof -
    have gf: "g \<in> fresh a s" using t by (simp add: fresh_def)
    have m: "mild (live a \<union> fresh a s) (live a) (bes a) s t"
      by (rule mild_mono [OF t(9)]) (use gf in auto)
    have ds: "DOING_SINGLE_SCRIPT t = DOING_SINGLE_SCRIPT s"
      using t(9) by (simp add: mild_def env_def DOING_SINGLE_SCRIPT_def)
    have og: "o_group t = o_group s" using t(9) by (simp add: mild_def env_def)
    show ?thesis
    proof (cases "DOING_SINGLE_SCRIPT s")
      case True
      then show ?thesis
        using t gf m ds room_less [OF t(6), of k] by (auto simp: wps)
    next
      case False
      have nm: "lst (created g a) (LName g) = []"
      proof (rule ccontr)
        assume "lst (created g a) (LName g) \<noteq> []"
        then obtain x where "x \<in> set (lst a (LName g))" by (cases "lst a (LName g)") auto
        then have "active a (LName g)" by (rule repr_active [OF R])
        then show False using t(3) by (simp add: active_def)
      qed
      have fr: "n \<in> fresh a s"
        if n: "n \<notin> listed (created g a)" "n \<notin> live (created g a)" "\<not> held (created g a) t n" for n
      proof -
        have "held (created g a) t n" if h: "held a s n"
          using h n(1,2) t(9) in_tl [of n "freel a"] by (auto simp: held_def mild_def)
        then show ?thesis using n by (auto simp: fresh_def)
      qed
      have "wp speedy_slot_alloc (\<lambda>n. wp (seqM [setref (NAME_SLOT g) n,
          bnd (gets o_group) (\<lambda>group. grnm_upd n (\<lambda>r. r\<lparr>grnm_name := strncpy group GR_NAMELEN\<rparr>))])
          (\<lambda>_. ?Q g)) t"
      proof (rule wp_mono [OF name_group [OF t(1,6) _ nm]], simp, rule wp_mono, assumption, elim conjE)
        fix n u x v
        assume v: "wfile (upl (LName g) [n] (take_free (created g a))) v" "room k v"
          "n \<notin> listed (created g a)" "n \<notin> live (created g a)" "\<not> held (created g a) t n"
          "grnm_name (grnm v n) = strncpy (o_group t) GR_NAMELEN"
          "mild (live (created g a) \<union> {n}) (live (created g a)) (bes (created g a)) t v"
        have nf: "n \<in> fresh a s" by (rule fr [OF v(3-5)])
        have "core (gr v g) = core (gr t g)" using v(7) by (simp add: mild_def cores_def)
        then have "be_starting (gr v g) = 0" "be_parent (gr v g) = 0"
          using t(7,8) by (simp_all add: core_def)
        moreover have "mild (live a \<union> fresh a s) (live a) (bes a) t v"
          by (rule mild_mono [OF v(7)]) (use nf gf in auto)
        then have "mild (live a \<union> fresh a s) (live a) (bes a) s v" by (rule mild_trans [OF m])
        moreover have "wfile (named g n (created g a)) v" using v(1) by (simp add: named_def)
        ultimately show "?Q g v"
          using gf nf t(5) v(2,6) og False by auto
      qed
      then show ?thesis using ds False by (simp add: wps)
    qed
  qed
  have "wp speedy_slot_alloc (\<lambda>g. wp (speedy_slot_insert g GROUP_HEAD (Some GROUP_TAIL))
     (\<lambda>_. wp (bnd (gets DOING_SINGLE_SCRIPT) (\<lambda>single. whenM (\<not> single) (?name g))) (\<lambda>_. ?Q g))) s"
    by (rule wp_mono [OF create_slot_of_group [OF W room]], erule wp_mono) (use post in blast)
  then show ?thesis
    by (simp only: speedy_group_create_def wp_bnd wp_thenM wp_seqM_Cons wp_seqM_Nil wp_ret)
qed

text \<open>The name a group gets is one the same option matches, and only its first 12 characters count.\<close>

theorem name_match_spec:
  assumes R: "repr a s" and g: "g \<in> live a"
    and o: "NUL \<notin> set (o_group s)" "NUL \<notin> set opt"
    and n: "\<And>n. lst a (LName g) = [n] \<Longrightarrow> grnm_name (grnm s n) = strncpy opt GR_NAMELEN"
  shows "wp (speedy_group_name_match g) Q s =
     Q (lst a (LName g) \<noteq> [] \<and> take GR_NAMELEN opt = take GR_NAMELEN (o_group s)) s"
proof (cases "lst a (LName g)")
  case Nil
  then show ?thesis
    using repr_live [OF R g] repr_name_slot [OF R g]
    by (simp add: speedy_group_name_match_def wps refok_def)
next
  case (Cons m ms)
  then have l: "lst a (LName g) = [m]" using repr_name [OF R, of g] by simp
  have "okn s m" "m \<noteq> 0" "is_grnm (pay s m)" using repr_mem [OF R, of m "LName g"] l by auto
  then show ?thesis
    using repr_live [OF R g] repr_name_slot [OF R g] l n [OF l] strncmp_take [OF o(2,1)]
    by (simp add: speedy_group_name_match_def wps refok_def)
qed

end
