(* ===== verification/GoodFile.thy ===== *)
theory GoodFile
  imports GroupSpecs
begin

text \<open>
  The invariant of a file that no process is working on, and the group operations as
  operations that keep it: besides \<open>wfile\<close>, every group is on the group list, groups without
  scripts have no name either and come last, and the backends of each group are in queue
  order.
\<close>

definition valid :: "fstate \<Rightarrow> slotnum \<Rightarrow> bool" where
  "valid a g \<longleftrightarrow> lst a (LScr g) \<noteq> []"

definition tidyf :: "fstate \<Rightarrow> bool" where
  "tidyf a \<longleftrightarrow> live a = set (lst a LGroups) \<and> (\<forall>g. tidy a g) \<and> prefix_ok (valid a) (lst a LGroups)"

definition orders :: "fstate \<Rightarrow> sys \<Rightarrow> bool" where
  "orders a s \<longleftrightarrow> (\<forall>g. be_order s (lst a (LBe g)))"

definition good :: "fstate \<Rightarrow> sys \<Rightarrow> bool" where
  "good a s \<longleftrightarrow> wfile a s \<and> tidyf a \<and> orders a s"

named_theorems goods

lemma good_wfile [goods]: "good a s \<Longrightarrow> wfile a s" by (simp add: good_def)
lemma good_repr [goods]: "good a s \<Longrightarrow> repr a s" by (simp add: good_def wfile_def)
lemma good_tidy [goods]: "good a s \<Longrightarrow> tidy a g" by (simp add: good_def tidyf_def)
lemma good_live [goods]: "good a s \<Longrightarrow> live a = set (lst a LGroups)" by (simp add: good_def tidyf_def)

lemma tidyf_lists:
  assumes "lst b LGroups = lst a LGroups" and "live b = live a"
    and "\<And>g. lst b (LScr g) = lst a (LScr g)" and "\<And>g. lst b (LName g) = lst a (LName g)"
  shows "tidyf b = tidyf a"
proof -
  have "valid b = valid a" using assms by (simp add: fun_eq_iff valid_def)
  then show ?thesis using assms by (simp add: tidyf_def tidy_def)
qed

lemma orders_cong:
  assumes "\<And>b. b \<in> bes a \<Longrightarrow> bv t b = bv s b"
  shows "orders a t = orders a s"
proof -
  have "be_order t (lst a (LBe g)) = be_order s (lst a (LBe g))" for g
    by (rule be_order_cong, rule assms) (auto simp: bes_def)
  then show ?thesis by (simp add: orders_def)
qed

lemma orders_lists: "(\<And>g. lst b (LBe g) = lst a (LBe g)) \<Longrightarrow> orders b s = orders a s"
  by (simp add: orders_def)

lemma orders_shrink:
  assumes o: "orders a s" and sh: "shrink X a b" and bv: "\<And>m. m \<in> bes a \<Longrightarrow> bv t m = bv s m"
  shows "orders b t"
proof -
  have "orders a t" using o orders_cong [of a t s] bv by simp
  then have "be_order t (lst b (LBe g))" for g
    using shrink_filter [OF sh, of "LBe g"] be_order_filter by (auto simp: orders_def)
  then show ?thesis by (simp add: orders_def)
qed

lemma good_calm: "good a s \<Longrightarrow> wfile a t \<Longrightarrow> calm L G (bes a) s t \<Longrightarrow> good a t"
  using orders_cong [of a t s] by (simp add: good_def calm_def)

lemma good_coreupd: "good a s \<Longrightarrow> wfile a t \<Longrightarrow> coreupd a g s t \<Longrightarrow> good a t"
  unfolding coreupd_def by (rule good_calm)

lemma good_samefile [goods]:
  "good a (kill_state p sig s) = good a s" "good a (punlink n s) = good a s"
  using orders_cong [of a "kill_state p sig s" s] orders_cong [of a "punlink n s" s]
  by (simp_all add: good_def wfile_kill wfile_unlink bv_def kill_views unlink_views)

lemma good_shrink:
  assumes g: "good a s" and w: "wfile b t" and sh: "shrink X a b" and c: "calm L G (bes a) s t"
    and X: "LGroups \<notin> X" "\<And>g. LScr g \<notin> X" "\<And>g. LName g \<notin> X"
  shows "good b t"
proof -
  have "tidyf b = tidyf a"
    by (rule tidyf_lists) (use sh X in \<open>simp_all add: shrink_def\<close>)
  moreover have "orders b t"
    by (rule orders_shrink [OF _ sh]) (use g c in \<open>simp_all add: good_def calm_def\<close>)
  ultimately show ?thesis using g w by (simp add: good_def)
qed

section \<open>Invalidation and cleanup\<close>

lemma remove1_filter: "distinct xs \<Longrightarrow> remove1 x xs = filter (\<lambda>y. y \<noteq> x) xs"
  by (simp add: distinct_remove1_removeAll removeAll_filter_not_eq) (metis)

lemma tidyf_inval:
  assumes t: "tidyf a" and R: "repr a s" and g: "g \<in> set (lst a LGroups)"
  shows "tidyf (inval g a)"
proof (cases "lst a (LScr g) = []")
  case True
  then show ?thesis using t by (simp add: inval_def)
next
  case False
  let ?b = "inval g a"
  have d: "distinct (lst a LGroups)" by (rule repr_distinct [OF R])
  have v: "valid ?b x = (x \<noteq> g \<and> valid a x)" for x
    by (cases "x = g") (auto simp: valid_def)
  have "prefix_ok (valid ?b) (filter (\<lambda>y. y \<noteq> g) (lst a LGroups))"
  proof -
    have "prefix_ok (valid a) (filter (\<lambda>y. y \<noteq> g) (lst a LGroups))"
      using t by (intro prefix_ok_filter) (simp add: tidyf_def)
    moreover have "prefix_ok (valid ?b) (filter (\<lambda>y. y \<noteq> g) (lst a LGroups)) =
        prefix_ok (valid a) (filter (\<lambda>y. y \<noteq> g) (lst a LGroups))"
      by (rule prefix_ok_cong) (simp add: v)
    ultimately show ?thesis by simp
  qed
  then have "prefix_ok (valid ?b) (lst ?b LGroups)"
    using False d by (simp add: inval_def remove1_filter) (intro prefix_ok_append_no, simp_all add: valid_def)
  moreover have "tidy ?b h" for h
    using t False by (cases "h = g") (auto simp: tidyf_def tidy_def inval_def)
  ultimately show ?thesis using t g R by (simp add: tidyf_def)
qed

lemma good_inval:
  assumes "good a s" and "g \<in> live a" and "wfile (inval g a) t" and "calm L G (bes a) s t"
  shows "good (inval g a) t"
proof -
  have "tidyf (inval g a)"
    using assms(1,2) by (intro tidyf_inval [of a s]) (auto simp: good_def wfile_def tidyf_def)
  moreover have "orders (inval g a) t"
    using assms orders_cong [of a t s] orders_lists [of "inval g a" a t]
    by (simp add: good_def calm_def)
  ultimately show ?thesis using assms(3) by (simp add: good_def)
qed

lemma cleaned_lists:
  "lst (cleaned g a) (LBe h) = lst a (LBe h)" "lst (cleaned g a) (LFe h) = lst a (LFe h)"
  "lst (cleaned g a) LFeRun = lst a LFeRun" "bes (cleaned g a) = bes a"
  by (simp_all add: cleaned_def)

lemma good_cleaned:
  assumes gd: "good a s" and g: "g \<in> live a" and w: "wfile (cleaned g a) t" and c: "calm L G (bes a) s t"
  shows "good (cleaned g a) t"
proof (cases "lst a (LBe g) \<noteq> [] \<or> lst a (LFe g) \<noteq> []")
  case True
  then show ?thesis using good_calm [OF gd _ c] w by (simp add: cleaned_def)
next
  case False
  let ?b = "cleaned g a"
  have R: "repr a s" by (rule good_repr [OF gd])
  have d: "distinct (lst a LGroups)" by (rule repr_distinct [OF R])
  have l: "lst ?b LGroups = filter (\<lambda>y. y \<noteq> g) (lst a LGroups)"
    using False d by (simp add: cleaned_def remove1_filter)
  have sc: "lst ?b (LScr h) = (if h = g then [] else lst a (LScr h))"
       "lst ?b (LName h) = (if h = g then [] else lst a (LName h))" for h
    using False by (auto simp: cleaned_def)
  have "prefix_ok (valid a) (filter (\<lambda>y. y \<noteq> g) (lst a LGroups))"
    using gd by (intro prefix_ok_filter) (simp add: good_def tidyf_def)
  moreover have "prefix_ok (valid ?b) (filter (\<lambda>y. y \<noteq> g) (lst a LGroups)) =
      prefix_ok (valid a) (filter (\<lambda>y. y \<noteq> g) (lst a LGroups))"
    by (rule prefix_ok_cong) (simp add: valid_def sc)
  moreover have "live ?b = live a - {g}" using False by (simp add: cleaned_def)
  ultimately have "tidyf ?b"
    using gd l sc good_live [OF gd] by (auto simp: tidyf_def tidy_def good_def)
  moreover have "orders ?b t"
    using gd c orders_cong [of a t s] orders_lists [of ?b a t]
    by (simp add: good_def calm_def cleaned_lists)
  ultimately show ?thesis using w by (simp add: good_def)
qed

end
