(* ===== verification/Scripts.thy ===== *)
theory Scripts
  imports GoodFile
begin

text \<open>
  Finding the group of a script: \<open>speedy_script_find\<close> of src/src/speedy_script.c. The stat
  data of the open script (\<open>script_stat\<close>, kept up to date by theory ScriptFile) is an argument.
\<close>

section \<open>The operation\<close>

definition same_file :: "scr_slot \<Rightarrow> scr_slot \<Rightarrow> bool" where
  "same_file r st \<longleftrightarrow> dev_num r = dev_num st \<and> ino_num r = ino_num st"

text \<open>The search of the script list of one group: the slot found, or 0.\<close>

primrec script_list_loop :: "nat \<Rightarrow> slotnum \<Rightarrow> slotnum \<Rightarrow> scr_slot \<Rightarrow> slotnum io" where
  "script_list_loop 0 gslotnum sslotnum st = hang"
| "script_list_loop (Suc fuel) gslotnum sslotnum st =
     (if sslotnum = 0 then ret 0
      else bnd (scr_get sslotnum) (\<lambda>sslot.
        if same_file sslot st
        then (if mtime sslot \<noteq> mtime st
              then thenM [speedy_group_invalidate gslotnum] (ret 0)
              else thenM [speedy_slot_move_head sslotnum (SCRIPT_HEAD gslotnum) None]
                (ret sslotnum))
        else bnd (speedy_slot_next sslotnum) (\<lambda>next. script_list_loop fuel gslotnum next st)))"

text \<open>The search of the group list: the group found (or 0) and the last name match (or 0).\<close>

primrec script_find_loop ::
    "nat \<Rightarrow> slotnum \<Rightarrow> slotnum \<Rightarrow> bool \<Rightarrow> scr_slot \<Rightarrow> (slotnum \<times> slotnum) io" where
  "script_find_loop 0 gslotnum name_match single st = hang"
| "script_find_loop (Suc fuel) gslotnum name_match single st =
     (if gslotnum = 0 then ret (0, name_match)
      else bnd (speedy_slot_check gslotnum) (\<lambda>_.
        bnd (speedy_slot_next gslotnum) (\<lambda>next.
        bnd (speedy_group_isvalid gslotnum) (\<lambda>isvalid.
        if \<not> isvalid then ret (0, name_match)
        else bnd (if single then ret True else speedy_group_name_match gslotnum) (\<lambda>match.
          if \<not> match then script_find_loop fuel next name_match single st
          else let name_match = (if single then name_match else gslotnum) in
            bnd (gets list_fuel) (\<lambda>fuel2.
            bnd (getref (SCRIPT_HEAD gslotnum)) (\<lambda>head.
            bnd (script_list_loop fuel2 gslotnum head st) (\<lambda>sslotnum.
            if sslotnum \<noteq> 0 then ret (gslotnum, name_match)
            else script_find_loop fuel next name_match single st))))))))"

text \<open>A new script slot for group \<open>g\<close>.\<close>

definition script_new :: "scr_slot \<Rightarrow> slotnum \<Rightarrow> slotnum io" where
  "script_new st g = bnd speedy_slot_alloc (\<lambda>sslotnum.
     thenM [scr_upd sslotnum (\<lambda>_. st), speedy_slot_insert sslotnum (SCRIPT_HEAD g) None] (ret g))"

definition speedy_script_find :: "scr_slot \<Rightarrow> slotnum io" where
  "speedy_script_find st =
     bnd (gets DOING_SINGLE_SCRIPT) (\<lambda>single.
     bnd (gets list_fuel) (\<lambda>fuel.
     bnd (gets (\<lambda>s. group_head (fhd s))) (\<lambda>head.
     bnd (script_find_loop fuel head 0 single st) (\<lambda>(found, name_match).
     bnd (if found \<noteq> 0 then ret found
          else bnd (if name_match = 0 then ret False else speedy_group_isvalid name_match) (\<lambda>v.
               bnd (if v then ret name_match else speedy_group_create) (script_new st)))
       (\<lambda>gslotnum.
     thenM [speedy_slot_move_head gslotnum GROUP_HEAD (Some GROUP_TAIL)] (ret gslotnum))))))"

section \<open>Searching one group\<close>

text \<open>What the search may do to the file: it reorders scripts and groups and invalidates groups.\<close>

definition regroup :: "fstate \<Rightarrow> fstate \<Rightarrow> bool" where
  "regroup a b \<longleftrightarrow> live b = live a \<and> (\<forall>g. lst b (LBe g) = lst a (LBe g)) \<and>
     (\<forall>g. lst b (LFe g) = lst a (LFe g)) \<and> lst b LFeRun = lst a LFeRun \<and>
     set (lst b LGroups) = set (lst a LGroups) \<and> listed b \<subseteq> listed a \<and>
     set (freel b) \<subseteq> set (freel a) \<union> listed a"

lemma regroup_refl [simp, intro]: "regroup a a" by (simp add: regroup_def)

lemma regroup_trans: "regroup a b \<Longrightarrow> regroup b c \<Longrightarrow> regroup a c"
  by (auto simp: regroup_def)

lemma regroup_bes: "regroup a b \<Longrightarrow> bes b = bes a"
  by (simp add: regroup_def bes_def)

lemma regroup_held: "regroup a b \<Longrightarrow> okn t = okn s \<Longrightarrow> held a s n \<Longrightarrow> held b t n"
  by (auto simp: regroup_def held_def)

lemma listed_cut: "listed (cut l a) \<subseteq> listed a"
  by (auto simp: listed_def split: if_splits)

lemma listed_upl: "listed (upl l xs a) \<subseteq> listed a \<union> set xs"
  by (auto simp: listed_def split: if_splits)

lemma regroup_inval:
  assumes "repr a s" and "g \<in> set (lst a LGroups)"
  shows "regroup a (inval g a)"
proof -
  have g: "set (lst (inval g a) LGroups) = set (lst a LGroups)" using assms by simp
  let ?c = "cut (LName g) (cut (LScr g) a)"
  have "listed ?c \<subseteq> listed a" using listed_cut by blast
  moreover have "listed (upl LGroups (remove1 g (lst a LGroups) @ [g]) ?c) \<subseteq> listed ?c \<union> listed a"
  proof -
    have "set (remove1 g (lst a LGroups) @ [g]) \<subseteq> set (lst a LGroups)"
      using assms(2) set_remove1_subset [of g "lst a LGroups"] by simp
    then have "set (remove1 g (lst a LGroups) @ [g]) \<subseteq> listed a" by (auto simp: listed_def)
    then show ?thesis using listed_upl by blast
  qed
  moreover have "set (freel ?c) \<subseteq> set (freel a) \<union> listed a"
    by (auto simp: listed_def)
  ultimately have "listed (inval g a) \<subseteq> listed a" "set (freel (inval g a)) \<subseteq> set (freel a) \<union> listed a"
    by (auto simp: inval_def)
  then show ?thesis using g by (simp add: regroup_def)
qed

lemma regroup_upl_scr:
  assumes "set xs = set (lst a (LScr g))"
  shows "regroup a (upl (LScr g) xs a)"
proof -
  have "listed (upl (LScr g) xs a) = listed a"
    using assms by (auto simp: listed_def split: if_splits)
  then show ?thesis by (simp add: regroup_def)
qed

lemma good_upl_scr:
  assumes gd: "good a s" and r: "repr (upl (LScr g) xs a) t" and c: "calm (live a) (live a) (bes a) s t"
    and xs: "set xs = set (lst a (LScr g))"
  shows "good (upl (LScr g) xs a) t"
proof -
  let ?b = "upl (LScr g) xs a"
  have R: "repr a s" by (rule good_repr [OF gd])
  have e: "xs = [] \<longleftrightarrow> lst a (LScr g) = []"
    using arg_cong [OF xs, of "\<lambda>A. A = {}"] by simp
  have "links a t" using links_calm [OF R c] gd by (simp add: good_def wfile_def)
  moreover have "links ?b t = links a t" by (rule links_lists) simp_all
  ultimately have w: "wfile ?b t" using r by (simp add: wfile_def)
  have "valid ?b = valid a" using e by (auto simp: fun_eq_iff valid_def)
  moreover have "tidy ?b h" for h
    using good_tidy [OF gd, of h] e by (auto simp: tidy_def)
  ultimately have "tidyf ?b" using gd by (simp add: tidyf_def good_def)
  moreover have "orders ?b t"
    using gd c orders_cong [of a t s] orders_lists [of ?b a t] by (simp add: good_def calm_def)
  ultimately show ?thesis using w by (simp add: good_def)
qed

lemma script_list_loop_spec:
  assumes gd: "good a s" and g: "g \<in> live a" and l: "lst a (LScr g) = ys @ zs"
    and f: "length zs < fuel"
  shows "wp (script_list_loop fuel g (hd0 zs) st) (\<lambda>ss t. \<exists>b. good b t \<and> regroup a b \<and>
     calm (live a) (live a) (bes a) s t \<and>
     (if ss = 0 then b = a \<and> (\<forall>z \<in> set zs. \<not> same_file (scr s z) st) \<or>
          b = inval g a \<and> valid a g
      else lst b LGroups = lst a LGroups \<and> hd (lst b (LScr g)) = ss \<and> valid b g \<and> scr t ss = st \<and>
          (\<forall>h. lst b (LName h) = lst a (LName h)))) s"
  using l f
proof (induction zs arbitrary: ys fuel)
  case Nil
  then show ?case using gd by (cases fuel) (auto simp: wps)
next
  case (Cons z zs)
  have R: "repr a s" by (rule good_repr [OF gd])
  have gl: "g \<in> set (lst a LGroups)" using good_live [OF gd] g by simp
  obtain n where n: "fuel = Suc n" using Cons.prems by (cases fuel) auto
  note z = repr_walk [OF R Cons.prems(1)]
  let ?P = "\<lambda>ws ss t. \<exists>b. good b t \<and> regroup a b \<and>
     calm (live a) (live a) (bes a) s t \<and>
     (if ss = 0 then b = a \<and> (\<forall>z \<in> set ws. \<not> same_file (scr s z) st) \<or> b = inval g a \<and> valid a g
      else lst b LGroups = lst a LGroups \<and> hd (lst b (LScr g)) = ss \<and> valid b g \<and> scr t ss = st \<and>
          (\<forall>h. lst b (LName h) = lst a (LName h)))"
  have zm: "z \<in> set (lst a (LScr g))" using Cons.prems by simp
  have v: "valid a g" using zm by (auto simp: valid_def)
  show ?case
  proof (cases "same_file (scr s z) st")
    case False
    have "wp (script_list_loop n g (hd0 zs) st) (?P zs) s"
      by (rule Cons.IH [of "ys @ [z]"]) (use Cons.prems n in simp_all)
    then have "wp (script_list_loop n g (hd0 zs) st) (?P (z # zs)) s"
      by (rule wp_mono) (use False in \<open>auto split: if_splits\<close>)
    then show ?thesis using z False by (simp add: n wps)
  next
    case same: True
    show ?thesis
    proof (cases "mtime (scr s z) = mtime st")
      case False
      have "wp (speedy_group_invalidate g) (\<lambda>_. ?P (z # zs) 0) s"
      proof (rule wp_mono [OF invalidate_spec [OF good_wfile [OF gd] g gl]], elim conjE)
        fix x t assume t: "wfile (inval g a) t" "calm (live a) (live a) (bes a) s t"
        show "?P (z # zs) 0 t"
          using good_inval [OF gd g t] regroup_inval [OF R gl] t(2) v
          by (intro exI [of _ "inval g a"]) simp
      qed
      then show ?thesis using z same False by (simp add: n wps)
    next
      case True
      let ?xs = "z # remove1 z (lst a (LScr g))"
      have eq: "scr s z = st" using same True by (simp add: same_file_def)
      have set: "set ?xs = set (lst a (LScr g))"
        using zm repr_distinct [OF R, of "LScr g"] by auto
      have "wp (speedy_slot_move_head z (href (LScr g)) (tref (LScr g)))
         (\<lambda>_ t. repr (upl (LScr g) ?xs a) t \<and> frame (live a) s t) s"
        by (rule move_head_repr [OF R zm]) simp
      then have "wp (speedy_slot_move_head z (SCRIPT_HEAD g) None) (\<lambda>_. ?P (z # zs) z) s"
      proof (simp only: href.simps tref.simps, elim wp_mono conjE)
        fix x t assume t: "repr (upl (LScr g) ?xs a) t" "frame (live a) s t"
        have c: "calm (live a) (live a) (bes a) s t" by (rule calm_frame [OF R t(2)])
        have "z \<notin> live a" by (rule repr_not_live [OF R zm]) simp
        then have "scr t z = st"
          using eq keep_views(4) [OF keep_frame [OF t(2)]] by simp
        then show "?P (z # zs) z t"
          using good_upl_scr [OF gd t(1) c set] regroup_upl_scr [OF set] c z(2)
          by (intro exI [of _ "upl (LScr g) ?xs a"]) (simp add: valid_def)
      qed
      then show ?thesis using z same True by (simp add: n wps)
    qed
  qed
qed

section \<open>Searching all groups\<close>

definition name_ok :: "fstate \<Rightarrow> sys \<Rightarrow> slotnum \<Rightarrow> bool" where
  "name_ok a s g \<longleftrightarrow> (\<exists>n. lst a (LName g) = [n] \<and>
     strncmp_eq (grnm_name (grnm s n)) (o_group s) GR_NAMELEN)"

lemma wp_name_match:
  assumes R: "repr a s" and g: "g \<in> live a"
  shows "wp (speedy_group_name_match g) Q s = Q (name_ok a s g) s"
proof (cases "lst a (LName g)")
  case Nil
  then show ?thesis
    using repr_live [OF R g] repr_name_slot [OF R g]
    by (simp add: speedy_group_name_match_def wps refok_def name_ok_def)
next
  case (Cons m ms)
  then have l: "lst a (LName g) = [m]" using repr_name [OF R, of g] by simp
  have "okn s m" "m \<noteq> 0" "is_grnm (pay s m)" using repr_mem [OF R, of m "LName g"] l by auto
  then show ?thesis
    using repr_live [OF R g] repr_name_slot [OF R g] l
    by (simp add: speedy_group_name_match_def wps refok_def name_ok_def)
qed

lemma name_ok_keep:
  assumes R: "repr a s" and l: "lst b (LName g) = lst a (LName g)"
    and e: "env t = env s" and p: "\<And>m. m \<in> listed a \<Longrightarrow> m \<notin> live a \<Longrightarrow> pay t m = pay s m"
  shows "name_ok b t g = name_ok a s g"
proof -
  have "grnm t n = grnm s n" if "lst a (LName g) = [n]" for n
  proof -
    have "n \<in> set (lst a (LName g))" using that by simp
    then have "n \<notin> live a" "n \<in> listed a" using repr_not_live [OF R] by (auto simp: listed_def)
    then show ?thesis using p by (simp add: grnm_def)
  qed
  moreover have "o_group t = o_group s" using env_proj [OF e] by simp
  ultimately show ?thesis using l by (auto simp: name_ok_def)
qed

text \<open>The state of the search: what is known of the last name match.\<close>

definition nm_ok :: "fstate \<Rightarrow> sys \<Rightarrow> bool \<Rightarrow> slotnum \<Rightarrow> bool" where
  "nm_ok a s single nm \<longleftrightarrow> nm = 0 \<or> nm \<in> live a \<and> \<not> single \<and> (valid a nm \<longrightarrow> name_ok a s nm)"

definition found_ok :: "fstate \<Rightarrow> sys \<Rightarrow> bool \<Rightarrow> scr_slot \<Rightarrow> slotnum \<Rightarrow> bool" where
  "found_ok a s single st g \<longleftrightarrow> g \<in> live a \<and> valid a g \<and> scr s (hd (lst a (LScr g))) = st \<and>
     (single \<or> name_ok a s g)"

lemma inval_LGroups:
  "valid a g \<Longrightarrow> distinct (ys @ g # zs) \<Longrightarrow> lst a LGroups = ys @ g # zs \<Longrightarrow>
     lst (inval g a) LGroups = ys @ zs @ [g]"
  by (simp add: inval_def valid_def remove1_split)

lemma valid_inval: "valid (inval g a) x = (x \<noteq> g \<and> valid a x)"
  by (cases "x = g") (auto simp: valid_def)

lemma script_find_loop_spec:
  assumes "good a s" and "lst a LGroups = ys @ zs" and "length (filter (valid a) zs) < fuel"
    and "nm_ok a s single nm"
  shows "wp (script_find_loop fuel (hd0 zs) nm single st) (\<lambda>(g, nm') t. \<exists>b. good b t \<and>
     regroup a b \<and> calm (live a) (live a) (bes a) s t \<and>
     (if g = 0 then nm_ok b t single nm' else found_ok b t single st g)) s"
  using assms
proof (induction fuel arbitrary: a s ys zs nm)
  case 0
  then show ?case by simp
next
  case (Suc fuel)
  note gd = Suc.prems(1)
  have R: "repr a s" by (rule good_repr [OF gd])
  let ?P = "\<lambda>a s (g, nm') t. \<exists>b. good b t \<and> regroup a b \<and> calm (live a) (live a) (bes a) s t \<and>
     (if g = 0 then nm_ok b t single nm' else found_ok b t single st g)"
  have stop: "?P a s (0, nm) s" using gd Suc.prems(4) by auto
  show ?case
  proof (cases zs)
    case Nil
    then show ?thesis using stop by (simp add: wps)
  next
    case (Cons z zs')
    have zl: "z \<in> live a" using good_live [OF gd] Suc.prems(2) Cons by simp
    note z = repr_walk [OF R, of LGroups ys z zs'] Suc.prems(2) Cons
    have d: "distinct (ys @ z # zs')" using repr_distinct [OF R, of LGroups] Suc.prems(2) Cons by simp
    show ?thesis
    proof (cases "valid a z")
      case False
      then have "script_head (gr s z) = 0" using isvalid_lists [OF R zl] by (simp add: valid_def)
      then show ?thesis using z stop by (simp add: wps)
    next
      case v: True
      then have sh: "script_head (gr s z) = hd0 (lst a (LScr z))" "script_head (gr s z) \<noteq> 0"
        using repr_script_head [OF R zl] isvalid_lists [OF R zl] by (simp_all add: valid_def)
      have cnt: "length (filter (valid a) zs') < fuel" using Suc.prems(3) Cons v by simp
      have skip: "wp (script_find_loop fuel (hd0 zs') nm single st) (?P a s) s"
        by (rule Suc.IH [of a s "ys @ [z]"]) (use gd Suc.prems Cons cnt in simp_all)
      let ?nm = "if single then nm else z"
      have nmz: "nm_ok a s single ?nm" if "single \<or> name_ok a s z"
        using that Suc.prems(4) zl by (auto simp: nm_ok_def)
      have search: "wp (script_list_loop (list_fuel s) z (hd0 (lst a (LScr z))) st) (\<lambda>ss.
          wp (if ss \<noteq> 0 then ret (z, ?nm) else script_find_loop fuel (hd0 zs') ?nm single st) (?P a s)) s"
        if m: "single \<or> name_ok a s z"
      proof (rule wp_mono [OF script_list_loop_spec [OF gd zl, of "[]", OF _ repr_fuel [OF R]]], simp,
          elim exE conjE)
        fix ss t b
        assume b: "good b t" "regroup a b" "calm (live a) (live a) (bes a) s t"
          "if ss = 0 then b = a \<and> (\<forall>z \<in> set (lst a (LScr z)). \<not> same_file (scr s z) st) \<or>
             b = inval z a \<and> valid a z
           else lst b LGroups = lst a LGroups \<and> hd (lst b (LScr z)) = ss \<and> valid b z \<and> scr t ss = st \<and>
             (\<forall>h. lst b (LName h) = lst a (LName h))"
        have pay: "pay t m = pay s m" if "m \<notin> live a" for m
          using b(3) that by (simp add: calm_def keep_def)
        have nk: "name_ok b t h = name_ok a s h" if "lst b (LName h) = lst a (LName h)" for h
          by (rule name_ok_keep [OF R that calm_env [OF b(3)]]) (rule pay)
        have resume: "wp (script_find_loop fuel (hd0 ws) ?nm single st) (?P a s) t"
          if w: "lst b LGroups = ys' @ ws" "length (filter (valid b) ws) < fuel"
            "nm_ok b t single ?nm" for ys' ws
        proof (rule wp_mono [OF Suc.IH [OF b(1) w]], clarsimp split del: if_split)
          fix g nm' u c
          assume c: "good c u" "regroup b c" "calm (live b) (live b) (bes b) t u"
            "if g = 0 then nm_ok c u single nm' else found_ok c u single st g"
          have "live b = live a" "bes b = bes a" using b(2) regroup_bes by (auto simp: regroup_def)
          then have "calm (live a) (live a) (bes a) s u" using b(3) c(3) calm_trans by metis
          then show "\<exists>b. good b u \<and> regroup a b \<and> calm (live a) (live a) (bes a) s u \<and>
              (if g = 0 then nm_ok b u single nm' else found_ok b u single st g)"
            using c regroup_trans [OF b(2) c(2)] by blast
        qed
        show "wp (if ss \<noteq> 0 then ret (z, ?nm) else script_find_loop fuel (hd0 zs') ?nm single st) (?P a s) t"
        proof (cases "ss = 0")
          case False
          have "found_ok b t single st z"
            using False b(2,4) m nk zl by (auto simp: found_ok_def regroup_def)
          then have "?P a s (z, ?nm) t"
            using b(1-3) repr_live [OF R zl] unfolding prod.case by (intro exI [of _ b]) simp
          then show ?thesis using False by (simp add: wps)
        next
          case True
          show ?thesis
          proof (cases "b = a")
            case same: True
            have "nm_ok b t single ?nm" using nmz [OF m] nk same by (auto simp: nm_ok_def)
            then show ?thesis
              using True resume [of "ys @ [z]" zs'] same Suc.prems(2) Cons cnt by simp
          next
            case False
            then have bi: "b = inval z a" using b(4) True by simp
            have gs: "lst b LGroups = ys @ zs' @ [z]"
              unfolding bi by (rule inval_LGroups [OF v d]) (use Suc.prems(2) Cons in simp)
            have eq: "filter (valid b) zs' = filter (valid a) zs'"
              using d by (auto simp: bi valid_inval intro: filter_cong)
            have "\<not> valid b z" by (simp add: bi valid_inval)
            then have cnt': "length (filter (valid b) (zs' @ [z])) < fuel" using cnt eq by simp
            have "name_ok b t h = name_ok a s h" if "h \<noteq> z" for h
              by (rule nk) (use that in \<open>simp add: bi\<close>)
            then have nm: "nm_ok b t single ?nm"
              using nmz [OF m] Suc.prems(4) b(2) zl by (auto simp: nm_ok_def bi valid_inval)
            have h: "hd0 (zs' @ [z]) = hd0 zs'" if "zs' \<noteq> []" using that by (simp add: hd0_def)
            show ?thesis
            proof (cases "zs' = []")
              case True
              then show ?thesis
                using \<open>ss = 0\<close> resume [of "ys @ zs' @ [z]" "[]"] gs cnt nm by simp
            next
              case False
              then show ?thesis
                using \<open>ss = 0\<close> resume [of ys "zs' @ [z]"] gs cnt' nm h by simp
            qed
          qed
        qed
      qed
      have "wp (script_find_loop (Suc fuel) z nm single st) Q s =
          (if single \<or> name_ok a s z
           then wp (script_list_loop (list_fuel s) z (hd0 (lst a (LScr z))) st)
             (\<lambda>ss. wp (if ss \<noteq> 0 then ret (z, ?nm) else script_find_loop fuel (hd0 zs') ?nm single st) Q) s
           else wp (script_find_loop fuel (hd0 zs') nm single st) Q s)" for Q
        using z sh repr_live [OF R zl] Suc.prems(2) Cons
        by (simp add: wps refok_def wp_name_match [OF R zl] Let_def cong: if_cong)
      note run = this
      show ?thesis
      proof (cases "single \<or> name_ok a s z")
        case True
        then show ?thesis unfolding Cons hd0_simps run if_P [OF True] by (rule search)
      next
        case False
        show ?thesis unfolding Cons hd0_simps run if_not_P [OF False] by (rule skip)
      qed
    qed
  qed
qed

section \<open>A new script slot\<close>

lemma new_script:
  assumes W: "wfile a s" and g: "g \<in> live a" and room: "room (Suc k) s"
  shows "wp speedy_slot_alloc (\<lambda>n. wp (seqM [scr_upd n (\<lambda>_. st),
       speedy_slot_insert n (SCRIPT_HEAD g) None])
     (\<lambda>_ t. wfile (upl (LScr g) (n # lst a (LScr g)) (take_free a)) t \<and> scr t n = st \<and>
        n \<in> fresh a s \<and> room k t \<and> mild (live a \<union> fresh a s) (live a) (bes a) s t)) s"
proof (rule wp_mono [OF alloc_wfile [OF W room]], elim conjE)
  fix n u assume u: "wfile (take_free a) u" "held (take_free a) u n" "pay u n = U_zero"
    "grow n s u" "room k u" "n \<notin> listed a" "n \<notin> live a" "\<not> held a s n" "n \<noteq> 0"
  let ?a = "take_free a" and ?v = "ppay n (U_scr st) u"
  have Wv: "wfile ?a ?v" by (rule wfile_held_pay [OF u(1,2)])
  have Rv: "repr ?a ?v" using Wv by (rule wfile_repr)
  have nf: "n \<in> fresh a s" using u(6-8) by (simp add: fresh_def)
  have bb: "n \<notin> bes a" using u(6) by (auto simp: bes_def listed_def)
  have ins: "insertable ?a ?v (LScr g) n"
    using u(2,6,7) by (auto simp: insertable_def held_def views)
  have act: "active ?a (LScr g)" using g by (simp add: active_def)
  have i: "wp (speedy_slot_insert n (href (LScr g)) (tref (LScr g)))
     (\<lambda>_ t. repr (upl (LScr g) (n # lst a (LScr g)) ?a) t \<and> frame (live a) ?v t) ?v"
    using insert_repr [OF Rv act ins] by simp
  have m: "mild (live a \<union> fresh a s) (live a) (bes a) s u"
    by (rule mild_grow [OF u(4)]) (use u(7) bb nf in auto)
  have mv: "mild (live a \<union> fresh a s) (live a) (bes a) u ?v"
    using u(7) bb nf by (auto simp: mild_def views bv_def cores_ppay)
  have post: "wfile (upl (LScr g) (n # lst a (LScr g)) ?a) t \<and> scr t n = st \<and>
        n \<in> fresh a s \<and> room k t \<and> mild (live a \<union> fresh a s) (live a) (bes a) s t"
    if t: "repr (upl (LScr g) (n # lst a (LScr g)) ?a) t" "frame (live a) ?v t" for t
  proof (intro conjI)
    have c: "calm (live a) (live a) (bes a) ?v t" using calm_frame [OF Rv] t(2) by simp
    have "calm (live ?a) (live a) (bes a) ?v t" using c by simp
    then have "links ?a t = links ?a ?v" by (rule links_calm [OF Rv])
    then have "links ?a t" using Wv by (simp add: wfile_def)
    moreover have "links (upl (LScr g) (n # lst a (LScr g)) ?a) t = links ?a t"
      by (rule links_lists) simp_all
    ultimately show "wfile (upl (LScr g) (n # lst a (LScr g)) ?a) t" using t(1) by (simp add: wfile_def)
    show "scr t n = st" using keep_views(4) [OF keep_frame [OF t(2)] u(7)] by (simp add: typed_ppay)
    show "n \<in> fresh a s" by (rule nf)
    have "room k ?v" using u(5) by (simp add: room_def upd_defs)
    then show "room k t" using keep_room [OF keep_frame [OF t(2)]] by simp
    have "mild (live a \<union> fresh a s) (live a) (bes a) ?v t"
      by (rule mild_mono [OF calm_mild [OF c]]) auto
    then show "mild (live a \<union> fresh a s) (live a) (bes a) s t"
      by (blast intro: mild_trans m mv)
  qed
  have "wp (speedy_slot_insert n (SCRIPT_HEAD g) None) (\<lambda>_ t.
      wfile (upl (LScr g) (n # lst a (LScr g)) ?a) t \<and> scr t n = st \<and>
      n \<in> fresh a s \<and> room k t \<and> mild (live a \<union> fresh a s) (live a) (bes a) s t) ?v"
    by (rule wp_mono [OF i [unfolded href.simps tref.simps]]) (use post in blast)
  moreover have "okn u n" "is_scr (pay u n)" using u(2,3) by (auto simp: held_def)
  ultimately show "wp (seqM [scr_upd n (\<lambda>_. st), speedy_slot_insert n (SCRIPT_HEAD g) None])
     (\<lambda>_ t. wfile (upl (LScr g) (n # lst a (LScr g)) ?a) t \<and> scr t n = st \<and>
        n \<in> fresh a s \<and> room k t \<and> mild (live a \<union> fresh a s) (live a) (bes a) s t) u"
    by (simp add: wps)
qed

section \<open>Finding or creating the group\<close>

text \<open>
  \<open>regrown a b\<close>: as \<open>regroup\<close>, but \<open>b\<close> may also have a new group; the backends and waiting
  frontends of the old groups are the same.
\<close>

definition regrown :: "fstate \<Rightarrow> fstate \<Rightarrow> bool" where
  "regrown a b \<longleftrightarrow> live a \<subseteq> live b \<and> (\<forall>g. lst b (LBe g) = lst a (LBe g)) \<and>
     (\<forall>g. lst b (LFe g) = lst a (LFe g)) \<and> lst b LFeRun = lst a LFeRun"

lemma regroup_regrown: "regroup a b \<Longrightarrow> regrown a b"
  by (simp add: regroup_def regrown_def)

lemma regrown_bes: "regrown a b \<Longrightarrow> bes b = bes a"
  by (simp add: regrown_def bes_def)

lemma regrown_trans: "regrown a b \<Longrightarrow> regrown b c \<Longrightarrow> regrown a c"
  by (auto simp: regrown_def)

text \<open>The group \<open>g\<close> is the one this script runs in.\<close>

definition serves :: "fstate \<Rightarrow> sys \<Rightarrow> scr_slot \<Rightarrow> slotnum \<Rightarrow> bool" where
  "serves a s st g \<longleftrightarrow> g \<in> live a \<and> valid a g \<and> scr s (hd (lst a (LScr g))) = st \<and>
     (DOING_SINGLE_SCRIPT s \<or> name_ok a s g)"

text \<open>The slots that stand for a process, or that this process holds.\<close>

definition procs :: "fstate \<Rightarrow> sys \<Rightarrow> slotnum set" where
  "procs a s = bes a \<union> set (lst a LFeRun) \<union> (\<Union>g. set (lst a (LFe g))) \<union> {m. held a s m}"

text \<open>What holds after the group has been chosen or created and the script inserted.\<close>

definition chosen :: "fstate \<Rightarrow> sys \<Rightarrow> scr_slot \<Rightarrow> nat \<Rightarrow> slotnum \<Rightarrow> sys \<Rightarrow> bool" where
  "chosen a s st k g t \<longleftrightarrow> (\<exists>b. good b t \<and> regrown a b \<and> serves b t st g \<and> room k t \<and>
     mild (- procs a s) (live a) (bes a) s t \<and> (\<forall>m. held a s m \<longrightarrow> held b t m))"

lemma procs_mono:
  "regrown a b \<Longrightarrow> (\<And>m. held a s m \<Longrightarrow> held b t m) \<Longrightarrow> procs a s \<subseteq> procs b t"
  by (auto simp: procs_def regrown_def bes_def)

lemma live_procs: "repr a s \<Longrightarrow> live a \<subseteq> - procs a s"
  using bes_mem(5) repr_not_live by (fastforce simp: procs_def held_def)

lemma fresh_procs: "fresh a s \<subseteq> - procs a s"
  by (auto simp: fresh_def procs_def listed_def bes_def)

lemma mild_procs: "repr a s \<Longrightarrow> mild (live a \<union> fresh a s) G M s t \<Longrightarrow> mild (- procs a s) G M s t"
  using live_procs fresh_procs by (blast intro: mild_mono)

lemma chosen_regroup:
  assumes R: "repr a s" and r: "regroup a b" and c: "calm (live a) (live a) (bes a) s t"
    and ch: "chosen b t st k g u"
  shows "chosen a s st k g u"
proof -
  have h: "held a s m \<Longrightarrow> held b t m" for m by (rule regroup_held [OF r calm_okn [OF c]])
  have p: "procs a s \<subseteq> procs b t" by (rule procs_mono [OF regroup_regrown [OF r] h])
  obtain d where d: "good d u" "regrown b d" "serves d u st g" "room k u"
    "mild (- procs b t) (live b) (bes b) t u" "\<forall>m. held b t m \<longrightarrow> held d u m"
    using ch by (auto simp: chosen_def)
  have "mild (- procs a s) (live a) (bes a) s t"
    by (rule mild_mono [OF calm_mild [OF c]]) (use live_procs [OF R] in auto)
  moreover have "mild (- procs a s) (live a) (bes a) t u"
    by (rule mild_mono [OF d(5)]) (use p r regroup_bes [OF r] in \<open>auto simp: regroup_def\<close>)
  ultimately have "mild (- procs a s) (live a) (bes a) s u" by (rule mild_trans)
  then show ?thesis
    unfolding chosen_def using d h regrown_trans [OF regroup_regrown [OF r] d(2)] by blast
qed

lemma good_new_script:
  assumes R: "repr a s" and w: "wfile (upl (LScr g) (n # lst a (LScr g)) (take_free a)) t"
    and tf: "tidyf (upl (LScr g) (n # lst a (LScr g)) (take_free a))" and o: "orders a s"
    and m: "mild L G (bes a) s t"
  shows "good (upl (LScr g) (n # lst a (LScr g)) (take_free a)) t"
proof -
  have "orders a t" using o m orders_cong [of a t s] by (simp add: mild_def)
  then have "orders (upl (LScr g) (n # lst a (LScr g)) (take_free a)) t"
    using orders_lists [of "upl (LScr g) (n # lst a (LScr g)) (take_free a)" a t] by simp
  then show ?thesis using w tf by (simp add: good_def)
qed

lemma held_new_script:
  assumes "held a s m" and "n \<in> fresh a s" and "okn t m" and that: "set xs \<subseteq> listed a"
  shows "held (upl (LScr g) (n # xs) (take_free a)) t m"
proof -
  have "m \<noteq> n" using assms(1,2) by (auto simp: fresh_def)
  moreover have "listed (upl (LScr g) (n # xs) (take_free a)) \<subseteq> insert n (listed a)"
    using that listed_upl [of "LScr g" "n # xs" "take_free a"] by auto
  ultimately show ?thesis using assms in_tl [of m "freel a"] by (auto simp: held_def)
qed

lemma strncmp_self: "NUL \<notin> set o' \<Longrightarrow> strncmp_eq (strncpy o' n) o' n"
  using strncmp_take [of o' o' n] by simp

lemma upl_LScr_tidyf:
  assumes gs: "live a = set (lst a LGroups)" and td: "\<And>h. h \<noteq> g \<Longrightarrow> tidy a h"
    and p: "prefix_ok (valid b) (lst a LGroups)" and b: "b = upl (LScr g) (n # xs) a"
  shows "tidyf b"
proof -
  have "tidy b h" for h using td [of h] by (cases "h = g") (auto simp: b tidy_def)
  then show ?thesis using gs p by (simp add: b tidyf_def)
qed

lemma lists_listed: "set (lst a l) \<subseteq> listed a"
  by (auto simp: listed_def)

lemma chosen_nm:
  assumes gd: "good a s" and g: "g \<in> live a" and v: "valid a g"
    and n: "DOING_SINGLE_SCRIPT s \<or> name_ok a s g" and room: "room (Suc k) s"
  shows "wp (script_new st g) (chosen a s st k) s"
proof -
  have R: "repr a s" by (rule good_repr [OF gd])
  have post: "chosen a s st k g t"
    if t: "wfile (upl (LScr g) (n # lst a (LScr g)) (take_free a)) t" "scr t n = st" "n \<in> fresh a s"
      "room k t" "mild (live a \<union> fresh a s) (live a) (bes a) s t" for n t
  proof -
    let ?b = "upl (LScr g) (n # lst a (LScr g)) (take_free a)"
    have "valid ?b x = valid a x" for x using v by (simp add: valid_def)
    then have val: "valid ?b = valid a" by (rule ext)
    have "tidy ?b h" for h using good_tidy [OF gd, of h] by (auto simp: tidy_def)
    then have "tidyf ?b" using gd val by (simp add: tidyf_def good_def)
    then have "good ?b t"
      by (rule good_new_script [OF R t(1) _ _ t(5)]) (use gd in \<open>simp add: good_def\<close>)
    moreover have "name_ok ?b t g = name_ok a s g"
    proof (rule name_ok_keep [OF R])
      show "env t = env s" using t(5) by (simp add: mild_def)
      show "pay t m = pay s m" if "m \<in> listed a" "m \<notin> live a" for m
        using t(5) that by (simp add: mild_def fresh_def)
    qed simp
    then have "serves ?b t st g"
      using t(2,5) g v n by (auto simp: serves_def valid_def mild_def env_def DOING_SINGLE_SCRIPT_def)
    moreover have "held ?b t m" if "held a s m" for m
      by (rule held_new_script [OF that t(3) _ lists_listed])
         (use that t(5) in \<open>simp add: held_def mild_def\<close>)
    moreover have "regrown a ?b" by (simp add: regrown_def)
    ultimately show ?thesis
      unfolding chosen_def using t(4) mild_procs [OF R t(5)] by blast
  qed
  have "wp speedy_slot_alloc (\<lambda>n. wp (seqM [scr_upd n (\<lambda>_. st),
       speedy_slot_insert n (SCRIPT_HEAD g) None]) (\<lambda>_. chosen a s st k g)) s"
    by (rule wp_mono [OF new_script [OF good_wfile [OF gd] g room]], erule wp_mono) (use post in blast)
  then show ?thesis by (simp only: script_new_def wp_bnd wp_thenM wp_ret)
qed

lemma chosen_create:
  assumes gd: "good a s" and room: "room (Suc (Suc (Suc k))) s" and o: "NUL \<notin> set (o_group s)"
  shows "wp speedy_group_create (\<lambda>g. wp (script_new st g) (chosen a s st k)) s"
proof (rule wp_mono [OF create_spec [OF good_wfile [OF gd] room]], elim conjE exE)
  fix g u b
  assume u: "g \<in> fresh a s" "g \<noteq> 0" "wfile b u" "if DOING_SINGLE_SCRIPT s then b = created g a
      else \<exists>n \<in> fresh a s. b = named g n (created g a) \<and> grnm_name (grnm u n) = strncpy (o_group s) GR_NAMELEN"
    "room (Suc k) u" "mild (live a \<union> fresh a s) (live a) (bes a) s u"
  have R: "repr a s" by (rule good_repr [OF gd])
  have Ru: "repr b u" using u(3) by (rule wfile_repr)
  have ga: "g \<notin> listed a" "g \<notin> live a" using u(1) by (auto simp: fresh_def)
  have lb: "live b = insert g (live a)" "bes b = bes a" "lst b LGroups = g # lst a LGroups"
    "lst b (LBe h) = lst a (LBe h)" "lst b (LFe h) = lst a (LFe h)" "lst b LFeRun = lst a LFeRun"
    "lst b (LScr h) = lst a (LScr h)" "h \<noteq> g \<Longrightarrow> lst b (LName h) = lst a (LName h)"
    "freel b = tl (freel a) \<or> freel b = tl (tl (freel a))" for h
    using u(4) by (auto split: if_splits)
  have lsub: "listed b \<subseteq> listed a \<union> fresh a s"
    using u(1,4) by (auto simp: listed_def split: if_splits)
  have okb: "okn u m" if "okn s m" for m using u(6) that by (simp add: mild_def)
  have hb: "held b u m" if h: "held a s m" for m
  proof -
    have "m \<notin> fresh a s" using h by (simp add: fresh_def)
    then show ?thesis
      using h okb lsub lb(1,9) u(1) in_tl [of m "freel a"] in_tl [of m "tl (freel a)"]
      by (auto simp: held_def)
  qed
  have mp: "mild (- procs a s) (live a) (bes a) s u" by (rule mild_procs [OF R u(6)])
  have noscr: "lst a (LScr g) = []"
    using ga(2) repr_active [OF R, of _ "LScr g"] by (cases "lst a (LScr g)") (auto simp: active_def)
  have ou: "orders b u"
    using gd u(6) orders_cong [of a u s] orders_lists [of b a u] lb(4) by (simp add: good_def mild_def)
  have post: "chosen a s st k g t"
    if t: "wfile (upl (LScr g) (n # lst b (LScr g)) (take_free b)) t" "scr t n = st" "n \<in> fresh b u"
      "room k t" "mild (live b \<union> fresh b u) (live b) (bes b) u t" for n t
  proof -
    let ?c = "upl (LScr g) (n # lst b (LScr g)) (take_free b)"
    have vc: "valid ?c x = (x = g \<or> valid a x)" for x using lb(7) by (simp add: valid_def)
    have "prefix_ok (valid a) (lst a LGroups)" using gd by (simp add: good_def tidyf_def)
    moreover have "prefix_ok (valid ?c) (lst a LGroups) = prefix_ok (valid a) (lst a LGroups)"
    proof (rule prefix_ok_cong)
      fix x assume "x \<in> set (lst a LGroups)"
      then have "x \<noteq> g" using ga(1) by (auto simp: listed_def)
      then show "valid ?c x = valid a x" by (simp add: vc)
    qed
    ultimately have p: "prefix_ok (valid ?c) (lst b LGroups)" using vc lb(3) by simp
    have gs: "live b = set (lst b LGroups)" using lb(1,3) good_live [OF gd] by simp
    have "tidy ?c h" for h
      using good_tidy [OF gd, of h] lb(7) lb(8) [of h] by (cases "h = g") (auto simp: tidy_def)
    then have "tidyf ?c" using p gs by (simp add: tidyf_def)
    then have gc: "good ?c t" by (rule good_new_script [OF Ru t(1) _ ou t(5)])
    have nk: "name_ok ?c t g = name_ok b u g"
    proof (rule name_ok_keep [OF Ru])
      show "env t = env u" using t(5) by (simp add: mild_def)
      show "pay t m = pay u m" if "m \<in> listed b" "m \<notin> live b" for m
        using t(5) that by (simp add: mild_def fresh_def)
    qed simp
    have og: "o_group u = o_group s" "DOING_SINGLE_SCRIPT t = DOING_SINGLE_SCRIPT s"
      using u(6) t(5) by (simp_all add: mild_def env_def DOING_SINGLE_SCRIPT_def)
    have "DOING_SINGLE_SCRIPT s \<or> name_ok b u g"
      using u(4) og strncmp_self [OF o] by (auto simp: name_ok_def split: if_splits)
    then have "serves ?c t st g"
      using t(2) lb(1) nk og by (auto simp: serves_def valid_def)
    moreover have "held ?c t m" if "held a s m" for m
      by (rule held_new_script [OF hb [OF that] t(3) _ lists_listed])
         (use hb [OF that] t(5) in \<open>simp add: held_def mild_def\<close>)
    moreover have ra: "regrown a b" using lb by (auto simp: regrown_def)
    then have "regrown a ?c" by (rule regrown_trans) (simp add: regrown_def)
    moreover have pr: "procs a s \<subseteq> procs b u" by (rule procs_mono [OF ra hb])
    have "mild (- procs b u) (live b) (bes b) u t" by (rule mild_procs [OF Ru t(5)])
    then have "mild (- procs a s) (live a) (bes a) u t"
      by (rule mild_mono) (use pr lb in auto)
    then have "mild (- procs a s) (live a) (bes a) s t" by (rule mild_trans [OF mp])
    ultimately show ?thesis unfolding chosen_def using gc t(4) by blast
  qed
  have gl: "g \<in> live b" using lb(1) by simp
  have "wp speedy_slot_alloc (\<lambda>n. wp (seqM [scr_upd n (\<lambda>_. st),
       speedy_slot_insert n (SCRIPT_HEAD g) None]) (\<lambda>_. chosen a s st k g)) u"
    by (rule wp_mono [OF new_script [OF u(3) gl u(5)]], erule wp_mono) (use post in blast)
  then show "wp (script_new st g) (chosen a s st k) u" by (simp only: script_new_def wp_bnd wp_thenM wp_ret)
qed

lemma to_front:
  assumes gd: "good b t" and v: "valid b g" and g: "g \<in> live b"
  shows "wp (speedy_slot_move_head g GROUP_HEAD (Some GROUP_TAIL)) (\<lambda>_ u.
     good (upl LGroups (g # remove1 g (lst b LGroups)) b) u \<and> frame (live b) t u) t"
proof -
  have R: "repr b t" by (rule good_repr [OF gd])
  have gl: "g \<in> set (lst b LGroups)" using good_live [OF gd] g by simp
  let ?xs = "g # remove1 g (lst b LGroups)"
  let ?c = "upl LGroups ?xs b"
  have d: "distinct (lst b LGroups)" by (rule repr_distinct [OF R])
  have val: "valid ?c = valid b" by (rule ext) (simp add: valid_def)
  have "prefix_ok (valid b) (remove1 g (lst b LGroups))"
    using gd d by (simp add: remove1_filter good_def tidyf_def prefix_ok_filter)
  moreover have "tidy ?c h" for h using good_tidy [OF gd, of h] by (simp add: tidy_def)
  moreover have "set ?xs = live b" using gl d good_live [OF gd] by auto
  ultimately have tf: "tidyf ?c" using v val by (simp add: tidyf_def)
  have "wp (speedy_slot_move_head g (href LGroups) (tref LGroups))
     (\<lambda>_ u. repr ?c u \<and> frame (live b) t u) t"
    by (rule move_head_repr [OF R gl]) simp
  moreover have "good ?c u" if u: "repr ?c u" "frame (live b) t u" for u
  proof -
    have c: "calm (live b) (live b) (bes b) t u" by (rule calm_frame [OF R u(2)])
    have "links b u = links b t" by (rule links_calm [OF R c])
    moreover have "links ?c u = links b u" by (rule links_lists) simp_all
    ultimately have "wfile ?c u" using u(1) gd by (simp add: wfile_def good_def)
    moreover have "orders ?c u"
      using gd c orders_cong [of b u t] orders_lists [of ?c b u] by (simp add: good_def calm_def)
    ultimately show ?thesis using tf by (simp add: good_def)
  qed
  ultimately show ?thesis by (auto elim!: wp_mono)
qed

theorem script_find_spec:
  assumes gd: "good a s" and room: "room (Suc (Suc (Suc k))) s" and o: "NUL \<notin> set (o_group s)"
  shows "wp (speedy_script_find st) (\<lambda>g t. \<exists>b. good b t \<and> regrown a b \<and> serves b t st g \<and>
     hd (lst b LGroups) = g \<and> room k t \<and> mild (- procs a s) (live a) (bes a) s t \<and>
     (\<forall>m. held a s m \<longrightarrow> held b t m)) s"
    (is "wp _ ?Q s")
proof -
  have R: "repr a s" by (rule good_repr [OF gd])
  let ?single = "DOING_SINGLE_SCRIPT s"
  have front: "wp (thenM [speedy_slot_move_head g GROUP_HEAD (Some GROUP_TAIL)] (ret g)) ?Q t"
    if ch: "chosen a s st k g t" for g t
  proof -
    obtain b where b: "good b t" "regrown a b" "serves b t st g" "room k t"
      "mild (- procs a s) (live a) (bes a) s t" "\<forall>m. held a s m \<longrightarrow> held b t m"
      using ch unfolding chosen_def by blast
    have R': "repr b t" by (rule good_repr [OF b(1)])
    have g: "g \<in> live b" "valid b g" using b(3) by (auto simp: serves_def)
    let ?c = "upl LGroups (g # remove1 g (lst b LGroups)) b"
    have "?Q g u" if u: "good ?c u" "frame (live b) t u" for u
    proof (intro exI [of _ ?c] conjI allI impI)
      have k: "keep (live b) t u" by (rule keep_frame [OF u(2)])
      show "good ?c u" by (rule u(1))
      show "regrown a ?c" by (rule regrown_trans [OF b(2)]) (simp add: regrown_def)
      have h: "hd (lst b (LScr g)) \<in> set (lst b (LScr g))" using g(2) by (simp add: valid_def)
      then have "hd (lst b (LScr g)) \<notin> live b" by (rule repr_not_live [OF R']) simp
      then have s: "scr u (hd (lst b (LScr g))) = scr t (hd (lst b (LScr g)))"
        using keep_views(4) [OF k] by simp
      have "name_ok ?c u g = name_ok b t g"
        by (rule name_ok_keep [OF R']) (use k in \<open>simp_all add: keep_def\<close>)
      then show "serves ?c u st g"
        using b(3) s k by (auto simp: serves_def valid_def keep_def env_def DOING_SINGLE_SCRIPT_def)
      show "hd (lst ?c LGroups) = g" by simp
      show "room k u" using b(4) keep_room [OF k] by simp
      have "mild (- procs a s) (live a) (bes a) t u"
      proof (rule mild_mono [OF calm_mild [OF calm_frame [OF R' u(2)]]])
        have "procs a s \<subseteq> procs b t" using b(6) by (intro procs_mono [OF b(2)]) blast
        then show "live b \<subseteq> - procs a s" using live_procs [OF R'] by blast
        show "live a \<subseteq> live b" "bes a \<subseteq> bes b" using b(2) regrown_bes by (auto simp: regrown_def)
      qed
      then show "mild (- procs a s) (live a) (bes a) s u" by (rule mild_trans [OF b(5)])
      fix m assume "held a s m"
      then have "held b t m" using b(6) by simp
      moreover have "listed ?c \<subseteq> listed b"
      proof -
        have "set (g # remove1 g (lst b LGroups)) \<subseteq> listed b"
          using g(1) good_live [OF b(1)] set_remove1_subset lists_listed by fastforce
        then show ?thesis using listed_upl by blast
      qed
      ultimately show "held ?c u m" using keep_okn [OF k] by (auto simp: held_def)
    qed
    then show ?thesis using to_front [OF b(1) g(2,1)] by (auto simp: wps elim!: wp_mono)
  qed
  have cont: "wp (if g \<noteq> 0 then ret g
        else bnd (if nm = 0 then ret False else speedy_group_isvalid nm) (\<lambda>v.
             bnd (if v then ret nm else speedy_group_create) (script_new st)))
      (\<lambda>g. wp (thenM [speedy_slot_move_head g GROUP_HEAD (Some GROUP_TAIL)] (ret g)) ?Q) t"
    if b: "good b t" "regroup a b" "calm (live a) (live a) (bes a) s t"
      "if g = 0 then nm_ok b t ?single nm else found_ok b t ?single st g" for g nm t b
  proof -
    have Rb: "repr b t" by (rule good_repr [OF b(1)])
    have ds: "DOING_SINGLE_SCRIPT t = ?single" "o_group t = o_group s"
      using calm_env [OF b(3)] by (simp_all add: env_def DOING_SINGLE_SCRIPT_def)
    have rt: "room (Suc (Suc (Suc k))) t" using room keep_room b(3) by (auto simp: calm_def)
    have lift: "chosen b t st k h u \<Longrightarrow> chosen a s st k h u" for h u
      by (rule chosen_regroup [OF R b(2,3)])
    show ?thesis
    proof (cases "g = 0")
      case False
      have "serves b t st g" using b(4) False ds by (simp add: found_ok_def serves_def)
      moreover have "room k t" by (rule room_less [OF rt]) simp
      ultimately have "chosen b t st k g t"
        unfolding chosen_def using b(1) by (auto simp: regrown_def)
      then show ?thesis using False front lift by (simp add: wp_ret)
    next
      case True
      have new: "wp (script_new st nm) (chosen a s st k) t" if "nm \<noteq> 0" "valid b nm"
      proof -
        have "nm \<in> live b" "?single \<or> name_ok b t nm" using b(4) True that by (auto simp: nm_ok_def)
        then have "wp (script_new st nm) (chosen b t st k) t"
          using ds that room_less [OF rt, of "Suc k"] by (intro chosen_nm [OF b(1)]) auto
        then show ?thesis by (rule wp_mono) (rule lift)
      qed
      have cr: "wp speedy_group_create (\<lambda>g. wp (script_new st g) (chosen a s st k)) t"
        by (rule wp_mono [OF chosen_create [OF b(1) rt]], use ds o in simp, erule wp_mono, rule lift)
      have iv: "script_head (gr t nm) \<noteq> 0 \<longleftrightarrow> valid b nm" "okn t nm" "is_gr (pay t nm)" if "nm \<noteq> 0"
        using b(4) True that isvalid_lists [OF Rb] repr_live [OF Rb] by (auto simp: nm_ok_def valid_def)
      have "wp (bnd (if nm = 0 then ret False else speedy_group_isvalid nm) (\<lambda>v.
             bnd (if v then ret nm else speedy_group_create) (script_new st))) (chosen a s st k) t"
        using new cr iv by (cases "nm = 0"; cases "valid b nm") (simp_all add: wps)
      then have "wp (bnd (if nm = 0 then ret False else speedy_group_isvalid nm) (\<lambda>v.
             bnd (if v then ret nm else speedy_group_create) (script_new st)))
          (\<lambda>g. wp (thenM [speedy_slot_move_head g GROUP_HEAD (Some GROUP_TAIL)] (ret g)) ?Q) t"
        by (rule wp_mono) (rule front)
      then show ?thesis using True by simp
    qed
  qed
  have "length (filter (valid a) (lst a LGroups)) < list_fuel s"
    by (rule le_less_trans [OF length_filter_le repr_fuel [OF R]])
  then have loop: "wp (script_find_loop (list_fuel s) (hd0 (lst a LGroups)) 0 ?single st)
      (\<lambda>(g, nm') t. \<exists>b. good b t \<and> regroup a b \<and> calm (live a) (live a) (bes a) s t \<and>
       (if g = 0 then nm_ok b t ?single nm' else found_ok b t ?single st g)) s"
    by (intro script_find_loop_spec [OF gd, of "[]"]) (simp_all add: nm_ok_def)
  have gh: "group_head (fhd s) = hd0 (lst a LGroups)"
    using repr_head [OF R, of LGroups] by (simp add: active_def hd0_def)
  have "wp (script_find_loop (list_fuel s) (hd0 (lst a LGroups)) 0 ?single st) (\<lambda>p. wp (case p of (g, nm) \<Rightarrow>
      bnd (if g \<noteq> 0 then ret g
        else bnd (if nm = 0 then ret False else speedy_group_isvalid nm) (\<lambda>v.
             bnd (if v then ret nm else speedy_group_create) (script_new st)))
      (\<lambda>g. thenM [speedy_slot_move_head g GROUP_HEAD (Some GROUP_TAIL)] (ret g))) ?Q) s"
    by (rule wp_mono [OF loop]) (use cont in \<open>auto simp: wp_bnd simp del: if_split\<close>)
  then show ?thesis by (simp only: speedy_script_find_def wp_bnd wp_gets gh)
qed

end
