(* ===== verification/ExampleFile.thy ===== *)
theory ExampleFile
  imports Scripts
begin

text \<open>
  A concrete temp file on which the hypotheses of the theorems about files hold: one valid
  group (slot 1) with a script (2), a waiting backend (3), a backend (4) serving the running
  frontend 6, a frontend waiting in the queue (5) and a free slot (7).
\<close>

definition mk :: "slot_u \<Rightarrow> slotnum \<Rightarrow> slotnum \<Rightarrow> slot" where
  "mk u n p = \<lparr>slot_u = u, next_slot = n, prev_slot = p\<rparr>"

definition ex_gr :: gr_slot where
  "ex_gr = \<lparr>be_starting = 0, be_parent = 900, script_head = 2, name_slot = 0,
     be_head = 3, be_tail = 4, fe_head = 5, fe_tail = 5\<rparr>"

definition ex_scr :: scr_slot where
  "ex_scr = \<lparr>dev_num = 77, ino_num = 88, mtime = 99\<rparr>"

definition ex_slots :: "slotnum \<Rightarrow> slot" where
  "ex_slots n =
     (if n = 1 then mk (U_gr ex_gr) 0 0
      else if n = 2 then mk (U_scr ex_scr) 0 0
      else if n = 3 then mk (U_be \<lparr>be_pid = 103, fe_running = 0, maturity = 1\<rparr>) 4 0
      else if n = 4 then mk (U_be \<lparr>be_pid = 104, fe_running = 6, maturity = 2\<rparr>) 0 3
      else if n = 5 then mk (U_fe \<lparr>fe_pid = 105, exit_val = 0, backend = 0, exit_on_sig = 0, sent_sig = 0\<rparr>) 0 0
      else if n = 6 then mk (U_fe \<lparr>fe_pid = 106, exit_val = 0, backend = 4, exit_on_sig = 0, sent_sig = 0\<rparr>) 0 0
      else if n = 7 then mk U_zero 0 7
      else zero_slot)"

definition ex_head :: file_head where
  "ex_head = \<lparr>create_time = (1000, 1), lock_owner = 500, group_head = 1, group_tail = 1,
     slot_free = 7, slots_alloced = 7, fe_run_head = 6, fe_run_tail = 6, file_removed = False\<rparr>"

text \<open>All processes are alive but 105.\<close>

definition ex_orc :: answers where
  "ex_orc = \<lparr>kspawn = (\<lambda>_. Spawned 900), kfork = (\<lambda>_. 901), kconn = (\<lambda>_ _. True),
     kstat = (\<lambda>_. ex_scr), kchanged = (\<lambda>_. False), kreaped = (\<lambda>_. [(104, 0)]), kgot = (\<lambda>_ _. True),
     kclock = (\<lambda>n. 5000 + int n), kleft = (\<lambda>_. 0)\<rparr>"

definition ex_loc :: plocal where
  "ex_loc = \<lparr>tick = 0, did_clean = False, now = 5000, alarm_left = 0, sig_setup_done = False,
     next_alarm = 0\<rparr>"

definition ex_sys :: sys where
  "ex_sys = \<lparr>fhd = ex_head, slots = ex_slots, maplen = 1024, mypid = 500,
     kenv = (\<lambda>_ pid _. pid \<noteq> 105), klog = [], unlinked = [], o_group = ''none'', o_maxbackends = 0,
     o_becheck = 3, orc = ex_orc, loc = ex_loc\<rparr>"

fun ex_lst :: "lid \<Rightarrow> slotnum list" where
  "ex_lst LGroups = [1]"
| "ex_lst LFeRun = [6]"
| "ex_lst (LBe g) = (if g = 1 then [3, 4] else [])"
| "ex_lst (LFe g) = (if g = 1 then [5] else [])"
| "ex_lst (LScr g) = (if g = 1 then [2] else [])"
| "ex_lst (LName g) = []"

definition ex_abs :: fstate where
  "ex_abs = \<lparr>lst = ex_lst, freel = [7], live = {1}\<rparr>"

lemma ex_slots_simps [simp]:
  "ex_slots 1 = mk (U_gr ex_gr) 0 0"
  "ex_slots 2 = mk (U_scr ex_scr) 0 0"
  "ex_slots 3 = mk (U_be \<lparr>be_pid = 103, fe_running = 0, maturity = 1\<rparr>) 4 0"
  "ex_slots 4 = mk (U_be \<lparr>be_pid = 104, fe_running = 6, maturity = 2\<rparr>) 0 3"
  "ex_slots 5 = mk (U_fe \<lparr>fe_pid = 105, exit_val = 0, backend = 0, exit_on_sig = 0, sent_sig = 0\<rparr>) 0 0"
  "ex_slots 6 = mk (U_fe \<lparr>fe_pid = 106, exit_val = 0, backend = 4, exit_on_sig = 0, sent_sig = 0\<rparr>) 0 0"
  "ex_slots 7 = mk U_zero 0 7"
  by (simp_all add: ex_slots_def)

lemma ex_views [simp]:
  "nxt ex_sys n = next_slot (ex_slots n)" "prv ex_sys n = prev_slot (ex_slots n)"
  "pay ex_sys n = slot_u (ex_slots n)" "fhd ex_sys = ex_head"
  "be ex_sys n = the (as_be (slot_u (ex_slots n)))" "fe ex_sys n = the (as_fe (slot_u (ex_slots n)))"
  "gr ex_sys n = the (as_gr (slot_u (ex_slots n)))" "scr ex_sys n = the (as_scr (slot_u (ex_slots n)))"
  by (simp_all add: nxt_def prv_def pay_def be_def fe_def gr_def scr_def ex_sys_def)

lemma mk_simps [simp]: "slot_u (mk u n p) = u" "next_slot (mk u n p) = n" "prev_slot (mk u n p) = p"
  by (simp_all add: mk_def)

lemma word_le_7: "(n :: slotnum) \<le> 7 \<longleftrightarrow> n \<in> {0, 1, 2, 3, 4, 5, 6, 7}"
proof
  assume "n \<le> 7"
  then have "unat n \<le> 7" by (simp add: word_le_nat_alt)
  then obtain k where k: "n = word_of_nat k" "k \<le> 7" by (intro that [of "unat n"]) simp_all
  then have "k = 0 \<or> k = 1 \<or> k = 2 \<or> k = 3 \<or> k = 4 \<or> k = 5 \<or> k = 6 \<or> k = 7" by auto
  then show "n \<in> {0, 1, 2, 3, 4, 5, 6, 7}" using k(1) by auto
qed auto

lemma ex_okn: "okn ex_sys n \<longleftrightarrow> n \<in> {1, 2, 3, 4, 5, 6, 7}"
  using word_le_7 [of n] by (auto simp: okn_def ex_head_def)

lemma ex_mem: "n \<in> set (ex_lst l) \<longleftrightarrow>
    (n = 1 \<and> l = LGroups) \<or> (n = 6 \<and> l = LFeRun) \<or> (n = 3 \<and> l = LBe 1) \<or> (n = 4 \<and> l = LBe 1) \<or>
    (n = 5 \<and> l = LFe 1) \<or> (n = 2 \<and> l = LScr 1)"
  by (cases l) auto

lemma ex_sets: "repr_sets ex_abs"
  unfolding repr_sets_def
proof (intro conjI allI impI)
  fix l n assume n: "n \<in> set (lst ex_abs l)"
  then show "active ex_abs l" "n \<notin> set (freel ex_abs)" "n \<in> live ex_abs \<longleftrightarrow> l = LGroups"
    by (auto simp: ex_abs_def ex_mem active_def)
  fix l' assume "n \<in> set (lst ex_abs l')"
  then show "l' = l" using n by (auto simp: ex_abs_def ex_mem)
next
  fix l show "distinct (lst ex_abs l)" by (cases l) (simp_all add: ex_abs_def)
qed (simp_all add: ex_abs_def)

lemma ex_types: "repr_types ex_abs ex_sys"
  unfolding repr_types_def
proof (intro conjI allI impI)
  fix l n assume "n \<in> set (lst ex_abs l)"
  then show "okn ex_sys n" "kind l (pay ex_sys n)" by (auto simp: ex_abs_def ex_mem ex_okn)
qed (auto simp: ex_abs_def ex_okn ex_head_def MAX_SLOTS_def)

lemma ex_links_lists: "repr_links ex_abs ex_sys"
  unfolding repr_links_def
proof (intro conjI allI impI)
  fix l assume "active ex_abs l"
  then show "dll ex_sys l (lst ex_abs l)"
    by (cases l) (auto simp: ex_abs_def active_def dll_def ex_head_def ex_gr_def)
next
  show "fseg ex_sys (slot_free (fhd ex_sys)) (freel ex_abs)" by (simp add: ex_abs_def ex_head_def)
next
  fix n assume "okn ex_sys n"
  then show "prv ex_sys n = n \<longleftrightarrow> n \<in> set (freel ex_abs)" by (auto simp: ex_okn ex_abs_def)
qed

lemma ex_repr: "repr ex_abs ex_sys"
  by (simp add: repr_def ex_sets ex_types ex_links_lists)

lemma ex_bes: "bes ex_abs = {3, 4}"
  by (auto simp: bes_def ex_abs_def ex_mem)

lemma ex_wfile: "wfile ex_abs ex_sys"
  by (simp add: wfile_def ex_repr links_def ex_bes) (simp add: ex_abs_def)

lemma ex_good: "good ex_abs ex_sys"
proof -
  have "tidyf ex_abs" by (auto simp: tidyf_def tidy_def ex_abs_def valid_def)
  moreover have "orders ex_abs ex_sys"
    by (auto simp: orders_def ex_abs_def be_order_def waiting_def)
  ultimately show ?thesis by (simp add: good_def ex_wfile)
qed

lemma ex_room: "room 5 ex_sys"
  by (simp add: room_def ex_head_def MAX_SLOTS_def SIZEOF_HEAD_def SIZEOF_SLOT_def) (simp add: ex_sys_def)

end
