(* ===== verification/Frontends.thy ===== *)
theory Frontends
  imports Scripts
begin

text \<open>
  The frontend's side of the queue (src/src/speedy_frontend.c): cleaning up after dead
  frontends, checking the frontend ahead in the queue, spawning the process that starts
  backends, queueing for a backend and connecting to it.

  While a frontend waits it does not hold the lock of the file and other processes work on it.
  The parameter \<open>others\<close> of the functions that wait is what they do: it gives the state in
  which the process finds the file when it has the lock back. \<open>locked_fun\<close> models
  \<open>speedy_file_set_state(FS_CORRUPT)\<close> on the content of the file; unlocking does not
  change the content.
\<close>

section \<open>Alarms and time\<close>

definition upd_loc :: "(plocal \<Rightarrow> plocal) \<Rightarrow> unit io" where
  "upd_loc f = modify (\<lambda>s. s\<lparr>loc := f (loc s)\<rparr>)"

definition alarm :: "int \<Rightarrow> int io" where
  "alarm secs = bnd (gets (\<lambda>s. alarm_left (loc s))) (\<lambda>old.
     thenM [upd_loc (\<lambda>l. l\<lparr>alarm_left := secs\<rparr>)] (ret old))"

definition sig_handler_teardown :: "bool \<Rightarrow> unit io" where
  "sig_handler_teardown put_back_alarm =
     bnd (gets loc) (\<lambda>l.
     whenM (sig_setup_done l)
       (seqM
         [bnd (alarm 0) (\<lambda>_. ret ()),
          whenM (put_back_alarm \<and> next_alarm l \<noteq> 0)
            (seqM
              [upd_loc (\<lambda>l. l\<lparr>next_alarm := next_alarm l - now l\<rparr>),
               bnd (gets loc) (\<lambda>l.
               bnd (alarm (if 0 < next_alarm l then next_alarm l else 1)) (\<lambda>_. ret ()))]),
          upd_loc (\<lambda>l. l\<lparr>sig_setup_done := False\<rparr>)]))"

definition sig_handler_setup :: "unit io" where
  "sig_handler_setup =
     seqM
      [sig_handler_teardown True,
       bnd (alarm 0) (\<lambda>left.
       thenM [upd_loc (\<lambda>l. l\<lparr>next_alarm := left\<rparr>)]
        (whenM (left \<noteq> 0) (upd_loc (\<lambda>l. l\<lparr>next_alarm := next_alarm l + now l\<rparr>)))),
       upd_loc (\<lambda>l. l\<lparr>sig_setup_done := True\<rparr>)]"

section \<open>Frontends that have a backend\<close>

definition speedy_frontend_collect_status :: "slotnum \<Rightarrow> (int \<times> int) option io" where
  "speedy_frontend_collect_status fslotnum =
     bnd (fe_get fslotnum) (\<lambda>fslot.
     bnd (if backend fslot \<noteq> 0 then speedy_backend_dead (backend fslot) else ret False) (\<lambda>dead.
     thenM [whenM dead (speedy_backend_died (backend fslot))]
      (bnd (fe_get fslotnum) (\<lambda>fslot.
       if backend fslot = 0
       then thenM [speedy_frontend_remove_running fslotnum]
              (ret (Some (exit_on_sig fslot, exit_val fslot)))
       else ret None))))"

primrec clean_running_loop :: "nat \<Rightarrow> unit io" where
  "clean_running_loop 0 = hang"
| "clean_running_loop (Suc fuel) =
     bnd (gets (\<lambda>s. fe_run_tail (fhd s))) (\<lambda>tail.
     if tail = 0 then ret ()
     else bnd (speedy_frontend_dead tail) (\<lambda>dead.
       if dead
       then thenM [speedy_frontend_remove_running tail] (clean_running_loop fuel)
       else ret ()))"

definition speedy_frontend_clean_running :: "unit io" where
  "speedy_frontend_clean_running = bnd (gets list_fuel) clean_running_loop"

section \<open>Spawning\<close>

text \<open>
  The process forks twice. The child in between writes the pid of the grandchild, which is to
  become the backend parent, into the file and exits, while the process itself waits for it
  with the file locked.
\<close>

definition be_parent_spawn :: "slotnum \<Rightarrow> unit io" where
  "be_parent_spawn gslotnum =
     bnd (gets (\<lambda>s. kspawn (orc s) (klog s))) (\<lambda>answer.
     case answer of
       Fork_fails \<Rightarrow> die Fork_failed
     | Wait_fails \<Rightarrow> die Wait_failed
     | Child_fork_fails \<Rightarrow> ret ()
     | Spawned pid \<Rightarrow> seqM
         [gr_upd gslotnum (\<lambda>r. r\<lparr>be_parent := pid\<rparr>),
          gr_upd gslotnum (\<lambda>r. r\<lparr>be_starting := pid\<rparr>)])"

text \<open>The result, and whether a backend has been spawned (\<open>*did_spawn\<close>).\<close>

definition backend_check :: "slotnum \<Rightarrow> bool \<Rightarrow> (bool \<times> bool) io" where
  "backend_check gslotnum did_spawn =
     bnd (speedy_group_be_starting gslotnum) (\<lambda>starting.
     if starting \<noteq> 0 then ret (True, did_spawn)
     else if did_spawn then ret (False, did_spawn)
     else
       bnd (gr_get gslotnum) (\<lambda>gslot.
       thenM [whenM (be_parent gslot = 0) (be_parent_spawn gslotnum)]
        (bnd (speedy_backend_below_maxbe gslotnum) (\<lambda>below.
         if below
         then bnd (speedy_group_start_be gslotnum) (\<lambda>started.
           if started
           then thenM [gr_upd gslotnum (\<lambda>r. r\<lparr>be_starting := be_parent r\<rparr>)] (ret (True, True))
           else ret (True, did_spawn))
         else bnd (speedy_group_parent_sig gslotnum 0) (\<lambda>_. ret (True, did_spawn))))))"

section \<open>The frontend ahead in the queue\<close>

primrec fe_prev_loop :: "nat \<Rightarrow> slotnum \<Rightarrow> slotnum \<Rightarrow> (slotnum \<times> slotnum) io" where
  "fe_prev_loop 0 gslotnum fslotnum = hang"
| "fe_prev_loop (Suc fuel) gslotnum fslotnum =
     (if fslotnum \<noteq> 0 then ret (gslotnum, fslotnum)
      else bnd (speedy_slot_next gslotnum) (\<lambda>next.
        bnd (if next = 0 then gets (\<lambda>s. group_head (fhd s)) else ret next) (\<lambda>g.
        if g = 0 then die Lists_corrupt
        else bnd (getref (FE_TAIL g)) (\<lambda>tail. fe_prev_loop fuel g tail))))"

definition fe_prev :: "slotnum \<Rightarrow> slotnum \<Rightarrow> (slotnum \<times> slotnum) io" where
  "fe_prev gslotnum fslotnum =
     bnd (gets list_fuel) (\<lambda>fuel.
     bnd (speedy_slot_prev fslotnum) (fe_prev_loop (Suc fuel) gslotnum))"

primrec check_prev_loop :: "nat \<Rightarrow> slotnum \<Rightarrow> slotnum \<Rightarrow> unit io" where
  "check_prev_loop 0 gslotnum fslotnum = hang"
| "check_prev_loop (Suc fuel) gslotnum fslotnum =
     bnd (speedy_frontend_dead fslotnum) (\<lambda>dead.
     if \<not> dead then ret ()
     else bnd (fe_prev gslotnum fslotnum) (\<lambda>(g_prev, f_prev).
       thenM [speedy_frontend_dispose gslotnum fslotnum, speedy_group_cleanup gslotnum]
        (if f_prev = fslotnum then ret () else check_prev_loop fuel g_prev f_prev)))"

definition frontend_check_prev :: "slotnum \<Rightarrow> slotnum \<Rightarrow> unit io" where
  "frontend_check_prev gslotnum fslotnum =
     bnd (gets list_fuel) (\<lambda>fuel.
     bnd (fe_prev gslotnum fslotnum) (\<lambda>(g, f). check_prev_loop fuel g f))"

definition frontend_ping :: "slotnum \<Rightarrow> slotnum \<Rightarrow> bool \<Rightarrow> (bool \<times> bool) io" where
  "frontend_ping gslotnum fslotnum did_spawn =
     thenM [frontend_check_prev gslotnum fslotnum]
      (bnd (speedy_slot_prev fslotnum) (\<lambda>prev.
       if prev \<noteq> 0 then ret (True, did_spawn)
       else backend_check gslotnum did_spawn))"

section \<open>Queueing\<close>

text \<open>
  \<open>pause\<close> is \<open>speedy_sig_wait\<close>, which also drops the cached time; \<open>script_changed\<close>
  stands for \<open>speedy_script_changed\<close>.
\<close>

definition pause :: "unit io" where
  "pause = modify (\<lambda>s. s\<lparr>loc := (loc s)\<lparr>now := kclock (orc s) (tick (loc s)),
     alarm_left := kleft (orc s) (tick (loc s))\<rparr>\<rparr>)"

definition script_changed :: "bool io" where
  "script_changed = gets (\<lambda>s. kchanged (orc s) (tick (loc s)))"

definition lock_file :: "(nat \<Rightarrow> sys \<Rightarrow> sys) \<Rightarrow> unit io" where
  "lock_file others = modify (\<lambda>s.
     (others (tick (loc s)) s)\<lparr>loc := (loc s)\<lparr>tick := Suc (tick (loc s))\<rparr>\<rparr>)"

definition speedy_group_lock :: "(nat \<Rightarrow> sys \<Rightarrow> sys) \<Rightarrow> slotnum \<Rightarrow> bool io" where
  "speedy_group_lock others gslotnum = thenM [lock_file others] (speedy_group_isvalid gslotnum)"

primrec hard_loop :: "nat \<Rightarrow> (nat \<Rightarrow> sys \<Rightarrow> sys) \<Rightarrow> slotnum \<Rightarrow> slotnum \<Rightarrow> bool \<Rightarrow> bool
    \<Rightarrow> (bool \<times> slotnum) io" where
  "hard_loop 0 others gslotnum fslotnum did_spawn spawn_working = hang"
| "hard_loop (Suc fuel) others gslotnum fslotnum did_spawn spawn_working =
     thenM [speedy_group_sendsigs gslotnum]
      (bnd (fe_get fslotnum) (\<lambda>r.
       thenM [fe_upd fslotnum (\<lambda>r. r\<lparr>sent_sig := 0\<rparr>)]
        (bnd (if sent_sig r \<noteq> 0 then speedy_backend_be_wait_get gslotnum else ret 0) (\<lambda>b.
         if b \<noteq> 0 then ret (spawn_working, b)
         else bnd (frontend_ping gslotnum fslotnum did_spawn) (\<lambda>(working, spawned).
           bnd (if working then speedy_group_isvalid gslotnum else ret False) (\<lambda>valid.
           if \<not> valid then ret (working, 0)
           else bnd (gets o_becheck) (\<lambda>secs.
             bnd (alarm secs) (\<lambda>_.
             thenM [pause]
              (bnd script_changed (\<lambda>file_changed.
               bnd (speedy_group_lock others gslotnum) (\<lambda>valid.
               if \<not> valid \<or> file_changed then ret (working, 0)
               else hard_loop fuel others gslotnum fslotnum spawned working)))))))))))"

definition get_a_backend_hard ::
  "nat \<Rightarrow> (nat \<Rightarrow> sys \<Rightarrow> sys) \<Rightarrow> slotnum \<Rightarrow> slotnum \<Rightarrow> (bool \<times> slotnum) io" where
  "get_a_backend_hard fuel others gslotnum fslotnum =
     thenM
      [sig_handler_setup,
       speedy_slot_append fslotnum (FE_HEAD gslotnum) (FE_TAIL gslotnum)]
      (bnd (hard_loop fuel others gslotnum fslotnum False True) (\<lambda>result.
       thenM
        [speedy_slot_remove fslotnum (FE_HEAD gslotnum) (Some (FE_TAIL gslotnum)),
         sig_handler_teardown True]
        (ret result)))"

definition get_a_backend ::
  "nat \<Rightarrow> (nat \<Rightarrow> sys \<Rightarrow> sys) \<Rightarrow> slotnum \<Rightarrow> (bool \<times> slotnum) io" where
  "get_a_backend fuel others fslotnum =
     bnd (gets (\<lambda>s. kstat (orc s) (tick (loc s)))) (\<lambda>st.
     bnd (speedy_script_find st) (\<lambda>gslotnum.
     bnd (getref (FE_HEAD gslotnum)) (\<lambda>queue.
     bnd (if queue = 0 then speedy_backend_be_wait_get gslotnum else ret 0) (\<lambda>quick.
     bnd (if quick = 0 then get_a_backend_hard fuel others gslotnum fslotnum
          else ret (True, quick)) (\<lambda>(working, b).
     thenM
      [speedy_group_cleanup gslotnum,
       fe_upd fslotnum (\<lambda>r. r\<lparr>backend := b\<rparr>)]
      (ret (working, gslotnum)))))))"

section \<open>Connecting\<close>

definition speedy_ipc_connect :: "slotnum \<Rightarrow> bool io" where
  "speedy_ipc_connect b = gets (\<lambda>s. kconn (orc s) (tick (loc s)) b)"

text \<open>The backend's record is linked with the frontend, or marked as running.\<close>

definition to_backend :: "bool \<Rightarrow> slotnum \<Rightarrow> slotnum \<Rightarrow> slotnum \<Rightarrow> unit io" where
  "to_backend hold fslotnum gslotnum bslotnum =
     seqM
      [if hold
       then seqM
         [be_upd bslotnum (\<lambda>r. r\<lparr>fe_running := fslotnum\<rparr>),
          speedy_slot_insert fslotnum FE_RUN_HEAD (Some FE_RUN_TAIL)]
       else be_upd bslotnum (\<lambda>r. r\<lparr>fe_running := bslotnum\<rparr>),
       bnd (be_get bslotnum) (\<lambda>r. gr_upd gslotnum (\<lambda>q. q\<lparr>be_starting := be_pid r\<rparr>))]"

text \<open>\<open>hold\<close>: the caller wants to keep the frontend slot for the exit status. The result is
  \<open>spawn_working\<close> and the slot kept, if any.\<close>

primrec connect_loop ::
  "nat \<Rightarrow> nat \<Rightarrow> (nat \<Rightarrow> sys \<Rightarrow> sys) \<Rightarrow> bool \<Rightarrow> (bool \<times> slotnum) io" where
  "connect_loop 0 fuel others hold = hang"
| "connect_loop (Suc n) fuel others hold =
     thenM [lock_file others]
      (bnd (gets (\<lambda>s. did_clean (loc s))) (\<lambda>cleaned.
       thenM [upd_loc (\<lambda>l. l\<lparr>did_clean := True\<rparr>),
              whenM (\<not> cleaned) speedy_frontend_clean_running]
        (bnd speedy_slot_alloc (\<lambda>fslotnum.
         bnd speedy_util_getpid (\<lambda>pid.
         thenM [fe_upd fslotnum (\<lambda>r. r\<lparr>fe_pid := pid\<rparr>)]
          (bnd (get_a_backend fuel others fslotnum) (\<lambda>(working, gslotnum).
           bnd (if working then bnd (fe_get fslotnum) (\<lambda>r. ret (backend r)) else ret 0) (\<lambda>b.
           bnd (if b \<noteq> 0
                then bnd (speedy_ipc_connect b) (\<lambda>ok.
                  thenM [whenM (\<not> ok) (speedy_backend_dispose gslotnum b)] (ret ok))
                else ret False) (\<lambda>connected.
           thenM
            [whenM connected (to_backend hold fslotnum gslotnum b),
             whenM (\<not> (connected \<and> hold)) (speedy_slot_free fslotnum)]
            (if working \<and> \<not> connected then connect_loop n fuel others hold
             else ret (working, if connected \<and> hold then fslotnum else 0)))))))))))"

definition speedy_frontend_connect ::
  "nat \<Rightarrow> (nat \<Rightarrow> sys \<Rightarrow> sys) \<Rightarrow> bool \<Rightarrow> (bool \<times> slotnum) io" where
  "speedy_frontend_connect fuel others hold = connect_loop fuel fuel others hold"

end
