(* ===== verification/FrontendQueue.thy ===== *)
theory FrontendQueue
  imports Frontends
begin

text \<open>
  The functions of Frontends that walk the queues of frontends: \<open>fe_prev\<close> steps to the
  frontend ahead in the cyclic order of all queues, \<open>frontend_check_prev\<close> removes the dead
  frontends it meets and stops at a live one, and \<open>frontend_ping\<close> with \<open>backend_check\<close>
  sees to it that a backend is being started.
\<close>

section \<open>The cyclic order of all queues\<close>

definition queue_up :: "fstate \<Rightarrow> slotnum \<Rightarrow> (slotnum \<times> slotnum) list" where
  "queue_up a g = map (Pair g) (rev (lst a (LFe g)))"

definition all_queues :: "fstate \<Rightarrow> (slotnum \<times> slotnum) list" where
  "all_queues a = concat (map (queue_up a) (lst a LGroups))"

definition next_group :: "sys \<Rightarrow> slotnum \<Rightarrow> slotnum" where
  "next_group s g = (if nxt s g = 0 then group_head (fhd s) else nxt s g)"

fun visits :: "sys \<Rightarrow> slotnum \<Rightarrow> slotnum list \<Rightarrow> bool" where
  "visits s g [] = True"
| "visits s g (x # xs) \<longleftrightarrow> next_group s g = x \<and> visits s x xs"

lemma visits_append: "visits s g (xs @ ys) \<longleftrightarrow> visits s g xs \<and> visits s (last0 g xs) ys"
  by (induction xs arbitrary: g) auto

lemma repr_fe_tail: "repr a s \<Longrightarrow> g \<in> live a \<Longrightarrow> rd s (FE_TAIL g) = last0 0 (lst a (LFe g))"
  using repr_tail [of a s "LFe g" "FE_TAIL g"] by (simp add: active_def)

lemma repr_group_head: "repr a s \<Longrightarrow> group_head (fhd s) = hd0 (lst a LGroups)"
  using repr_head [of a s LGroups] by (cases "lst a LGroups") (simp_all add: active_def)

lemma groups_visits:
  assumes R: "repr a s"
  shows "lst a LGroups = ps @ g # hs \<Longrightarrow> visits s g hs"
proof (induction hs arbitrary: ps g)
  case (Cons h hs)
  have "nxt s g = h" "h \<noteq> 0"
    using repr_nxt [OF R Cons.prems] repr_mem [OF R, of h LGroups] Cons.prems by auto
  then show ?case using Cons.IH [of "ps @ [g]" h] Cons.prems by (simp add: next_group_def)
qed simp

lemma groups_cycle:
  assumes R: "repr a s" and l: "lst a LGroups = ps @ g # hs"
  shows "visits s g (hs @ ps @ [g])"
proof -
  have last: "nxt s (last0 g hs) = 0"
  proof (cases hs rule: rev_cases)
    case Nil
    then show ?thesis using repr_nxt [OF R, of LGroups ps g "[]"] l by simp
  next
    case (snoc ys y)
    then show ?thesis using repr_nxt [OF R, of LGroups "ps @ g # ys" y "[]"] l by simp
  qed
  obtain x xs where x: "ps @ [g] = x # xs" by (cases ps) auto
  have lx: "lst a LGroups = [] @ x # xs @ hs"
    using l x by (metis append.assoc append_Cons append_Nil)
  have h: "next_group s (last0 g hs) = x"
    using repr_group_head [OF R] last lx by (simp add: next_group_def)
  have "visits s x (xs @ hs)" by (rule groups_visits [OF R lx])
  then have "visits s (last0 g hs) (ps @ [g])" using h by (simp add: x visits_append)
  then show ?thesis using groups_visits [OF R l] by (simp add: visits_append)
qed

lemma fe_prev_loop_spec:
  assumes R: "repr a s"
  shows "visits s g w \<Longrightarrow> g \<in> live a \<Longrightarrow> set w \<subseteq> set (lst a LGroups) \<Longrightarrow>
     set w \<subseteq> live a \<Longrightarrow> concat (map (queue_up a) w) \<noteq> [] \<Longrightarrow> Suc (length w) < Suc fuel \<Longrightarrow>
     wp (fe_prev_loop fuel g 0) Q s = Q (hd (concat (map (queue_up a) w))) s"
proof (induction w arbitrary: g fuel)
  case (Cons h w)
  obtain n where n: "fuel = Suc n" using Cons.prems by (cases fuel) auto
  obtain k where k: "n = Suc k" using Cons.prems n by (cases n) auto
  have g: "okn s g" "refok s (FE_TAIL h)" "h \<noteq> 0"
    using repr_live [OF R] Cons.prems by (auto simp: refok_def)
  let ?rec = "wp (fe_prev_loop n h (last0 0 (lst a (LFe h)))) Q s"
  have step: "wp (fe_prev_loop fuel g 0) Q s = ?rec"
  proof -
    have h: "(if nxt s g = 0 then group_head (fhd s) else nxt s g) = h"
      using Cons.prems by (simp add: next_group_def)
    have t: "okn s h" "is_gr (pay s h)" "fe_tail (gr s h) = last0 0 (lst a (LFe h))"
      using Cons.prems g repr_fe_tail [OF R, of h] by (auto simp: refok_def)
    show ?thesis using g h t by (cases "nxt s g = 0") (simp_all add: n wps refok_def)
  qed
  show ?case
  proof (cases "lst a (LFe h) = []")
    case True
    then have "queue_up a h = []" by (simp add: queue_up_def)
    then have "?rec = Q (hd (concat (map (queue_up a) (h # w)))) s"
      using Cons.IH [of h n] Cons.prems True n by simp
    then show ?thesis using step by simp
  next
    case False
    then obtain ys y where y: "lst a (LFe h) = ys @ [y]" by (cases "lst a (LFe h)" rule: rev_cases) auto
    then have "y \<noteq> 0" using repr_mem [OF R, of y "LFe h"] by simp
    then have "?rec = Q (h, y) s" using y by (simp add: k wps)
    moreover have "hd (concat (map (queue_up a) (h # w))) = (h, y)" using y by (simp add: queue_up_def)
    ultimately show ?thesis using step by simp
  qed
qed simp

text \<open>
  With the queues of all groups read from their tails, one group after the other, \<open>fe_prev\<close>
  gives the next element, and the first one after the last.
\<close>

theorem fe_prev_spec:
  assumes R: "repr a s" and gl: "g \<in> set (lst a LGroups)" and live: "live a = set (lst a LGroups)"
    and f: "lst a (LFe g) = us @ f # vs"
  shows "\<exists>ys zs. all_queues a = ys @ (g, f) # zs \<and>
     wp (fe_prev g f) Q s = Q (hd (zs @ ys @ [(g, f)])) s"
proof -
  obtain ps hs where l: "lst a LGroups = ps @ g # hs" using gl by (meson split_list)
  let ?c = "\<lambda>gs. concat (map (queue_up a) gs)"
  let ?ys = "?c ps @ map (Pair g) (rev vs)" and ?zs = "map (Pair g) (rev us) @ ?c hs"
  have qs: "all_queues a = ?ys @ (g, f) # ?zs"
    using l f by (simp add: all_queues_def queue_up_def)
  have fm: "okn s f" "f \<noteq> 0" "prv s f = last0 0 us"
    using repr_mem [OF R, of f "LFe g"] f repr_prev [OF R f] by auto
  have "wp (fe_prev g f) Q s = wp (fe_prev_loop (Suc (list_fuel s)) g (last0 0 us)) Q s"
    using fm by (simp only: fe_prev_def wps fun_eq_iff) (simp add: wps)
  also have "\<dots> = Q (hd (?zs @ ?ys @ [(g, f)])) s"
  proof (cases us rule: rev_cases)
    case Nil
    have w: "visits s g (hs @ ps @ [g])" by (rule groups_cycle [OF R l])
    have "queue_up a g \<noteq> []" using f by (simp add: queue_up_def)
    moreover have "length (hs @ ps @ [g]) < list_fuel s" using repr_fuel [OF R, of LGroups] l by simp
    ultimately have "wp (fe_prev_loop (Suc (list_fuel s)) g 0) Q s = Q (hd (?c (hs @ ps @ [g]))) s"
      by (intro fe_prev_loop_spec [OF R w]) (use l live in \<open>auto simp: list_fuel_def\<close>)
    moreover have "hd (?c (hs @ ps @ [g])) = hd (?zs @ ?ys @ [(g, f)])"
      using f Nil by (simp add: queue_up_def hd_append)
    ultimately show ?thesis using Nil by simp
  next
    case (snoc xs x)
    then have "x \<noteq> 0" using repr_mem [OF R, of x "LFe g"] f by simp
    then show ?thesis using snoc by (simp add: wps)
  qed
  finally show ?thesis using qs by blast
qed

lemma fe_prev_mem:
  assumes R: "repr a s" and gl: "g \<in> set (lst a LGroups)" and live: "live a = set (lst a LGroups)"
    and f: "f \<in> set (lst a (LFe g))"
  obtains g' f' where "f' \<in> set (lst a (LFe g'))" and "g' \<in> set (lst a LGroups)"
    and "\<And>Q. wp (fe_prev g f) Q s = Q (g', f') s"
proof -
  obtain us vs where l: "lst a (LFe g) = us @ f # vs" using f by (meson split_list)
  have "wp (fe_prev g f) (\<lambda>p t. True) s"
    using fe_prev_spec [OF R gl live l, of "\<lambda>p t. True"] by auto
  then obtain p u where p: "fe_prev g f s = Ok p u" by (auto elim: wpE)
  have pq: "wp (fe_prev g f) Q s = Q p u" for Q by (rule wp_Ok) (rule p)
  have "wp (fe_prev g f) (\<lambda>q v. q \<in> set (all_queues a) \<and> v = s) s"
  proof -
    obtain ys zs where "all_queues a = ys @ (g, f) # zs" and
      "wp (fe_prev g f) (\<lambda>q v. q \<in> set (all_queues a) \<and> v = s) s =
         (hd (zs @ ys @ [(g, f)]) \<in> set (all_queues a) \<and> s = s)"
      using fe_prev_spec [OF R gl live l, of "\<lambda>q v. q \<in> set (all_queues a) \<and> v = s"] by auto
    moreover have "hd (zs @ ys @ [(g, f)]) \<in> set (zs @ ys @ [(g, f)])" by (rule hd_in_set) simp
    ultimately show ?thesis by auto
  qed
  then have "p \<in> set (all_queues a)" "u = s" by (simp_all add: pq)
  then show thesis
    by (intro that [of "snd p" "fst p"]) (auto simp: all_queues_def queue_up_def pq)
qed

section \<open>What cleaning and checking leave alone\<close>

text \<open>
  Backends and running frontends are not touched, and the process's own frontend slots stay
  in their queues.
\<close>

definition still :: "fstate \<Rightarrow> sys \<Rightarrow> fstate \<Rightarrow> sys \<Rightarrow> bool" where
  "still a s b t \<longleftrightarrow> (\<forall>h. lst b (LBe h) = lst a (LBe h)) \<and> lst b LFeRun = lst a LFeRun \<and>
     (\<forall>m \<in> bes a \<union> set (lst a LFeRun). pay t m = pay s m) \<and> env t = env s \<and> meta t = meta s \<and>
     (\<forall>h f. f \<in> set (lst a (LFe h)) \<longrightarrow> me s f \<longrightarrow>
        f \<in> set (lst b (LFe h)) \<and> fe_pid (fe t f) = fe_pid (fe s f))"

lemma still_refl [simp, intro]: "still a s a s" by (simp add: still_def)

lemma still_bes: "still a s b t \<Longrightarrow> bes b = bes a"
  by (simp add: still_def bes_def)

lemma still_own: "still a s b t \<Longrightarrow> f \<in> set (lst a (LFe h)) \<Longrightarrow> me s f \<Longrightarrow>
    f \<in> set (lst b (LFe h)) \<and> fe_pid (fe t f) = fe_pid (fe s f)"
  unfolding still_def by blast

lemma still_me: "still a s b t \<Longrightarrow> f \<in> set (lst a (LFe h)) \<Longrightarrow> me s f \<Longrightarrow> me t f \<and> f \<in> set (lst b (LFe h))"
  by (auto simp: still_def me_def dest: env_proj)

lemma still_trans:
  assumes "still a s b t" and "still b t c u"
  shows "still a s c u"
  unfolding still_def
proof (intro conjI allI ballI impI)
  fix h f assume f: "f \<in> set (lst a (LFe h))" "me s f"
  then have b: "f \<in> set (lst b (LFe h))" "me t f" using still_me [OF assms(1) f] by auto
  then show "f \<in> set (lst c (LFe h))" "fe_pid (fe u f) = fe_pid (fe s f)"
    using still_own [OF assms(1) f] still_own [OF assms(2) b] by simp_all
next
  fix m assume "m \<in> bes a \<union> set (lst a LFeRun)"
  moreover have "m \<in> bes b \<union> set (lst b LFeRun)"
    using calculation still_bes [OF assms(1)] assms(1) by (simp add: still_def)
  ultimately show "pay u m = pay s m" using assms by (simp add: still_def)
qed (use assms in \<open>auto simp: still_def\<close>)

lemma still_keep:
  assumes k: "keep L s t" and L: "L \<inter> (bes a \<union> set (lst a LFeRun)) = {}"
    and lists: "\<And>h. lst b (LBe h) = lst a (LBe h)" "lst b LFeRun = lst a LFeRun"
    and own: "\<And>h f. f \<in> set (lst a (LFe h)) \<Longrightarrow> me s f \<Longrightarrow>
       f \<in> set (lst b (LFe h)) \<and> fe_pid (fe t f) = fe_pid (fe s f)"
  shows "still a s b t"
proof -
  have "pay t m = pay s m" if "m \<in> bes a \<union> set (lst a LFeRun)" for m
    using that L by (intro keep_pay [OF k]) auto
  then show ?thesis using k lists own by (auto simp: still_def keep_def)
qed

lemma live_idle: "repr a s \<Longrightarrow> live a \<inter> (bes a \<union> set (lst a LFeRun)) = {}"
  using bes_mem(5) repr_not_live [of a s _ LFeRun] by blast

text \<open>An operation that works on groups only.\<close>

lemma still_groups:
  assumes R: "repr a s" and c: "calm (live a) G M s t"
    and lists: "\<And>h. lst b (LBe h) = lst a (LBe h)" "lst b LFeRun = lst a LFeRun"
      "\<And>h. lst b (LFe h) = lst a (LFe h)"
  shows "still a s b t"
proof (rule still_keep [OF _ live_idle [OF R]])
  show k: "keep (live a) s t" using c by (simp add: calm_def)
  fix h f assume f: "f \<in> set (lst a (LFe h))" "me s f"
  have "f \<notin> live a" using repr_not_live [OF R f(1)] by simp
  then show "f \<in> set (lst b (LFe h)) \<and> fe_pid (fe t f) = fe_pid (fe s f)"
    using keep_views(2) [OF k, of f] lists f by simp
qed (use lists in simp_all)

lemma still_samefile: "still a s b (kill_state p sig t) = still a s b t"
  by (simp add: still_def kill_views env_kill meta_def)

lemma fe_group:
  assumes gd: "good a s" and f: "f \<in> set (lst a (LFe g))"
  shows "g \<in> live a" and "g \<in> set (lst a LGroups)" and "okn s f" and "f \<noteq> 0" and "is_fe (pay s f)"
    and "f \<notin> live a"
proof -
  have R: "repr a s" by (rule good_repr [OF gd])
  show "g \<in> live a" using repr_active [OF R f] by (simp add: active_def)
  then show "g \<in> set (lst a LGroups)" using good_live [OF gd] by simp
  show "okn s f" "f \<noteq> 0" "is_fe (pay s f)" using repr_mem [OF R f] by simp_all
  show "f \<notin> live a" by (rule repr_not_live [OF R f]) simp
qed

lemma good_cleanup:
  assumes gd: "good a s" and g: "g \<in> live a"
  shows "wp (speedy_group_cleanup g) (\<lambda>_ t. good (cleaned g a) t \<and> still a s (cleaned g a) t \<and>
     calm (live a) (live a - {g}) (bes a) s t) s"
proof -
  have W: "wfile a s" and td: "tidy a g" using gd by (simp_all add: goods)
  have gl: "g \<in> set (lst a LGroups)" using g good_live [OF gd] by simp
  show ?thesis
  proof (rule wp_mono [OF cleanup_spec [OF W g gl td]])
    fix x t assume t: "wfile (cleaned g a) t \<and> calm (live a) (live a - {g}) (bes a) s t"
    have "still a s (cleaned g a) t"
      by (rule still_groups [OF good_repr [OF gd] conjunct2 [OF t]]) (simp_all add: cleaned_lists)
    then show "good (cleaned g a) t \<and> still a s (cleaned g a) t \<and>
        calm (live a) (live a - {g}) (bes a) s t"
      using good_cleaned [OF gd g] t by blast
  qed
qed

section \<open>Removing dead frontends\<close>

definition fes :: "fstate \<Rightarrow> slotnum set" where
  "fes a = (\<Union>h. set (lst a (LFe h)))"

lemma fes_card:
  assumes R: "repr a s"
  shows "card (fes a) < list_fuel s"
proof -
  obtain xs where xs: "set xs = fes a" "distinct xs"
    using finite_distinct_list [of "fes a"] by auto
  have "okn s n" if "n \<in> set xs" for n using that xs repr_mem [OF R] by (auto simp: fes_def)
  then have "length xs \<le> unat (slots_alloced (fhd s))" by (intro okn_length xs)
  then show ?thesis using xs distinct_card [of xs] by (simp add: list_fuel_def)
qed

lemma fes_discard:
  assumes R: "repr a s" and f: "f \<in> set (lst a (LFe g))"
  shows "fes (discard (LFe g) f a) = fes a - {f}"
proof -
  have "set (lst (discard (LFe g) f a) (LFe h)) = set (lst a (LFe h)) - {f}" for h
    using repr_distinct [OF R, of "LFe g"] repr_disjoint [OF R f, of "LFe h"] by (cases "h = g") auto
  then show ?thesis by (auto simp: fes_def)
qed

lemma dispose_dead:
  assumes gd: "good a s" and f: "f \<in> set (lst a (LFe g))" and d: "\<not> me s f"
  shows "wp (speedy_frontend_dispose g f) (\<lambda>_ t. good (discard (LFe g) f a) t \<and>
     still a s (discard (LFe g) f a) t) s"
proof (rule wp_mono [OF frontend_dispose_spec [OF good_wfile [OF gd] f]])
  let ?b = "discard (LFe g) f a"
  fix x t assume t: "wfile ?b t \<and> calm (live a) (live a) (bes a) s t"
  have R: "repr a s" by (rule good_repr [OF gd])
  have c: "calm (live a) (live a) (bes a) s t" using t by blast
  have "good ?b t"
    by (rule good_shrink [OF gd _ shrink_discard [OF R f] c]) (use t in simp_all)
  moreover have "still a s ?b t"
  proof (rule still_keep [OF _ live_idle [OF R]])
    show k: "keep (live a) s t" using c by (simp add: calm_def)
    fix h e assume e: "e \<in> set (lst a (LFe h))" "me s e"
    have "e \<notin> live a" using repr_not_live [OF R e(1)] by simp
    then show "e \<in> set (lst ?b (LFe h)) \<and> fe_pid (fe t e) = fe_pid (fe s e)"
      using keep_views(2) [OF k, of e] e d by (cases "e = f") auto
  qed simp_all
  ultimately show "good ?b t \<and> still a s ?b t" by blast
qed

lemma check_prev_loop_spec:
  assumes "good a s" and "f \<in> set (lst a (LFe g))" and "card (fes a) < fuel"
  shows "wp (check_prev_loop fuel g f) (\<lambda>_ t. \<exists>b. good b t \<and> still a s b t) s"
  using assms
proof (induction fuel arbitrary: a s g f)
  case (Suc n)
  have R: "repr a s" by (rule good_repr [OF Suc.prems(1)])
  note G = fe_group [OF Suc.prems(1,2)]
  let ?p = "fe_pid (fe s f)" and ?Q = "\<lambda>_ t. \<exists>b. good b t \<and> still a s b t"
  let ?u = "kill_state ?p 0 s" and ?b = "discard (LFe g) f a"
  have gu: "good a ?u" and su: "still a s a ?u"
    using Suc.prems by (simp_all add: goods still_samefile)
  have live: "live a = set (lst a LGroups)" by (rule good_live [OF Suc.prems(1)])
  obtain g' f' where n': "f' \<in> set (lst a (LFe g'))" "g' \<in> set (lst a LGroups)"
    "\<And>Q. wp (fe_prev g f) Q ?u = Q (g', f') ?u"
    using fe_prev_mem [OF good_repr [OF gu] G(2) live Suc.prems(2)] by metis
  have dead: "wp (speedy_frontend_dispose g f) (\<lambda>_. wp (speedy_group_cleanup g) (\<lambda>_.
      wp (if f' = f then ret () else check_prev_loop n g' f') ?Q)) ?u"
    if no: "\<not> kill_ok s ?p 0"
  proof -
    have nme: "\<not> me ?u f" using no env_kill(1) [of ?p 0 s]
      by (auto simp: kill_ok_def me_def kill_views dest: env_proj)
    show ?thesis
    proof (rule wp_mono [OF dispose_dead [OF gu Suc.prems(2) nme]])
      fix x v assume v: "good ?b v \<and> still a ?u ?b v"
      show "wp (speedy_group_cleanup g) (\<lambda>_. wp (if f' = f then ret () else check_prev_loop n g' f') ?Q) v"
      proof (rule wp_mono [OF good_cleanup])
        show "good ?b v" using v by blast
        show "g \<in> live ?b" using G by simp
        fix y w assume w: "good (cleaned g ?b) w \<and> still ?b v (cleaned g ?b) w \<and>
          calm (live ?b) (live ?b - {g}) (bes ?b) v w"
        have st: "still a s (cleaned g ?b) w"
          using su v w still_trans by blast
        have "wp (check_prev_loop n g' f') ?Q w" if ne: "f' \<noteq> f"
        proof (rule wp_mono [OF Suc.IH])
          show "good (cleaned g ?b) w" using w by blast
          show "f' \<in> set (lst (cleaned g ?b) (LFe g'))"
            using n' ne by (auto simp: cleaned_lists)
          have "fes (cleaned g ?b) = fes a - {f}"
            using fes_discard [OF R Suc.prems(2)] by (simp add: fes_def cleaned_lists)
          moreover have "f \<in> fes a" using Suc.prems by (auto simp: fes_def)
          ultimately have "card (fes (cleaned g ?b)) < card (fes a)"
            by (metis card_Diff1_less finite)
          then show "card (fes (cleaned g ?b)) < n" using Suc.prems by simp
        next
          fix z t assume "\<exists>b. good b t \<and> still (cleaned g ?b) w b t"
          then show "\<exists>b. good b t \<and> still a s b t" using still_trans [OF st] by blast
        qed
        then show "wp (if f' = f then ret () else check_prev_loop n g' f') ?Q w"
          using w st by (auto simp: wps)
      qed
    qed
  qed
  have alive: "?Q () ?u" using gu su by blast
  have "wp (check_prev_loop (Suc n) g f) Q s = (if kill_ok s ?p 0 then Q () ?u
      else wp (speedy_frontend_dispose g f) (\<lambda>_. wp (speedy_group_cleanup g) (\<lambda>_.
        wp (if f' = f then ret () else check_prev_loop n g' f') Q)) ?u)" for Q
    using G by (simp add: wps n')
  then show ?case using dead alive by simp
qed simp

theorem check_prev_spec:
  assumes gd: "good a s" and f: "f \<in> set (lst a (LFe g))"
  shows "wp (frontend_check_prev g f) (\<lambda>_ t. \<exists>b. good b t \<and> still a s b t) s"
proof -
  have R: "repr a s" by (rule good_repr [OF gd])
  obtain g' f' where n: "f' \<in> set (lst a (LFe g'))"
    "\<And>Q. wp (fe_prev g f) Q s = Q (g', f') s"
    using fe_prev_mem [OF R fe_group(2) [OF gd f] good_live [OF gd] f] by metis
  show ?thesis
    using check_prev_loop_spec [OF gd n(1) fes_card [OF R]]
    by (simp add: frontend_check_prev_def wps n)
qed

section \<open>Spawning\<close>

definition spawn_error :: "why \<Rightarrow> bool" where
  "spawn_error e \<longleftrightarrow> e = Fork_failed \<or> e = Wait_failed"

lemma coreupd_still:
  assumes gd: "good a s" and w: "wfile a t" and c: "coreupd a g s t"
  shows "good a t" and "still a s a t"
proof -
  show "good a t" by (rule good_coreupd [OF gd w c])
  show "still a s a t" using c unfolding coreupd_def by (rule still_groups [OF good_repr [OF gd]]) simp_all
qed

lemma inval_still:
  assumes gd: "good a s" and g: "g \<in> live a" and w: "wfile (inval g a) t" and c: "coreupd a g s t"
  shows "good (inval g a) t" and "still a s (inval g a) t"
proof -
  show "good (inval g a) t" using gd g w c unfolding coreupd_def by (rule good_inval)
  show "still a s (inval g a) t" using c unfolding coreupd_def
    by (rule still_groups [OF good_repr [OF gd]]) simp_all
qed

lemma gr_still:
  assumes gd: "good a s" and g: "g \<in> live a" and h: "heads r = heads (gr s g)"
  shows "good a (ppay g (U_gr r) s)" and "still a s a (ppay g (U_gr r) s)"
  using coreupd_still [OF gd wfile_gr [OF good_wfile [OF gd] g h] coreupd_gr [OF good_repr [OF gd] g]]
  by blast+

definition ready :: "fstate \<Rightarrow> sys \<Rightarrow> slotnum \<Rightarrow> sys \<Rightarrow> bool" where
  "ready a s g t \<longleftrightarrow> (\<exists>b. good b t \<and> still a s b t \<and> g \<in> live b \<and>
     (\<forall>h. lst b (LFe h) = lst a (LFe h)))"

lemma ready_refl: "good a s \<Longrightarrow> g \<in> live a \<Longrightarrow> ready a s g s"
  by (auto simp: ready_def)

lemma ready_gr:
  assumes "ready a s g t" and "heads r = heads (gr t g)"
  shows "ready a s g (ppay g (U_gr r) t)"
proof -
  obtain b where b: "good b t" "still a s b t" "g \<in> live b" "\<forall>h. lst b (LFe h) = lst a (LFe h)"
    using assms(1) by (auto simp: ready_def)
  show ?thesis
    using gr_still [OF b(1,3) assms(2)] b still_trans [OF b(2)] by (auto simp: ready_def)
qed

lemma ready_okn: "ready a s g t \<Longrightarrow> okn t g \<and> is_gr (pay t g)"
  using repr_live good_repr by (fastforce simp: ready_def)

lemma spawn_spec:
  assumes r: "ready a s g t"
  shows "wpx h (be_parent_spawn g) (\<lambda>_ u. ready a s g u \<and>
     (\<forall>pid. kspawn (orc t) (klog t) = Spawned pid \<longrightarrow>
        be_parent (gr u g) = pid \<and> be_starting (gr u g) = pid)) spawn_error t"
proof (cases "kspawn (orc t) (klog t)")
  case (Spawned pid)
  let ?r = "(gr t g)\<lparr>be_parent := pid, be_starting := pid\<rparr>"
  let ?t = "ppay g (U_gr ((gr t g)\<lparr>be_parent := pid\<rparr>)) t"
  have t': "ready a s g ?t" by (rule ready_gr [OF r]) (simp add: heads_def)
  have "ready a s g (ppay g (U_gr ((gr ?t g)\<lparr>be_starting := pid\<rparr>)) ?t)"
    by (rule ready_gr [OF t']) (simp add: heads_def)
  then have "wp (be_parent_spawn g) (\<lambda>_ u. ready a s g u \<and>
     be_parent (gr u g) = pid \<and> be_starting (gr u g) = pid) t"
    using ready_okn [OF r] Spawned by (simp add: be_parent_spawn_def wps views)
  then show ?thesis using Spawned by (auto intro: wpx_wp)
qed (simp_all add: be_parent_spawn_def wpxs spawn_error_def r)

theorem start_or_ping_spec:
  assumes r: "ready a s g t"
  shows "wp (speedy_group_start_be g) (\<lambda>_. ready a s g) t"
    and "wp (speedy_group_parent_sig g sig) (\<lambda>_. ready a s g) t"
proof -
  obtain b where b: "good b t" "still a s b t" "g \<in> live b" "\<forall>h. lst b (LFe h) = lst a (LFe h)"
    using r by (auto simp: ready_def)
  have W: "wfile b t" and gl: "g \<in> set (lst b LGroups)"
    using b good_live [OF b(1)] by (simp_all add: goods)
  have R: "ready a s g u" if "coreupd b g t u" "wfile b u \<or> wfile (inval g b) u" for u
    using that(2)
  proof
    assume "wfile b u"
    then show ?thesis
      using coreupd_still [OF b(1) _ that(1)] still_trans [OF b(2)] b by (auto simp: ready_def)
  next
    assume "wfile (inval g b) u"
    then show ?thesis
      using inval_still [OF b(1,3) _ that(1)] still_trans [OF b(2)] b
      by (auto simp: ready_def intro!: exI [of _ "inval g b"])
  qed
  show "wp (speedy_group_start_be g) (\<lambda>_. ready a s g) t"
    by (rule wp_mono [OF start_be_spec [OF W b(3) gl]]) (auto intro: R split: if_splits)
  show "wp (speedy_group_parent_sig g sig) (\<lambda>_. ready a s g) t"
    by (rule wp_mono [OF parent_sig_spec [OF W b(3) gl]]) (auto intro: R split: if_splits)
qed

text \<open>
  A backend check fails only when a spawn has been tried before and no backend is starting.
\<close>

theorem backend_check_spec:
  assumes gd: "good a s" and g: "g \<in> live a"
  shows "wpx h (backend_check g did) (\<lambda>(ok, did') t. ready a s g t \<and> (\<not> ok \<longrightarrow> did) \<and> (did \<longrightarrow> did'))
     spawn_error s" (is "wpx h _ ?Q _ s")
proof -
  let ?start = "\<lambda>below. if below then bnd (speedy_group_start_be g) (\<lambda>started.
       if started then thenM [gr_upd g (\<lambda>r. r\<lparr>be_starting := be_parent r\<rparr>)] (ret (True, True))
       else ret (True, did))
     else bnd (speedy_group_parent_sig g 0) (\<lambda>_. ret (True, did))"
  have start: "wpx h (?start below) ?Q spawn_error t" if r: "ready a s g t" for below t
  proof (rule wpx_wp)
    have fin: "wp (if x then thenM [gr_upd g (\<lambda>r. r\<lparr>be_starting := be_parent r\<rparr>)] (ret (True, True))
        else ret (True, did)) ?Q u" if "ready a s g u" for x u
      using that ready_okn [OF that] ready_gr [OF that] by (simp add: wps heads_def)
    show "wp (?start below) ?Q t"
    proof (cases below)
      case True
      then show ?thesis by (simp add: wp_bnd) (rule wp_mono [OF start_or_ping_spec(1) [OF r] fin])
    next
      case False
      then show ?thesis
        by (simp add: wp_bnd) (rule wp_mono [OF start_or_ping_spec(2) [OF r]], simp add: wps)
    qed
  qed
  have below: "wpx h (bnd (speedy_backend_below_maxbe g) ?start) ?Q spawn_error t"
    if r: "ready a s g t" for t
  proof -
    obtain b where b: "good b t" "g \<in> live b" using r by (auto simp: ready_def)
    show ?thesis unfolding wpx_bnd
      by (rule wpx_wp, subst below_maxbe_spec [OF good_repr [OF b(1)] b(2)]) (rule start [OF r])
  qed
  have spawn: "wpx h (thenM [whenM c (be_parent_spawn g)]
      (bnd (speedy_backend_below_maxbe g) ?start)) ?Q spawn_error t" if r: "ready a s g t" for c t
    using below [OF r] wpx_mono [OF spawn_spec [OF r]] below by (simp add: wpxs)
  show ?thesis unfolding backend_check_def wpx_bnd
  proof (rule wpx_mono [OF wpx_wp [OF be_starting_spec [OF good_wfile [OF gd] g]]])
    fix p t assume t: "wfile a t \<and> coreupd a g s t \<and> gr t g = (gr s g)\<lparr>be_starting := p\<rparr> \<and>
       (p \<noteq> 0 \<longrightarrow> p = be_starting (gr s g) \<and> kill_ok s p 0)"
    have r: "ready a s g t"
      using coreupd_still [OF gd, of t g] t g by (auto simp: ready_def)
    have gr: "wpx h (gr_get g) Q spawn_error t = Q (gr t g) t" for Q
      by (rule wpx_eq) (use ready_okn [OF r] in \<open>simp add: wps\<close>)
    show "wpx h (if p \<noteq> 0 then ret (True, did) else if did then ret (False, did) else
        bnd (gr_get g) (\<lambda>gslot. thenM [whenM (be_parent gslot = 0) (be_parent_spawn g)]
          (bnd (speedy_backend_below_maxbe g) ?start))) ?Q spawn_error t"
      using r spawn [OF r] by (cases did; cases "p = 0") (simp_all add: wpxs(1-4,7) gr)
  qed
qed

end
