(* ===== verification/FrontendConnect.thy ===== *)
theory FrontendConnect
  imports FrontendQueue
begin

text \<open>
  Queueing for a backend and connecting to it: what \<open>get_a_backend_hard\<close>,
  \<open>get_a_backend\<close> and \<open>speedy_frontend_connect\<close> do to the file while other processes work on
  it between their critical sections.
\<close>

section \<open>Other processes\<close>

definition near :: "sys \<Rightarrow> sys \<Rightarrow> bool" where
  "near s t \<longleftrightarrow> env t = env s \<and> meta t = meta s"

definition steady :: "sys \<Rightarrow> sys \<Rightarrow> bool" where
  "steady s t \<longleftrightarrow> mypid t = mypid s \<and> o_group t = o_group s \<and> o_maxbackends t = o_maxbackends s \<and>
     o_becheck t = o_becheck s \<and> orc t = orc s"

definition keeps_own :: "fstate \<Rightarrow> sys \<Rightarrow> fstate \<Rightarrow> sys \<Rightarrow> bool" where
  "keeps_own a s b t \<longleftrightarrow>
     (\<forall>g f. f \<in> set (lst a (LFe g)) \<longrightarrow> me s f \<longrightarrow> f \<in> set (lst b (LFe g)) \<and> me t f)"

text \<open>
  What the process relies on: when it comes back from its \<open>i\<close>-th wait the file is good
  again, its own frontend slots are where they were, and if there was room for \<open>r i\<close> slots
  then there is now room for four more than \<open>r (i + 1)\<close>, the most a frontend allocates before it
  waits again.
\<close>

definition coop :: "nat \<Rightarrow> (nat \<Rightarrow> nat) \<Rightarrow> (nat \<Rightarrow> sys \<Rightarrow> sys) \<Rightarrow> bool" where
  "coop m r others \<longleftrightarrow> (\<forall>i a s. i < m \<longrightarrow> good a s \<longrightarrow> room (r i) s \<longrightarrow>
     steady s (others i s) \<and> room (r (Suc i) + 4) (others i s) \<and>
     (\<exists>b. good b (others i s) \<and> keeps_own a s b (others i s)))"

lemma near_refl [simp, intro]: "near s s" by (simp add: near_def)
lemma near_trans: "near s t \<Longrightarrow> near t u \<Longrightarrow> near s u" by (simp add: near_def)
lemma steady_refl [simp, intro]: "steady s s" by (simp add: steady_def)
lemma steady_trans: "steady s t \<Longrightarrow> steady t u \<Longrightarrow> steady s u" by (simp add: steady_def)

lemma near_steady: "near s t \<Longrightarrow> steady s t"
  by (auto simp: near_def steady_def dest: env_proj)

lemma near_loc: "near s t \<Longrightarrow> loc t = loc s" by (auto simp: near_def dest: env_proj)

lemma near_room: "near s t \<Longrightarrow> room k t = room k s"
  by (auto simp: near_def meta_def room_def dest: env_proj)

lemma near_still: "still a s b t \<Longrightarrow> near s t" by (simp add: still_def near_def)
lemma near_calm: "calm L G M s t \<Longrightarrow> near s t" by (simp add: calm_def keep_def near_def)
lemma near_coreupd: "coreupd a g s t \<Longrightarrow> near s t" unfolding coreupd_def by (rule near_calm)

definition qinv :: "fstate \<Rightarrow> sys \<Rightarrow> slotnum \<Rightarrow> slotnum \<Rightarrow> bool" where
  "qinv a s g f \<longleftrightarrow> good a s \<and> f \<in> set (lst a (LFe g)) \<and> me s f"

lemma qinv_still: "qinv a s g f \<Longrightarrow> good b t \<Longrightarrow> still a s b t \<Longrightarrow> qinv b t g f"
  using still_me [of a s b t f g] by (simp add: qinv_def)

section \<open>Changes of the process's own memory\<close>

definition ploc :: "(plocal \<Rightarrow> plocal) \<Rightarrow> sys \<Rightarrow> sys" where
  "ploc f s = s\<lparr>loc := f (loc s)\<rparr>"

lemma samefile_ploc [simp]: "samefile s (ploc f s)"
  by (simp add: samefile_def ploc_def)

lemmas ploc_views [views] = samefile_views [OF samefile_ploc]

lemma ploc_env [simp]: "mypid (ploc f s) = mypid s" "steady s (ploc f s)" "loc (ploc f s) = f (loc s)"
  "room k (ploc f s) = room k s" "me (ploc f s) x = me s x" "orc (ploc f s) = orc s"
  "o_group (ploc f s) = o_group s" "o_maxbackends (ploc f s) = o_maxbackends s"
  "o_becheck (ploc f s) = o_becheck s"
  by (simp_all add: ploc_def steady_def room_def me_def fe_def pay_def)

lemma good_ploc [simp]: "good a (ploc f s) = good a s"
proof -
  have "bv (ploc f s) b = bv s b" for b by (simp add: bv_def ploc_views)
  then show ?thesis
    using wfile_samefile [OF samefile_ploc [of s f], of a] orders_cong [where t = "ploc f s" and s = s]
    by (simp add: good_def)
qed

lemma wp_upd_loc [wps]: "wp (upd_loc f) Q s = Q () (ploc f s)"
  by (simp add: upd_loc_def ploc_def wps)

lemma wp_alarm [wps]:
  "wp (alarm n) Q s = Q (alarm_left (loc s)) (ploc (\<lambda>l. l\<lparr>alarm_left := n\<rparr>) s)"
  by (simp add: alarm_def wps)

lemma ploc_ploc [simp]: "ploc f (ploc g s) = ploc (\<lambda>l. f (g l)) s" "ploc (\<lambda>l. l) s = s"
  by (simp_all add: ploc_def)

definition torn_down :: "bool \<Rightarrow> plocal \<Rightarrow> plocal" where
  "torn_down back l = (if \<not> sig_setup_done l then l
     else if back \<and> next_alarm l \<noteq> 0
     then l\<lparr>next_alarm := next_alarm l - now l,
            alarm_left := (if 0 < next_alarm l - now l then next_alarm l - now l else 1),
            sig_setup_done := False\<rparr>
     else l\<lparr>alarm_left := 0, sig_setup_done := False\<rparr>)"

definition set_up :: "plocal \<Rightarrow> plocal" where
  "set_up l = (let k = torn_down True l in
     k\<lparr>alarm_left := 0, next_alarm := (if alarm_left k \<noteq> 0 then alarm_left k + now k else 0),
       sig_setup_done := True\<rparr>)"

lemma ploc_cong: "f (loc s) = g (loc s) \<Longrightarrow> ploc f s = ploc g s"
  by (simp add: ploc_def)

lemma wp_teardown [wps]: "wp (sig_handler_teardown back) Q s = Q () (ploc (torn_down back) s)"
proof -
  have "wp (sig_handler_teardown back) Q s = Q () (ploc (\<lambda>_. torn_down back (loc s)) s)"
    by (simp add: sig_handler_teardown_def wps torn_down_def ploc_def)
  then show ?thesis using ploc_cong [of "\<lambda>_. torn_down back (loc s)" s "torn_down back"] by simp
qed

lemma wp_setup [wps]: "wp sig_handler_setup Q s = Q () (ploc set_up s)"
proof -
  have "wp sig_handler_setup Q s = Q () (ploc (\<lambda>_. set_up (loc s)) s)"
    by (simp add: sig_handler_setup_def wps set_up_def ploc_def Let_def)
  then show ?thesis using ploc_cong [of "\<lambda>_. set_up (loc s)" s set_up] by simp
qed

lemma loc_ticks [simp]:
  "tick (torn_down b l) = tick l" "tick (set_up l) = tick l"
  "now (torn_down b l) = now l" "now (set_up l) = now l"
  "did_clean (torn_down b l) = did_clean l" "did_clean (set_up l) = did_clean l"
  by (simp_all add: torn_down_def set_up_def Let_def)

text \<open>
  The caller's alarm survives: if it had \<open>n\<close> seconds left when the handlers were set up, then
  it has as many less the time passed when they are torn down, but at least one.
\<close>

theorem alarm_restored:
  assumes "\<not> sig_setup_done l" and "0 < alarm_left l" and "0 \<le> now l" and "now l \<le> t"
  shows "alarm_left (torn_down True ((set_up l)\<lparr>now := t, alarm_left := x\<rparr>)) =
     max 1 (alarm_left l - (t - now l))"
  using assms by (simp add: torn_down_def set_up_def max_def)

section \<open>One round of the queue\<close>

text \<open>
  A backend that has been taken: it is still marked as waiting, but it is at the end of the
  list, and apart from it the list is in order.
\<close>

definition settled :: "fstate \<Rightarrow> sys \<Rightarrow> slotnum \<Rightarrow> slotnum \<Rightarrow> bool" where
  "settled a s g b \<longleftrightarrow> wfile a s \<and> tidyf a \<and>
     (if b = 0 then orders a s
      else \<exists>xs. lst a (LBe g) = xs @ [b] \<and> waiting s b \<and> be_order s xs \<and>
        (\<forall>h. h \<noteq> g \<longrightarrow> be_order s (lst a (LBe h))))"

lemma settled_0: "settled a s g 0 = good a s"
  by (simp add: settled_def good_def)

lemma be_order_tl: "be_order s (b # xs) \<Longrightarrow> be_order s xs"
  using be_order_filter [of s "b # xs" "\<lambda>x. x \<in> set xs"]
  by (cases "b \<in> set xs") (auto simp: be_order_filter_form split: if_splits intro: prefix_ok_none)

lemma settled_calm:
  assumes s: "settled a s g b" and w: "wfile a' t" and c: "calm L G (bes a) s t"
    and l: "\<And>h. lst a' (LBe h) = lst a (LBe h)" and td: "tidyf a'"
  shows "settled a' t g b"
proof -
  have bv: "bv t m = bv s m" if "m \<in> set (lst a (LBe h))" for m h
    using c that by (auto simp: calm_def bes_def)
  have o: "be_order t (filter P (lst a (LBe h))) = be_order s (filter P (lst a (LBe h)))" for h P
    by (rule be_order_cong) (auto intro: bv [of _ h])
  have "be_order t xs = be_order s xs" "waiting t b = waiting s b" if "lst a (LBe g) = xs @ [b]" for xs
    using that bv [of _ g] by (auto simp: waiting_def bv_def intro!: be_order_cong)
  moreover have "orders a' t = orders a s" "be_order t (lst a (LBe h)) = be_order s (lst a (LBe h))" for h
    using o [of "\<lambda>_. True"] l by (simp_all add: orders_def)
  ultimately show ?thesis using s w td l by (auto simp: settled_def split: if_splits)
qed

lemma sendsigs_queued:
  assumes q: "qinv a s g f"
  shows "wp (speedy_group_sendsigs g) (\<lambda>_ t. \<exists>b. qinv b t g f \<and> near s t) s"
proof -
  have gd: "good a s" and f: "f \<in> set (lst a (LFe g))" and m: "me s f" using q by (simp_all add: qinv_def)
  show ?thesis
  proof (rule wp_mono [OF sendsigs_spec [OF good_wfile [OF gd] fe_group(1) [OF gd f]]])
    fix x t assume "\<exists>b. wfile b t \<and> shrink {LFe g} a b \<and>
       calm (live a \<union> set (lst a (LFe g))) (live a) (bes a) s t \<and> woken g a b s t"
    then obtain b where b: "wfile b t" "shrink {LFe g} a b"
      and c: "calm (live a \<union> set (lst a (LFe g))) (live a) (bes a) s t" and w: "woken g a b s t" by blast
    have gb: "good b t" by (rule good_shrink [OF gd b c]) simp_all
    have fb: "f \<in> set (lst b (LFe g))" using w f m by (auto simp: woken_def)
    have "fe_pid (fe t f) = fe_pid (fe s f)" using w fb by (auto simp: woken_def)
    then have "me t f" using m calm_env [OF c] by (auto simp: me_def dest: env_proj)
    then show "\<exists>b. qinv b t g f \<and> near s t" using gb fb near_calm [OF c] by (auto simp: qinv_def)
  qed
qed

lemma clear_sent_sig:
  assumes q: "qinv a s g f" and p: "fe_pid r = fe_pid (fe s f)"
  shows "qinv a (ppay f (U_fe r) s) g f" and "near s (ppay f (U_fe r) s)"
proof -
  have gd: "good a s" and f: "f \<in> set (lst a (LFe g))" using q by (simp_all add: qinv_def)
  note W = wfile_fe_wait [OF good_wfile [OF gd] f, of r]
  show n: "near s (ppay f (U_fe r) s)" by (rule near_calm [OF W(2)])
  have "mypid (ppay f (U_fe r) s) = mypid s" using n by (auto simp: near_def dest: env_proj)
  then have "me (ppay f (U_fe r) s) f = me s f" by (simp add: me_def views p)
  then show "qinv a (ppay f (U_fe r) s) g f"
    using good_calm [OF gd W] q by (simp add: qinv_def)
qed

lemma take_good:
  assumes gd: "good a s" and g: "g \<in> live a"
  shows "wp (speedy_backend_be_wait_get g) (\<lambda>b t. coreupd a g s t \<and> (b \<noteq> 0 \<longrightarrow> waiting t b) \<and>
     settled (if b = 0 then a else upl (LBe g) (tl (lst a (LBe g)) @ [b]) a) t g b \<and>
     (b \<noteq> 0 \<longrightarrow> b \<in> set (lst a (LBe g)))) s"
proof (rule wp_mono [OF be_wait_get_spec [OF good_wfile [OF gd] g]])
  fix b t
  assume t: "coreupd a g s t \<and> be_parent (gr t g) = be_parent (gr s g) \<and>
     (if b = 0 then wfile a t
      else \<exists>xs. lst a (LBe g) = b # xs \<and> waiting s b \<and> be_starting (gr t g) = 0 \<and>
        wfile (upl (LBe g) (xs @ [b]) a) t)"
  have c: "calm (live a) (live a - {g}) (bes a) s t" using t by (simp add: coreupd_def)
  show "coreupd a g s t \<and> (b \<noteq> 0 \<longrightarrow> waiting t b) \<and>
     settled (if b = 0 then a else upl (LBe g) (tl (lst a (LBe g)) @ [b]) a) t g b \<and>
     (b \<noteq> 0 \<longrightarrow> b \<in> set (lst a (LBe g)))"
  proof (cases "b = 0")
    case True
    then show ?thesis using good_calm [OF gd _ c] t by (auto simp: settled_0)
  next
    case False
    then obtain xs where xs: "lst a (LBe g) = b # xs" "waiting s b"
      and w: "wfile (upl (LBe g) (xs @ [b]) a) t" using t by auto
    have bv: "bv t m = bv s m" if "m \<in> set (lst a (LBe h))" for m h
      using c that by (auto simp: calm_def bes_def)
    have wt: "waiting t b" using bv [of b g] xs by (simp add: bv_def waiting_def)
    have os: "be_order s (lst a (LBe h))" for h using gd by (simp add: good_def orders_def)
    have "be_order t xs = be_order s xs" using bv [of _ g] xs by (auto intro!: be_order_cong)
    moreover have "be_order t (lst a (LBe h)) = be_order s (lst a (LBe h))" for h
      by (rule be_order_cong) (rule bv)
    ultimately have "settled (upl (LBe g) (xs @ [b]) a) t g b"
      using w wt False os os [of g] xs be_order_tl gd
      by (auto simp: settled_def good_def tidyf_lists [of "upl (LBe g) (xs @ [b]) a" a])
    then show ?thesis using t wt xs False by simp
  qed
qed

lemma take_backend:
  assumes q: "qinv a s g f"
  shows "wp (speedy_backend_be_wait_get g) (\<lambda>b t. near s t \<and>
     (\<exists>a'. settled a' t g b \<and> f \<in> set (lst a' (LFe g)) \<and> me t f \<and> (b \<noteq> 0 \<longrightarrow> waiting t b))) s"
proof -
  have gd: "good a s" and f: "f \<in> set (lst a (LFe g))" and m: "me s f" using q by (simp_all add: qinv_def)
  note G = fe_group [OF gd f]
  show ?thesis
  proof (rule wp_mono [OF take_good [OF gd G(1)]])
    fix b t assume t: "coreupd a g s t \<and> (b \<noteq> 0 \<longrightarrow> waiting t b) \<and>
      settled (if b = 0 then a else upl (LBe g) (tl (lst a (LBe g)) @ [b]) a) t g b \<and>
      (b \<noteq> 0 \<longrightarrow> b \<in> set (lst a (LBe g)))"
    have n: "near s t" using t by (auto intro: near_coreupd)
    have k: "keep (live a) s t" using t by (simp add: coreupd_def calm_def)
    have "me t f" using m keep_views(2) [OF k G(6)] n by (auto simp: me_def near_def dest: env_proj)
    then show "near s t \<and> (\<exists>a'. settled a' t g b \<and> f \<in> set (lst a' (LFe g)) \<and> me t f \<and>
        (b \<noteq> 0 \<longrightarrow> waiting t b))" using n t f
      by (intro conjI exI [of _ "if b = 0 then a else upl (LBe g) (tl (lst a (LBe g)) @ [b]) a"]) auto
  qed
qed

theorem ping_spec:
  assumes q: "qinv a s g f"
  shows "wpx h (frontend_ping g f did) (\<lambda>(ok, did') t. (\<exists>b. qinv b t g f) \<and> near s t \<and>
     (\<not> ok \<longrightarrow> did) \<and> (did \<longrightarrow> did')) spawn_error s" (is "wpx h _ ?Q _ s")
proof -
  have gd: "good a s" and f: "f \<in> set (lst a (LFe g))" using q by (simp_all add: qinv_def)
  have rest: "wpx h (bnd (speedy_slot_prev f) (\<lambda>prev. if prev \<noteq> 0 then ret (True, did)
        else backend_check g did)) ?Q spawn_error t" if ex: "\<exists>b. good b t \<and> still a s b t" for t
  proof -
    obtain b where b: "good b t" "still a s b t" using ex by blast
    have qb: "qinv b t g f" by (rule qinv_still [OF q b])
    then have fb: "f \<in> set (lst b (LFe g))" by (simp add: qinv_def)
    have pv: "wpx h (speedy_slot_prev f) Q spawn_error t = Q (prv t f) t" for Q
      by (rule wpx_eq) (use fe_group(3) [OF b(1) fb] in \<open>simp add: wps\<close>)
    have "wpx h (backend_check g did) ?Q spawn_error t"
    proof (rule wpx_mono [OF backend_check_spec [OF b(1) fe_group(1) [OF b(1) fb]]])
      fix p u assume p: "(\<lambda>(ok, did') v. ready b t g v \<and> (\<not> ok \<longrightarrow> did) \<and> (did \<longrightarrow> did')) p u"
      then obtain c where c: "good c u" "still b t c u"
        by (auto simp: ready_def split: prod.splits)
      have "qinv c u g f" "near s u"
        using qinv_still [OF qb c] near_trans [OF near_still [OF b(2)] near_still [OF c(2)]] by auto
      then show "?Q p u" using p by auto
    qed
    then show ?thesis using qb near_still [OF b(2)] by (auto simp: wpxs(1,2) pv)
  qed
  show ?thesis unfolding frontend_ping_def wpx_thenM wpx_seqM
    by (rule wpx_mono [OF wpx_wp [OF check_prev_spec [OF gd f]]]) (rule rest)
qed

section \<open>Queueing\<close>

lemma wpx_isvalid:
  assumes gd: "good a s" and g: "g \<in> live a"
  shows "wpx h (speedy_group_isvalid g) Q E s = Q (valid a g) s"
proof (rule wpx_eq)
  have R: "repr a s" by (rule good_repr [OF gd])
  have "script_head (gr s g) \<noteq> 0 \<longleftrightarrow> valid a g"
    using repr_script_head [OF R g] hd0_eq_0 [OF R, of "LScr g"] by (simp add: valid_def)
  then show "wp (speedy_group_isvalid g) Q s = Q (valid a g) s" for Q
    using repr_live [OF R g] by (simp add: speedy_group_isvalid_def wps refok_def)
qed

definition relocked :: "(nat \<Rightarrow> sys \<Rightarrow> sys) \<Rightarrow> sys \<Rightarrow> sys" where
  "relocked others s = (others (tick (loc s)) s)\<lparr>loc := (loc s)\<lparr>tick := Suc (tick (loc s))\<rparr>\<rparr>"

lemma wpx_lock_file: "wpx h (lock_file others) Q E s = Q () (relocked others s)"
  by (simp add: lock_file_def relocked_def wpxs)

lemma relocked_ploc: "relocked others s = ploc (\<lambda>_. (loc s)\<lparr>tick := Suc (tick (loc s))\<rparr>) (others (tick (loc s)) s)"
  by (simp add: relocked_def ploc_def)

lemma coop_relocked:
  assumes c: "coop m r others" and gd: "good a s" and i: "tick (loc s) < m"
    and room: "room (r (tick (loc s))) s"
  shows "\<exists>b. good b (relocked others s) \<and> keeps_own a s b (relocked others s)"
    and "steady s (relocked others s)"
    and "room (r (tick (loc (relocked others s))) + 4) (relocked others s)"
    and "loc (relocked others s) = (loc s)\<lparr>tick := Suc (tick (loc s))\<rparr>"
  using c gd i room by (auto simp: coop_def relocked_ploc keeps_own_def steady_def)

definition pausing :: "answers \<Rightarrow> plocal \<Rightarrow> plocal" where
  "pausing q l = l\<lparr>now := kclock q (tick l), alarm_left := kleft q (tick l)\<rparr>"

lemma wp_pause: "wp pause Q s = Q () (ploc (pausing (orc s)) s)"
  by (simp add: pause_def ploc_def pausing_def wps)

text \<open>What queueing leaves behind: the frontend still in its queue, a backend taken or none.\<close>

definition served :: "nat \<Rightarrow> (nat \<Rightarrow> nat) \<Rightarrow> sys \<Rightarrow> slotnum \<Rightarrow> slotnum \<Rightarrow> slotnum \<Rightarrow> sys \<Rightarrow> bool" where
  "served n r s g f b t \<longleftrightarrow> (\<exists>a. settled a t g b \<and> f \<in> set (lst a (LFe g)) \<and> me t f) \<and> steady s t \<and>
     room (r (tick (loc t))) t \<and> tick (loc s) \<le> tick (loc t) \<and> tick (loc t) \<le> tick (loc s) + n"

lemma served_near:
  assumes "near s t" and "room (r (tick (loc s))) s" and "settled a t g b" and "f \<in> set (lst a (LFe g))"
    and "me t f"
  shows "served n r s g f b t"
  using assms near_loc [OF assms(1)] near_room [OF assms(1)] near_steady [OF assms(1)]
  by (auto simp: served_def)

theorem hard_loop_spec:
  assumes "coop m r others" and "qinv a s g f" and "tick (loc s) + n \<le> m" and "room (r (tick (loc s))) s"
    and "\<forall>k < n. \<not> kchanged (orc s) (tick (loc s) + k) \<Longrightarrow> h"
    and "sw"
  shows "wpx h (hard_loop n others g f did sw)
     (\<lambda>(w, b) t. served n r s g f b t \<and> (b \<noteq> 0 \<longrightarrow> w)) spawn_error s"
  using assms
proof (induction n arbitrary: a s did sw)
  case 0
  then show ?case by (simp add: wpxs)
next
  case (Suc n)
  let ?Q = "\<lambda>(w, b) t. served (Suc n) r s g f b t \<and> (b \<noteq> 0 \<longrightarrow> w)"
  let ?room = "\<lambda>t. room (r (tick (loc t))) t"
  have near_r: "?room t" if "near s t" for t
    using Suc.prems(4) near_room [OF that] near_loc [OF that] by simp
  let ?wait = "\<lambda>working spawned. bnd (gets o_becheck) (\<lambda>secs. bnd (alarm secs) (\<lambda>_. thenM [pause]
    (bnd script_changed (\<lambda>file_changed. bnd (speedy_group_lock others g) (\<lambda>valid.
     if \<not> valid \<or> file_changed then ret (working, 0)
     else hard_loop n others g f spawned working)))))"
  have wait: "wpx h (?wait working spawned) ?Q spawn_error t"
    if q: "qinv b t g f" and nr: "near s t" and working for working spawned b t
  proof -
    let ?p = "ploc (\<lambda>l. pausing (orc t) (l\<lparr>alarm_left := o_becheck t\<rparr>)) t"
    have gp: "good b ?p" and rp: "?room ?p" and tk: "tick (loc ?p) = tick (loc s)" "tick (loc ?p) < m"
      using q near_r [OF nr] near_loc [OF nr] Suc.prems(3) by (auto simp: qinv_def pausing_def)
    let ?u = "relocked others ?p"
    note C = coop_relocked [OF Suc.prems(1) gp tk(2) rp]
    obtain c where c: "good c ?u" "keeps_own b ?p c ?u" using C(1) by blast
    have qc: "qinv c ?u g f" using q c by (auto simp: qinv_def keeps_own_def)
    have st: "steady s ?u"
      using steady_trans [OF steady_trans [OF near_steady [OF nr] ploc_env(2)] C(2)] .
    have tu: "tick (loc ?u) = Suc (tick (loc s))" using C(4) tk(1) by simp
    have ru: "?room ?u" by (rule room_less [OF C(3)]) simp
    have gl: "g \<in> live c" using fe_group(1) [OF c(1), of f g] qc by (simp add: qinv_def)
    have orc: "orc ?u = orc s" "orc ?p = orc s"
      using st near_steady [OF nr] by (simp_all add: steady_def ploc_def)
    have stop: "?Q (working, 0) ?u"
      using st ru tu qc by (auto simp: served_def settled_0 qinv_def)
    have go: "wpx h (hard_loop n others g f spawned working) ?Q spawn_error ?u"
      if nc: "\<not> kchanged (orc s) (tick (loc s))"
    proof (rule wpx_mono [OF Suc.IH [OF Suc.prems(1) qc _ ru]])
      show "tick (loc ?u) + n \<le> m" using tu Suc.prems(3) by simp
      assume *: "\<forall>k < n. \<not> kchanged (orc ?u) (tick (loc ?u) + k)"
      have "\<not> kchanged (orc s) (tick (loc s) + k)" if "k < Suc n" for k
        using that nc * orc tu by (cases k) auto
      then show h using Suc.prems(5) by blast
    next
      show working by fact
    next
      fix p v assume "(\<lambda>(w, b) v. served n r ?u g f b v \<and> (b \<noteq> 0 \<longrightarrow> w)) p v"
      then show "?Q p v" using st tu by (auto simp: served_def intro: steady_trans)
    qed
    have "wpx h (?wait working spawned) ?Q spawn_error t =
      (if \<not> valid c g \<or> kchanged (orc ?p) (tick (loc ?p)) then ?Q (working, 0) ?u
       else wpx h (hard_loop n others g f spawned working) ?Q spawn_error ?u)"
    proof -
      have al: "wpx h (alarm n) Q spawn_error t = Q (alarm_left (loc t)) (ploc (\<lambda>l. l\<lparr>alarm_left := n\<rparr>) t)"
        for n Q by (rule wpx_eq) (rule wp_alarm)
      have pa: "wpx h pause Q spawn_error u = Q () (ploc (pausing (orc u)) u)" for Q u
        by (rule wpx_eq) (rule wp_pause)
      show ?thesis
        by (simp add: wpxs al pa script_changed_def speedy_group_lock_def wpx_lock_file
          wpx_isvalid [OF c(1) gl] cong: if_cong)
    qed
    moreover have "kchanged (orc ?p) (tick (loc ?p)) = kchanged (orc s) (tick (loc s))"
      by (simp only: orc tk)
    ultimately show ?thesis using stop go by (simp split: if_splits)
  qed
  let ?pinged = "\<lambda>(working, spawned). bnd (if working then speedy_group_isvalid g else ret False) (\<lambda>valid.
     if \<not> valid then ret (working, 0) else ?wait working spawned)"
  have pinged: "wpx h (?pinged p) ?Q spawn_error t" if q: "qinv b t g f" and nr: "near s t" for p b t
  proof -
    have "g \<in> live b" using fe_group(1) [of b t f g] q by (simp add: qinv_def)
    moreover have "?Q (w, 0) t" for w
      using served_near [where r = r, OF nr Suc.prems(4)] q by (auto simp: settled_0 qinv_def)
    ultimately show ?thesis
      using wait [OF q nr] q wpx_isvalid [of b t g]
      by (cases p) (auto simp: wpxs qinv_def)
  qed
  let ?got = "\<lambda>b. if b \<noteq> 0 then ret (sw, b) else bnd (frontend_ping g f did) ?pinged"
  have got: "wpx h (?got b) ?Q spawn_error t"
    if b: "settled c t g b" "f \<in> set (lst c (LFe g))" "me t f" and nr: "near s t" for b c t
  proof (cases "b = 0")
    case False
    then show ?thesis using served_near [where r = r, OF nr Suc.prems(4) b] Suc.prems(6) by (simp add: wpxs)
  next
    case True
    then have q: "qinv c t g f" using b by (simp add: settled_0 qinv_def)
    have "wpx h (frontend_ping g f did) (\<lambda>p. wpx h (?pinged p) ?Q spawn_error) spawn_error t"
    proof (rule wpx_mono [OF ping_spec [OF q]])
      fix p u assume "(\<lambda>(ok, did') u. (\<exists>b. qinv b u g f) \<and> near t u \<and> (\<not> ok \<longrightarrow> did) \<and> (did \<longrightarrow> did')) p u"
      then obtain d where "qinv d u g f" "near t u" by (auto split: prod.splits)
      then show "wpx h (?pinged p) ?Q spawn_error u" using pinged near_trans [OF nr] by blast
    qed
    then show ?thesis using True by (simp only: wpx_bnd if_False simp_thms)
  qed
  let ?look = "\<lambda>r. thenM [fe_upd f (\<lambda>r. r\<lparr>sent_sig := 0\<rparr>)]
     (bnd (if sent_sig r \<noteq> 0 then speedy_backend_be_wait_get g else ret 0) ?got)"
  have look: "wpx h (?look r) ?Q spawn_error t" if q: "qinv b t g f" and nr: "near s t" for r b t
  proof -
    have f: "okn t f" "is_fe (pay t f)" using fe_group(3,5) [of b t f g] q by (simp_all add: qinv_def)
    let ?t = "ppay f (U_fe ((fe t f)\<lparr>sent_sig := 0\<rparr>)) t"
    have q': "qinv b ?t g f" and nr': "near s ?t"
      using clear_sent_sig [OF q, of "(fe t f)\<lparr>sent_sig := 0\<rparr>"] near_trans [OF nr] by auto
    have up: "wpx h (fe_upd f (\<lambda>r. r\<lparr>sent_sig := 0\<rparr>)) Q spawn_error t = Q () ?t" for Q
      by (rule wpx_eq) (use f in \<open>simp add: wps\<close>)
    have "wpx h (speedy_backend_be_wait_get g) (\<lambda>b. wpx h (?got b) ?Q spawn_error) spawn_error ?t"
    proof (rule wpx_mono [OF wpx_wp [OF take_backend [OF q']]])
      fix b u assume "near ?t u \<and> (\<exists>a'. settled a' u g b \<and> f \<in> set (lst a' (LFe g)) \<and> me u f \<and>
         (b \<noteq> 0 \<longrightarrow> waiting u b))"
      then show "wpx h (?got b) ?Q spawn_error u" using got near_trans [OF nr'] by blast
    qed
    moreover have "wpx h (?got 0) ?Q spawn_error ?t"
      by (rule got [OF _ _ _ nr']) (use q' in \<open>auto simp: qinv_def settled_0\<close>)
    ultimately show ?thesis by (simp only: wpx_thenM wpx_seqM up wpx_bnd wpx_if wpx_ret split: if_split) simp
  qed
  have start: "wpx h (bnd (fe_get f) ?look) ?Q spawn_error t" if q: "qinv b t g f" and nr: "near s t" for b t
  proof -
    have "wpx h (fe_get f) Q spawn_error t = Q (fe t f) t" for Q
      by (rule wpx_eq) (use fe_group(3,5) [of b t f g] q in \<open>simp add: qinv_def wps\<close>)
    then show ?thesis using look [OF q nr] by (simp only: wpx_bnd)
  qed
  show ?case unfolding hard_loop.simps wpx_thenM wpx_seqM
    by (rule wpx_mono [OF wpx_wp [OF sendsigs_queued [OF Suc.prems(2)]]]) (use start in blast)
qed

end
