(* ===== verification/FrontendGet.thy ===== *)
theory FrontendGet
  imports FrontendConnect
begin

text \<open>
  \<open>get_a_backend_hard\<close>, \<open>get_a_backend\<close> and \<open>speedy_frontend_connect\<close> as a whole: they
  leave a good file behind, whatever the other processes do within the contract \<open>coop\<close>.
\<close>

definition mine :: "fstate \<Rightarrow> sys \<Rightarrow> slotnum \<Rightarrow> bool" where
  "mine a s f \<longleftrightarrow> held a s f \<and> is_fe (pay s f) \<and> me s f"

lemma settled_repr: "settled a s g b \<Longrightarrow> repr a s"
  by (simp add: settled_def wfile_def)

lemma settled_live: "settled a s g b \<Longrightarrow> live a = set (lst a LGroups)"
  by (simp add: settled_def tidyf_def)

lemma frame_near: "frame L s t \<Longrightarrow> near s t"
  using keep_frame [of L s t] by (simp add: near_def keep_def)

lemma settled_fe_list:
  assumes s: "settled a s g b" and r: "repr (upl (LFe h) xs a) t" and f: "frame (live a) s t"
  shows "settled (upl (LFe h) xs a) t g b"
proof (rule settled_calm [OF s _ calm_frame [OF settled_repr [OF s] f]])
  have "links (upl (LFe h) xs a) t = links a t" by (rule links_lists) simp_all
  then show "wfile (upl (LFe h) xs a) t"
    using links_frame [OF settled_repr [OF s] f] s r by (simp add: wfile_def settled_def)
  show "tidyf (upl (LFe h) xs a)"
    using s tidyf_lists [of "upl (LFe h) xs a" a] by (simp add: settled_def)
qed simp_all

lemma me_frame: "frame L s t \<Longrightarrow> f \<notin> L \<Longrightarrow> me t f = me s f"
  using frame_near [of L s t] frame_pay [of L s t f]
  by (auto simp: me_def fe_def near_def dest: env_proj)

section \<open>Queueing\<close>

lemma enqueue:
  assumes gd: "good a s" and g: "g \<in> live a" and f: "mine a s f"
  shows "wp (speedy_slot_append f (FE_HEAD g) (FE_TAIL g)) (\<lambda>_ t. \<exists>b. qinv b t g f \<and> near s t) s"
proof -
  have fl: "f \<notin> live a" using f by (simp add: mine_def held_def)
  have "insertable a s (LFe g) f" using f by (simp add: mine_def held_def insertable_def)
  then have "wp (speedy_slot_append f (href (LFe g)) (FE_TAIL g))
     (\<lambda>_ t. repr (upl (LFe g) (lst a (LFe g) @ [f]) a) t \<and> frame (live a) s t) s"
    by (intro append_repr [OF good_repr [OF gd]]) (use g in \<open>simp_all add: active_def\<close>)
  then have ap: "wp (speedy_slot_append f (FE_HEAD g) (FE_TAIL g))
     (\<lambda>_ t. repr (upl (LFe g) (lst a (LFe g) @ [f]) a) t \<and> frame (live a) s t) s" by simp
  show ?thesis
  proof (rule wp_mono [OF ap])
    fix x t assume t: "repr (upl (LFe g) (lst a (LFe g) @ [f]) a) t \<and> frame (live a) s t"
    have "settled (upl (LFe g) (lst a (LFe g) @ [f]) a) t g 0"
      by (rule settled_fe_list [where s = s]) (use gd t in \<open>simp_all add: settled_0\<close>)
    then have "qinv (upl (LFe g) (lst a (LFe g) @ [f]) a) t g f"
      using f t me_frame [of "live a" s t f] fl by (simp add: qinv_def settled_0 mine_def)
    then show "\<exists>b. qinv b t g f \<and> near s t" using t frame_near by blast
  qed
qed

lemma dequeue:
  assumes s: "settled a s g b" and f: "f \<in> set (lst a (LFe g))" and m: "me s f"
  shows "wp (speedy_slot_remove f (FE_HEAD g) (Some (FE_TAIL g)))
     (\<lambda>_ t. near s t \<and> (\<exists>a'. settled a' t g b \<and> mine a' t f \<and> g \<in> live a')) s"
proof -
  have R: "repr a s" by (rule settled_repr [OF s])
  let ?a = "upl (LFe g) (remove1 f (lst a (LFe g))) a"
  have fl: "f \<notin> live a" "is_fe (pay s f)" using repr_not_live [OF R f] repr_mem [OF R f] by simp_all
  have g: "g \<in> live a" using repr_active [OF R f] by (simp add: active_def)
  have rm: "wp (speedy_slot_remove f (FE_HEAD g) (Some (FE_TAIL g)))
     (\<lambda>_ t. repr ?a t \<and> held ?a t f \<and> frame (live a) s t \<and> cores (live a) s t) s"
    using remove_held [OF R f] by simp
  show ?thesis
  proof (rule wp_mono [OF rm])
    fix x t assume t: "repr ?a t \<and> held ?a t f \<and> frame (live a) s t \<and> cores (live a) s t"
    have "settled ?a t g b" by (rule settled_fe_list [OF s]) (use t in simp_all)
    moreover have "mine ?a t f"
      using t m fl me_frame [of "live a" s t f] frame_pay [of "live a" s t f] by (simp add: mine_def)
    ultimately show "near s t \<and> (\<exists>a'. settled a' t g b \<and> mine a' t f \<and> g \<in> live a')"
      using t g frame_near [of "live a" s t] by (intro conjI exI [of _ ?a]) simp_all
  qed
qed

text \<open>A frontend that is out of the queue again, with a backend or without.\<close>

definition obtained :: "nat \<Rightarrow> (nat \<Rightarrow> nat) \<Rightarrow> sys \<Rightarrow> slotnum \<Rightarrow> slotnum \<Rightarrow> slotnum \<Rightarrow> sys \<Rightarrow> bool" where
  "obtained n r s g f b t \<longleftrightarrow> (\<exists>a. settled a t g b \<and> mine a t f \<and> g \<in> live a) \<and> steady s t \<and>
     room (r (tick (loc t))) t \<and> tick (loc s) \<le> tick (loc t) \<and> tick (loc t) \<le> tick (loc s) + n"

lemma settled_ploc [simp]: "settled a (ploc k s) g b = settled a s g b"
proof -
  have "bv (ploc k s) x = bv s x" for x by (simp add: bv_def ploc_views)
  then have "be_order (ploc k s) xs = be_order s xs" for xs by (intro be_order_cong)
  then show ?thesis
    using wfile_samefile [OF samefile_ploc [of s k], of a]
    by (simp add: settled_def orders_def waiting_def ploc_views)
qed

lemma held_views: "okn t = okn s \<Longrightarrow> held a t n = held a s n"
  by (simp add: held_def)

lemma mine_ploc [simp]: "mine a (ploc k s) f = mine a s f"
  using held_views [of "ploc k s" s a f] by (simp add: mine_def ploc_views)

theorem get_hard_spec:
  assumes c: "coop m r others" and gd: "good a s" and g: "g \<in> live a" and f: "mine a s f"
    and n: "tick (loc s) + n \<le> m" and room: "room (r (tick (loc s))) s"
    and h: "\<forall>k < n. \<not> kchanged (orc s) (tick (loc s) + k) \<Longrightarrow> h"
  shows "wpx h (get_a_backend_hard n others g f) (\<lambda>(w, b) t. obtained n r s g f b t \<and> (b \<noteq> 0 \<longrightarrow> w)) spawn_error s"
proof -
  let ?Q = "\<lambda>(w, b) t. obtained n r s g f b t \<and> (b \<noteq> 0 \<longrightarrow> w)"
  let ?s = "ploc set_up s"
  have su: "wpx h sig_handler_setup Q spawn_error s = Q () ?s" for Q
    by (rule wpx_eq) (rule wp_setup)
  have td: "wpx h (sig_handler_teardown True) Q spawn_error t = Q () (ploc (torn_down True) t)" for Q t
    by (rule wpx_eq) (rule wp_teardown)
  let ?fin = "\<lambda>p. thenM [speedy_slot_remove f (FE_HEAD g) (Some (FE_TAIL g)),
     sig_handler_teardown True] (ret p)"
  have fin: "wpx h (?fin (w, b)) ?Q spawn_error t" if sv: "served n r s g f b t" and bw: "b \<noteq> 0 \<longrightarrow> w" for w b t
  proof -
    obtain c where c: "settled c t g b" "f \<in> set (lst c (LFe g))" "me t f"
      using sv by (auto simp: served_def)
    show ?thesis unfolding wpx_thenM wpx_seqM
    proof (rule wpx_mono [OF wpx_wp [OF dequeue [OF c]]])
      fix x u assume u: "near t u \<and> (\<exists>a'. settled a' u g b \<and> mine a' u f \<and> g \<in> live a')"
      have tr: "steady s (ploc k u)" for k
        using sv u near_steady [of t u] steady_trans [OF steady_trans ploc_env(2)]
        by (auto simp: served_def)
      show "wpx h (sig_handler_teardown True) (\<lambda>_. wpx h (ret (w, b)) ?Q spawn_error) spawn_error u"
        using u sv bw tr near_loc [of t u] near_room [of t u]
        by (auto simp: td wpxs obtained_def served_def)
    qed
  qed
  have loop: "wpx h (bnd (hard_loop n others g f False True) ?fin) ?Q spawn_error t"
    if q: "qinv b t g f" and nr: "near ?s t" for b t
  proof -
    have l: "loc t = set_up (loc s)" "steady s t" "room k t = room k s" for k
      using near_loc [OF nr] near_room [OF nr] steady_trans [OF ploc_env(2) near_steady [OF nr]]
      by simp_all
    have o: "orc t = orc s" using l(2) by (simp add: steady_def)
    have "wpx h (hard_loop n others g f False True) (\<lambda>(w, b) u. served n r t g f b u \<and> (b \<noteq> 0 \<longrightarrow> w)) spawn_error t"
      by (rule hard_loop_spec [OF c q]) (use l o n room h in simp_all)
    then show ?thesis unfolding wpx_bnd
    proof (rule wpx_mono)
      fix p u assume p: "(\<lambda>(w, b) u. served n r t g f b u \<and> (b \<noteq> 0 \<longrightarrow> w)) p u"
      have "served n r s g f (snd p) u" "snd p \<noteq> 0 \<longrightarrow> fst p"
        using p l steady_trans [OF l(2)] by (auto simp: served_def split: prod.splits)
      then show "wpx h (?fin p) ?Q spawn_error u" using fin [of "snd p" u "fst p"] by simp
    qed
  qed
  have "wpx h (speedy_slot_append f (FE_HEAD g) (FE_TAIL g)) (\<lambda>_. wpx h
      (bnd (hard_loop n others g f False True) ?fin) ?Q spawn_error) spawn_error ?s"
    by (rule wpx_mono [OF wpx_wp [OF enqueue [of a ?s g f]]]) (use gd g f loop in auto)
  then show ?thesis by (simp only: get_a_backend_hard_def wpx_thenM wpx_seqM su)
qed

section \<open>The group's cleanup\<close>

lemma held_cleaned:
  assumes g: "g \<in> live a" and h: "held a s n" and o: "okn t n"
  shows "held (cleaned g a) t n"
proof -
  have "listed (cleaned g a) \<subseteq> listed a"
    using set_remove1_subset [of g "lst a LGroups"] by (fastforce simp: listed_def cleaned_def split: if_splits)
  moreover have "set (freel (cleaned g a)) \<subseteq> set (freel a) \<union> listed a \<union> {g}"
    by (auto simp: cleaned_def listed_def)
  moreover have "live (cleaned g a) \<subseteq> live a" by (auto simp: cleaned_def)
  moreover have "n \<noteq> g" using g h by (auto simp: held_def)
  ultimately show ?thesis using h o by (auto simp: held_def)
qed

lemma settled_cleanup:
  assumes s: "settled a s g b" and g: "g \<in> live a" and f: "mine a s f"
  shows "wp (speedy_group_cleanup g) (\<lambda>_ t. near s t \<and> (\<exists>a'. settled a' t g b \<and> mine a' t f \<and>
     (b \<noteq> 0 \<longrightarrow> g \<in> live a'))) s"
proof -
  have W: "wfile a s" and td: "tidy a g" and gl: "g \<in> set (lst a LGroups)"
    using s g by (simp_all add: settled_def tidyf_def)
  show ?thesis
  proof (rule wp_mono [OF cleanup_spec [OF W g gl td]])
    fix x t assume t: "wfile (cleaned g a) t \<and> calm (live a) (live a - {g}) (bes a) s t"
    then have c: "calm (live a) (live a - {g}) (bes a) s t" by blast
    have nr: "near s t" by (rule near_calm [OF c])
    have st: "settled (cleaned g a) t g b" and gl': "b \<noteq> 0 \<Longrightarrow> g \<in> live (cleaned g a)"
    proof -
      show "settled (cleaned g a) t g b"
      proof (cases "b = 0")
        case True
        then show ?thesis using good_cleaned [OF _ g conjunct1 [OF t] c] s by (simp add: settled_0)
      next
        case False
        then have "cleaned g a = a" using s by (auto simp: settled_def cleaned_def)
        then show ?thesis using settled_calm [OF s _ c, of a] t s by (simp add: settled_def)
      qed
      show "g \<in> live (cleaned g a)" if "b \<noteq> 0"
        using that s g by (auto simp: settled_def cleaned_def)
    qed
    have fl: "f \<notin> live a" using f by (simp add: mine_def held_def)
    have "pay t f = pay s f" using c fl by (auto simp: calm_def intro: keep_pay)
    moreover have "me t f = me s f"
      using calculation calm_env [OF c] by (auto simp: me_def fe_def dest: env_proj)
    moreover have "held (cleaned g a) t f"
      using held_cleaned [OF g, of s f t] f calm_okn [OF c] by (simp add: mine_def held_def)
    ultimately have "mine (cleaned g a) t f" using f by (simp add: mine_def)
    then show "near s t \<and> (\<exists>a'. settled a' t g b \<and> mine a' t f \<and> (b \<noteq> 0 \<longrightarrow> g \<in> live a'))"
      using nr st gl' by blast
  qed
qed

lemma held_bes: "held a s f \<Longrightarrow> f \<notin> bes a \<and> f \<notin> live a \<and> f \<notin> set (lst a LFeRun)"
  by (auto simp: held_def listed_def bes_def)

lemma settled_held_pay:
  assumes s: "settled a s g b" and f: "held a s f"
  shows "settled a (ppay f u s) g b" and "near s (ppay f u s)"
proof -
  have c: "calm {f} (live a) (bes a) s (ppay f u s)"
    by (rule calm_keep) (use held_bes [OF f] in \<open>auto simp: cores_ppay\<close>)
  show "settled a (ppay f u s) g b"
    by (rule settled_calm [OF s wfile_held_pay c]) (use s f in \<open>simp_all add: settled_def\<close>)
  show "near s (ppay f u s)" by (rule near_calm [OF c])
qed

text \<open>The backend found is recorded in the frontend's slot.\<close>

definition picked :: "nat \<Rightarrow> (nat \<Rightarrow> nat) \<Rightarrow> sys \<Rightarrow> slotnum \<Rightarrow> slotnum \<Rightarrow> sys \<Rightarrow> bool" where
  "picked n r s g f t \<longleftrightarrow> (\<exists>a. settled a t g (backend (fe t f)) \<and> mine a t f \<and>
     (backend (fe t f) \<noteq> 0 \<longrightarrow> g \<in> live a)) \<and> steady s t \<and>
     room (r (tick (loc t))) t \<and> tick (loc s) \<le> tick (loc t) \<and> tick (loc t) \<le> tick (loc s) + n"

lemma record_backend:
  assumes t: "settled a t g b" "mine a t f" "b \<noteq> 0 \<longrightarrow> g \<in> live a" and st: "steady s t"
    and r: "room (r (tick (loc t))) t" and tk: "tick (loc s) \<le> tick (loc t)" "tick (loc t) \<le> tick (loc s) + n"
  shows "picked n r s g f (ppay f (U_fe ((fe t f)\<lparr>backend := b\<rparr>)) t)"
proof -
  let ?u = "ppay f (U_fe ((fe t f)\<lparr>backend := b\<rparr>)) t"
  have h: "held a t f" using t by (simp add: mine_def)
  note S = settled_held_pay [OF t(1) h, of "U_fe ((fe t f)\<lparr>backend := b\<rparr>)"]
  have "mypid ?u = mypid t" using S(2) by (auto simp: near_def dest: env_proj)
  then have "mine a ?u f"
    using t(2) held_views [of ?u t a f] by (simp add: mine_def me_def views)
  then show ?thesis
    using S t st r tk near_loc [OF S(2)] near_room [OF S(2)] steady_trans [OF st near_steady [OF S(2)]]
    by (auto simp: picked_def views)
qed

lemma take_quick:
  assumes gd: "good a s" and g: "g \<in> live a" and f: "mine a s f"
  shows "wp (speedy_backend_be_wait_get g) (\<lambda>b t. near s t \<and>
     (\<exists>a'. settled a' t g b \<and> mine a' t f \<and> g \<in> live a')) s"
proof (rule wp_mono [OF take_good [OF gd g]])
  fix b t assume t: "coreupd a g s t \<and> (b \<noteq> 0 \<longrightarrow> waiting t b) \<and>
    settled (if b = 0 then a else upl (LBe g) (tl (lst a (LBe g)) @ [b]) a) t g b \<and>
    (b \<noteq> 0 \<longrightarrow> b \<in> set (lst a (LBe g)))"
  let ?a = "if b = 0 then a else upl (LBe g) (tl (lst a (LBe g)) @ [b]) a"
  have c: "calm (live a) (live a - {g}) (bes a) s t" using t by (simp add: coreupd_def)
  have fl: "f \<notin> live a" using f by (simp add: mine_def held_def)
  have "pay t f = pay s f" using c fl by (auto simp: calm_def intro: keep_pay)
  moreover have "me t f = me s f"
    using calculation calm_env [OF c] by (auto simp: me_def fe_def dest: env_proj)
  moreover have "listed ?a \<subseteq> listed a"
  proof -
    have "set (tl (lst a (LBe g))) \<subseteq> listed a"
      using lists_listed [of a "LBe g"] by (cases "lst a (LBe g)") auto
    moreover have "b \<noteq> 0 \<Longrightarrow> b \<in> listed a" using t by (auto simp: listed_def)
    ultimately show ?thesis
      using listed_upl [of "LBe g" "tl (lst a (LBe g)) @ [b]" a] by auto
  qed
  ultimately have "mine ?a t f"
    using f calm_okn [OF c] by (auto simp: mine_def held_def)
  then show "near s t \<and> (\<exists>a'. settled a' t g b \<and> mine a' t f \<and> g \<in> live a')"
    using t near_calm [OF c] g by (intro conjI exI [of _ ?a]) auto
qed

theorem get_a_backend_spec:
  assumes c: "coop m r others" and gd: "good a s" and f: "mine a s f"
    and n: "tick (loc s) + n \<le> m" and room: "room (Suc (Suc (Suc (r (tick (loc s)))))) s"
    and o: "NUL \<notin> set (o_group s)"
    and h: "\<forall>k < n. \<not> kchanged (orc s) (tick (loc s) + k) \<Longrightarrow> h"
  shows "wpx h (get_a_backend n others f) 
     (\<lambda>(w, g) t. picked n r s g f t \<and> (backend (fe t f) \<noteq> 0 \<longrightarrow> w)) spawn_error s"
proof -
  let ?Q = "\<lambda>(w, g) t. picked n r s g f t \<and> (backend (fe t f) \<noteq> 0 \<longrightarrow> w)" and ?st = "kstat (orc s) (tick (loc s))"
  let ?fin = "\<lambda>g (w, b). thenM [speedy_group_cleanup g, fe_upd f (\<lambda>r. r\<lparr>backend := b\<rparr>)] (ret (w, g))"
  have fin: "wpx h (?fin g (w, b)) ?Q spawn_error t" if ob: "obtained n r s g f b t" and bw: "b \<noteq> 0 \<longrightarrow> w" for g w b t
  proof -
    obtain a' where a': "settled a' t g b" "mine a' t f" "g \<in> live a'" using ob by (auto simp: obtained_def)
    have "wp (speedy_group_cleanup g) (\<lambda>_. wp (fe_upd f (\<lambda>r. r\<lparr>backend := b\<rparr>))
        (\<lambda>_ t. picked n r s g f t \<and> (backend (fe t f) \<noteq> 0 \<longrightarrow> w))) t"
    proof (rule wp_mono [OF settled_cleanup [OF a'(1,3,2)]])
      fix x u assume u: "near t u \<and> (\<exists>a'. settled a' u g b \<and> mine a' u f \<and> (b \<noteq> 0 \<longrightarrow> g \<in> live a'))"
      then obtain d where d: "settled d u g b" "mine d u f" "b \<noteq> 0 \<longrightarrow> g \<in> live d" by blast
      have "picked n r s g f (ppay f (U_fe ((fe u f)\<lparr>backend := b\<rparr>)) u)"
        by (rule record_backend [OF d])
          (use ob u near_loc [of t u] near_room [of t u] near_steady [of t u] steady_trans [of s t u]
            in \<open>auto simp: obtained_def\<close>)
      then show "wp (fe_upd f (\<lambda>r. r\<lparr>backend := b\<rparr>))
          (\<lambda>_ t. picked n r s g f t \<and> (backend (fe t f) \<noteq> 0 \<longrightarrow> w)) u"
        using d bw by (simp add: wps mine_def held_def views)
    qed
    then have "wp (?fin g (w, b)) ?Q t" by (simp add: wps)
    then show ?thesis by (rule wpx_wp)
  qed
  let ?pick = "\<lambda>g quick. bnd (if quick = 0 then get_a_backend_hard n others g f else ret (True, quick)) (?fin g)"
  have pick: "wpx h (?pick g b) ?Q spawn_error t"
    if t: "settled a' t g b" "mine a' t f" "g \<in> live a'" and nr: "near u t" and su: "steady s u"
      "loc u = loc s" and rm: "room (r (tick (loc s))) u" for g b a' t u
  proof (cases "b = 0")
    case False
    have "obtained n r s g f b t"
      using t steady_trans [OF su(1) near_steady [OF nr]] near_loc [OF nr] near_room [OF nr] su rm
      by (auto simp: obtained_def)
    then show ?thesis using False fin [of g b t] by (simp add: wpxs)
  next
    case True
    have l: "loc t = loc s" "steady s t" using near_loc [OF nr] su steady_trans [OF su(1) near_steady [OF nr]]
      by simp_all
    have ot: "orc t = orc s" using l(2) by (simp add: steady_def)
    have "wpx h (get_a_backend_hard n others g f) (\<lambda>(w, b) v. obtained n r t g f b v \<and> (b \<noteq> 0 \<longrightarrow> w)) spawn_error t"
      by (rule get_hard_spec [OF c, of a']) (use t True l ot n rm near_room [OF nr] h in \<open>simp_all add: settled_0\<close>)
    then have "wpx h (get_a_backend_hard n others g f) (\<lambda>p. wpx h (?fin g p) ?Q spawn_error) spawn_error t"
    proof (rule wpx_mono)
      fix p v assume "(\<lambda>(w, b) v. obtained n r t g f b v \<and> (b \<noteq> 0 \<longrightarrow> w)) p v"
      then have "obtained n r s g f (snd p) v" "snd p \<noteq> 0 \<longrightarrow> fst p"
        using l steady_trans [OF l(2)] by (auto simp: obtained_def split: prod.splits)
      then show "wpx h (?fin g p) ?Q spawn_error v" using fin [of g "snd p" v "fst p"] by simp
    qed
    then show ?thesis using True by (simp only: wpx_bnd if_True simp_thms)
  qed
  let ?attempt = "\<lambda>g. bnd (getref (FE_HEAD g)) (\<lambda>queue.
     bnd (if queue = 0 then speedy_backend_be_wait_get g else ret 0) (?pick g))"
  have attempt: "wpx h (?attempt g) ?Q spawn_error t"
    if t: "good b t" "g \<in> live b" "mine b t f" and su: "steady s t" "loc t = loc s"
      and rm: "room (r (tick (loc s))) t" for g b t
  proof -
    have gr: "wpx h (getref (FE_HEAD g)) Q spawn_error t = Q (rd t (FE_HEAD g)) t" for Q
      by (rule wpx_eq) (use repr_live [OF good_repr [OF t(1)] t(2)] in \<open>simp add: wps refok_def\<close>)
    have "wpx h (speedy_backend_be_wait_get g) (\<lambda>b. wpx h (?pick g b) ?Q spawn_error) spawn_error t"
    proof (rule wpx_mono [OF wpx_wp [OF take_quick [OF t]]])
      fix x v assume "near t v \<and> (\<exists>a'. settled a' v g x \<and> mine a' v f \<and> g \<in> live a')"
      then show "wpx h (?pick g x) ?Q spawn_error v" using pick [OF _ _ _ _ su rm] by blast
    qed
    moreover have "wpx h (?pick g 0) ?Q spawn_error t"
      by (rule pick [OF _ t(3,2) near_refl su rm]) (use t in \<open>simp add: settled_0\<close>)
    ultimately show ?thesis
      by (cases "rd t (FE_HEAD g) = 0") (simp_all only: wpx_bnd gr wpx_ret if_True if_False simp_thms)
  qed
  have "wpx h (speedy_script_find ?st) (\<lambda>g. wpx h (?attempt g) ?Q spawn_error) spawn_error s"
  proof (rule wpx_mono [OF wpx_wp [OF script_find_spec [OF gd room o]]])
    fix g t assume t: "\<exists>b. good b t \<and> regrown a b \<and> serves b t ?st g \<and> hd (lst b LGroups) = g \<and>
      room (r (tick (loc s))) t \<and> mild (- procs a s) (live a) (bes a) s t \<and> (\<forall>m. held a s m \<longrightarrow> held b t m)"
    then obtain b where b: "good b t" "serves b t ?st g" "room (r (tick (loc s))) t"
      and mi: "mild (- procs a s) (live a) (bes a) s t" and hb: "\<forall>m. held a s m \<longrightarrow> held b t m" by blast
    have fp: "f \<in> procs a s" using f by (simp add: procs_def mine_def)
    have e: "env t = env s" "pay t f = pay s f" using mi fp by (auto simp: mild_def)
    have "me t f = me s f" using env_proj [OF e(1)] e(2) by (simp add: me_def fe_def)
    then have "mine b t f" using f e(2) hb by (simp add: mine_def)
    moreover have "g \<in> live b" using b(2) by (simp add: serves_def)
    moreover have "steady s t" "loc t = loc s" using env_proj [OF e(1)] by (auto simp: steady_def)
    ultimately show "wpx h (?attempt g) ?Q spawn_error t" using attempt b by blast
  qed
  then show ?thesis by (simp only: get_a_backend_def wpx_bnd wpx_gets)
qed

end
