(* ===== verification/FrontendRun.thy ===== *)
theory FrontendRun
  imports FrontendGet
begin

text \<open>
  \<open>speedy_frontend_clean_running\<close>, \<open>speedy_frontend_collect_status\<close> and
  \<open>speedy_frontend_connect\<close>: the list of running frontends and the links between a running
  frontend and its backend.
\<close>

section \<open>Freeing the own slot\<close>

lemma good_free:
  assumes gd: "good a s" and h: "held a s f"
  shows "good (give_free f a) (pfree f s)"
proof -
  have R: "repr a s" by (rule good_repr [OF gd])
  have "links (give_free f a) (pfree f s) = links a s"
    using links_pay [OF R, of "pfree f s"] by (simp add: views)
  moreover have "tidyf (give_free f a) = tidyf a" by (rule tidyf_lists) (simp_all add: give_free_def)
  moreover have "bv (pfree f s) b = bv s b" for b by (simp add: bv_def views)
  then have "orders (give_free f a) (pfree f s) = orders a s"
    using orders_cong [where t = "pfree f s" and s = s and a = "give_free f a"]
      orders_lists [of "give_free f a" a s] by (simp add: give_free_def)
  ultimately show ?thesis using gd repr_pfree [OF R h] by (simp add: good_def wfile_def)
qed

lemma wp_free_held:
  assumes gd: "good a s" and h: "held a s f"
  shows "wp (speedy_slot_free f) Q s = Q () (pfree f s)"
proof -
  have "okn s f" "prv s f \<noteq> f" using h repr_prv [OF good_repr [OF gd], of f] by (auto simp: held_def)
  then show ?thesis by (simp add: wps)
qed

section \<open>Cleaning the list of running frontends\<close>

lemma drop_running:
  assumes gd: "good a s" and f: "f \<in> set (lst a LFeRun)"
  shows "wp (speedy_frontend_remove_running f) (\<lambda>_ t. good (discard LFeRun f a) t \<and>
     calm (live a \<union> bes a) (live a) (bes a) s t) s"
proof (rule wp_mono [OF remove_running_spec [OF good_wfile [OF gd] f]])
  fix x t assume "wfile (discard LFeRun f a) t \<and> calm (live a \<union> bes a) (live a) (bes a) s t \<and>
     (backend (fe s f) = 0 \<longrightarrow> keep (live a) s t)"
  then have w: "wfile (discard LFeRun f a) t" and c: "calm (live a \<union> bes a) (live a) (bes a) s t" by auto
  show "good (discard LFeRun f a) t \<and> calm (live a \<union> bes a) (live a) (bes a) s t"
    using good_shrink [OF gd w shrink_discard [OF good_repr [OF gd] f] c] c by simp
qed

lemma repr_run_tail: "repr a s \<Longrightarrow> fe_run_tail (fhd s) = last0 0 (lst a LFeRun)"
  using repr_tail [of a s LFeRun FE_RUN_TAIL] by (simp add: active_def)

lemma clean_running_loop_spec:
  assumes "good a s" and "length (lst a LFeRun) < fuel"
  shows "wp (clean_running_loop fuel) (\<lambda>_ t. \<exists>b. good b t \<and> near s t \<and> shrink {LFeRun} a b) s"
  using assms
proof (induction fuel arbitrary: a s)
  case (Suc n)
  have R: "repr a s" by (rule good_repr [OF Suc.prems(1)])
  let ?Q = "\<lambda>_ t. \<exists>b. good b t \<and> near s t \<and> shrink {LFeRun} a b"
  show ?case
  proof (cases "lst a LFeRun" rule: rev_cases)
    case Nil
    then show ?thesis using repr_run_tail [OF R] Suc.prems by (auto simp: wps)
  next
    case (snoc xs f)
    have f: "f \<in> set (lst a LFeRun)" "okn s f" "is_fe (pay s f)" "f \<noteq> 0" "fe_run_tail (fhd s) = f"
      using snoc repr_mem [OF R, of f LFeRun] repr_run_tail [OF R] by auto
    let ?u = "kill_state (fe_pid (fe s f)) 0 s" and ?b = "discard LFeRun f a"
    have gu: "good a ?u" and nu: "near s ?u" using Suc.prems by (simp_all add: goods near_def env_kill meta_def kill_views)
    have step: "wp (clean_running_loop n) ?Q t"
      if t: "good ?b t \<and> calm (live a \<union> bes a) (live a) (bes a) ?u t" for t
    proof (rule wp_mono [OF Suc.IH])
      show "good ?b t" using t by blast
      show "length (lst ?b LFeRun) < n" using Suc.prems f by (simp add: length_remove1) (metis length_pos_if_in_set less_Suc_eq_0_disj less_nat_zero_code Suc_pred not_less_eq)
      fix x v assume "\<exists>b. good b v \<and> near t v \<and> shrink {LFeRun} ?b b"
      then show "?Q x v" using near_trans [OF near_trans [OF nu near_calm]] t
          shrink_trans [OF shrink_discard [OF R f(1)]] by (metis Un_absorb)
    qed
    have "wp (speedy_frontend_remove_running f) (\<lambda>_. wp (clean_running_loop n) ?Q) ?u"
      by (rule wp_mono [OF drop_running [OF gu f(1)]]) (rule step)
    moreover have "?Q () ?u" using gu nu by blast
    ultimately show ?thesis using f by (simp add: wps)
  qed
qed simp

theorem clean_running_spec:
  assumes gd: "good a s"
  shows "wp speedy_frontend_clean_running (\<lambda>_ t. \<exists>b. good b t \<and> near s t \<and> shrink {LFeRun} a b) s"
  using clean_running_loop_spec [OF gd repr_fuel [OF good_repr [OF gd]]]
  by (simp add: speedy_frontend_clean_running_def wps)

section \<open>A frontend and its backend\<close>

lemma engage:
  assumes s: "settled a s g b" and b: "b \<noteq> 0" and v: "v \<noteq> 0"
  defines "t \<equiv> ppay b (U_be ((be s b)\<lparr>fe_running := v\<rparr>)) s"
  shows "repr a t" and "orders a t" and "tidyf a" and "b \<in> set (lst a (LBe g))" and "near s t"
    and "okn t = okn s" and "be t b = (be s b)\<lparr>fe_running := v\<rparr>" and "fe_running (be s b) = 0"
    and "\<And>m. m \<noteq> b \<Longrightarrow> pay t m = pay s m"
proof -
  obtain xs where xs: "lst a (LBe g) = xs @ [b]" "waiting s b" "be_order s xs"
    "\<And>h. h \<noteq> g \<Longrightarrow> be_order s (lst a (LBe h))" using s b by (auto simp: settled_def)
  have R: "repr a s" by (rule settled_repr [OF s])
  show bl: "b \<in> set (lst a (LBe g))" using xs by simp
  then have bb: "b \<in> bes a" by (auto simp: bes_def)
  show "repr a t" unfolding t_def by (rule repr_ppay [OF R payable_bes [OF R bb]])
  show "tidyf a" using s by (simp add: settled_def)
  show "near s t" by (simp add: near_def t_def views meta_def)
  show "okn t = okn s" "be t b = (be s b)\<lparr>fe_running := v\<rparr>" by (simp_all add: t_def views)
  show "fe_running (be s b) = 0" using xs by (simp add: waiting_def)
  show p: "pay t m = pay s m" if "m \<noteq> b" for m using that by (simp add: t_def views)
  have bv: "bv t m = bv s m" if "m \<noteq> b" for m using p [OF that] by (simp add: bv_def be_def)
  have d: "b \<notin> set xs" using repr_distinct [OF R, of "LBe g"] xs by simp
  have "be_order t xs" using xs(3) be_order_cong [of xs t s] bv d by metis
  then have "be_order t (lst a (LBe g))"
    unfolding xs(1) by (rule be_order_append) (simp add: waiting_def t_def views v)
  moreover have "be_order t (lst a (LBe h))" if "h \<noteq> g" for h
  proof -
    have "b \<notin> set (lst a (LBe h))" using repr_disjoint [OF R bl, of "LBe h"] that by auto
    then show ?thesis using xs(4) [OF that] be_order_cong [of "lst a (LBe h)" t s] bv by metis
  qed
  ultimately show "orders a t" unfolding orders_def by metis
qed

lemma engage_links:
  assumes s: "settled a s g b" and b: "b \<noteq> 0"
  shows "links a (ppay b (U_be ((be s b)\<lparr>fe_running := b\<rparr>)) s)" (is "links a ?t")
proof -
  have W: "wfile a s" using s by (simp add: settled_def)
  note E = engage [OF s b b]
  have R: "repr a s" by (rule settled_repr [OF s])
  have be: "be ?t m = (if m = b then (be s b)\<lparr>fe_running := b\<rparr> else be s m)" for m
    by (simp add: views)
  have fe: "fe ?t f = fe s f" if "f \<in> set (lst a LFeRun)" for f
  proof -
    have "f \<noteq> b" using repr_disjoint [OF R E(4), of LFeRun] that by auto
    then show ?thesis by (simp add: views)
  qed
  have "backend (fe s f) \<noteq> b" if "f \<in> set (lst a LFeRun)" for f
    using links_backend [OF W that] b E(8) repr_mem [OF R that] by auto
  then show ?thesis using W E(8) unfolding links_def wfile_def
    by (auto simp: be fe simp del: typed_ppay split: if_splits)
qed

text \<open>The frontend that holds on to its slot becomes the running frontend of the backend.\<close>

lemma engage_hold:
  assumes s: "settled a s g b" and b: "b \<noteq> 0" and f: "mine a s f" and bf: "backend (fe s f) = b"
  shows "wp (seqM [be_upd b (\<lambda>r. r\<lparr>fe_running := f\<rparr>), speedy_slot_insert f FE_RUN_HEAD (Some FE_RUN_TAIL)])
     (\<lambda>_ t. good (upl LFeRun (f # lst a LFeRun) a) t \<and> near s t \<and> fe t f = fe s f \<and> me t f \<and>
        fe_running (be t b) = f) s"
proof -
  let ?u = "ppay b (U_be ((be s b)\<lparr>fe_running := f\<rparr>)) s" and ?a = "upl LFeRun (f # lst a LFeRun) a"
  have W: "wfile a s" using s by (simp add: settled_def)
  have R: "repr a s" by (rule settled_repr [OF s])
  have h: "held a s f" "is_fe (pay s f)" and f0: "f \<noteq> 0" using f by (auto simp: mine_def held_def okn_def)
  note E = engage [OF s b f0]
  have bm: "okn s b" "is_be (pay s b)" "b \<in> bes a" "b \<notin> live a"
    using repr_mem [OF R E(4)] repr_not_live [OF R E(4)] E(4) by (auto simp: bes_def)
  have fb: "f \<noteq> b" and fn: "f \<notin> bes a" "f \<notin> live a" using held_bes [OF h(1)] bm by auto
  have ins: "insertable a ?u LFeRun f"
    using h E(6) E(9) [of f] fb by (simp add: insertable_def held_def)
  have "wp (speedy_slot_insert f (href LFeRun) (tref LFeRun))
     (\<lambda>_ t. repr ?a t \<and> frame (live a) ?u t) ?u"
    by (rule insert_repr [OF E(1) _ ins]) (simp_all add: active_def)
  then have insw: "wp (speedy_slot_insert f FE_RUN_HEAD (Some FE_RUN_TAIL))
     (\<lambda>_ t. repr ?a t \<and> frame (live a) ?u t) ?u" by simp
  have "wp (speedy_slot_insert f FE_RUN_HEAD (Some FE_RUN_TAIL)) (\<lambda>_ t. good ?a t \<and> near s t \<and>
      fe t f = fe s f \<and> me t f \<and> fe_running (be t b) = f) ?u"
  proof (rule wp_mono [OF insw])
    fix x t assume t: "repr ?a t \<and> frame (live a) ?u t"
    have nr: "near s t" using near_trans [OF E(5)] frame_near t by blast
    have p: "pay t m = pay ?u m" if "m \<notin> live a" for m using frame_pay [of "live a" ?u t m] t that by blast
    have be: "be t m = (if m = b then (be s b)\<lparr>fe_running := f\<rparr> else be s m)" if "m \<in> bes a" for m
    proof -
      have "m \<notin> live a" using bes_mem(5) [OF R that] .
      then show ?thesis using p [of m] by (simp add: be_def views_ppay)
    qed
    have fe: "fe t m = fe s m" if "m \<in> insert f (set (lst a LFeRun))" for m
    proof -
      have "m \<notin> live a" "m \<noteq> b"
        using that fn fb repr_not_live [OF R, of m LFeRun] repr_disjoint [OF R E(4), of LFeRun] by auto
      then show ?thesis using p [of m] by (simp add: fe_def views_ppay)
    qed
    have other: "backend (fe s m) \<noteq> b" if "m \<in> set (lst a LFeRun)" for m
      using links_backend [OF W that] b E(8) repr_mem [OF R that] by auto
    have L: "links ?a t" unfolding links_def
    proof (intro conjI ballI impI)
      fix m assume m: "m \<in> set (lst ?a LFeRun)" "backend (fe t m) \<noteq> 0"
      show "backend (fe t m) \<in> bes ?a"
        using m fe [of m] bf bm links_backend [OF W, of m] by auto
      show "fe_running (be t (backend (fe t m))) = m"
        using m fe [of m] bf bm links_backend [OF W, of m] other be by auto
    next
      fix c assume c: "c \<in> bes ?a" "fe_running (be t c) \<noteq> 0" "fe_running (be t c) \<noteq> c"
      show "fe_running (be t c) \<in> set (lst ?a LFeRun)"
        using c be [of c] links_running [OF W, of c] by (auto split: if_splits)
      show "backend (fe t (fe_running (be t c))) = c"
        using c be [of c] links_running [OF W, of c] fe bf by (auto split: if_splits)
    qed
    have bv: "bv t m = bv ?u m" if "m \<in> bes a" for m
      using p [of m] bes_mem(5) [OF R that] by (simp add: bv_def be_def)
    have "orders ?a t"
      using E(2) orders_cong [of a t ?u, OF bv] orders_lists [of ?a a t] by simp
    moreover have "tidyf ?a" using E(3) tidyf_lists [of ?a a] by simp
    moreover have "me t f"
      using f fe [of f] near_steady [OF nr] by (simp add: mine_def me_def steady_def)
    ultimately show "good ?a t \<and> near s t \<and> fe t f = fe s f \<and> me t f \<and> fe_running (be t b) = f"
      using t L nr fe [of f] be [OF bm(3)] by (simp add: good_def wfile_def)
  qed
  then show ?thesis using bm by (simp add: wps)
qed

lemma engage_drop:
  assumes s: "settled a s g b" and b: "b \<noteq> 0"
  shows "wp (be_upd b (\<lambda>r. r\<lparr>fe_running := b\<rparr>)) (\<lambda>_ t. good a t \<and> near s t) s"
proof -
  note E = engage [OF s b b]
  have R: "repr a s" by (rule settled_repr [OF s])
  show ?thesis
    using E(1,2,3,5) engage_links [OF s b] repr_mem [OF R E(4)] by (simp add: wps good_def wfile_def)
qed

text \<open>A backend that does not answer is disposed of.\<close>

lemma reject_backend:
  assumes s: "settled a s g b" and b: "b \<noteq> 0" and f: "held a s f"
  shows "wp (speedy_backend_dispose g b) (\<lambda>_ t. near s t \<and> (\<exists>c. good c t \<and> held c t f)) s"
proof -
  obtain xs where xs: "lst a (LBe g) = xs @ [b]" "be_order s xs"
    "\<And>h. h \<noteq> g \<Longrightarrow> be_order s (lst a (LBe h))" using s b by (auto simp: settled_def)
  have R: "repr a s" by (rule settled_repr [OF s])
  have W: "wfile a s" using s by (simp add: settled_def)
  have d: "b \<notin> set xs" using repr_distinct [OF R, of "LBe g"] xs by simp
  have bm: "b \<in> set (lst a (LBe g))" using xs by simp
  show ?thesis
  proof (rule wp_mono [OF dispose_spec [OF W bm]])
    fix x t assume "\<exists>a'. wfile a' t \<and> shrink {LFeRun, LBe g} a a' \<and>
      lst a' (LBe g) = remove1 b (lst a (LBe g)) \<and> calm (busy a) (live a) (bes a) s t"
    then obtain c where c: "wfile c t" "shrink {LFeRun, LBe g} a c" "lst c (LBe g) = remove1 b (lst a (LBe g))"
      and cm: "calm (busy a) (live a) (bes a) s t" by blast
    have lx: "lst c (LBe g) = xs" using c(3) xs d remove1_split [of b xs "[]"] by simp
    have same: "lst c l = lst a l" if "l \<noteq> LFeRun" "l \<noteq> LBe g" for l
      using shrink_same [OF c(2)] that by simp
    have bv: "bv t m = bv s m" if "m \<in> set (lst a (LBe h))" for m h
      using cm that by (auto simp: calm_def bes_def)
    have "be_order t xs" using xs(2) be_order_cong [of xs t s] bv [of _ g] xs(1) by simp
    moreover have "be_order t (lst c (LBe h))" if "h \<noteq> g" for h
      using xs(3) [OF that] be_order_cong [of "lst a (LBe h)" t s, OF bv] same [of "LBe h"] that by simp
    ultimately have "orders c t" unfolding orders_def using lx by metis
    moreover have "tidyf c = tidyf a"
      by (rule tidyf_lists) (simp_all add: same shrink_live [OF c(2)])
    ultimately have "good c t" using c(1) s by (simp add: good_def settled_def)
    moreover have "held c t f" by (rule shrink_held [OF c(2) calm_okn [OF cm] f])
    ultimately show "near s t \<and> (\<exists>c. good c t \<and> held c t f)" using near_calm [OF cm] by blast
  qed
qed

text \<open>No further spawn until the backend runs.\<close>

lemma mark_starting:
  assumes gd: "good a s" and g: "g \<in> live a" and b: "okn s b" "is_be (pay s b)"
  shows "wp (bnd (be_get b) (\<lambda>r. gr_upd g (\<lambda>q. q\<lparr>be_starting := be_pid r\<rparr>)))
     (\<lambda>_ t. good a t \<and> near s t \<and> (\<forall>m. m \<notin> live a \<longrightarrow> pay t m = pay s m)) s"
proof -
  have h: "heads ((gr s g)\<lparr>be_starting := p\<rparr>) = heads (gr s g)" for p by (simp add: heads_def)
  show ?thesis
    using gr_still [OF gd g h] repr_live [OF good_repr [OF gd] g] b g near_still [OF gr_still(2) [OF gd g h]]
    by (auto simp: wps views)
qed

section \<open>Connecting\<close>

text \<open>What a frontend leaves behind: a good file, and if it kept its slot, the slot is on
the list of running frontends and linked with its backend.\<close>

definition connected_file :: "bool \<Rightarrow> slotnum \<Rightarrow> sys \<Rightarrow> bool" where
  "connected_file hold f t \<longleftrightarrow> (\<exists>a. good a t \<and>
     (f \<noteq> 0 \<longrightarrow> hold \<and> f \<in> set (lst a LFeRun) \<and> me t f \<and> backend (fe t f) \<in> bes a \<and>
        fe_running (be t (backend (fe t f))) = f))"

lemma to_backend_spec:
  assumes s: "settled a s g b" and b: "b \<noteq> 0" and f: "mine a s f" and bf: "backend (fe s f) = b"
    and g: "g \<in> live a"
  shows "wp (to_backend hold f g b) (\<lambda>_ t. near s t \<and>
     (if hold then connected_file True f t else \<exists>a. good a t \<and> held a t f)) s"
proof -
  have R: "repr a s" by (rule settled_repr [OF s])
  have bl: "b \<in> set (lst a (LBe g))" using s b by (auto simp: settled_def)
  have h: "held a s f" using f by (simp add: mine_def)
  let ?mark = "bnd (be_get b) (\<lambda>r. gr_upd g (\<lambda>q. q\<lparr>be_starting := be_pid r\<rparr>))"
  let ?Q = "\<lambda>_ t. near s t \<and> (if hold then connected_file True f t else \<exists>a. good a t \<and> held a t f)"
  have mark: "wp ?mark ?Q u" if u: "good c u" "near s u" "lst c (LBe g) = lst a (LBe g)" "live c = live a"
    and fin: "if hold then f \<in> set (lst c LFeRun) \<and> me u f \<and> backend (fe u f) \<in> bes c \<and>
       fe_running (be u (backend (fe u f))) = f \<and> f \<notin> live a else held c u f" for c u
  proof (rule wp_mono [OF mark_starting [OF u(1)]])
    show "g \<in> live c" using g u by simp
    show "okn u b" "is_be (pay u b)" using repr_mem [OF good_repr [OF u(1)], of b "LBe g"] bl u by simp_all
    fix x t assume t: "good c t \<and> near u t \<and> (\<forall>m. m \<notin> live c \<longrightarrow> pay t m = pay u m)"
    have nr: "near s t" using near_trans [OF u(2)] t by blast
    show "?Q x t"
    proof (cases hold)
      case False
      have "okn t f = okn u f" using t by (auto simp: near_def meta_def okn_def)
      then have "held c t f" using fin False by (simp add: held_def)
      then show ?thesis using False t nr by auto
    next
      case True
      have fe: "fe t f = fe u f" using t fin True u(4) by (simp add: fe_def)
      have "backend (fe u f) \<notin> live c" using bes_mem(5) [OF good_repr [OF u(1)]] fin True by simp
      then have "be t (backend (fe u f)) = be u (backend (fe u f))" using t by (simp add: be_def)
      moreover have "me t f" using fin True fe near_steady [of u t] t by (simp add: me_def steady_def)
      ultimately show ?thesis using True t nr fin fe by (auto simp: connected_file_def)
    qed
  qed
  show ?thesis
  proof (cases hold)
    case True
    have "wp (seqM [be_upd b (\<lambda>r. r\<lparr>fe_running := f\<rparr>), speedy_slot_insert f FE_RUN_HEAD (Some FE_RUN_TAIL)])
      (\<lambda>_. wp ?mark ?Q) s"
    proof (rule wp_mono [OF engage_hold [OF s b f bf]])
      fix x u assume u: "good (upl LFeRun (f # lst a LFeRun) a) u \<and> near s u \<and> fe u f = fe s f \<and>
        me u f \<and> fe_running (be u b) = f"
      have "b \<in> bes a" "f \<notin> live a" using bl h by (auto simp: bes_def held_def)
      then show "wp ?mark ?Q u"
        by (intro mark [of "upl LFeRun (f # lst a LFeRun) a"]) (use u True bf in simp_all)
    qed
    then show ?thesis using True by (simp only: to_backend_def wps if_True)
  next
    case False
    have "wp (be_upd b (\<lambda>r. r\<lparr>fe_running := b\<rparr>)) (\<lambda>_. wp ?mark ?Q) s"
    proof (rule wp_mono [OF engage_drop [OF s b]])
      fix x u assume u: "good a u \<and> near s u"
      have "okn u f = okn s f" using u by (auto simp: near_def meta_def okn_def)
      then show "wp ?mark ?Q u" by (intro mark [of a]) (use u False h in \<open>simp_all add: held_def\<close>)
    qed
    then show ?thesis using False by (simp only: to_backend_def wps if_False)
  qed
qed

text \<open>The part of a round after a backend has been looked for.\<close>

definition settle :: "bool \<Rightarrow> slotnum \<Rightarrow> bool \<Rightarrow> slotnum \<Rightarrow> (bool \<Rightarrow> 'a io) \<Rightarrow> 'a io" where
  "settle hold f working g K =
     bnd (if working then bnd (fe_get f) (\<lambda>r. ret (backend r)) else ret 0) (\<lambda>b.
     bnd (if b \<noteq> 0
          then bnd (speedy_ipc_connect b) (\<lambda>ok.
            thenM [whenM (\<not> ok) (speedy_backend_dispose g b)] (ret ok))
          else ret False) (\<lambda>connected.
     thenM
      [whenM connected (to_backend hold f g b),
       whenM (\<not> (connected \<and> hold)) (speedy_slot_free f)]
      (K connected)))"

lemma settle_spec:
  assumes p: "picked n r s g f t" and w: "backend (fe t f) \<noteq> 0 \<longrightarrow> w"
    and K: "\<And>c u. steady s u \<Longrightarrow> room (r (tick (loc u))) u \<Longrightarrow> loc u = loc t \<Longrightarrow> c \<longrightarrow> w \<Longrightarrow>
      connected_file hold (if c \<and> hold then f else 0) u \<Longrightarrow> wpx h (K c) Q E u"
  shows "wpx h (settle hold f w g K) Q E t"
proof -
  let ?b = "backend (fe t f)"
  obtain a where a: "settled a t g ?b" "mine a t f" "?b \<noteq> 0 \<longrightarrow> g \<in> live a"
    and st: "steady s t" "room (r (tick (loc t))) t" using p by (auto simp: picked_def)
  have h: "held a t f" and fe: "okn t f" "is_fe (pay t f)" using a(2) by (simp_all add: mine_def held_def)
  have K': "wpx h (K c) Q E u" if "near t u" "c \<longrightarrow> w" "connected_file hold (if c \<and> hold then f else 0) u" for c u
    using K [of u c] that st near_room [of t u] near_loc [of t u] steady_trans [OF st(1) near_steady] by simp
  have free: "wpx h (thenM [speedy_slot_free f] (K c)) Q E u"
    if u: "near t u" "good d u" "held d u f" "c \<longrightarrow> w \<and> \<not> hold" for c d u
  proof -
    have fr: "wpx h (speedy_slot_free f) Q' E u = Q' () (pfree f u)" for Q'
      by (rule wpx_eq) (rule wp_free_held [OF u(2,3)])
    have "env (pfree f u) = env u" "meta (pfree f u) = meta u" by (simp_all add: views meta_def)
    then have n: "near t (pfree f u)" using u(1) by (simp add: near_def)
    have "connected_file hold 0 (pfree f u)"
      using good_free [OF u(2,3)] by (auto simp: connected_file_def)
    then have "wpx h (K c) Q E (pfree f u)" by (intro K' [OF n]) (use u(4) in auto)
    then show ?thesis by (simp only: wpx_thenM wpx_seqM fr)
  qed
  let ?R = "\<lambda>c. thenM [whenM c (to_backend hold f g ?b), whenM (\<not> (c \<and> hold)) (speedy_slot_free f)] (K c)"
  have no: "wpx h (?R False) Q E u" if "near t u" "good d u" "held d u f" for d u
    using free [OF that, of False] by (simp add: wpxs)
  have yes: "wpx h (?R True) Q E t" if b: "?b \<noteq> 0"
  proof -
    have "wpx h (to_backend hold f g ?b) (\<lambda>_. wpx h (thenM [whenM (\<not> hold) (speedy_slot_free f)] (K True)) Q E) E t"
    proof (rule wpx_mono [OF wpx_wp [OF to_backend_spec [OF a(1) b a(2) refl]]])
      show "g \<in> live a" using a b by blast
      fix x u assume u: "near t u \<and> (if hold then connected_file True f u else \<exists>a. good a u \<and> held a u f)"
      show "wpx h (thenM [whenM (\<not> hold) (speedy_slot_free f)] (K True)) Q E u"
        using u K' [of u True] free [of u _ True] w b by (cases hold) (auto simp: wpxs)
    qed
    then show ?thesis by (simp add: wpxs)
  qed
  have rej: "wpx h (speedy_backend_dispose g ?b) (\<lambda>_. wpx h (?R False) Q E) E t" if b: "?b \<noteq> 0"
    by (rule wpx_mono [OF wpx_wp [OF reject_backend [OF a(1) b h]]]) (use no in blast)
  have get: "wpx h (fe_get f) Q' E t = Q' (fe t f) t" for Q'
    by (rule wpx_eq) (use fe in \<open>simp add: wps\<close>)
  have none: "wpx h (?R False) Q E t" if "?b = 0"
    using no [of t a] a(1) h that by (simp add: settled_0)
  have zero: "wpx h (thenM [whenM False (to_backend hold f g 0), whenM (\<not> (False \<and> hold)) (speedy_slot_free f)] (K False)) Q E t"
    if "?b = 0" using none [OF that] that by simp
  show ?thesis
  proof (cases "?b = 0")
    case True
    then show ?thesis using zero
      by (cases w) (simp_all add: settle_def wpx_bnd wpx_ret get del: wpx_thenM)
  next
    case False
    then have w by (simp add: w)
    then show ?thesis using False yes rej
      by (simp add: settle_def wpx_bnd wpx_ret get speedy_ipc_connect_def wpx_gets wpx_thenM wpx_seqM whenM_def)
  qed
qed

lemma connect_loop_Suc:
  "connect_loop (Suc k) fuel others hold =
     thenM [lock_file others]
      (bnd (gets (\<lambda>s. did_clean (loc s))) (\<lambda>cleaned.
       thenM [upd_loc (\<lambda>l. l\<lparr>did_clean := True\<rparr>),
              whenM (\<not> cleaned) speedy_frontend_clean_running]
        (bnd speedy_slot_alloc (\<lambda>f.
         bnd speedy_util_getpid (\<lambda>pid.
         thenM [fe_upd f (\<lambda>r. r\<lparr>fe_pid := pid\<rparr>)]
          (bnd (get_a_backend fuel others f) (\<lambda>(working, g).
           settle hold f working g (\<lambda>connected.
             if working \<and> \<not> connected then connect_loop k fuel others hold
             else ret (working, if connected \<and> hold then f else 0)))))))))"
  by (simp add: settle_def)

text \<open>Allocating the frontend's slot.\<close>

lemma new_frontend:
  assumes gd: "good a s" and room: "room (Suc k) s" and me: "mypid s \<noteq> 0"
  shows "wp speedy_slot_alloc (\<lambda>f. wp (bnd speedy_util_getpid (\<lambda>pid. fe_upd f (\<lambda>r. r\<lparr>fe_pid := pid\<rparr>)))
     (\<lambda>_ t. \<exists>b. good b t \<and> mine b t f \<and> room k t \<and> env t = env s)) s"
proof (rule wp_mono [OF alloc_wfile [OF good_wfile [OF gd] room]])
  fix f t
  assume t: "wfile (take_free a) t \<and> held (take_free a) t f \<and> pay t f = U_zero \<and> grow f s t \<and>
     room k t \<and> f \<notin> listed a \<and> f \<notin> live a \<and> \<not> held a s f \<and> f \<noteq> 0"
  let ?b = "take_free a" and ?t = "ppay f (U_fe ((fe t f)\<lparr>fe_pid := mypid t\<rparr>)) t"
  have e: "env t = env s" using t by (auto intro: env_grow)
  have "bv t m = bv s m" if "m \<in> bes a" for m
  proof -
    have "m \<noteq> f" using that t by (auto simp: bes_def listed_def)
    then show ?thesis using t by (simp add: grow_def bv_def be_def)
  qed
  then have "orders a t = orders a s" by (rule orders_cong)
  moreover have "orders ?b t = orders a t" by (rule orders_lists) (simp add: take_free_def)
  moreover have "tidyf ?b = tidyf a" by (rule tidyf_lists) (simp_all add: take_free_def)
  ultimately have "good ?b t" using t gd by (simp add: good_def)
  then have "settled ?b ?t 0 0"
    using settled_held_pay(1) [of ?b t 0 0 f] t by (simp add: settled_0)
  moreover have "mine ?b ?t f"
    using t env_proj [OF e] me held_views [of ?t t ?b f] env_views(3) [of f _ t]
    by (simp add: mine_def me_def views env_def)
  moreover have "near t ?t" by (rule settled_held_pay(2) [of ?b t 0 0]) (use t \<open>good ?b t\<close> in \<open>simp_all add: settled_0\<close>)
  then have "room k ?t" using t near_room by blast
  ultimately show "wp (bnd speedy_util_getpid (\<lambda>pid. fe_upd f (\<lambda>r. r\<lparr>fe_pid := pid\<rparr>)))
     (\<lambda>_ t. \<exists>b. good b t \<and> mine b t f \<and> room k t \<and> env t = env s) t"
    using t e by (auto simp: wps speedy_util_getpid_def settled_0 held_def views)
qed

theorem connect_loop_spec:
  assumes "coop m r others" and "good a s" and "mypid s \<noteq> 0" and "NUL \<notin> set (o_group s)"
    and "tick (loc s) + k * Suc n \<le> m" and "room (r (tick (loc s))) s"
  shows "wpx True (connect_loop k n others hold) (\<lambda>(w, f) t. connected_file hold f t \<and> steady s t)
     spawn_error s"
  using assms
proof (induction k arbitrary: a s)
  case 0
  then show ?case by (simp add: wpxs)
next
  case (Suc k)
  let ?Q = "\<lambda>(w, f) t. connected_file hold f t \<and> steady s t" and ?E = spawn_error
  let ?i = "tick (loc s)"
  have im: "?i < m" using Suc.prems(5) by simp
  let ?u = "relocked others s"
  note C = coop_relocked [OF Suc.prems(1,2) im Suc.prems(6)]
  obtain b where b: "good b ?u" using C(1) by blast
  have tu: "tick (loc ?u) = Suc ?i" using C(4) by simp
  have ru: "room (Suc (Suc (Suc (Suc (r (Suc ?i)))))) ?u" using C(3) tu by (simp add: numeral_eq_Suc)
  let ?next = "\<lambda>f working connected. if working \<and> \<not> connected then connect_loop k n others hold
     else ret (working, if connected \<and> hold then f else 0)"
  have nx: "wpx True (?next f w c) ?Q ?E v"
    if v: "steady s v" "room (r (tick (loc v))) v" "tick (loc v) \<le> Suc ?i + n" "c \<longrightarrow> w"
      "connected_file hold (if c \<and> hold then f else 0) v" for f w c v
  proof (cases "w \<and> \<not> c")
    case False
    then show ?thesis using v by (auto simp: wpxs)
  next
    case True
    obtain d where d: "good d v" using v(5) by (auto simp: connected_file_def)
    have "wpx True (connect_loop k n others hold) (\<lambda>(w, f) t. connected_file hold f t \<and> steady v t) ?E v"
      by (rule Suc.IH [OF Suc.prems(1) d]) (use v Suc.prems in \<open>simp_all add: steady_def\<close>)
    then have "wpx True (connect_loop k n others hold) ?Q ?E v"
      by (rule wpx_mono) (use steady_trans [OF v(1)] in auto)
    then show ?thesis using True by simp
  qed
  have get: "wpx True (bnd (get_a_backend n others f) (\<lambda>(w, g). settle hold f w g (?next f w))) ?Q ?E v"
    if v: "good d v" "mine d v f" "steady ?u v" "tick (loc v) = Suc ?i" "room (Suc (Suc (Suc (r (Suc ?i))))) v"
    for d f v
    unfolding wpx_bnd
  proof (rule wpx_mono [OF get_a_backend_spec [OF Suc.prems(1) v(1,2)]])
    show "tick (loc v) + n \<le> m" using v Suc.prems(5) by simp
    show "room (Suc (Suc (Suc (r (tick (loc v)))))) v" using v by simp
    show "NUL \<notin> set (o_group v)" using v(3) C(2) Suc.prems(4) by (simp add: steady_def)
    fix p t assume p: "(\<lambda>(w, g) t. picked n r v g f t \<and> (backend (fe t f) \<noteq> 0 \<longrightarrow> w)) p t"
    have sv: "steady s v" using steady_trans [OF C(2) v(3)] .
    have pk: "picked n r v (snd p) f t" "backend (fe t f) \<noteq> 0 \<longrightarrow> fst p"
      using p by (auto split: prod.splits)
    have "wpx True (settle hold f (fst p) (snd p) (?next f (fst p))) ?Q ?E t"
    proof (rule settle_spec [OF pk])
      fix c u assume u: "steady v u" "room (r (tick (loc u))) u" "loc u = loc t" "c \<longrightarrow> fst p"
        "connected_file hold (if c \<and> hold then f else 0) u"
      show "wpx True (?next f (fst p) c) ?Q ?E u"
        by (rule nx) (use u sv v(4) pk steady_trans [OF sv u(1)] in \<open>auto simp: picked_def\<close>)
    qed
    then show "wpx True (case p of (w, g) \<Rightarrow> settle hold f w g (?next f w)) ?Q ?E t"
      by (simp only: case_prod_beta)
  qed simp
  let ?alloc = "bnd speedy_slot_alloc (\<lambda>f. bnd speedy_util_getpid (\<lambda>pid.
     thenM [fe_upd f (\<lambda>r. r\<lparr>fe_pid := pid\<rparr>)]
      (bnd (get_a_backend n others f) (\<lambda>(w, g). settle hold f w g (?next f w)))))"
  have alloc: "wpx True ?alloc ?Q ?E v"
    if v: "good d v" "steady ?u v" "tick (loc v) = Suc ?i" "room (Suc (Suc (Suc (Suc (r (Suc ?i)))))) v" for d v
  proof -
    have me: "mypid v \<noteq> 0" using v(2) C(2) Suc.prems(3) by (simp add: steady_def)
    have "wpx True speedy_slot_alloc (\<lambda>f. wpx True (bnd speedy_util_getpid (\<lambda>pid.
      thenM [fe_upd f (\<lambda>r. r\<lparr>fe_pid := pid\<rparr>)]
      (bnd (get_a_backend n others f) (\<lambda>(w, g). settle hold f w g (?next f w))))) ?Q ?E) ?E v"
    proof (rule wpx_mono [OF wpx_wp [OF new_frontend [OF v(1,4) me]]])
      fix f t assume "wp (bnd speedy_util_getpid (\<lambda>pid. fe_upd f (\<lambda>r. r\<lparr>fe_pid := pid\<rparr>)))
        (\<lambda>_ t. \<exists>b. good b t \<and> mine b t f \<and> room (Suc (Suc (Suc (r (Suc ?i))))) t \<and> env t = env v) t"
      then have "wpx True (bnd speedy_util_getpid (\<lambda>pid. fe_upd f (\<lambda>r. r\<lparr>fe_pid := pid\<rparr>)))
        (\<lambda>_. wpx True (bnd (get_a_backend n others f) (\<lambda>(w, g). settle hold f w g (?next f w))) ?Q ?E) ?E t"
      proof (rule wpx_mono [OF wpx_wp])
        fix x y assume "\<exists>b. good b y \<and> mine b y f \<and> room (Suc (Suc (Suc (r (Suc ?i))))) y \<and> env y = env v"
        then obtain c where c: "good c y" "mine c y f" "room (Suc (Suc (Suc (r (Suc ?i))))) y" "env y = env v"
          by blast
        have "steady ?u y" "tick (loc y) = Suc ?i" using env_proj [OF c(4)] v(2,3) by (auto simp: steady_def)
        then show "wpx True (bnd (get_a_backend n others f) (\<lambda>(w, g). settle hold f w g (?next f w))) ?Q ?E y"
          using get [OF c(1,2)] c(3) by blast
      qed
      then show "wpx True (bnd speedy_util_getpid (\<lambda>pid. thenM [fe_upd f (\<lambda>r. r\<lparr>fe_pid := pid\<rparr>)]
        (bnd (get_a_backend n others f) (\<lambda>(w, g). settle hold f w g (?next f w))))) ?Q ?E t"
        by (simp only: wpx_bnd wpx_thenM wpx_seqM)
    qed
    then show ?thesis by (simp only: wpx_bnd)
  qed
  let ?v = "ploc (\<lambda>l. l\<lparr>did_clean := True\<rparr>) ?u"
  have up: "wpx True (upd_loc f) Q' ?E v = Q' () (ploc f v)" for f Q' v
    by (rule wpx_eq) (rule wp_upd_loc)
  have gv: "good b ?v" "steady ?u ?v" "tick (loc ?v) = Suc ?i" "room (Suc (Suc (Suc (Suc (r (Suc ?i)))))) ?v"
    using b tu ru by simp_all
  have "wpx True (whenM c speedy_frontend_clean_running) (\<lambda>_. wpx True ?alloc ?Q ?E) ?E ?v" for c
  proof (cases c)
    case False
    then show ?thesis using alloc [OF gv] by (simp only: wpx_whenM if_False)
  next
    case True
    have "wpx True speedy_frontend_clean_running (\<lambda>_. wpx True ?alloc ?Q ?E) ?E ?v"
    proof (rule wpx_mono [OF wpx_wp [OF clean_running_spec [OF gv(1)]]])
      fix x t assume "\<exists>d. good d t \<and> near ?v t \<and> shrink {LFeRun} b d"
      then obtain d where d: "good d t" "near ?v t" by blast
      have "steady ?u t" "tick (loc t) = Suc ?i" "room (Suc (Suc (Suc (Suc (r (Suc ?i)))))) t"
        using steady_trans [OF gv(2) near_steady [OF d(2)]] near_loc [OF d(2)] near_room [OF d(2)] gv by simp_all
      then show "wpx True ?alloc ?Q ?E t" using alloc [OF d(1)] by blast
    qed
    then show ?thesis using True by (simp only: wpx_whenM if_True)
  qed
  then show ?case
    by (simp only: connect_loop_Suc wpx_thenM wpx_seqM wpx_bnd wpx_lock_file wpx_gets up)
qed

section \<open>The exit status\<close>

lemma good_exited:
  assumes gd: "good a s" and w: "wfile b t" and sh: "shrink {LFeRun} a b"
    and c: "calm (busy a) (live a) (bes a) s t"
  shows "good b t"
  by (rule good_shrink [OF gd w sh c]) simp_all

text \<open>
  A frontend asks for the exit status of its backend. It gets one if its backend has reported
  it, or if the backend is dead: then the status is that of a process killed by
  \<open>SIGKILL\<close>. In both cases the frontend's slot is gone afterwards.
\<close>

definition status :: "sys \<Rightarrow> slotnum \<Rightarrow> (int \<times> int) option" where
  "status s f = (let b = backend (fe s f) in
     if b = 0 then Some (exit_on_sig (fe s f), exit_val (fe s f))
     else if kill_ok s (be_pid (be s b)) 0 then None else Some (1, SIGKILL))"

theorem collect_status_spec:
  assumes gd: "good a s" and f: "f \<in> set (lst a LFeRun)" and m: "me s f"
  shows "wp (speedy_frontend_collect_status f) (\<lambda>x t. x = status s f \<and>
     (\<exists>b. good b t \<and> lst b LFeRun = (if x = None then lst a LFeRun else remove1 f (lst a LFeRun)))) s"
    (is "wp _ ?Q s")
proof -
  have R: "repr a s" and W: "wfile a s" by (rule good_repr [OF gd], rule good_wfile [OF gd])
  have fm: "okn s f" "is_fe (pay s f)" "f \<noteq> 0" using repr_mem [OF R f] by simp_all
  let ?b = "backend (fe s f)" and ?s = "kill_state (be_pid (be s (backend (fe s f)))) 0 s"
  have L: "?b \<in> bes a" "fe_running (be s ?b) = f" if "?b \<noteq> 0" using links_backend [OF W f that] by simp_all
  have bm: "okn s ?b" "is_be (pay s ?b)" "f \<noteq> ?b" if "?b \<noteq> 0"
    using bes_mem [OF R L(1) [OF that]] f by auto
  have rm: "wp (speedy_frontend_remove_running f) (\<lambda>_. Q x) t"
    if t: "good a t" and Q: "\<And>u. good (discard LFeRun f a) u \<Longrightarrow> Q x u" for Q x t
    by (rule wp_mono [OF drop_running [OF t f]]) (use Q in blast)
  have got: "wp (speedy_frontend_remove_running f) (\<lambda>_. ?Q x) t" if "good a t" "x = status s f" "x \<noteq> None" for x t
    by (rule rm [OF that(1)]) (use that in \<open>auto intro!: exI [of _ "discard LFeRun f a"]\<close>)
  let ?fin = "\<lambda>q. if backend q = 0 then thenM [speedy_frontend_remove_running f]
      (ret (Some (exit_on_sig q, exit_val q))) else ret None"
  show ?thesis
  proof (cases "?b = 0")
    case True
    have "wp (speedy_frontend_remove_running f) (\<lambda>_. ?Q (status s f)) s"
      by (rule got [OF gd refl]) (simp add: status_def True)
    then show ?thesis using fm True by (simp add: speedy_frontend_collect_status_def wps status_def)
  next
    case False
    have gs: "good a ?s" using gd by (simp add: goods)
    have ms: "me ?s f = me s f" using env_proj [OF env_kill(1)] by (simp add: me_def kill_views)
    have dead: "wp (speedy_backend_died ?b) (\<lambda>_. wp (bnd (fe_get f) ?fin) ?Q) ?s"
      if no: "\<not> kill_ok s (be_pid (be s ?b)) 0"
      unfolding speedy_backend_died_def
    proof (rule wp_mono [OF exited_spec [OF good_wfile [OF gs] L(1) [OF False]]])
      fix x t assume "\<exists>a'. wfile a' t \<and> shrink {LFeRun} a a' \<and> calm (busy a) (live a) (bes a) ?s t \<and>
        fe_running (be t ?b) \<in> {0, ?b} \<and>
        (\<forall>g. g = fe_running (be ?s ?b) \<longrightarrow> g \<in> set (lst a' LFeRun) \<longrightarrow>
          fe t g = (fe ?s g)\<lparr>backend := 0, exit_on_sig := 1, exit_val := SIGKILL\<rparr>) \<and>
        (fe_pid (fe ?s (fe_running (be ?s ?b))) = mypid ?s \<longrightarrow> mypid ?s \<noteq> 0 \<longrightarrow> a' = a)"
      then obtain a' where a': "wfile a' t" "shrink {LFeRun} a a'" "calm (busy a) (live a) (bes a) ?s t"
        and fr: "f \<in> set (lst a' LFeRun) \<Longrightarrow>
          fe t f = (fe ?s f)\<lparr>backend := 0, exit_on_sig := 1, exit_val := SIGKILL\<rparr>"
        and own: "fe_pid (fe ?s f) = mypid ?s \<Longrightarrow> mypid ?s \<noteq> 0 \<Longrightarrow> a' = a"
        using L(2) [OF False] by (auto simp: kill_views)
      have aa: "a' = a" using own ms m by (simp add: me_def)
      have fe: "fe t f = (fe ?s f)\<lparr>backend := 0, exit_on_sig := 1, exit_val := SIGKILL\<rparr>"
        using fr f aa by simp
      have gt: "good a t" using good_exited [OF gs a'] aa by simp
      have "wp (speedy_frontend_remove_running f) (\<lambda>_. ?Q (Some (1, SIGKILL))) t"
        by (rule got [OF gt]) (simp_all add: status_def False no)
      then show "wp (bnd (fe_get f) ?fin) ?Q t"
        using fe repr_mem [OF good_repr [OF gt] f] by (simp add: wps)
    qed
    have alive: "wp (bnd (fe_get f) ?fin) ?Q ?s" if yes: "kill_ok s (be_pid (be s ?b)) 0"
      using fm False gs yes by (auto simp: wps kill_views status_def)
    have fg: "wp (fe_get f) Q = (\<lambda>u. okn u f \<and> is_fe (pay u f) \<and> Q (fe u f) u)" for Q :: "fe_slot \<Rightarrow> sys \<Rightarrow> bool"
      by (simp add: fun_eq_iff wps)
    have "wp (speedy_frontend_collect_status f) Q s =
      (if kill_ok s (be_pid (be s ?b)) 0 then wp (bnd (fe_get f) ?fin) Q ?s
       else wp (speedy_backend_died ?b) (\<lambda>_. wp (bnd (fe_get f) ?fin) Q) ?s)" for Q
      using fm bm [OF False] False by (simp add: speedy_frontend_collect_status_def wps fg)
    then show ?thesis using dead alive by presburger
  qed
qed

end
