(* ===== verification/BackendMain.thy ===== *)
theory BackendMain
  imports FrontendRun
begin

text \<open>
  The backend parent (src/src/speedy_backend_main.c), which starts backends, collects them
  when they exit and cleans up after other groups, and the part of a backend's life that works
  on the file (\<open>speedy_perl_run\<close> of src/src/speedy_perl.c). Running the perl code, accepting a
  connection and the listening socket are not part of the file.
\<close>

section \<open>The backend parent\<close>

primrec find_pid_loop :: "nat \<Rightarrow> int \<Rightarrow> slotnum \<Rightarrow> slotnum io" where
  "find_pid_loop 0 pid bslotnum = hang"
| "find_pid_loop (Suc fuel) pid bslotnum =
     (if bslotnum = 0 then ret 0
      else bnd (be_get bslotnum) (\<lambda>bslot.
        if be_pid bslot = pid then ret bslotnum
        else bnd (speedy_slot_next bslotnum) (find_pid_loop fuel pid)))"

definition find_pid :: "slotnum \<Rightarrow> int \<Rightarrow> slotnum io" where
  "find_pid gslotnum pid =
     bnd (gets list_fuel) (\<lambda>fuel. bnd (getref (BE_HEAD gslotnum)) (find_pid_loop fuel pid))"

text \<open>The macros of sys/wait.h for a status as \<open>waitpid(2)\<close> returns it.\<close>

definition WTERMSIG :: "int \<Rightarrow> int" where "WTERMSIG st = st mod 128"
definition WEXITSTATUS :: "int \<Rightarrow> int" where "WEXITSTATUS st = st div 256 mod 256"
definition WIFSIGNALED :: "int \<Rightarrow> bool" where
  "WIFSIGNALED st \<longleftrightarrow> WTERMSIG st \<noteq> 0 \<and> WTERMSIG st \<noteq> 127"

primrec collect_children :: "slotnum \<Rightarrow> (int \<times> int) list \<Rightarrow> unit io" where
  "collect_children gslotnum [] = ret ()"
| "collect_children gslotnum (w # ws) =
     (case w of (pid, st) \<Rightarrow>
       bnd (find_pid gslotnum pid) (\<lambda>bslotnum.
       thenM
        [whenM (bslotnum \<noteq> 0)
          (seqM
            [speedy_backend_exited bslotnum (if WIFSIGNALED st then 1 else 0)
               (if WIFSIGNALED st then WTERMSIG st else WEXITSTATUS st),
             speedy_backend_dispose gslotnum bslotnum])]
        (collect_children gslotnum ws)))"

definition collect_child :: "slotnum \<Rightarrow> unit io" where
  "collect_child gslotnum =
     bnd (gets (\<lambda>s. kreaped (orc s) (tick (loc s)))) (collect_children gslotnum)"

text \<open>
  \<open>pid = 0\<close> is the return of \<open>fork\<close> in the child, which unlocks the file, runs perl (below) and
  exits without coming back here.
\<close>

definition start_child :: "slotnum \<Rightarrow> unit io" where
  "start_child gslotnum =
     bnd (speedy_group_be_starting gslotnum) (\<lambda>pid.
     bnd speedy_util_getpid (\<lambda>ourpid.
     if pid \<noteq> 0 \<and> pid \<noteq> ourpid then ret ()
     else bnd (speedy_backend_below_maxbe gslotnum) (\<lambda>below.
       if \<not> below then ret ()
       else bnd (speedy_backend_create_slot gslotnum) (\<lambda>bslotnum.
         bnd (gets (\<lambda>s. kfork (orc s) (tick (loc s)))) (\<lambda>pid.
         if pid = 0 then die (Exited 0)
         else if pid = - 1
         then seqM
           [gr_upd gslotnum (\<lambda>r. r\<lparr>be_starting := 0\<rparr>),
            speedy_backend_dispose gslotnum bslotnum]
         else seqM
           [gr_upd gslotnum (\<lambda>r. r\<lparr>be_starting := pid\<rparr>),
            be_upd bslotnum (\<lambda>r. r\<lparr>be_pid := pid\<rparr>)])))))"

primrec cleanup_bes_loop :: "nat \<Rightarrow> slotnum \<Rightarrow> slotnum \<Rightarrow> unit io" where
  "cleanup_bes_loop 0 gslotnum bslotnum = hang"
| "cleanup_bes_loop (Suc fuel) gslotnum bslotnum =
     (if bslotnum = 0 then ret ()
      else bnd (speedy_slot_next bslotnum) (\<lambda>next.
        bnd (speedy_backend_dead bslotnum) (\<lambda>dead.
        thenM [whenM dead (speedy_backend_dispose gslotnum bslotnum)]
          (cleanup_bes_loop fuel gslotnum next))))"

definition do_cleanup :: "slotnum \<Rightarrow> unit io" where
  "do_cleanup gslotnum =
     bnd (speedy_slot_prev gslotnum) (\<lambda>p.
     bnd (if p = 0 then gets (\<lambda>s. group_tail (fhd s)) else ret p) (\<lambda>prev.
     if prev = 0 \<or> prev = gslotnum then ret ()
     else bnd (speedy_group_parent_sig prev 0) (\<lambda>alive.
       if alive then ret ()
       else seqM
         [speedy_group_invalidate prev,
          bnd (gets list_fuel) (\<lambda>fuel.
          bnd (getref (BE_HEAD prev)) (cleanup_bes_loop fuel prev)),
          speedy_group_cleanup prev])))"

text \<open>One turn of the main loop, with the file locked: \<open>True\<close> if it is the last one.\<close>

definition main_turn :: "slotnum \<Rightarrow> bool io" where
  "main_turn gslotnum =
     thenM
      [collect_child gslotnum,
       bnd (speedy_group_isvalid gslotnum) (\<lambda>valid.
       bnd (gets (\<lambda>s. kgot (orc s) (tick (loc s)) SIGUSR1)) (\<lambda>usr1.
       whenM (valid \<and> usr1) (start_child gslotnum))),
       do_cleanup gslotnum]
      (bnd (getref (BE_HEAD gslotnum)) (\<lambda>have_children.
       bnd (gets (\<lambda>s. kgot (orc s) (tick (loc s)) SIGALRM)) (\<lambda>alrm.
       if alrm \<and> have_children = 0 then ret True
       else bnd (alarm (if have_children \<noteq> 0 then 0 else 10)) (\<lambda>_. ret False))))"

primrec main_loop :: "nat \<Rightarrow> (nat \<Rightarrow> sys \<Rightarrow> sys) \<Rightarrow> slotnum \<Rightarrow> unit io" where
  "main_loop 0 others gslotnum = hang"
| "main_loop (Suc fuel) others gslotnum =
     thenM [pause, lock_file others]
      (bnd (main_turn gslotnum) (\<lambda>last.
       if last then speedy_group_cleanup gslotnum
       else main_loop fuel others gslotnum))"

text \<open>From the first lock on. \<open>None\<close>: another process is the parent of the group.\<close>

definition main_join :: "slotnum option io" where
  "main_join =
     bnd (gets (\<lambda>s. kstat (orc s) (tick (loc s)))) (\<lambda>st.
     bnd (speedy_script_find st) (\<lambda>gslotnum.
     bnd (gr_get gslotnum) (\<lambda>gslot.
     bnd speedy_util_getpid (\<lambda>ourpid.
     bnd (if be_parent gslot \<noteq> 0 \<and> be_parent gslot \<noteq> ourpid then speedy_group_start_be gslotnum
          else ret False) (\<lambda>leave.
     if leave then ret None
     else thenM
       [gr_upd gslotnum (\<lambda>r. r\<lparr>be_parent := ourpid\<rparr>),
        start_child gslotnum]
       (ret (Some gslotnum)))))))"

definition backend_main :: "nat \<Rightarrow> (nat \<Rightarrow> sys \<Rightarrow> sys) \<Rightarrow> unit io" where
  "backend_main fuel others =
     thenM [lock_file others]
      (bnd main_join (\<lambda>joined.
       case joined of None \<Rightarrow> ret () | Some gslotnum \<Rightarrow> main_loop fuel others gslotnum))"

section \<open>A backend\<close>

text \<open>The three critical sections of a run.\<close>

definition not_starting :: "slotnum \<Rightarrow> unit io" where
  "not_starting gslotnum =
     bnd (gr_get gslotnum) (\<lambda>r.
     bnd speedy_util_getpid (\<lambda>ourpid.
     whenM (be_starting r = ourpid) (gr_upd gslotnum (\<lambda>r. r\<lparr>be_starting := 0\<rparr>))))"

definition run_ready :: "slotnum \<Rightarrow> slotnum \<Rightarrow> nat \<Rightarrow> unit io" where
  "run_ready gslotnum bslotnum numrun =
     seqM
      [be_upd bslotnum (\<lambda>r. r\<lparr>maturity := (if numrun \<noteq> 0 then 2 else 1)\<rparr>),
       speedy_backend_be_wait_put gslotnum bslotnum,
       not_starting gslotnum,
       speedy_group_sendsigs gslotnum]"

definition run_accepted :: "slotnum \<Rightarrow> unit io" where
  "run_accepted gslotnum = seqM [not_starting gslotnum, speedy_group_sendsigs gslotnum]"

text \<open>
  \<open>maxruns\<close> is the option; \<open>orphan\<close> whether the parent process is gone (\<open>getppid() == 1\<close>);
  \<open>onerun\<close> the exit value of the script. \<open>all_done\<close> ends the process. After a run the file is
  still locked, so \<open>speedy_group_lock\<close> finds it locked and lets nobody in between.
\<close>

definition all_done :: "'a io" where
  "all_done = die (Exited 0)"

definition perl_run_lock :: "(nat \<Rightarrow> sys \<Rightarrow> sys) \<Rightarrow> slotnum \<Rightarrow> nat \<Rightarrow> bool io" where
  "perl_run_lock others gslotnum numrun =
     (if numrun = 0 then speedy_group_lock others gslotnum else speedy_group_isvalid gslotnum)"

primrec perl_run :: "nat \<Rightarrow> (nat \<Rightarrow> sys \<Rightarrow> sys) \<Rightarrow> int \<Rightarrow> (nat \<Rightarrow> bool) \<Rightarrow> (nat \<Rightarrow> int) \<Rightarrow> slotnum
    \<Rightarrow> slotnum \<Rightarrow> nat \<Rightarrow> unit io" where
  "perl_run 0 others maxruns orphan onerun gslotnum bslotnum numrun = hang"
| "perl_run (Suc fuel) others maxruns orphan onerun gslotnum bslotnum numrun =
     (if maxruns = 0 \<or> int numrun < maxruns
      then bnd (if orphan numrun then ret False else perl_run_lock others gslotnum numrun) (\<lambda>valid.
        if \<not> valid then all_done
        else thenM [run_ready gslotnum bslotnum numrun]
          (bnd (speedy_group_lock others gslotnum) (\<lambda>valid.
           if \<not> valid then all_done
           else thenM
             [run_accepted gslotnum,
              lock_file others,
              speedy_backend_exited bslotnum 0 (onerun numrun)]
             (perl_run fuel others maxruns orphan onerun gslotnum bslotnum (Suc numrun)))))
      else bnd (perl_run_lock others gslotnum numrun) (\<lambda>valid.
        thenM [whenM valid (bnd (speedy_group_start_be gslotnum) (\<lambda>_. ret ()))] all_done))"

end
