(* ===== verification/BackendMainSpecs.thy ===== *)
theory BackendMainSpecs
  imports BackendMain
begin

text \<open>
  The backend parent keeps the file good, and neither it nor a backend trips an assertion of the
  slot code, whatever the other processes do within their contract.
\<close>

section \<open>Disposing of backends\<close>

lemma good_dispose:
  assumes gd: "good a s" and b: "b \<in> set (lst a (LBe g))"
  shows "wp (speedy_backend_dispose g b) (\<lambda>_ t. \<exists>c. good c t \<and> near s t \<and>
     shrink {LFeRun, LBe g} a c \<and> lst c (LBe g) = remove1 b (lst a (LBe g))) s"
proof (rule wp_mono [OF dispose_spec [OF good_wfile [OF gd] b]])
  fix x t assume "\<exists>a'. wfile a' t \<and> shrink {LFeRun, LBe g} a a' \<and>
    lst a' (LBe g) = remove1 b (lst a (LBe g)) \<and> calm (busy a) (live a) (bes a) s t"
  then obtain c where c: "wfile c t" "shrink {LFeRun, LBe g} a c"
    "lst c (LBe g) = remove1 b (lst a (LBe g))" "calm (busy a) (live a) (bes a) s t" by blast
  have "good c t" by (rule good_shrink [OF gd c(1,2,4)]) simp_all
  then show "\<exists>c. good c t \<and> near s t \<and> shrink {LFeRun, LBe g} a c \<and>
      lst c (LBe g) = remove1 b (lst a (LBe g))"
    using c near_calm by blast
qed

lemma good_exited_near:
  assumes gd: "good a s" and b: "b \<in> bes a"
  shows "wp (speedy_backend_exited b x v) (\<lambda>_ t. \<exists>c. good c t \<and> near s t \<and> shrink {LFeRun} a c \<and>
     fe_running (be t b) \<in> {0, b} \<and> (fe_running (be s b) \<noteq> 0 \<longrightarrow> fe_running (be t b) = b) \<and>
     bv t b = bv s b) s"
proof (rule wp_mono [OF exited_spec [OF good_wfile [OF gd] b]])
  fix y t assume "\<exists>a'. wfile a' t \<and> shrink {LFeRun} a a' \<and> calm (busy a) (live a) (bes a) s t \<and>
    fe_running (be t b) \<in> {0, b} \<and>
    (\<forall>f. f = fe_running (be s b) \<longrightarrow> f \<in> set (lst a' LFeRun) \<longrightarrow>
      fe t f = (fe s f)\<lparr>backend := 0, exit_on_sig := x, exit_val := v\<rparr>) \<and>
    (fe_pid (fe s (fe_running (be s b))) = mypid s \<longrightarrow> mypid s \<noteq> 0 \<longrightarrow> a' = a)"
  then obtain c where c: "wfile c t" "shrink {LFeRun} a c" "calm (busy a) (live a) (bes a) s t"
    and fr: "fe_running (be t b) \<in> {0, b}" by blast
  have bv: "bv t b = bv s b" using c(3) b by (simp add: calm_def)
  then have "fe_running (be s b) \<noteq> 0 \<longrightarrow> fe_running (be t b) = b"
    using fr by (auto simp: bv_def)
  then show "\<exists>c. good c t \<and> near s t \<and> shrink {LFeRun} a c \<and> fe_running (be t b) \<in> {0, b} \<and>
      (fe_running (be s b) \<noteq> 0 \<longrightarrow> fe_running (be t b) = b) \<and> bv t b = bv s b"
    using good_exited [OF gd c] c fr bv near_calm by blast
qed

section \<open>Collecting children\<close>

lemma find_pid_loop_spec:
  assumes R: "repr a s"
  shows "lst a (LBe g) = ys @ zs \<Longrightarrow> length zs < fuel \<Longrightarrow>
     wp (find_pid_loop fuel pid (hd0 zs)) Q s =
       Q (case find (\<lambda>b. be_pid (be s b) = pid) zs of None \<Rightarrow> 0 | Some b \<Rightarrow> b) s"
proof (induction zs arbitrary: ys fuel)
  case Nil
  then show ?case by (cases fuel) (simp_all add: wps)
next
  case (Cons z zs)
  obtain n where n: "fuel = Suc n" using Cons.prems by (cases fuel) auto
  have z: "okn s z" "z \<noteq> 0" "is_be (pay s z)" "nxt s z = hd0 zs"
    using repr_walk [OF R Cons.prems(1)] by auto
  show ?case using Cons.IH [of "ys @ [z]" n] Cons.prems z by (simp add: n wps)
qed

theorem find_pid_spec:
  assumes R: "repr a s" and g: "g \<in> live a"
  shows "wp (find_pid g pid) Q s =
     Q (case find (\<lambda>b. be_pid (be s b) = pid) (lst a (LBe g)) of None \<Rightarrow> 0 | Some b \<Rightarrow> b) s"
  using find_pid_loop_spec [OF R, of g "[]" "lst a (LBe g)" "list_fuel s" pid Q] repr_fuel [OF R]
    repr_be_head [OF R g] repr_live [OF R g] by (simp add: find_pid_def wps refok_def)

lemma find_in: "find P xs = Some b \<Longrightarrow> b \<in> set xs"
  by (auto simp: find_Some_iff)

lemma find0_mem:
  fixes xs :: "slotnum list"
  shows "(case find P xs of None \<Rightarrow> 0 | Some b \<Rightarrow> b) \<noteq> 0 \<Longrightarrow> (case find P xs of None \<Rightarrow> 0 | Some b \<Rightarrow> b) \<in> set xs"
  by (cases "find P xs") (auto dest: find_in)

theorem collect_children_spec:
  assumes "good a s" and "g \<in> live a"
  shows "wp (collect_children g ws) (\<lambda>_ t. \<exists>c. good c t \<and> near s t \<and> live c = live a \<and>
     shrink {LFeRun, LBe g} a c) s"
  using assms
proof (induction ws arbitrary: a s)
  case Nil
  then show ?case by (auto simp: wps)
next
  case (Cons w ws)
  let ?Q = "\<lambda>_ t. \<exists>c. good c t \<and> near s t \<and> live c = live a \<and> shrink {LFeRun, LBe g} a c"
  obtain pid st where w: "w = (pid, st)" by (cases w)
  have R: "repr a s" by (rule good_repr [OF Cons.prems(1)])
  have rest: "wp (collect_children g ws) ?Q t"
    if c: "good c t" "near s t" "shrink {LFeRun, LBe g} a c" for c t
  proof (rule wp_mono [OF Cons.IH [OF c(1)]])
    show "g \<in> live c" using shrink_live [OF c(3)] Cons.prems by simp
    fix x u assume "\<exists>d. good d u \<and> near t u \<and> live d = live c \<and> shrink {LFeRun, LBe g} c d"
    then show "?Q x u" using near_trans [OF c(2)] shrink_trans [OF c(3)] shrink_live [OF c(3)]
      by (metis Un_absorb)
  qed
  let ?b = "case find (\<lambda>b. be_pid (be s b) = pid) (lst a (LBe g)) of None \<Rightarrow> 0 | Some b \<Rightarrow> b"
  let ?x = "if WIFSIGNALED st then 1 else 0" and ?v = "if WIFSIGNALED st then WTERMSIG st else WEXITSTATUS st"
  have run: "wp (collect_children g (w # ws)) Q s = (if ?b \<noteq> 0
      then wp (speedy_backend_exited ?b ?x ?v) (\<lambda>_. wp (speedy_backend_dispose g ?b)
        (\<lambda>_. wp (collect_children g ws) Q)) s
      else wp (collect_children g ws) Q s)" for Q
    by (simp only: collect_children.simps w prod.case wp_bnd find_pid_spec [OF R Cons.prems(2)]
        wp_thenM wp_seqM_Cons wp_seqM_Nil wp_whenM split: if_split)
  show ?case
  proof (cases "?b = 0")
    case True
    then show ?thesis using rest [OF Cons.prems(1)] run by simp
  next
    case False
    then have b: "?b \<in> set (lst a (LBe g))" by (rule find0_mem)
    then have bb: "?b \<in> bes a" by (auto simp: bes_def)
    have "wp (speedy_backend_exited ?b ?x ?v) (\<lambda>_. wp (speedy_backend_dispose g ?b)
        (\<lambda>_. wp (collect_children g ws) ?Q)) s"
    proof (rule wp_mono [OF good_exited_near [OF Cons.prems(1) bb]])
      fix x t assume "\<exists>c. good c t \<and> near s t \<and> shrink {LFeRun} a c \<and> fe_running (be t ?b) \<in> {0, ?b} \<and>
        (fe_running (be s ?b) \<noteq> 0 \<longrightarrow> fe_running (be t ?b) = ?b) \<and> bv t ?b = bv s ?b"
      then obtain c where c: "good c t" "near s t" "shrink {LFeRun} a c" by blast
      have bc: "?b \<in> set (lst c (LBe g))" using b shrink_same [OF c(3), of "LBe g"] by simp
      show "wp (speedy_backend_dispose g ?b) (\<lambda>_. wp (collect_children g ws) ?Q) t"
      proof (rule wp_mono [OF good_dispose [OF c(1) bc]])
        fix y u assume "\<exists>d. good d u \<and> near t u \<and> shrink {LFeRun, LBe g} c d \<and>
          lst d (LBe g) = remove1 ?b (lst c (LBe g))"
        then obtain d where d: "good d u" "near t u" "shrink {LFeRun, LBe g} c d" by blast
        show "wp (collect_children g ws) ?Q u"
          using rest [OF d(1) near_trans [OF c(2) d(2)]] shrink_trans [OF c(3) d(3)]
          by (simp add: insert_commute)
      qed
    qed
    then show ?thesis using False run by simp
  qed
qed

section \<open>Starting a child\<close>

lemma sorted_wrt_same:
  "(\<And>x y. x \<in> set xs \<Longrightarrow> y \<in> set xs \<Longrightarrow> P x y = Q x y) \<Longrightarrow> sorted_wrt P xs = sorted_wrt Q xs"
  by (induction xs) auto

lemma be_order_views:
  assumes "\<And>x. x \<in> set xs \<Longrightarrow> maturity (be t x) = maturity (be s x) \<and> waiting t x = waiting s x"
  shows "be_order t xs = be_order s xs"
proof -
  have p: "prefix_ok (waiting t) xs = prefix_ok (waiting s) xs"
    by (rule prefix_ok_cong) (simp add: assms)
  have f: "filter (waiting t) xs = filter (waiting s) xs" by (rule filter_cong) (simp_all add: assms)
  have "sorted_wrt (\<lambda>x y. maturity (be t y) \<le> maturity (be t x)) (filter (waiting s) xs) =
      sorted_wrt (\<lambda>x y. maturity (be s y) \<le> maturity (be s x)) (filter (waiting s) xs)"
    by (rule sorted_wrt_same) (simp add: assms)
  then show ?thesis by (simp add: be_order_filter_form p f)
qed

lemma good_be_pid:
  assumes gd: "good a s" and b: "b \<in> bes a"
  shows "good a (ppay b (U_be ((be s b)\<lparr>be_pid := p\<rparr>)) s)" (is "good a ?t")
proof -
  have R: "repr a s" and W: "wfile a s" by (rule good_repr [OF gd], rule good_wfile [OF gd])
  have be: "be ?t m = (if m = b then (be s b)\<lparr>be_pid := p\<rparr> else be s m)" for m by (simp add: views)
  have "fe ?t f = fe s f" if "f \<in> set (lst a LFeRun)" for f
  proof -
    have "f \<noteq> b" using bes_mem(4) [OF R b] that by auto
    then show ?thesis by (simp add: views)
  qed
  then have "links a ?t" using W by (auto simp: wfile_def links_def be simp del: typed_ppay)
  moreover have "be_order ?t xs = be_order s xs" for xs
    by (rule be_order_views) (simp add: be waiting_def del: typed_ppay)
  ultimately show ?thesis
    using gd repr_ppay [OF R payable_bes [OF R b]] by (simp add: good_def wfile_def orders_def)
qed

definition exited0 :: "why \<Rightarrow> bool" where "exited0 e \<longleftrightarrow> e = Exited 0"

definition kept :: "slotnum \<Rightarrow> nat \<Rightarrow> sys \<Rightarrow> sys \<Rightarrow> bool" where
  "kept g k s t \<longleftrightarrow> (\<exists>c. good c t \<and> g \<in> live c) \<and> steady s t \<and> loc t = loc s \<and> room k t"

lemma kept_near:
  assumes "near s t" and "room k s" and "good c t" and "g \<in> live c"
  shows "kept g k s t"
  using assms near_steady near_loc near_room by (auto simp: kept_def)

lemma kept_trans: "kept g j s t \<Longrightarrow> kept g k t u \<Longrightarrow> kept g k s u"
  by (auto simp: kept_def intro: steady_trans)

lemma new_backend:
  assumes gd: "good a s" and g: "g \<in> live a" and room: "room (Suc k) s"
  shows "wp (speedy_backend_create_slot g) (\<lambda>b t. \<exists>c. good c t \<and> b \<in> set (lst c (LBe g)) \<and>
     env t = env s \<and> room k t) s"
proof (rule wp_mono [OF create_slot_spec [OF good_wfile [OF gd] g room]])
  fix b t
  let ?c = "upl (LBe g) (lst a (LBe g) @ [b]) (take_free a)"
  assume t: "wfile ?c t \<and> \<not> waiting t b \<and> fe_running (be t b) = b \<and> b \<notin> listed a \<and> b \<notin> live a \<and>
     \<not> held a s b \<and> room k t \<and> mild (live a \<union> {b}) (live a) (bes a) s t"
  have bv: "bv t m = bv s m" if "m \<in> set (lst a (LBe h))" for m h
    using t that by (auto simp: mild_def bes_def)
  have os: "be_order t (lst a (LBe h))" for h
    using gd be_order_cong [of "lst a (LBe h)" t s, OF bv] by (simp add: good_def orders_def)
  then have "orders ?c t" using t be_order_append [OF os] by (auto simp: orders_def take_free_def)
  moreover have "tidyf ?c = tidyf a" by (rule tidyf_lists) (simp_all add: take_free_def)
  ultimately have "good ?c t" using gd t by (simp add: good_def)
  then show "\<exists>c. good c t \<and> b \<in> set (lst c (LBe g)) \<and> env t = env s \<and> room k t"
    using t by (intro exI [of _ ?c]) (auto simp: mild_def)
qed

theorem start_child_spec:
  assumes gd: "good a s" and g: "g \<in> live a" and room: "room (Suc k) s"
  shows "wpx h (start_child g) (\<lambda>_. kept g k s) exited0 s"
proof -
  have rk: "room k s" by (rule room_less [OF room]) simp
  let ?fork = "\<lambda>b. bnd (gets (\<lambda>s. kfork (orc s) (tick (loc s)))) (\<lambda>pid.
         if pid = 0 then die (Exited 0)
         else if pid = - 1
         then seqM [gr_upd g (\<lambda>r. r\<lparr>be_starting := 0\<rparr>), speedy_backend_dispose g b]
         else seqM [gr_upd g (\<lambda>r. r\<lparr>be_starting := pid\<rparr>), be_upd b (\<lambda>r. r\<lparr>be_pid := pid\<rparr>)])"
  have fork: "wpx h (?fork b) (\<lambda>_. kept g k s) exited0 t"
    if c: "good c t" "b \<in> set (lst c (LBe g))" "env t = env s" "room k t" for b c t
  proof -
    have st: "steady s t" "loc t = loc s" using env_proj [OF c(3)] by (auto simp: steady_def)
    have R: "repr c t" by (rule good_repr [OF c(1)])
    have gl: "g \<in> live c" using repr_active [OF R c(2)] by (simp add: active_def)
    have bm: "okn t b" "is_be (pay t b)" "b \<in> bes c" "b \<notin> live c"
      using repr_mem [OF R c(2)] repr_not_live [OF R c(2)] c(2) by (auto simp: bes_def)
    have bg: "b \<noteq> g" using bm gl by auto
    have gr: "good c (ppay g (U_gr ((gr t g)\<lparr>be_starting := p\<rparr>)) t)"
      "near t (ppay g (U_gr ((gr t g)\<lparr>be_starting := p\<rparr>)) t)" for p
      using gr_still [OF c(1) gl, of "(gr t g)\<lparr>be_starting := p\<rparr>"] near_still
      by (auto simp: heads_def)
    have K: "kept g k s u" if "near t u" "good d u" "g \<in> live d" for d u
      using kept_near [OF that(1) c(4) that(2,3)] st steady_trans by (auto simp: kept_def)
    have bad: "wp (seqM [gr_upd g (\<lambda>r. r\<lparr>be_starting := 0\<rparr>), speedy_backend_dispose g b]) (\<lambda>_. kept g k s) t"
    proof -
      let ?u = "ppay g (U_gr ((gr t g)\<lparr>be_starting := 0\<rparr>)) t"
      have "wp (speedy_backend_dispose g b) (\<lambda>_. kept g k s) ?u"
      proof (rule wp_mono [OF good_dispose [OF gr(1) c(2)]])
        fix x v assume "\<exists>d. good d v \<and> near ?u v \<and> shrink {LFeRun, LBe g} c d \<and> lst d (LBe g) = remove1 b (lst c (LBe g))"
        then obtain d where d: "good d v" "near ?u v" "shrink {LFeRun, LBe g} c d" by blast
        show "kept g k s v" by (rule K [OF near_trans [OF gr(2) d(2)] d(1)]) (simp add: shrink_live [OF d(3)] gl)
      qed
      then show ?thesis using repr_live [OF R gl] by (simp add: wps)
    qed
    have ok: "wp (seqM [gr_upd g (\<lambda>r. r\<lparr>be_starting := p\<rparr>), be_upd b (\<lambda>r. r\<lparr>be_pid := p\<rparr>)]) (\<lambda>_. kept g k s) t" for p
    proof -
      let ?u = "ppay g (U_gr ((gr t g)\<lparr>be_starting := p\<rparr>)) t"
      let ?v = "ppay b (U_be ((be ?u b)\<lparr>be_pid := p\<rparr>)) ?u"
      have "near ?u ?v" by (simp add: near_def views meta_def)
      then have "kept g k s ?v"
        using K [OF near_trans [OF gr(2)] good_be_pid [OF gr(1) bm(3)] gl] by blast
      then show ?thesis using repr_live [OF R gl] bm bg by (simp add: wps views)
    qed
    show ?thesis
    proof (cases "kfork (orc t) (tick (loc t)) = 0")
      case True
      then show ?thesis by (simp add: wpxs exited0_def)
    next
      case False
      then show ?thesis
        using wpx_wp [OF bad, where h = h and E = exited0] wpx_wp [OF ok, where h = h and E = exited0]
        by (cases "kfork (orc t) (tick (loc t)) = - 1") (simp_all add: wpx_bnd wpx_gets del: seqM.simps)
    qed
  qed
  have create: "wpx h (bnd (speedy_backend_create_slot g) ?fork) (\<lambda>_. kept g k s) exited0 t"
    if t: "good a t" "near s t" for t
    unfolding wpx_bnd [of _ "speedy_backend_create_slot g"]
  proof (rule wpx_mono [OF wpx_wp [OF new_backend [OF t(1) g]]])
    show "room (Suc k) t" using room near_room [OF t(2)] by simp
    fix b u assume "\<exists>c. good c u \<and> b \<in> set (lst c (LBe g)) \<and> env u = env t \<and> room k u"
    then show "wpx h (?fork b) (\<lambda>_. kept g k s) exited0 u" using fork t(2) by (auto simp: near_def)
  qed
  have stay: "kept g k s t" if "good a t" "near s t" for t
    by (rule kept_near [OF that(2) rk that(1) g])
  show ?thesis unfolding start_child_def wpx_bnd [of _ "speedy_group_be_starting g"]
  proof (rule wpx_mono [OF wpx_wp [OF be_starting_spec [OF good_wfile [OF gd] g]]])
    fix p t assume "wfile a t \<and> coreupd a g s t \<and> gr t g = (gr s g)\<lparr>be_starting := p\<rparr> \<and>
       (p \<noteq> 0 \<longrightarrow> p = be_starting (gr s g) \<and> kill_ok s p 0)"
    then have t: "good a t" "near s t" using coreupd_still(1) [OF gd] near_coreupd by auto
    have below: "wpx h (bnd (speedy_backend_below_maxbe g) F) Q exited0 t = wpx h (F (o_maxbackends t = 0 \<or>
        int (length (lst a (LBe g))) < o_maxbackends t)) Q exited0 t" for F Q
      unfolding wpx_bnd by (rule wpx_eq) (rule below_maxbe_spec [OF good_repr [OF t(1)] g])
    have pid: "wpx h (bnd speedy_util_getpid F) Q exited0 t = wpx h (F (mypid t)) Q exited0 t" for F Q
      by (simp add: wpx_bnd speedy_util_getpid_def wpx_gets)
    show "wpx h (bnd speedy_util_getpid (\<lambda>ourpid. if p \<noteq> 0 \<and> p \<noteq> ourpid then ret ()
       else bnd (speedy_backend_below_maxbe g) (\<lambda>below. if \<not> below then ret ()
         else bnd (speedy_backend_create_slot g) ?fork))) (\<lambda>_. kept g k s) exited0 t"
      using create [OF t] stay [OF t]
      by (simp add: pid below wpx_ret)
  qed
qed

end
