(* ===== verification/Bytes.thy ===== *)
theory Bytes
  imports Main "HOL-Library.Word"
begin

text \<open>
  Bytes and the memory the stream components work on: copying into a block of memory
  (\<open>memcpy\<close>), reading a part of it, and the segments of a vector of buffers, which
  \<open>readv\<close> fills and \<open>writev\<close> sends in order.
\<close>

type_synonym byte = "8 word"

text \<open>A segment is a \<open>struct iovec\<close> with its base given as an offset into the block.\<close>

type_synonym seg = "int \<times> int"

named_theorems mem_simps

section \<open>Memory\<close>

lemma nat_int_diff [simp]: "nat (int a - int b) = a - b"
  by linarith

definition peek :: "nat \<Rightarrow> nat \<Rightarrow> 'a list \<Rightarrow> 'a list" where
  "peek p n m = take n (drop p m)"

definition poke :: "nat \<Rightarrow> 'a list \<Rightarrow> 'a list \<Rightarrow> 'a list" where
  "poke p xs m = take p m @ xs @ drop (p + length xs) m"

lemma length_peek [mem_simps]: "p + n \<le> length m \<Longrightarrow> length (peek p n m) = n"
  by (simp add: peek_def)

lemma nth_peek [mem_simps]: "i < n \<Longrightarrow> p + n \<le> length m \<Longrightarrow> peek p n m ! i = m ! (p + i)"
  by (simp add: peek_def)

lemma length_poke [mem_simps]: "p + length xs \<le> length m \<Longrightarrow> length (poke p xs m) = length m"
  by (simp add: poke_def)

lemma nth_poke [mem_simps]:
  assumes "p + length xs \<le> length m" and "j < length m"
  shows "poke p xs m ! j = (if p \<le> j \<and> j < p + length xs then xs ! (j - p) else m ! j)"
  using assms by (auto simp: poke_def nth_append)

lemma poke_nil [simp]: "poke p [] m = m"
  by (simp add: poke_def)

lemma peek_poke: "p + length xs \<le> length m \<Longrightarrow> peek p (length xs) (poke p xs m) = xs"
  by (simp add: peek_def poke_def)

section \<open>Segments\<close>

fun segs_len :: "seg list \<Rightarrow> int" where
  "segs_len [] = 0"
| "segs_len ((p, n) # segs) = n + segs_len segs"

definition segs_read :: "'a list \<Rightarrow> seg list \<Rightarrow> 'a list" where
  "segs_read m segs = concat (map (\<lambda>(p, n). peek (nat p) (nat n) m) segs)"

fun segs_write :: "'a list \<Rightarrow> seg list \<Rightarrow> 'a list \<Rightarrow> 'a list" where
  "segs_write m [] xs = m"
| "segs_write m ((p, n) # segs) xs =
     segs_write (poke (nat p) (take (nat n) xs) m) segs (List.drop (nat n) xs)"

lemma segs_write_nil [simp]: "segs_write m segs [] = m"
  by (induction m segs "[] :: 'a list" rule: segs_write.induct) auto

text \<open>Indices of a block used as a ring.\<close>

lemma mod_wrap: "a < 2 * b \<Longrightarrow> a mod b = (if a < b then a else a - b)" for a b :: nat
  by (simp add: le_mod_geq)

lemma nth_rotate_wrap [mem_simps]:
  assumes "b < length m" and "i < length m"
  shows "rotate b m ! i = (if b + i < length m then m ! (b + i) else m ! (b + i - length m))"
  using assms by (simp add: nth_rotate mod_wrap)

lemma rotate_drop_take_le: "b \<le> length m \<Longrightarrow> rotate b m = List.drop b m @ take b m"
  by (cases "b = length m") (auto simp: rotate_drop_take)

end
