(* ===== verification/Circ.thy ===== *)
theory Circ
  imports Bytes
begin

text \<open>
  The circular buffer of src/src/speedy_circ.c. A \<open>CircBuf\<close> is the block it points to (\<open>None\<close>
  for NULL), its length, and where in the block the data begins and how long it is; data that
  runs over the end of the block continues at its beginning.
\<close>

record speedy_buf =
  sb_buf :: "byte list"
  alloced :: int
  sb_len :: int

record circbuf =
  cbuf :: "byte list option"
  buf_len :: int
  data_beg :: int
  data_len :: int

definition cmem :: "circbuf \<Rightarrow> byte list" where
  "cmem c = (case cbuf c of None \<Rightarrow> [] | Some m \<Rightarrow> m)"

definition speedy_circ_data_len :: "circbuf \<Rightarrow> int" where
  "speedy_circ_data_len c = data_len c + 0"

definition speedy_circ_buf_len :: "circbuf \<Rightarrow> int" where
  "speedy_circ_buf_len c = buf_len c + 0"

definition speedy_circ_free_len :: "circbuf \<Rightarrow> int" where
  "speedy_circ_free_len c = buf_len c - data_len c"

definition speedy_circ_init :: "speedy_buf option \<Rightarrow> circbuf" where
  "speedy_circ_init contents =
     (case contents of
       Some b \<Rightarrow> \<lparr>cbuf = Some (sb_buf b), buf_len = alloced b, data_beg = 0, data_len = sb_len b\<rparr>
     | None \<Rightarrow> \<lparr>cbuf = None, buf_len = 0, data_beg = 0, data_len = 0\<rparr>)"

definition get_segs :: "int \<Rightarrow> int \<Rightarrow> int \<Rightarrow> seg list" where
  "get_segs blen beg len =
     (if len = 0 then []
      else let first_seg_len = blen - beg in
        if len \<le> first_seg_len then [(beg, len)]
        else [(beg, first_seg_len), (0, len - first_seg_len)])"

definition speedy_circ_data_segs :: "circbuf \<Rightarrow> seg list" where
  "speedy_circ_data_segs c = get_segs (buf_len c) (data_beg c) (data_len c)"

definition speedy_circ_free_segs :: "circbuf \<Rightarrow> seg list" where
  "speedy_circ_free_segs c =
     (if buf_len c = 0 then []
      else get_segs (buf_len c) ((data_beg c + data_len c) mod buf_len c)
             (buf_len c - data_len c))"

definition speedy_circ_adj_len :: "int \<Rightarrow> circbuf \<Rightarrow> circbuf" where
  "speedy_circ_adj_len adjust c =
     (let c = c\<lparr>data_len := data_len c + adjust\<rparr> in
      if adjust < 0
      then if data_len c = 0 then c\<lparr>data_beg := 0\<rparr>
           else c\<lparr>data_beg := (data_beg c - adjust) mod buf_len c\<rparr>
      else c)"

text \<open>
  \<open>new_buf\<close> is what \<open>realloc\<close> returned. When the data wraps around the end of the old block, the
  shorter of its two segments is moved: the first one to the end of the new block, or the second
  one to behind the first.
\<close>

definition move_first :: "int \<Rightarrow> seg \<Rightarrow> circbuf \<Rightarrow> circbuf" where
  "move_first new_len d c =
     (let beg = new_len - snd d in
      c\<lparr>data_beg := beg,
        cbuf := Some (poke (nat beg) (peek (nat (fst d)) (nat (snd d)) (cmem c)) (cmem c))\<rparr>)"

definition move_second :: "int \<Rightarrow> seg \<Rightarrow> circbuf \<Rightarrow> circbuf" where
  "move_second new_len d c =
     (case get_segs new_len (buf_len c) (snd d) of
       [] \<Rightarrow> c
     | f # fs \<Rightarrow>
        (let m = poke (nat (fst f)) (peek (nat (fst d)) (nat (snd f)) (cmem c)) (cmem c) in
         case fs of
           [] \<Rightarrow> c\<lparr>cbuf := Some m\<rparr>
         | f' # _ \<Rightarrow>
             c\<lparr>cbuf := Some (poke (nat (fst f'))
                 (peek (nat (fst d + snd f)) (nat (snd f')) m) m)\<rparr>))"

definition speedy_circ_realloc :: "byte list option \<Rightarrow> int \<Rightarrow> circbuf \<Rightarrow> circbuf" where
  "speedy_circ_realloc new_buf new_len c =
     (let c = c\<lparr>cbuf := new_buf\<rparr>;
          c = (if new_len > buf_len c
               then case speedy_circ_data_segs c of
                   [d0, d1] \<Rightarrow>
                     if snd d0 \<le> snd d1 then move_first new_len d0 c
                     else move_second new_len d1 c
                 | _ \<Rightarrow> c
               else c)
      in c\<lparr>buf_len := new_len\<rparr>)"

lemma cmem_upd [simp]:
  "cmem (c\<lparr>cbuf := Some m\<rparr>) = m"
  "cmem (c\<lparr>cbuf := None\<rparr>) = []"
  "cmem (c\<lparr>data_beg := x\<rparr>) = cmem c"
  "cmem (c\<lparr>data_len := x\<rparr>) = cmem c"
  "cmem (c\<lparr>buf_len := x\<rparr>) = cmem c"
  by (simp_all add: cmem_def)

section \<open>The data of a buffer\<close>

definition circ_ok :: "circbuf \<Rightarrow> bool" where
  "circ_ok c \<longleftrightarrow> buf_len c = int (length (cmem c)) \<and> 0 \<le> data_len c \<and> data_len c \<le> buf_len c
     \<and> 0 \<le> data_beg c \<and> (if data_len c = 0 then data_beg c = 0 else data_beg c < buf_len c)"

text \<open>What \<open>writev\<close> of the data segments sends.\<close>

definition circ_data :: "circbuf \<Rightarrow> byte list" where
  "circ_data c = segs_read (cmem c) (speedy_circ_data_segs c)"

lemma circ_data_rotate:
  assumes "circ_ok c"
  shows "circ_data c = take (nat (data_len c)) (rotate (nat (data_beg c)) (cmem c))"
proof -
  let ?b = "nat (data_beg c)" and ?l = "nat (data_len c)" and ?m = "cmem c"
  have le: "?b \<le> length ?m" using assms by (auto simp: circ_ok_def split: if_splits)
  show ?thesis
    unfolding rotate_drop_take_le [OF le]
    using assms
    by (auto simp: circ_ok_def circ_data_def segs_read_def speedy_circ_data_segs_def get_segs_def
        Let_def peek_def nat_diff_distrib split: if_splits)
qed

lemma length_circ_data [simp]: "circ_ok c \<Longrightarrow> length (circ_data c) = nat (data_len c)"
  by (subst circ_data_rotate) (auto simp: circ_ok_def)

lemma int_length_circ_data: "circ_ok c \<Longrightarrow> int (length (circ_data c)) = data_len c"
  by (simp add: circ_ok_def [of c, THEN iffD1])

lemma circ_init_data:
  assumes "0 \<le> sb_len b" and "sb_len b \<le> alloced b" and "alloced b = int (length (sb_buf b))"
  shows "circ_ok (speedy_circ_init (Some b))"
    and "circ_data (speedy_circ_init (Some b)) = take (nat (sb_len b)) (sb_buf b)"
proof -
  show "circ_ok (speedy_circ_init (Some b))"
    using assms by (auto simp: circ_ok_def speedy_circ_init_def cmem_def)
  then show "circ_data (speedy_circ_init (Some b)) = take (nat (sb_len b)) (sb_buf b)"
    by (subst circ_data_rotate) (auto simp: speedy_circ_init_def cmem_def)
qed

lemma circ_init_empty: "circ_ok (speedy_circ_init None)" "circ_data (speedy_circ_init None) = []"
  by (simp_all add: circ_ok_def speedy_circ_init_def cmem_def circ_data_def segs_read_def
      speedy_circ_data_segs_def get_segs_def)

text \<open>The buffer over natural numbers.\<close>

lemma circ_nats:
  assumes "circ_ok c"
  obtains b l where "data_beg c = int b" and "data_len c = int l" and "l \<le> length (cmem c)"
    and "b < length (cmem c) \<or> b = 0" and "buf_len c = int (length (cmem c))"
    and "l = 0 \<longrightarrow> b = 0"
  using assms by (intro that [of "nat (data_beg c)" "nat (data_len c)"])
    (auto simp: circ_ok_def split: if_splits)

lemma circ_data_nth:
  assumes "circ_ok c" and "i < nat (data_len c)"
  shows "circ_data c ! i = cmem c ! ((nat (data_beg c) + i) mod length (cmem c))"
proof -
  have "i < length (cmem c)" using assms by (auto simp: circ_ok_def)
  then show ?thesis using assms by (simp add: circ_data_rotate nth_rotate)
qed

section \<open>Adding and removing\<close>

text \<open>\<open>readv\<close> into the free segments, followed by the adjustment of the length.\<close>

definition circ_put :: "byte list \<Rightarrow> circbuf \<Rightarrow> circbuf" where
  "circ_put xs c =
     speedy_circ_adj_len (int (length xs))
       (c\<lparr>cbuf := map_option (\<lambda>m. segs_write m (speedy_circ_free_segs c) xs) (cbuf c)\<rparr>)"

lemma segs_len_get_segs: "segs_len (get_segs blen beg n) = n"
  by (simp add: get_segs_def Let_def)

lemma free_segs_len: "circ_ok c \<Longrightarrow> segs_len (speedy_circ_free_segs c) = speedy_circ_free_len c"
  by (auto simp: speedy_circ_free_segs_def segs_len_get_segs speedy_circ_free_len_def circ_ok_def)

lemma data_segs_len: "segs_len (speedy_circ_data_segs c) = speedy_circ_data_len c"
  by (simp add: speedy_circ_data_segs_def segs_len_get_segs speedy_circ_data_len_def)

text \<open>Writing \<open>xs\<close> from \<open>e\<close> on into a block used as a ring.\<close>

lemma segs_write_ring:
  assumes e: "e < length m" and f: "f \<le> length m" and xs: "length xs \<le> f"
  defines "m' \<equiv> segs_write m (get_segs (int (length m)) (int e) (int f)) xs"
  shows "length m' = length m"
    and "j < length m \<Longrightarrow> m' ! j =
      (if e \<le> j \<and> j < e + length xs then xs ! (j - e)
       else if j + length m < e + length xs then xs ! (j + length m - e) else m ! j)"
proof -
  let ?k = "length m - e"
  let ?m = "poke e (take ?k xs) m"
  have len: "length ?m = length m" using e by (simp add: length_poke)
  have nth: "?m ! j = (if e \<le> j \<and> j < e + length xs then xs ! (j - e) else m ! j)"
    if "j < length m" for j
    using e that by (subst nth_poke) auto
  have m': "m' = poke 0 (List.drop ?k xs) ?m"
  proof (cases "f \<le> ?k")
    case True
    then show ?thesis using e f xs by (auto simp: m'_def get_segs_def Let_def)
  next
    case False
    moreover have "nat (int f - (int (length m) - int e)) = f - ?k" using e by linarith
    ultimately show ?thesis using e f xs by (auto simp: m'_def get_segs_def Let_def)
  qed
  show "length m' = length m"
    unfolding m' using f xs len by (subst length_poke) auto
  show "m' ! j = (if e \<le> j \<and> j < e + length xs then xs ! (j - e)
       else if j + length m < e + length xs then xs ! (j + length m - e) else m ! j)"
    if "j < length m"
    unfolding m' using e f xs len nth that
    by (subst nth_poke) (auto intro!: arg_cong [where f = "nth xs"])
qed

lemma circ_put_spec:
  assumes ok: "circ_ok c" and fits: "int (length xs) \<le> speedy_circ_free_len c"
  shows "circ_ok (circ_put xs c)" and "circ_data (circ_put xs c) = circ_data c @ xs"
    and "buf_len (circ_put xs c) = buf_len c"
    and "data_len (circ_put xs c) = data_len c + int (length xs)"
proof -
  obtain b l where bl: "data_beg c = int b" "data_len c = int l" "l \<le> length (cmem c)"
    "b < length (cmem c) \<or> b = 0" "buf_len c = int (length (cmem c))" "l = 0 \<longrightarrow> b = 0"
    using ok by (rule circ_nats)
  let ?m = "cmem c" and ?c = "circ_put xs c"
  let ?m' = "segs_write ?m (speedy_circ_free_segs c) xs"
  show l': "data_len ?c = data_len c + int (length xs)" and b': "buf_len ?c = buf_len c"
    by (simp_all add: circ_put_def speedy_circ_adj_len_def Let_def)
  have beg: "data_beg ?c = data_beg c"
    by (simp add: circ_put_def speedy_circ_adj_len_def Let_def)
  have xs: "length xs \<le> length ?m - l"
    using fits bl by (simp add: speedy_circ_free_len_def)
  have mem: "cmem ?c = ?m'"
    using xs by (auto simp: circ_put_def speedy_circ_adj_len_def Let_def cmem_def split: option.splits)
  have ring: "length ?m' = length ?m \<and> (\<forall>j < length ?m. \<forall>e. e = (b + l) mod length ?m \<longrightarrow> ?m' ! j =
      (if e \<le> j \<and> j < e + length xs then xs ! (j - e)
       else if j + length ?m < e + length xs then xs ! (j + length ?m - e) else ?m ! j))"
  proof (cases "?m = []")
    case True
    then show ?thesis using xs by simp
  next
    case False
    have "speedy_circ_free_segs c =
        get_segs (int (length ?m)) (int ((b + l) mod length ?m)) (int (length ?m - l))"
      using bl False by (simp add: speedy_circ_free_segs_def zmod_int of_nat_diff)
    moreover have "(b + l) mod length ?m < length ?m" using False by simp
    ultimately show ?thesis
      using segs_write_ring [of "(b + l) mod length ?m" ?m "length ?m - l" xs] xs by simp
  qed
  show ok': "circ_ok ?c"
    using ok xs mem b' l' beg bl ring by (auto simp: circ_ok_def)
  show "circ_data ?c = circ_data c @ xs"
  proof (rule nth_equalityI)
    show "length (circ_data ?c) = length (circ_data c @ xs)"
      using ok ok' l' bl by (simp add: nat_add_distrib)
    fix i
    assume "i < length (circ_data ?c)"
    then have i: "i < l + length xs" and ne: "?m \<noteq> []"
      using ok' l' bl xs by (auto simp: nat_add_distrib)
    define e where "e = (b + l) mod length ?m"
    have b: "b < length ?m" using bl ne by auto
    have "circ_data ?c ! i = ?m' ! ((b + i) mod length ?m)"
      using ok' i l' bl beg mem ring by (simp add: circ_data_nth nat_add_distrib)
    also have "\<dots> = (circ_data c @ xs) ! i"
    proof (cases "i < l")
      case True
      then have "?m' ! ((b + i) mod length ?m) = ?m ! ((b + i) mod length ?m)"
        using ring b bl(3) xs by (auto simp: mod_wrap)
      then show ?thesis using True ok bl by (simp add: nth_append circ_data_nth)
    next
      case False
      then have "?m' ! ((b + i) mod length ?m) = xs ! (i - l)"
        using ring b bl(3) xs i by (auto simp: mod_wrap intro!: arg_cong [where f = "nth xs"])
      then show ?thesis using False ok bl by (simp add: nth_append)
    qed
    finally show "circ_data ?c ! i = (circ_data c @ xs) ! i" .
  qed
qed

lemma circ_get_spec:
  assumes ok: "circ_ok c" and n: "0 < n" "n \<le> speedy_circ_data_len c"
  shows "circ_ok (speedy_circ_adj_len (- n) c)"
    and "circ_data (speedy_circ_adj_len (- n) c) = List.drop (nat n) (circ_data c)"
proof -
  obtain b l where bl: "data_beg c = int b" "data_len c = int l" "l \<le> length (cmem c)"
    "b < length (cmem c) \<or> b = 0" "buf_len c = int (length (cmem c))" "l = 0 \<longrightarrow> b = 0"
    using ok by (rule circ_nats)
  obtain k where k: "n = int k" "0 < k" "k \<le> l"
    using n bl by (intro that [of "nat n"]) (auto simp: speedy_circ_data_len_def)
  let ?m = "cmem c" and ?c = "speedy_circ_adj_len (- n) c"
  have mem: "cmem ?c = ?m" and blen: "buf_len ?c = buf_len c"
    and dlen: "data_len ?c = int (l - k)"
    and beg: "data_beg ?c = (if l = k then 0 else int ((b + k) mod length ?m))"
    using bl k by (auto simp: speedy_circ_adj_len_def Let_def cmem_def zmod_int of_nat_diff)
  show ok': "circ_ok ?c"
    using mem blen dlen beg bl k
    by (auto simp: circ_ok_def simp flip: of_nat_diff intro!: mod_less_divisor)
  show "circ_data ?c = List.drop (nat n) (circ_data c)"
  proof (rule nth_equalityI)
    show "length (circ_data ?c) = length (List.drop (nat n) (circ_data c))"
      using ok ok' dlen bl k by simp
    fix i
    assume "i < length (circ_data ?c)"
    then have i: "i < l - k" using ok' dlen by simp
    have "((b + k) mod length ?m + i) mod length ?m = (b + (k + i)) mod length ?m"
      by (simp add: mod_simps ac_simps)
    then show "circ_data ?c ! i = List.drop (nat n) (circ_data c) ! i"
      using i ok ok' mem dlen beg bl k by (simp add: circ_data_nth)
  qed
qed

section \<open>Enlarging\<close>

text \<open>\<open>realloc\<close> keeps what was in the old block at the beginning of the new one.\<close>

lemma circ_realloc_spec:
  assumes ok: "circ_ok c" and grow: "int (length m) = new_len" "buf_len c \<le> new_len"
    and keep: "take (length (cmem c)) m = cmem c"
  shows "circ_ok (speedy_circ_realloc (Some m) new_len c)"
    and "circ_data (speedy_circ_realloc (Some m) new_len c) = circ_data c"
    and "buf_len (speedy_circ_realloc (Some m) new_len c) = new_len"
    and "data_len (speedy_circ_realloc (Some m) new_len c) = data_len c"
proof -
  obtain b l where bl: "data_beg c = int b" "data_len c = int l" "l \<le> length (cmem c)"
    "b < length (cmem c) \<or> b = 0" "buf_len c = int (length (cmem c))" "l = 0 \<longrightarrow> b = 0"
    using ok by (rule circ_nats)
  let ?n = "length (cmem c)" and ?c = "speedy_circ_realloc (Some m) new_len c"
  have le: "?n \<le> length m" and old: "\<And>j. j < ?n \<Longrightarrow> m ! j = cmem c ! j"
    using grow bl(5) keep by (auto, metis nth_take)
  define f where "f = ?n - b"
  show "buf_len ?c = new_len" by (simp add: speedy_circ_realloc_def Let_def)
  show dlen: "data_len ?c = data_len c"
    by (auto simp: speedy_circ_realloc_def Let_def move_first_def move_second_def
        split: list.splits)
  consider (plain) "?n = length m \<or> b + l \<le> ?n"
    | (first) "?n < length m" "?n < b + l" "f \<le> l - f"
    | (second) "?n < length m" "?n < b + l" "l - f < f"
    using le by linarith
  then have "circ_ok ?c \<and> (\<forall>i < l. cmem ?c ! ((nat (data_beg ?c) + i) mod length (cmem ?c))
      = cmem c ! ((b + i) mod ?n))"
  proof cases
    case plain
    then have c': "?c = c\<lparr>cbuf := Some m, buf_len := new_len\<rparr>"
      using grow bl
      by (auto simp: speedy_circ_realloc_def Let_def speedy_circ_data_segs_def get_segs_def)
    then show ?thesis
      using plain grow bl le ok old
      by (auto simp: circ_ok_def cmem_def mod_wrap)
  next
    case first
    let ?M = "poke (length m - f) (peek b f m) m"
    have b: "b < ?n" using first bl by auto
    then have "int (length m) - (int ?n - int b) = int (length m - f)"
      "nat (int (length m) - (int ?n - int b)) = length m - f"
      using le unfolding f_def by linarith+
    then have c': "?c = c\<lparr>cbuf := Some ?M, data_beg := int (length m - f), buf_len := new_len\<rparr>"
      using first grow bl
      by (simp add: speedy_circ_realloc_def Let_def speedy_circ_data_segs_def get_segs_def
          move_first_def f_def)
    have len: "length ?M = length m"
      using le b by (subst length_poke) (auto simp: length_peek f_def)
    have nth: "?M ! j = (if length m - f \<le> j then m ! (b + (j - (length m - f))) else m ! j)"
      if "j < length m" for j
      using le b that first bl by (subst nth_poke) (auto simp: length_peek nth_peek f_def)
    have ff: "b + f = ?n" "l - f \<le> b" using b bl(3) unfolding f_def by linarith+
    show ?thesis
    proof (intro conjI allI impI)
      show "circ_ok ?c"
        using ok grow bl le ff b first by (auto simp: c' circ_ok_def len)
      fix i
      assume i: "i < l"
      show "cmem ?c ! ((nat (data_beg ?c) + i) mod length (cmem ?c)) = cmem c ! ((b + i) mod ?n)"
      proof (cases "i < f")
        case True
        then show ?thesis
          using i ff le nth old by (auto simp: c' len mod_wrap)
      next
        case False
        then have "length m - f + i - length m = b + i - ?n" "b + i - ?n < length m - f"
          "\<not> length m - f + i < length m" "length m - f + i < 2 * length m" "b + i - ?n < ?n"
          using i ff le b first by linarith+
        then show ?thesis
          using False i ff le nth old by (simp add: c' len mod_wrap)
      qed
    qed
  next
    case second
    have b: "b < ?n" using second bl by auto
    define k where "k = min (l - f) (length m - ?n)"
    let ?m1 = "poke ?n (peek 0 k m) m"
    define M where "M = poke 0 (peek k (l - f - k) ?m1) ?m1"
    have lf: "l - f \<le> b" "f < l" using bl(3) second b unfolding f_def by linarith+
    have d: "int l - (int ?n - int b) = int (l - f)" "int ?n - int b = int f"
      using b second unfolding f_def by linarith+
    have segs: "get_segs (int (length m)) (int ?n) (int (l - f)) =
        (if l - f \<le> length m - ?n then [(int ?n, int k)] else [(int ?n, int k), (0, int (l - f - k))])"
      using second le lf by (auto simp: get_segs_def Let_def k_def of_nat_diff)
    have moved: "move_second (int (length m)) (0, int (l - f)) (c\<lparr>cbuf := Some m\<rparr>) = c\<lparr>cbuf := Some M\<rparr>"
    proof (cases "l - f \<le> length m - ?n")
      case True
      then have "k = l - f" by (simp add: k_def)
      then have "M = ?m1" by (simp add: M_def peek_def)
      then show ?thesis using True by (simp add: move_second_def bl(5) segs)
    next
      case False
      then show ?thesis by (simp add: move_second_def bl(5) segs M_def Let_def del: of_nat_diff)
    qed
    have c': "?c = c\<lparr>cbuf := Some M, buf_len := new_len\<rparr>"
    proof -
      have "speedy_circ_data_segs (c\<lparr>cbuf := Some m\<rparr>) = [(int b, int f), (0, int (l - f))]"
        using bl(1,2,5) b second(2) d by (simp add: speedy_circ_data_segs_def get_segs_def Let_def)
      moreover have "\<not> int f \<le> int (l - f)" "int (length m) > buf_len c"
        using second bl(5) by simp_all
      ultimately show ?thesis
        using moved grow(1) by (simp add: speedy_circ_realloc_def Let_def del: of_nat_diff)
    qed
    have k: "k \<le> l - f" "?n + k \<le> length m" using le by (auto simp: k_def)
    have len1: "length ?m1 = length m"
      using k b lf by (subst length_poke) (auto simp: length_peek)
    have nth1: "?m1 ! j = (if ?n \<le> j \<and> j < ?n + k then m ! (j - ?n) else m ! j)"
      if "j < length m" for j
      using k b lf that by (subst nth_poke) (auto simp: length_peek nth_peek)
    have len: "length M = length m"
      unfolding M_def using k b lf len1 by (subst length_poke) (auto simp: length_peek)
    have nth: "M ! j = (if j < l - f - k then m ! (k + j)
        else if ?n \<le> j \<and> j < ?n + k then m ! (j - ?n) else m ! j)"
      if "j < length m" for j
      unfolding M_def using k b lf that len1 le by (subst nth_poke) (auto simp: length_peek nth_peek nth1)
    show ?thesis
    proof (intro conjI allI impI)
      show "circ_ok ?c" using ok grow bl b by (auto simp: c' circ_ok_def len)
      fix i
      assume i: "i < l"
      consider "b + i < ?n" | "?n \<le> b + i" "b + i < ?n + k" | "?n + k \<le> b + i"
        by linarith
      then show "cmem ?c ! ((nat (data_beg ?c) + i) mod length (cmem ?c)) =
          cmem c ! ((b + i) mod ?n)"
      proof cases
        case 1
        then show ?thesis
          using i b lf le bl(1) nth old by (auto simp: c' len)
      next
        case 2
        then show ?thesis
          using i b lf le bl(1,3) nth old k by (auto simp: c' len mod_wrap)
      next
        case 3
        then have "k = length m - ?n" "b + i - length m < l - f - k"
          using i b second k unfolding f_def k_def by linarith+
        then show ?thesis
          using 3 i b lf le bl(1,3) nth old k by (auto simp: c' len mod_wrap)
      qed
    qed
  qed
  then show ok': "circ_ok ?c" and eq: "circ_data ?c = circ_data c"
    using ok dlen bl by (auto intro!: nth_equalityI simp: circ_data_nth)
qed

end
