(* ===== verification/CopyBuf.thy ===== *)
theory CopyBuf
  imports Circ
begin

text \<open>
  The copy buffer of src/src/speedy_cb.c: a circular buffer between a descriptor it is read from
  and one it is written to, with a limit on its size, an end-of-file flag and a write error. What
  the kernel does is an argument: \<open>rdres\<close> is the answer of \<open>readv\<close>, which gives at most as many
  bytes as the free segments hold, and \<open>wrres\<close> that of \<open>writev\<close>, which takes at most the data;
  \<open>kmem\<close> says what \<open>realloc\<close> returns. Each operation returns the bytes the kernel moved beside
  the new buffer. First the interface both buffers share.
\<close>

section \<open>First in, first out\<close>

datatype 'a qop = Put "'a list" | Get nat

primrec qrun :: "('a list \<Rightarrow> 'q \<Rightarrow> 'q) \<Rightarrow> (int \<Rightarrow> 'q \<Rightarrow> 'q) \<Rightarrow> ('q \<Rightarrow> 'a list) \<Rightarrow> 'a qop list
    \<Rightarrow> 'q \<Rightarrow> 'a list \<times> 'q" where
  "qrun put get content [] q = ([], q)"
| "qrun put get content (x # xs) q =
     (case x of
       Put ys \<Rightarrow> qrun put get content xs (put ys q)
     | Get n \<Rightarrow>
        (case qrun put get content xs (get (int n) q) of
          (out, q') \<Rightarrow> (take n (content q) @ out, q')))"

fun qputs :: "'a qop list \<Rightarrow> 'a list" where
  "qputs [] = []"
| "qputs (Put ys # xs) = ys @ qputs xs"
| "qputs (Get n # xs) = qputs xs"

text \<open>The operations are within the bounds of the queue when they are reached.\<close>

primrec qfits :: "int \<Rightarrow> int \<Rightarrow> 'a qop list \<Rightarrow> bool" where
  "qfits cap used [] \<longleftrightarrow> True"
| "qfits cap used (x # xs) \<longleftrightarrow>
     (case x of
       Put ys \<Rightarrow> used + int (length ys) \<le> cap \<and> qfits cap (used + int (length ys)) xs
     | Get n \<Rightarrow> int n \<le> used \<and> 0 < n \<and> qfits cap (used - int n) xs)"

locale fifo =
  fixes ok :: "'q \<Rightarrow> bool"
    and content :: "'q \<Rightarrow> 'a list"
    and cap :: "'q \<Rightarrow> int"
    and put :: "'a list \<Rightarrow> 'q \<Rightarrow> 'q"
    and get :: "int \<Rightarrow> 'q \<Rightarrow> 'q"
  assumes put_law: "ok q \<Longrightarrow> int (length (content q)) + int (length xs) \<le> cap q \<Longrightarrow>
      ok (put xs q) \<and> content (put xs q) = content q @ xs \<and> cap (put xs q) = cap q"
    and get_law: "ok q \<Longrightarrow> 0 < n \<Longrightarrow> n \<le> int (length (content q)) \<Longrightarrow>
      ok (get n q) \<and> content (get n q) = List.drop (nat n) (content q) \<and> cap (get n q) = cap q"
begin

lemma in_order:
  assumes "ok q" and "qfits (cap q) (int (length (content q))) xs"
    and "qrun put get content xs q = (out, q')"
  shows "ok q' \<and> out @ content q' = content q @ qputs xs \<and> cap q' = cap q"
  using assms
proof (induction xs arbitrary: q out q')
  case Nil
  then show ?case by simp
next
  case (Cons x xs)
  show ?case
  proof (cases x)
    case (Put ys)
    then have p: "ok (put ys q)" "content (put ys q) = content q @ ys" "cap (put ys q) = cap q"
      using put_law [of q ys] Cons.prems by simp_all
    have "ok q' \<and> out @ content q' = content (put ys q) @ qputs xs \<and> cap q' = cap (put ys q)"
      using Cons.prems Put p by (intro Cons.IH) simp_all
    then show ?thesis using p Put by simp
  next
    case (Get n)
    then have n: "0 < n" "int n \<le> int (length (content q))" using Cons.prems by simp_all
    then have g: "ok (get (int n) q)" "content (get (int n) q) = List.drop n (content q)"
      "cap (get (int n) q) = cap q"
      using get_law [of q "int n"] Cons.prems by simp_all
    obtain out2 where out: "qrun put get content xs (get (int n) q) = (out2, q')"
      "out = take n (content q) @ out2"
      using Cons.prems Get by (auto split: prod.splits)
    have "ok q' \<and> out2 @ content q' = content (get (int n) q) @ qputs xs
        \<and> cap q' = cap (get (int n) q)"
      using Cons.prems Get g out n by (intro Cons.IH) (simp_all add: of_nat_diff)
    then show ?thesis using g out Get by (simp add: append_assoc [symmetric])
  qed
qed

end

interpretation circ: fifo circ_ok circ_data buf_len circ_put "\<lambda>n. speedy_circ_adj_len (- n)"
proof
  fix q :: circbuf and xs :: "byte list"
  assume q: "circ_ok q" and fit: "int (length (circ_data q)) + int (length xs) \<le> buf_len q"
  have "int (length xs) \<le> speedy_circ_free_len q"
    using int_length_circ_data [OF q] fit by (simp add: speedy_circ_free_len_def)
  then show "circ_ok (circ_put xs q) \<and> circ_data (circ_put xs q) = circ_data q @ xs
      \<and> buf_len (circ_put xs q) = buf_len q"
    using circ_put_spec [OF q] by blast
next
  fix q :: circbuf and n :: int
  assume q: "circ_ok q" and n: "0 < n" "n \<le> int (length (circ_data q))"
  then have "n \<le> speedy_circ_data_len q"
    using int_length_circ_data [OF q] by (simp add: speedy_circ_data_len_def)
  then show "circ_ok (speedy_circ_adj_len (- n) q)
      \<and> circ_data (speedy_circ_adj_len (- n) q) = List.drop (nat n) (circ_data q)
      \<and> buf_len (speedy_circ_adj_len (- n) q) = buf_len q"
    using circ_get_spec [OF q n(1)] by (simp add: speedy_circ_adj_len_def Let_def)
qed

section \<open>The copy buffer\<close>

record copybuf =
  circ :: circbuf
  maxsz :: int
  eof :: bool
  rdfd :: int
  wrfd :: int
  write_err :: int

definition MIN_READ :: int where "MIN_READ = 1024"

definition EIO :: int where "EIO = 5"
definition EAGAIN :: int where "EAGAIN = 11"

definition SP_NOTREADY :: "int \<Rightarrow> bool" where
  "SP_NOTREADY e \<longleftrightarrow> e = EAGAIN"

definition speedy_cb_data_len :: "copybuf \<Rightarrow> int" where
  "speedy_cb_data_len cb = speedy_circ_data_len (circ cb)"

definition speedy_cb_free_len :: "copybuf \<Rightarrow> int" where
  "speedy_cb_free_len cb = maxsz cb - speedy_cb_data_len cb"

definition speedy_cb_canread :: "copybuf \<Rightarrow> bool" where
  "speedy_cb_canread cb \<longleftrightarrow> speedy_cb_free_len cb \<noteq> 0 \<and> \<not> eof cb \<and> write_err cb = 0"

definition speedy_cb_canwrite :: "copybuf \<Rightarrow> bool" where
  "speedy_cb_canwrite cb \<longleftrightarrow> speedy_cb_data_len cb \<noteq> 0 \<and> write_err cb = 0"

definition speedy_cb_copydone :: "copybuf \<Rightarrow> bool" where
  "speedy_cb_copydone cb \<longleftrightarrow> (eof cb \<and> speedy_cb_data_len cb = 0) \<or> write_err cb \<noteq> 0"

definition speedy_cb_seteof :: "copybuf \<Rightarrow> copybuf" where
  "speedy_cb_seteof cb = cb\<lparr>eof := True\<rparr>"

definition speedy_cb_set_write_err :: "int \<Rightarrow> copybuf \<Rightarrow> copybuf" where
  "speedy_cb_set_write_err e cb = cb\<lparr>write_err := e\<rparr>"

definition speedy_cb_setfd :: "int \<Rightarrow> int \<Rightarrow> copybuf \<Rightarrow> copybuf" where
  "speedy_cb_setfd r w cb = cb\<lparr>rdfd := r, wrfd := w\<rparr>"

definition speedy_cb_init :: "int \<Rightarrow> int \<Rightarrow> int \<Rightarrow> speedy_buf option \<Rightarrow> copybuf" where
  "speedy_cb_init sz r w contents =
     \<lparr>circ = speedy_circ_init contents, maxsz = sz, eof = False, rdfd = r, wrfd = w, write_err = 0\<rparr>"

definition speedy_cb_free :: "copybuf \<Rightarrow> copybuf" where
  "speedy_cb_free cb =
     (if cbuf (circ cb) \<noteq> None then cb\<lparr>circ := speedy_circ_realloc None 0 (circ cb)\<rparr> else cb)"

text \<open>What the kernel and the allocator answer.\<close>

datatype rdres = Rd "byte list" | RdErr int
datatype wrres = Wr nat | WrErr int

record kmem =
  k_oom :: bool
  k_junk :: "nat \<Rightarrow> byte"

definition speedy_renew :: "kmem \<Rightarrow> int \<Rightarrow> byte list \<Rightarrow> byte list option" where
  "speedy_renew k n m =
     (if k_oom k then None
      else Some (take (nat n) m @ map (k_junk k) [length (take (nat n) m)..<nat n]))"

definition cb_new_len :: "copybuf \<Rightarrow> int" where
  "cb_new_len cb =
     (let shortfall = MIN_READ - speedy_circ_free_len (circ cb);
          new_len = speedy_circ_buf_len (circ cb) + max shortfall (speedy_circ_buf_len (circ cb))
      in if new_len > maxsz cb then maxsz cb else new_len)"

definition cb_enlarge :: "kmem \<Rightarrow> copybuf \<Rightarrow> copybuf" where
  "cb_enlarge k cb =
     (let shortfall = MIN_READ - speedy_circ_free_len (circ cb) in
      if shortfall > 0 \<and> speedy_circ_buf_len (circ cb) < maxsz cb
      then case speedy_renew k (cb_new_len cb) (cmem (circ cb)) of
          None \<Rightarrow> cb
        | Some m \<Rightarrow> cb\<lparr>circ := speedy_circ_realloc (Some m) (cb_new_len cb) (circ cb)\<rparr>
      else cb)"

definition cb_got_eof :: "copybuf \<Rightarrow> copybuf" where
  "cb_got_eof cb =
     (let cb = cb\<lparr>eof := True\<rparr> in if speedy_cb_data_len cb = 0 then speedy_cb_free cb else cb)"

definition speedy_cb_read :: "kmem \<Rightarrow> rdres \<Rightarrow> copybuf \<Rightarrow> copybuf \<times> byte list" where
  "speedy_cb_read k r cb =
     (if speedy_cb_free_len cb \<noteq> 0
      then let cb = cb_enlarge k cb in
        (case r of
          RdErr e \<Rightarrow> (if SP_NOTREADY e then cb else cb_got_eof cb, [])
        | Rd avail \<Rightarrow>
            let xs = take (nat (segs_len (speedy_circ_free_segs (circ cb)))) avail in
            (if xs = [] then (cb_got_eof cb, []) else (cb\<lparr>circ := circ_put xs (circ cb)\<rparr>, xs)))
      else (cb, []))"

definition cb_remove :: "int \<Rightarrow> copybuf \<Rightarrow> copybuf" where
  "cb_remove n cb =
     (if n > 0
      then let cb = cb\<lparr>circ := speedy_circ_adj_len (- n) (circ cb)\<rparr> in
        if eof cb \<and> speedy_cb_data_len cb = 0 then speedy_cb_free cb else cb
      else cb)"

definition speedy_cb_write :: "wrres \<Rightarrow> copybuf \<Rightarrow> copybuf \<times> byte list" where
  "speedy_cb_write w cb =
     (if write_err cb = 0
      then case w of
          Wr n \<Rightarrow>
            let xs = take n (segs_read (cmem (circ cb)) (speedy_circ_data_segs (circ cb)))
            in (cb_remove (int (length xs)) cb, xs)
        | WrErr e \<Rightarrow>
            if SP_NOTREADY e then (cb_remove (- 1) cb, [])
            else let cb = speedy_cb_set_write_err (if e \<noteq> 0 then e else EIO) cb
                 in (cb_remove (speedy_cb_data_len cb) cb, [])
      else (cb_remove (speedy_cb_data_len cb) cb, []))"

text \<open>A \<open>char\<close> is signed, so a byte from 128 on is negative.\<close>

definition speedy_cb_shift :: "copybuf \<Rightarrow> copybuf \<times> int" where
  "speedy_cb_shift cb =
     (if speedy_cb_data_len cb \<noteq> 0
      then (cb\<lparr>circ := speedy_circ_adj_len (- 1) (circ cb)\<rparr>,
            sint (cmem (circ cb) ! nat (fst (hd (speedy_circ_data_segs (circ cb))))))
      else (cb, - 1))"

section \<open>What a copy buffer does\<close>

definition cb_ok :: "copybuf \<Rightarrow> bool" where
  "cb_ok cb \<longleftrightarrow> circ_ok (circ cb) \<and> buf_len (circ cb) \<le> maxsz cb"

definition cb_data :: "copybuf \<Rightarrow> byte list" where
  "cb_data cb = circ_data (circ cb)"

text \<open>Everything of a copy buffer but its data and flags.\<close>

definition cb_same :: "copybuf \<Rightarrow> copybuf \<Rightarrow> bool" where
  "cb_same cb cb' \<longleftrightarrow> maxsz cb' = maxsz cb \<and> rdfd cb' = rdfd cb \<and> wrfd cb' = wrfd cb"

lemmas cb_defs = cb_ok_def cb_data_def cb_same_def speedy_cb_data_len_def speedy_circ_data_len_def

lemma cb_data_len: "cb_ok cb \<Longrightarrow> speedy_cb_data_len cb = int (length (cb_data cb))"
  by (simp only: cb_defs int_length_circ_data)

lemma cb_free_len: "cb_ok cb \<Longrightarrow> speedy_cb_free_len cb = maxsz cb - int (length (cb_data cb))"
  by (simp add: speedy_cb_free_len_def cb_data_len)

lemma cb_init_ok:
  assumes "0 \<le> sb_len b" "sb_len b \<le> alloced b" "alloced b = int (length (sb_buf b))" "alloced b \<le> sz"
  shows "cb_ok (speedy_cb_init sz r w (Some b))"
    and "cb_data (speedy_cb_init sz r w (Some b)) = take (nat (sb_len b)) (sb_buf b)"
  using circ_init_data [of b] assms
  by (simp_all add: cb_ok_def cb_data_def speedy_cb_init_def, simp add: speedy_circ_init_def)

lemma cb_init_empty:
  "0 \<le> sz \<Longrightarrow> cb_ok (speedy_cb_init sz r w None)" "cb_data (speedy_cb_init sz r w None) = []"
  using circ_init_empty
  by (simp_all add: cb_ok_def cb_data_def speedy_cb_init_def, simp add: speedy_circ_init_def)

lemma cb_free_spec:
  assumes "cb_ok cb" and "cb_data cb = []"
  shows "cb_ok (speedy_cb_free cb)" and "cb_data (speedy_cb_free cb) = []"
    and "cbuf (circ (speedy_cb_free cb)) = None"
    and "cb_same cb (speedy_cb_free cb)" and "eof (speedy_cb_free cb) = eof cb"
    and "write_err (speedy_cb_free cb) = write_err cb"
proof -
  have "data_len (circ cb) = 0"
    using assms int_length_circ_data [of "circ cb"] by (simp add: cb_defs)
  then have "circ_ok (speedy_circ_realloc None 0 (circ cb))
      \<and> circ_data (speedy_circ_realloc None 0 (circ cb)) = []"
    using assms
    by (auto simp: cb_ok_def circ_ok_def speedy_circ_realloc_def Let_def circ_data_def segs_read_def
        speedy_circ_data_segs_def get_segs_def)
  moreover have "0 \<le> maxsz cb" using assms by (auto simp: cb_ok_def circ_ok_def)
  moreover have "buf_len (speedy_circ_realloc None 0 (circ cb)) = 0"
    "cbuf (speedy_circ_realloc None 0 (circ cb)) = None"
    using assms by (auto simp: cb_ok_def circ_ok_def speedy_circ_realloc_def Let_def)
  ultimately show "cb_ok (speedy_cb_free cb)" and "cb_data (speedy_cb_free cb) = []"
    and "cbuf (circ (speedy_cb_free cb)) = None"
    using assms by (auto simp: cb_ok_def cb_data_def speedy_cb_free_def)
  show "cb_same cb (speedy_cb_free cb)" and "eof (speedy_cb_free cb) = eof cb"
    and "write_err (speedy_cb_free cb) = write_err cb"
    by (simp_all add: speedy_cb_free_def cb_same_def)
qed

lemma renew_keeps:
  assumes "speedy_renew k n m = Some m'" and "int (length m) \<le> n"
  shows "int (length m') = n" and "take (length m) m' = m"
  using assms by (auto simp: speedy_renew_def split: if_splits)

lemma cb_enlarge_spec:
  assumes ok: "cb_ok cb"
  shows "cb_ok (cb_enlarge k cb)" and "cb_data (cb_enlarge k cb) = cb_data cb"
    and "cb_same cb (cb_enlarge k cb)" and "eof (cb_enlarge k cb) = eof cb"
    and "write_err (cb_enlarge k cb) = write_err cb"
    and "\<not> k_oom k \<Longrightarrow> min MIN_READ (speedy_cb_free_len cb)
        \<le> segs_len (speedy_circ_free_segs (circ (cb_enlarge k cb)))"
proof -
  have c: "circ_ok (circ cb)" "buf_len (circ cb) \<le> maxsz cb"
    "int (length (cmem (circ cb))) = buf_len (circ cb)" "0 \<le> buf_len (circ cb)"
    "0 \<le> data_len (circ cb)" "data_len (circ cb) \<le> buf_len (circ cb)"
    using ok by (auto simp: cb_ok_def circ_ok_def)
  have cases: "cb_enlarge k cb = cb \<and> (MIN_READ \<le> speedy_circ_free_len (circ cb)
        \<or> buf_len (circ cb) = maxsz cb \<or> k_oom k)
      \<or> (\<exists>m. MIN_READ - speedy_circ_free_len (circ cb) > 0
        \<and> speedy_renew k (cb_new_len cb) (cmem (circ cb)) = Some m
        \<and> cb_enlarge k cb = cb\<lparr>circ := speedy_circ_realloc (Some m) (cb_new_len cb) (circ cb)\<rparr>)"
    using c(2)
    by (cases "k_oom k") (auto simp: cb_enlarge_def Let_def speedy_circ_buf_len_def speedy_renew_def)
  have grow: "buf_len (circ cb) \<le> cb_new_len cb" "cb_new_len cb \<le> maxsz cb"
    using c by (auto simp: cb_new_len_def Let_def speedy_circ_buf_len_def)
  have r: "int (length m) = cb_new_len cb" "take (length (cmem (circ cb))) m = cmem (circ cb)"
    if "speedy_renew k (cb_new_len cb) (cmem (circ cb)) = Some m" for m
    using renew_keeps [OF that] c grow by simp_all
  note s = circ_realloc_spec [OF c(1) r(1) grow(1) r(2)]
  show ok': "cb_ok (cb_enlarge k cb)"
    using cases ok s grow by (auto simp: cb_ok_def)
  show "cb_data (cb_enlarge k cb) = cb_data cb"
    using cases s by (auto simp: cb_data_def)
  show "cb_same cb (cb_enlarge k cb)" and "eof (cb_enlarge k cb) = eof cb"
    and "write_err (cb_enlarge k cb) = write_err cb"
    using cases by (auto simp: cb_same_def)
  show "min MIN_READ (speedy_cb_free_len cb)
      \<le> segs_len (speedy_circ_free_segs (circ (cb_enlarge k cb)))" if "\<not> k_oom k"
  proof -
    have "segs_len (speedy_circ_free_segs (circ (cb_enlarge k cb)))
        = speedy_circ_free_len (circ (cb_enlarge k cb))"
      using ok' by (simp add: cb_ok_def free_segs_len)
    then show ?thesis
      using cases that s c
      by (auto simp: speedy_circ_free_len_def speedy_cb_free_len_def speedy_cb_data_len_def
          speedy_circ_data_len_def speedy_circ_buf_len_def cb_new_len_def Let_def)
  qed
qed

lemma cb_got_eof_spec:
  assumes "cb_ok cb"
  shows "cb_ok (cb_got_eof cb)" and "cb_data (cb_got_eof cb) = cb_data cb"
    and "cb_same cb (cb_got_eof cb)" and "eof (cb_got_eof cb)"
    and "write_err (cb_got_eof cb) = write_err cb"
  using assms cb_free_spec [of "cb\<lparr>eof := True\<rparr>"] cb_data_len [of "cb\<lparr>eof := True\<rparr>"]
  by (auto simp: cb_got_eof_def Let_def) (simp_all add: cb_defs)

text \<open>
  A read appends what the kernel gave and nothing else, within the limit; end of file is recorded
  when the kernel gave nothing, or an error that is not \<open>EAGAIN\<close>. If memory can be had the kernel
  is always offered some room, so that nothing given means end of file.
\<close>

lemma cb_read_spec:
  assumes ok: "cb_ok cb" and run: "speedy_cb_read k r cb = (cb', xs)"
  shows "cb_ok cb'" and "cb_data cb' = cb_data cb @ xs" and "cb_same cb cb'"
    and "write_err cb' = write_err cb"
    and "eof cb' \<longleftrightarrow> eof cb \<or>
      speedy_cb_free_len cb \<noteq> 0 \<and> xs = [] \<and> (\<forall>e. r = RdErr e \<longrightarrow> \<not> SP_NOTREADY e)"
    and "\<exists>n. xs = (case r of Rd avail \<Rightarrow> take n avail | RdErr e \<Rightarrow> [])"
    and "\<not> k_oom k \<Longrightarrow> speedy_cb_free_len cb \<noteq> 0 \<Longrightarrow> r = Rd avail \<Longrightarrow> avail \<noteq> [] \<Longrightarrow> xs \<noteq> []"
proof -
  let ?cb = "cb_enlarge k cb"
  define n where "n = nat (segs_len (speedy_circ_free_segs (circ ?cb)))"
  note e = cb_enlarge_spec [OF ok, where k = k]
  note g = cb_got_eof_spec [OF e(1)]
  have put: "circ_ok (circ_put ys (circ ?cb))"
    "circ_data (circ_put ys (circ ?cb)) = circ_data (circ ?cb) @ ys"
    "buf_len (circ_put ys (circ ?cb)) = buf_len (circ ?cb)"
    if "ys = take n avail" for ys avail
  proof -
    have "0 \<le> speedy_circ_free_len (circ ?cb)" and c: "circ_ok (circ ?cb)"
      using e(1) by (auto simp: cb_ok_def circ_ok_def speedy_circ_free_len_def)
    then have "int (length ys) \<le> speedy_circ_free_len (circ ?cb)"
      using that by (simp add: n_def free_segs_len)
    then show "circ_ok (circ_put ys (circ ?cb))"
      "circ_data (circ_put ys (circ ?cb)) = circ_data (circ ?cb) @ ys"
      "buf_len (circ_put ys (circ ?cb)) = buf_len (circ ?cb)"
      using circ_put_spec [OF c] by blast+
  qed
  consider (full) "speedy_cb_free_len cb = 0" "cb' = cb" "xs = []"
    | (again) er where "speedy_cb_free_len cb \<noteq> 0" "r = RdErr er" "SP_NOTREADY er" "cb' = ?cb" "xs = []"
    | (err) er where "speedy_cb_free_len cb \<noteq> 0" "r = RdErr er" "\<not> SP_NOTREADY er"
        "cb' = cb_got_eof ?cb" "xs = []"
    | (none) avail where "speedy_cb_free_len cb \<noteq> 0" "r = Rd avail" "take n avail = []"
        "cb' = cb_got_eof ?cb" "xs = []"
    | (some) avail where "speedy_cb_free_len cb \<noteq> 0" "r = Rd avail" "xs = take n avail" "xs \<noteq> []"
        "cb' = ?cb\<lparr>circ := circ_put xs (circ ?cb)\<rparr>"
  proof (cases "speedy_cb_free_len cb = 0")
    case True
    then have "(cb', xs) = (cb, [])" using run by (simp add: speedy_cb_read_def)
    then show ?thesis using True by (intro full) simp_all
  next
    case False
    show ?thesis
    proof (cases r)
      case (RdErr er)
      then have "(cb', xs) = (if SP_NOTREADY er then ?cb else cb_got_eof ?cb, [])"
        using run False by (simp add: speedy_cb_read_def Let_def)
      then show ?thesis
        using False RdErr again [of er] err [of er] by (cases "SP_NOTREADY er") simp_all
    next
      case (Rd avail)
      have "speedy_cb_read k r cb = (if take n avail = [] then (cb_got_eof ?cb, [])
          else (?cb\<lparr>circ := circ_put (take n avail) (circ ?cb)\<rparr>, take n avail))"
        by (simp only: speedy_cb_read_def Let_def n_def Rd rdres.case False not_False_eq_True if_True)
      then have "(cb', xs) = (if take n avail = [] then (cb_got_eof ?cb, [])
          else (?cb\<lparr>circ := circ_put (take n avail) (circ ?cb)\<rparr>, take n avail))"
        unfolding run .
      then show ?thesis
        using False Rd none [of avail] some [of avail] by (cases "take n avail = []") simp_all
    qed
  qed
  note cases = this
  show "cb_ok cb'"
    using cases
  proof cases
    case (some avail)
    then show ?thesis using put [of xs avail] e(1) by (simp add: cb_ok_def)
  qed (use ok e g in auto)
  show "cb_data cb' = cb_data cb @ xs"
    using cases
  proof cases
    case (some avail)
    then show ?thesis using put [of xs avail] e(2) by (simp add: cb_data_def)
  qed (use ok e g in auto)
  show "cb_same cb cb'"
    using cases by cases (use e(3) g(3) in \<open>simp_all add: cb_same_def\<close>)
  show "write_err cb' = write_err cb"
    using cases by cases (use e(5) g(5) in simp_all)
  show "eof cb' \<longleftrightarrow> eof cb \<or>
      speedy_cb_free_len cb \<noteq> 0 \<and> xs = [] \<and> (\<forall>e. r = RdErr e \<longrightarrow> \<not> SP_NOTREADY e)"
    using cases by cases (use e(4) g(4) in auto)
  show "\<exists>n. xs = (case r of Rd avail \<Rightarrow> take n avail | RdErr e \<Rightarrow> [])"
  proof -
    have "xs = (case r of Rd avail \<Rightarrow> take (if xs = [] then 0 else n) avail | RdErr e \<Rightarrow> [])"
      using cases by cases (auto split: rdres.split)
    then show ?thesis by blast
  qed
  show "xs \<noteq> []"
    if "\<not> k_oom k" "speedy_cb_free_len cb \<noteq> 0" "r = Rd avail" "avail \<noteq> []"
  proof -
    have "0 \<le> speedy_cb_free_len cb"
      using ok by (auto simp: speedy_cb_free_len_def cb_defs circ_ok_def)
    then have "0 < n" using e(6) that by (auto simp: n_def MIN_READ_def)
    then show ?thesis using cases by cases (use that in auto)
  qed
qed

text \<open>
  A write sends the oldest bytes and keeps the others. After a write error, now or earlier, the
  data is thrown away as if it had been sent.
\<close>

lemma cb_remove_spec:
  assumes ok: "cb_ok cb" and n: "n \<le> int (length (cb_data cb))"
  shows "cb_ok (cb_remove n cb)" and "cb_data (cb_remove n cb) = List.drop (nat n) (cb_data cb)"
    and "cb_same cb (cb_remove n cb)" and "eof (cb_remove n cb) = eof cb"
    and "write_err (cb_remove n cb) = write_err cb"
proof -
  let ?cb = "cb\<lparr>circ := speedy_circ_adj_len (- n) (circ cb)\<rparr>"
  have "cb_ok (cb_remove n cb) \<and> cb_data (cb_remove n cb) = List.drop (nat n) (cb_data cb)
    \<and> cb_same cb (cb_remove n cb) \<and> eof (cb_remove n cb) = eof cb
    \<and> write_err (cb_remove n cb) = write_err cb"
  proof (cases "n > 0")
    case False
    then show ?thesis using ok by (simp add: cb_remove_def cb_same_def)
  next
    case True
    then have "n \<le> speedy_circ_data_len (circ cb)"
      using n ok by (simp only: cb_defs int_length_circ_data)
    note get = circ_get_spec [OF _ True this]
    have "buf_len (speedy_circ_adj_len (- n) (circ cb)) = buf_len (circ cb)"
      by (simp add: speedy_circ_adj_len_def Let_def)
    then have ok': "cb_ok ?cb" and data: "cb_data ?cb = List.drop (nat n) (cb_data cb)"
      using ok get by (auto simp: cb_ok_def cb_data_def)
    show ?thesis
    proof (cases "eof cb \<and> speedy_cb_data_len ?cb = 0")
      case True
      then have "cb_data ?cb = []" using cb_data_len [OF ok'] by simp
      then show ?thesis
        using True \<open>n > 0\<close> cb_free_spec [OF ok'] data
        by (simp add: cb_remove_def Let_def cb_same_def)
    next
      case False
      then show ?thesis
        using \<open>n > 0\<close> ok' data by (auto simp: cb_remove_def Let_def cb_same_def)
    qed
  qed
  then show "cb_ok (cb_remove n cb)" and "cb_data (cb_remove n cb) = List.drop (nat n) (cb_data cb)"
    and "cb_same cb (cb_remove n cb)" and "eof (cb_remove n cb) = eof cb"
    and "write_err (cb_remove n cb) = write_err cb"
    by blast+
qed

lemma cb_write_spec:
  assumes ok: "cb_ok cb" and run: "speedy_cb_write w cb = (cb', xs)"
  shows "cb_ok cb'" and "cb_same cb cb'" and "eof cb' = eof cb"
    and "write_err cb' = (case w of WrErr e \<Rightarrow> if write_err cb = 0 \<and> \<not> SP_NOTREADY e
            then (if e \<noteq> 0 then e else EIO) else write_err cb | _ \<Rightarrow> write_err cb)"
    and "write_err cb' = 0 \<Longrightarrow> xs @ cb_data cb' = cb_data cb"
    and "write_err cb' \<noteq> 0 \<Longrightarrow> xs = [] \<and> cb_data cb' = []"
proof -
  have data: "segs_read (cmem (circ cb)) (speedy_circ_data_segs (circ cb)) = cb_data cb"
    by (simp add: cb_data_def circ_data_def)
  have len: "speedy_cb_data_len cb = int (length (cb_data cb))" using ok by (rule cb_data_len)
  let ?e = "\<lambda>e. speedy_cb_set_write_err (if e \<noteq> 0 then e else EIO) cb"
  have err: "cb_ok (?e e)" "cb_data (?e e) = cb_data cb" "cb_same cb (?e e)" "eof (?e e) = eof cb"
    "write_err (?e e) = (if e \<noteq> 0 then e else EIO)" for e
    using ok by (simp_all add: cb_ok_def cb_data_def speedy_cb_set_write_err_def cb_same_def)
  have len': "speedy_cb_data_len (?e e) = int (length (cb_data cb))" for e
    using cb_data_len [OF err(1)] err(2) by simp
  consider (prior) "write_err cb \<noteq> 0" "cb' = cb_remove (int (length (cb_data cb))) cb" "xs = []"
    | (sent) n where "write_err cb = 0" "w = Wr n" "xs = take n (cb_data cb)"
        "cb' = cb_remove (int (length xs)) cb"
    | (again) e where "write_err cb = 0" "w = WrErr e" "SP_NOTREADY e" "cb' = cb_remove (- 1) cb" "xs = []"
    | (err) e where "write_err cb = 0" "w = WrErr e" "\<not> SP_NOTREADY e"
        "cb' = cb_remove (int (length (cb_data cb))) (?e e)" "xs = []"
    using run
    by (cases w; cases "write_err cb = 0") (auto simp: speedy_cb_write_def Let_def data len len'
        split: if_splits)
  then have "cb_ok cb' \<and> cb_same cb cb' \<and> eof cb' = eof cb
    \<and> write_err cb' = (case w of WrErr e \<Rightarrow> if write_err cb = 0 \<and> \<not> SP_NOTREADY e
            then (if e \<noteq> 0 then e else EIO) else write_err cb | _ \<Rightarrow> write_err cb)
    \<and> (write_err cb' = 0 \<longrightarrow> xs @ cb_data cb' = cb_data cb)
    \<and> (write_err cb' \<noteq> 0 \<longrightarrow> xs = [] \<and> cb_data cb' = [])"
  proof cases
    case prior
    then show ?thesis
      using cb_remove_spec [OF ok, of "int (length (cb_data cb))"] by (auto split: wrres.split)
  next
    case (sent n)
    then show ?thesis
      using cb_remove_spec [OF ok, of "int (length xs)"] by (auto simp: min_def)
  next
    case (again e)
    then show ?thesis
      using cb_remove_spec [OF ok, of "- 1"] by auto
  next
    case e: (err e)
    have "int (length (cb_data cb)) \<le> int (length (cb_data (?e e)))" by (simp add: err(2))
    note r = cb_remove_spec [OF err(1) this]
    show ?thesis
      using e r err [of e] by (simp add: cb_same_def EIO_def)
  qed
  then show "cb_ok cb'" and "cb_same cb cb'" and "eof cb' = eof cb"
    and "write_err cb' = (case w of WrErr e \<Rightarrow> if write_err cb = 0 \<and> \<not> SP_NOTREADY e
            then (if e \<noteq> 0 then e else EIO) else write_err cb | _ \<Rightarrow> write_err cb)"
    and "write_err cb' = 0 \<Longrightarrow> xs @ cb_data cb' = cb_data cb"
    and "write_err cb' \<noteq> 0 \<Longrightarrow> xs = [] \<and> cb_data cb' = []"
    by blast+
qed

text \<open>Taking the first byte off.\<close>

lemma cb_shift_spec:
  assumes ok: "cb_ok cb"
  shows "speedy_cb_shift cb = (case cb_data cb of
      [] \<Rightarrow> (cb, - 1)
    | b # bs \<Rightarrow> (cb\<lparr>circ := speedy_circ_adj_len (- 1) (circ cb)\<rparr>, sint b))"
    and "cb_ok (fst (speedy_cb_shift cb))"
    and "cb_data (fst (speedy_cb_shift cb)) = tl (cb_data cb)"
proof -
  have c: "circ_ok (circ cb)" using ok by (simp add: cb_ok_def)
  have len: "speedy_cb_data_len cb = int (length (cb_data cb))" using ok by (rule cb_data_len)
  have first: "cmem (circ cb) ! nat (fst (hd (speedy_circ_data_segs (circ cb)))) = hd (cb_data cb)"
    if "cb_data cb \<noteq> []"
  proof -
    have l: "0 < data_len (circ cb)"
      using that int_length_circ_data [OF c] by (simp add: cb_data_def flip: length_greater_0_conv)
    then have "data_beg (circ cb) < int (length (cmem (circ cb)))" "0 \<le> data_beg (circ cb)"
      using c by (auto simp: circ_ok_def)
    moreover have "circ_data (circ cb) ! 0 = cmem (circ cb) ! nat (data_beg (circ cb))"
      using circ_data_nth [OF c, of 0] l calculation by simp
    moreover have "fst (hd (speedy_circ_data_segs (circ cb))) = data_beg (circ cb)"
      using l by (simp add: speedy_circ_data_segs_def get_segs_def Let_def)
    ultimately show ?thesis
      using that by (simp add: cb_data_def hd_conv_nth)
  qed
  show shift: "speedy_cb_shift cb = (case cb_data cb of
      [] \<Rightarrow> (cb, - 1)
    | b # bs \<Rightarrow> (cb\<lparr>circ := speedy_circ_adj_len (- 1) (circ cb)\<rparr>, sint b))"
    using len first by (cases "cb_data cb") (simp_all add: speedy_cb_shift_def)
  have "cb_ok (fst (speedy_cb_shift cb)) \<and> cb_data (fst (speedy_cb_shift cb)) = tl (cb_data cb)"
  proof (cases "cb_data cb")
    case Nil
    then show ?thesis using ok shift by simp
  next
    case (Cons b bs)
    then have "1 \<le> speedy_circ_data_len (circ cb)" using len by (simp add: speedy_cb_data_len_def)
    note get = circ_get_spec [OF c _ this]
    have "buf_len (speedy_circ_adj_len (- 1) (circ cb)) = buf_len (circ cb)"
      by (simp add: speedy_circ_adj_len_def Let_def)
    then show ?thesis
      using shift Cons get ok by (simp add: cb_ok_def cb_data_def drop_Suc)
  qed
  then show "cb_ok (fst (speedy_cb_shift cb))"
    and "cb_data (fst (speedy_cb_shift cb)) = tl (cb_data cb)" by simp_all
qed

text \<open>
  Reads and writes in any order: what was sent, followed by what is still there, is what was there
  at first, followed by what was received; after a write error, what was sent is a beginning of it.
\<close>

primrec cb_run :: "kmem \<Rightarrow> (rdres + wrres) list \<Rightarrow> copybuf \<Rightarrow> copybuf \<times> byte list \<times> byte list" where
  "cb_run k [] cb = (cb, [], [])"
| "cb_run k (x # xs) cb =
     (case x of
       Inl r \<Rightarrow>
        (case speedy_cb_read k r cb of (cb, got) \<Rightarrow>
         case cb_run k xs cb of (cb, gots, sents) \<Rightarrow> (cb, got @ gots, sents))
     | Inr w \<Rightarrow>
        (case speedy_cb_write w cb of (cb, sent) \<Rightarrow>
         case cb_run k xs cb of (cb, gots, sents) \<Rightarrow> (cb, gots, sent @ sents)))"

lemma cb_run_spec:
  assumes "cb_ok cb" and "cb_run k xs cb = (cb', gots, sents)"
  shows "cb_ok cb' \<and> cb_same cb cb' \<and> (write_err cb \<noteq> 0 \<longrightarrow> write_err cb' \<noteq> 0 \<and> sents = [])
    \<and> (write_err cb' = 0 \<longrightarrow> sents @ cb_data cb' = cb_data cb @ gots)
    \<and> (\<exists>rest. cb_data cb @ gots = sents @ rest)"
  using assms
proof (induction xs arbitrary: cb gots sents)
  case Nil
  then show ?case by (simp add: cb_same_def)
next
  case (Cons x xs)
  show ?case
  proof (cases x)
    case (Inl r)
    obtain cb1 got where rd: "speedy_cb_read k r cb = (cb1, got)" by fastforce
    then obtain gots' where run: "cb_run k xs cb1 = (cb', gots', sents)" and gots: "gots = got @ gots'"
      using Cons.prems Inl by (auto split: prod.splits)
    note s = cb_read_spec(1-4) [OF Cons.prems(1) rd]
    show ?thesis
      using Cons.IH [OF s(1) run] s gots by (auto simp: cb_same_def)
  next
    case (Inr w)
    obtain cb1 sent where wr: "speedy_cb_write w cb = (cb1, sent)" by fastforce
    then obtain sents' where run: "cb_run k xs cb1 = (cb', gots, sents')" and sents: "sents = sent @ sents'"
      using Cons.prems Inr by (auto split: prod.splits)
    note s = cb_write_spec [OF Cons.prems(1) wr]
    have sticky: "write_err cb \<noteq> 0 \<Longrightarrow> write_err cb1 = write_err cb"
      using s(4) by (auto split: wrres.splits)
    show ?thesis
    proof (cases "write_err cb1 = 0")
      case True
      then have "cb_data cb @ gots = sent @ (cb_data cb1 @ gots)"
        using s(5) by (metis append_assoc)
      then show ?thesis
        using Cons.IH [OF s(1) run] True s(1,2) sents sticky by (auto simp: cb_same_def)
    next
      case False
      then show ?thesis
        using Cons.IH [OF s(1) run] s(1,2,6) sents sticky by (auto simp: cb_same_def)
    qed
  qed
qed

end
