(* ===== verification/Poll.thy ===== *)
theory Poll
  imports Main "HOL-Library.Word"
begin

unbundle bit_operations_syntax

text \<open>
  Waiting for descriptors, src/src/speedy_poll.c, which is compiled over \<open>poll\<close> or over \<open>select\<close>.
  Both are modelled and meet one interface. \<open>ready\<close> stands for what the kernel finds when it is
  asked.
\<close>

datatype dir = In | Out

text \<open>
  The interface: which descriptors were asked for, for reading or for writing. \<open>isset\<close> may also say
  yes for the other direction of a descriptor that was set, never for another descriptor.
\<close>

locale poller =
  fixes ok :: "'p \<Rightarrow> bool"
    and valid :: "'p \<Rightarrow> nat \<Rightarrow> bool"
    and reset :: "'p \<Rightarrow> 'p"
    and set_fd :: "'p \<Rightarrow> nat \<Rightarrow> dir \<Rightarrow> 'p"
    and isset :: "'p \<Rightarrow> nat \<Rightarrow> dir \<Rightarrow> bool"
  assumes reset_law: "ok p \<Longrightarrow> ok (reset p) \<and> valid (reset p) = valid p \<and> \<not> isset (reset p) fd d"
    and set_law: "ok p \<Longrightarrow> valid p fd \<Longrightarrow> ok (set_fd p fd d) \<and> valid (set_fd p fd d) = valid p
      \<and> isset (set_fd p fd d) fd d
      \<and> (\<forall>fd' d'. isset p fd' d' \<longrightarrow> isset (set_fd p fd d) fd' d')
      \<and> (\<forall>fd' d'. fd' \<noteq> fd \<longrightarrow> isset (set_fd p fd d) fd' d' = isset p fd' d')"
begin

lemma sets:
  assumes "ok p" and "\<And>fd d. (fd, d) \<in> set xs \<Longrightarrow> valid p fd"
  defines "q \<equiv> fold (\<lambda>(fd, d) p. set_fd p fd d) xs (reset p)"
  shows "ok q"
    and "(fd, d) \<in> set xs \<Longrightarrow> isset q fd d"
    and "isset q fd d \<Longrightarrow> \<exists>d'. (fd, d') \<in> set xs"
proof -
  have "ok (fold (\<lambda>(fd, d) p. set_fd p fd d) xs r)
      \<and> (\<forall>fd d. (fd, d) \<in> set xs \<or> isset r fd d \<longrightarrow> isset (fold (\<lambda>(fd, d) p. set_fd p fd d) xs r) fd d)
      \<and> (\<forall>fd d. isset (fold (\<lambda>(fd, d) p. set_fd p fd d) xs r) fd d
           \<longrightarrow> isset r fd d \<or> (\<exists>d'. (fd, d') \<in> set xs))"
    if "ok r" "\<And>fd d. (fd, d) \<in> set xs \<Longrightarrow> valid r fd" for r
    using that
  proof (induction xs arbitrary: r)
    case (Cons x xs)
    obtain fd d where x: "x = (fd, d)" by fastforce
    note s = set_law [OF Cons.prems(1), of fd d]
    have v: "valid r fd" using Cons.prems(2) [of fd d] x by simp
    have IH: "ok (fold (\<lambda>(fd, d) p. set_fd p fd d) xs (set_fd r fd d))
      \<and> (\<forall>fd' d'. (fd', d') \<in> set xs \<or> isset (set_fd r fd d) fd' d'
            \<longrightarrow> isset (fold (\<lambda>(fd, d) p. set_fd p fd d) xs (set_fd r fd d)) fd' d')
      \<and> (\<forall>fd' d'. isset (fold (\<lambda>(fd, d) p. set_fd p fd d) xs (set_fd r fd d)) fd' d'
           \<longrightarrow> isset (set_fd r fd d) fd' d' \<or> (\<exists>d''. (fd', d'') \<in> set xs))"
      using s v Cons.prems(2) by (intro Cons.IH) auto
    have only: "isset (set_fd r fd d) fd' d' \<Longrightarrow> isset r fd' d' \<or> fd' = fd" for fd' d'
      using s v by blast
    show ?case
      using IH s v only by (simp add: x) blast
  qed simp
  note f = this [of "reset p", folded q_def]
  have r: "ok (reset p)" "valid (reset p) = valid p" "\<And>fd d. \<not> isset (reset p) fd d"
    using reset_law [OF assms(1)] by auto
  show "ok q" using f r assms(2) by simp
  show "(fd, d) \<in> set xs \<Longrightarrow> isset q fd d" using f r assms(2) by simp
  show "isset q fd d \<Longrightarrow> \<exists>d'. (fd, d') \<in> set xs" using f r assms(2) by auto
qed

end

section \<open>With select\<close>

definition SPEEDY_POLLIN :: nat where "SPEEDY_POLLIN = 1"
definition SPEEDY_POLLOUT :: nat where "SPEEDY_POLLOUT = 2"

record poll_info =
  fdset0 :: "nat set"
  fdset1 :: "nat set"
  maxfd :: nat

definition speedy_poll_reset :: "poll_info \<Rightarrow> poll_info" where
  "speedy_poll_reset pi = pi\<lparr>fdset0 := {}, fdset1 := {}\<rparr>"

definition speedy_poll_init :: "nat \<Rightarrow> poll_info" where
  "speedy_poll_init m = speedy_poll_reset \<lparr>fdset0 = {}, fdset1 = {}, maxfd = m\<rparr>"

definition speedy_poll_set :: "poll_info \<Rightarrow> nat \<Rightarrow> nat \<Rightarrow> poll_info" where
  "speedy_poll_set pi fd flags =
     (let pi = (if odd flags then pi\<lparr>fdset0 := insert fd (fdset0 pi)\<rparr> else pi)
      in if odd (flags div 2) then pi\<lparr>fdset1 := insert fd (fdset1 pi)\<rparr> else pi)"

definition speedy_poll_isset :: "poll_info \<Rightarrow> nat \<Rightarrow> nat \<Rightarrow> bool" where
  "speedy_poll_isset pi fd flag =
     (if odd flag then fd \<in> fdset0 pi
      else if odd (flag div 2) then fd \<in> fdset1 pi
      else False)"

text \<open>The timeout as a \<open>struct timeval\<close>, none for -1.\<close>

definition poll_timeval :: "int \<Rightarrow> (int \<times> int) option" where
  "poll_timeval msecs = (if msecs = - 1 then None else Some (msecs div 1000, msecs mod 1000 * 1000))"

text \<open>
  The answer of the kernel: -1 and an error, or the number of descriptors ready, where the sets are
  cut down to the descriptors that are.
\<close>

datatype pollres = PollErr int | Ready "nat set" "nat set"

definition poll_wait :: "pollres \<Rightarrow> poll_info \<Rightarrow> int \<times> poll_info" where
  "poll_wait r pi =
     (case r of
       PollErr e \<Rightarrow> (- 1, pi)
     | Ready rd wr \<Rightarrow>
        (let i = fdset0 pi \<inter> rd \<inter> {..maxfd pi}; o' = fdset1 pi \<inter> wr \<inter> {..maxfd pi}
         in (int (card i + card o'), pi\<lparr>fdset0 := i, fdset1 := o'\<rparr>)))"

text \<open>The cached time is dropped after a wait (\<open>speedy_util_time_invalidate\<close>).\<close>

definition speedy_poll_wait :: "pollres \<Rightarrow> poll_info \<Rightarrow> int \<times> poll_info \<times> int" where
  "speedy_poll_wait r pi = (case poll_wait r pi of (n, pi) \<Rightarrow> (n, pi, 0))"

definition speedy_poll_quickwait :: "pollres \<Rightarrow> poll_info \<Rightarrow> nat \<Rightarrow> nat \<Rightarrow> int \<times> poll_info \<times> int" where
  "speedy_poll_quickwait r pi fd flags =
     speedy_poll_wait r (speedy_poll_set (speedy_poll_reset pi) fd flags)"

definition sel_flag :: "dir \<Rightarrow> nat" where
  "sel_flag d = (case d of In \<Rightarrow> SPEEDY_POLLIN | Out \<Rightarrow> SPEEDY_POLLOUT)"

lemma isset_set:
  "speedy_poll_isset (speedy_poll_set pi fd (sel_flag d)) fd' (sel_flag d') \<longleftrightarrow>
     speedy_poll_isset pi fd' (sel_flag d') \<or> fd' = fd \<and> d' = d"
  by (cases d; cases d') (auto simp: sel_flag_def SPEEDY_POLLIN_def SPEEDY_POLLOUT_def
      speedy_poll_isset_def speedy_poll_set_def Let_def)

interpretation sel: poller "\<lambda>_. True" "\<lambda>_ _. True" speedy_poll_reset
  "\<lambda>p fd d. speedy_poll_set p fd (sel_flag d)" "\<lambda>p fd d. speedy_poll_isset p fd (sel_flag d)"
proof
  show "True \<and> (\<lambda>_. True) = (\<lambda>_. True)
    \<and> \<not> speedy_poll_isset (speedy_poll_reset p) fd (sel_flag d)" for p fd d
    by (cases d) (simp_all add: sel_flag_def SPEEDY_POLLIN_def SPEEDY_POLLOUT_def
        speedy_poll_isset_def speedy_poll_reset_def)
qed (auto simp: isset_set)

lemma poll_timeval_exact:
  "0 \<le> msecs \<Longrightarrow> poll_timeval msecs = Some (s, us) \<Longrightarrow>
     s * 1000000 + us = msecs * 1000 \<and> 0 \<le> us \<and> us < 1000000"
  using div_mult_mod_eq [of msecs 1000] by (auto simp: poll_timeval_def split: if_splits)

text \<open>After a wait for one descriptor, it is set if and only if the kernel found it ready.\<close>

lemma quickwait_isset:
  assumes "speedy_poll_quickwait (Ready rd wr) pi fd (sel_flag d) = (n, pi', tv)" and "fd \<le> maxfd pi"
  shows "speedy_poll_isset pi' fd (sel_flag d) \<longleftrightarrow> fd \<in> (case d of In \<Rightarrow> rd | Out \<Rightarrow> wr)"
    and "n = (if fd \<in> (case d of In \<Rightarrow> rd | Out \<Rightarrow> wr) then 1 else 0)"
proof -
  have one: "{fd} \<inter> A \<inter> {..maxfd pi} = (if fd \<in> A then {fd} else {})" for A
    using assms(2) by auto
  show "speedy_poll_isset pi' fd (sel_flag d) \<longleftrightarrow> fd \<in> (case d of In \<Rightarrow> rd | Out \<Rightarrow> wr)"
    "n = (if fd \<in> (case d of In \<Rightarrow> rd | Out \<Rightarrow> wr) then 1 else 0)"
    using assms(1)
    by (cases d; simp add: speedy_poll_quickwait_def speedy_poll_wait_def poll_wait_def Let_def
        speedy_poll_set_def speedy_poll_reset_def speedy_poll_isset_def sel_flag_def
        SPEEDY_POLLIN_def SPEEDY_POLLOUT_def one; force)+
qed

section \<open>With poll\<close>

type_synonym events = "16 word"

definition POLLIN_bits :: events where "POLLIN_bits = 1 OR 16 OR 8 OR 32"
definition POLLOUT_bits :: events where "POLLOUT_bits = 4 OR 16 OR 8 OR 32"

record pollfd =
  pfd_fd :: nat
  pfd_events :: events
  pfd_revents :: events

text \<open>The array of requests, of which \<open>numfds\<close> are used, and for each descriptor its place there.\<close>

record poll_tab =
  fds :: "pollfd list"
  fdmap :: "nat option list"
  pt_maxfd :: nat
  numfds :: nat

definition pt_reset :: "poll_tab \<Rightarrow> poll_tab" where
  "pt_reset pi = pi\<lparr>numfds := 0, fdmap := replicate (pt_maxfd pi + 1) None\<rparr>"

text \<open>\<open>junk\<close> is what is in the new array.\<close>

definition pt_init :: "(nat \<Rightarrow> pollfd) \<Rightarrow> nat \<Rightarrow> poll_tab" where
  "pt_init junk m = pt_reset \<lparr>fds = map junk [0..<m + 1], fdmap = replicate (m + 1) None,
     pt_maxfd = m, numfds = 0\<rparr>"

definition pt_set :: "poll_tab \<Rightarrow> nat \<Rightarrow> events \<Rightarrow> poll_tab" where
  "pt_set pi fd flags =
     (let (pi, i) = (case fdmap pi ! fd of
            None \<Rightarrow> (pi\<lparr>fds := (fds pi)[numfds pi := \<lparr>pfd_fd = fd, pfd_events = 0, pfd_revents = 0\<rparr>],
                       fdmap := (fdmap pi)[fd := Some (numfds pi)], numfds := numfds pi + 1\<rparr>, numfds pi)
          | Some i \<Rightarrow> (pi, i));
          p = fds pi ! i
      in pi\<lparr>fds := (fds pi)[i := p\<lparr>pfd_events := pfd_events p OR flags,
             pfd_revents := pfd_revents p OR flags\<rparr>]\<rparr>)"

definition pt_isset :: "poll_tab \<Rightarrow> nat \<Rightarrow> events \<Rightarrow> bool" where
  "pt_isset pi fd flag =
     (case fdmap pi ! fd of None \<Rightarrow> False | Some i \<Rightarrow> pfd_revents (fds pi ! i) AND flag \<noteq> 0)"

text \<open>
  The table: places and descriptors correspond, so that there is always a place left for a
  descriptor that has none.
\<close>

definition pt_ok :: "poll_tab \<Rightarrow> bool" where
  "pt_ok pi \<longleftrightarrow> length (fds pi) = pt_maxfd pi + 1 \<and> length (fdmap pi) = pt_maxfd pi + 1
     \<and> numfds pi \<le> pt_maxfd pi + 1
     \<and> (\<forall>fd \<le> pt_maxfd pi. \<forall>i. fdmap pi ! fd = Some i \<longrightarrow> i < numfds pi \<and> pfd_fd (fds pi ! i) = fd)
     \<and> (\<forall>i < numfds pi. pfd_fd (fds pi ! i) \<le> pt_maxfd pi \<and> fdmap pi ! pfd_fd (fds pi ! i) = Some i)"

lemma pt_init_ok: "pt_ok (pt_init junk m)"
  by (simp add: pt_ok_def pt_init_def pt_reset_def del: upt_Suc replicate.simps)

lemma pt_room:
  assumes "pt_ok pi" and "fd \<le> pt_maxfd pi" and "fdmap pi ! fd = None"
  shows "numfds pi < length (fds pi)"
proof -
  let ?f = "\<lambda>i. pfd_fd (fds pi ! i)"
  have "inj_on ?f {..<numfds pi}"
    using assms(1) by (intro inj_onI) (metis lessThan_iff option.inject pt_ok_def)
  moreover have "?f ` {..<numfds pi} \<subseteq> {..pt_maxfd pi} - {fd}"
    using assms by (auto simp: pt_ok_def)
  ultimately have "card {..<numfds pi} \<le> card ({..pt_maxfd pi} - {fd})"
    by (metis card_inj_on_le finite_Diff finite_atMost)
  then show ?thesis using assms by (simp add: pt_ok_def)
qed

lemma pt_set_ok:
  assumes ok: "pt_ok pi" and fd: "fd \<le> pt_maxfd pi"
  shows "pt_ok (pt_set pi fd flags)" and "pt_maxfd (pt_set pi fd flags) = pt_maxfd pi"
proof -
  show "pt_maxfd (pt_set pi fd flags) = pt_maxfd pi"
    by (simp add: pt_set_def Let_def split: option.split)
  show "pt_ok (pt_set pi fd flags)"
  proof (cases "fdmap pi ! fd")
    case (Some i)
    then have "i < numfds pi" "pfd_fd (fds pi ! i) = fd" using ok fd by (auto simp: pt_ok_def)
    moreover have "pfd_fd ((fds pi)[i := (fds pi ! i)\<lparr>pfd_events := e, pfd_revents := r\<rparr>] ! j)
        = pfd_fd (fds pi ! j)" for j e r
      by (cases "i < length (fds pi)") (auto simp: nth_list_update list_update_beyond)
    ultimately show ?thesis using ok Some by (simp add: pt_set_def Let_def pt_ok_def)
  next
    case None
    note room = pt_room [OF ok fd None]
    let ?n = "numfds pi"
    have new: "pfd_fd ((fds pi)[?n := \<lparr>pfd_fd = fd, pfd_events = e, pfd_revents = r\<rparr>] ! j)
        = (if j = ?n then fd else pfd_fd (fds pi ! j))" for j e r
      using room by (simp add: nth_list_update)
    have old: "fd' \<noteq> fd" if "i < ?n" "pfd_fd (fds pi ! i) = fd'" for i fd'
      using ok that None by (auto simp: pt_ok_def)
    have set: "pt_set pi fd flags =
        pi\<lparr>fds := (fds pi)[?n := \<lparr>pfd_fd = fd, pfd_events = flags, pfd_revents = flags\<rparr>],
           fdmap := (fdmap pi)[fd := Some ?n], numfds := Suc ?n\<rparr>"
      using None room by (simp add: pt_set_def Let_def)
    have map: "(fdmap pi)[fd := Some ?n] ! j = (if j = fd then Some ?n else fdmap pi ! j)" for j
      using ok fd by (simp add: nth_list_update pt_ok_def)
    have ok1: "\<And>f i. f \<le> pt_maxfd pi \<Longrightarrow> fdmap pi ! f = Some i \<Longrightarrow> i < ?n \<and> pfd_fd (fds pi ! i) = f"
      and ok2: "\<And>i. i < ?n \<Longrightarrow> pfd_fd (fds pi ! i) \<le> pt_maxfd pi \<and> fdmap pi ! pfd_fd (fds pi ! i) = Some i"
      and len: "length (fds pi) = pt_maxfd pi + 1" "length (fdmap pi) = pt_maxfd pi + 1"
      using ok unfolding pt_ok_def by blast+
    show ?thesis
      unfolding pt_ok_def set
    proof (simp add: new map len, intro conjI allI impI)
      show "?n \<le> pt_maxfd pi" using room len by simp
      show "fdmap pi ! f \<noteq> Some ?n" if "f \<le> pt_maxfd pi" for f using ok1 [OF that] by blast
      show "i < Suc ?n" "pfd_fd (fds pi ! i) = f"
        if "f \<le> pt_maxfd pi" "fdmap pi ! f = Some i" for f i
        using ok1 [OF that] by simp_all
      show "fd \<le> pt_maxfd pi" by (rule fd)
      have lt: "i < ?n" if "i \<noteq> ?n" "i < Suc ?n" for i using that by simp
      show "\<not> i < Suc ?n" if "i \<noteq> ?n" "pfd_fd (fds pi ! i) = fd" for i
        using old [of i fd] lt [OF that(1)] that(2) by blast
      show "pfd_fd (fds pi ! i) \<le> pt_maxfd pi" "fdmap pi ! pfd_fd (fds pi ! i) = Some i"
        if "i \<noteq> ?n" "i < Suc ?n" for i
        using ok2 [OF lt [OF that]] by simp_all
    qed
  qed
qed

lemma pt_isset_set:
  assumes ok: "pt_ok pi" and fd: "fd \<le> pt_maxfd pi"
  shows "pt_isset (pt_set pi fd flags) fd flag \<longleftrightarrow> pt_isset pi fd flag \<or> flags AND flag \<noteq> 0"
    and "fd' \<noteq> fd \<Longrightarrow> fd' \<le> pt_maxfd pi \<Longrightarrow> pt_isset (pt_set pi fd flags) fd' flag = pt_isset pi fd' flag"
proof -
  have or: "(r OR flags) AND flag = (r AND flag) OR (flags AND flag)" for r
    by (simp add: bit.conj_disj_distrib2)
  show "pt_isset (pt_set pi fd flags) fd flag \<longleftrightarrow> pt_isset pi fd flag \<or> flags AND flag \<noteq> 0"
  proof (cases "fdmap pi ! fd")
    case (Some i)
    then have "i < length (fds pi)" using ok fd by (auto simp: pt_ok_def)
    then show ?thesis using Some by (simp add: pt_set_def Let_def pt_isset_def or or_eq_0_iff)
  next
    case None
    then show ?thesis
      using pt_room [OF ok fd None] ok fd by (simp add: pt_set_def Let_def pt_isset_def pt_ok_def)
  qed
  show "pt_isset (pt_set pi fd flags) fd' flag = pt_isset pi fd' flag"
    if "fd' \<noteq> fd" "fd' \<le> pt_maxfd pi"
  proof (cases "fdmap pi ! fd")
    case (Some i)
    then have "pfd_fd (fds pi ! i) = fd" using ok fd by (auto simp: pt_ok_def)
    then have "fdmap pi ! fd' \<noteq> Some i" using ok that by (auto simp: pt_ok_def)
    then show ?thesis
      using Some by (auto simp: pt_set_def Let_def pt_isset_def nth_list_update split: option.split)
  next
    case None
    have "fdmap pi ! fd' \<noteq> Some (numfds pi)" using ok that by (auto simp: pt_ok_def)
    then show ?thesis
      using None that
      by (auto simp: pt_set_def Let_def pt_isset_def nth_list_update split: option.split)
  qed
qed

definition pt_flag :: "dir \<Rightarrow> events" where
  "pt_flag d = (case d of In \<Rightarrow> POLLIN_bits | Out \<Rightarrow> POLLOUT_bits)"

interpretation pt: poller pt_ok "\<lambda>p fd. fd \<le> pt_maxfd p" pt_reset
  "\<lambda>p fd d. pt_set p fd (pt_flag d)" "\<lambda>p fd d. fd \<le> pt_maxfd p \<and> pt_isset p fd (pt_flag d)"
proof
  show "pt_ok (pt_reset p) \<and> (\<lambda>fd. fd \<le> pt_maxfd (pt_reset p)) = (\<lambda>fd. fd \<le> pt_maxfd p)
    \<and> \<not> (fd \<le> pt_maxfd (pt_reset p) \<and> pt_isset (pt_reset p) fd (pt_flag d))"
    if "pt_ok p" for p fd d
    using that by (auto simp: pt_ok_def pt_reset_def pt_isset_def simp del: replicate.simps)
next
  fix p :: poll_tab and fd d
  assume p: "pt_ok p" "fd \<le> pt_maxfd p"
  have self: "pt_flag d AND pt_flag d \<noteq> 0"
    by (cases d) (simp_all add: pt_flag_def POLLIN_bits_def POLLOUT_bits_def)
  note i = pt_isset_set [OF p] and o' = pt_set_ok [OF p]
  have "pt_isset p fd' f \<longrightarrow> pt_isset (pt_set p fd (pt_flag d)) fd' f" if "fd' \<le> pt_maxfd p" for fd' f
    using i that by (cases "fd' = fd") auto
  then show "pt_ok (pt_set p fd (pt_flag d))
    \<and> (\<lambda>fd'. fd' \<le> pt_maxfd (pt_set p fd (pt_flag d))) = (\<lambda>fd. fd \<le> pt_maxfd p)
    \<and> (fd \<le> pt_maxfd (pt_set p fd (pt_flag d)) \<and> pt_isset (pt_set p fd (pt_flag d)) fd (pt_flag d))
    \<and> (\<forall>fd' d'. fd' \<le> pt_maxfd p \<and> pt_isset p fd' (pt_flag d') \<longrightarrow>
        fd' \<le> pt_maxfd (pt_set p fd (pt_flag d)) \<and> pt_isset (pt_set p fd (pt_flag d)) fd' (pt_flag d'))
    \<and> (\<forall>fd' d'. fd' \<noteq> fd \<longrightarrow>
        (fd' \<le> pt_maxfd (pt_set p fd (pt_flag d)) \<and> pt_isset (pt_set p fd (pt_flag d)) fd' (pt_flag d'))
        = (fd' \<le> pt_maxfd p \<and> pt_isset p fd' (pt_flag d')))"
    using i o' p self by auto
qed

text \<open>\<open>poll\<close> writes what it found next to each request in use; on an error it writes nothing.\<close>

definition pt_wait :: "int \<Rightarrow> (nat \<Rightarrow> events) \<Rightarrow> poll_tab \<Rightarrow> int \<times> poll_tab" where
  "pt_wait n found pi =
     (n, if n = - 1 then pi
         else pi\<lparr>fds := map (\<lambda>p. p\<lparr>pfd_revents := found (pfd_fd p)\<rparr>) (take (numfds pi) (fds pi))
                @ List.drop (numfds pi) (fds pi)\<rparr>)"

lemma pt_wait_isset:
  assumes ok: "pt_ok pi" and fd: "fd \<le> pt_maxfd pi" and n: "n \<noteq> - 1"
  shows "pt_isset (snd (pt_wait n found pi)) fd flag \<longleftrightarrow>
    fdmap pi ! fd \<noteq> None \<and> found fd AND flag \<noteq> 0"
proof (cases "fdmap pi ! fd")
  case (Some i)
  then have "i < numfds pi" "pfd_fd (fds pi ! i) = fd" "numfds pi \<le> length (fds pi)"
    using ok fd by (auto simp: pt_ok_def)
  then show ?thesis using Some n by (simp add: pt_isset_def pt_wait_def nth_append)
qed (use n in \<open>simp add: pt_isset_def pt_wait_def\<close>)

section \<open>The two agree\<close>

lemma sel_sets_exact:
  "speedy_poll_isset (fold (\<lambda>(fd, d) p. speedy_poll_set p fd (sel_flag d)) xs p) fd (sel_flag d) \<longleftrightarrow>
     speedy_poll_isset p fd (sel_flag d) \<or> (fd, d) \<in> set xs"
proof (induction xs arbitrary: p)
  case (Cons x xs)
  obtain fd' d' where x: "x = (fd', d')" by fastforce
  show ?case unfolding x list.set fold_simps prod.case Cons.IH isset_set by blast
qed simp

lemma poll_select_agree:
  fixes pi :: poll_info
  assumes "pt_ok p" and "\<And>fd d. (fd, d) \<in> set xs \<Longrightarrow> fd \<le> pt_maxfd p" and "fd \<le> pt_maxfd p"
  defines "q \<equiv> fold (\<lambda>(fd, d) p. pt_set p fd (pt_flag d)) xs (pt_reset p)"
    and "r \<equiv> fold (\<lambda>(fd, d) p. speedy_poll_set p fd (sel_flag d)) xs (speedy_poll_reset pi)"
  shows "speedy_poll_isset r fd (sel_flag d) \<Longrightarrow> pt_isset q fd (pt_flag d)"
    and "pt_isset q fd (pt_flag d) \<Longrightarrow> \<exists>d'. speedy_poll_isset r fd (sel_flag d')"
proof -
  note s = pt.sets [OF assms(1), of xs, folded q_def]
  have q: "(fd, d) \<in> set xs \<Longrightarrow> pt_isset q fd (pt_flag d)"
    and q': "fd \<le> pt_maxfd q \<Longrightarrow> pt_isset q fd (pt_flag d) \<Longrightarrow> \<exists>d'. (fd, d') \<in> set xs"
    using s(2) [where fd = fd and d = d] s(3) [where fd = fd and d = d] assms(2) by blast+
  have "\<not> speedy_poll_isset (speedy_poll_reset pi) fd (sel_flag d)" for d
    using sel.reset_law [of pi fd d] by blast
  then have r: "speedy_poll_isset r fd (sel_flag d) \<longleftrightarrow> (fd, d) \<in> set xs" for d
    unfolding r_def sel_sets_exact by blast
  have m: "pt_maxfd q = pt_maxfd p"
  proof -
    have step: "pt_maxfd (pt_set u fd fl) = pt_maxfd u" for u fd fl
      by (simp add: pt_set_def Let_def split: option.split)
    have "pt_maxfd (fold (\<lambda>(fd, d) p. pt_set p fd (pt_flag d)) xs u) = pt_maxfd u" for u
    proof (induction xs arbitrary: u)
      case (Cons x xs)
      obtain fd' d' where x: "x = (fd', d')" by fastforce
      show ?case unfolding x fold_simps prod.case Cons.IH step ..
    qed simp
    then show ?thesis by (simp add: q_def pt_reset_def)
  qed
  show "speedy_poll_isset r fd (sel_flag d) \<Longrightarrow> pt_isset q fd (pt_flag d)" using q r by blast
  show "\<exists>d'. speedy_poll_isset r fd (sel_flag d')" if "pt_isset q fd (pt_flag d)"
    unfolding r by (rule q' [OF _ that]) (simp only: m assms(3))
qed

end
