(* ===== verification/FdTable.thy ===== *)
theory FdTable
  imports Main "HOL-Library.Word"
begin

unbundle bit_operations_syntax

text \<open>
  The table of descriptors of the frontend program, src/src/speedy_main.c: what state each
  descriptor was put in, so that none is closed twice and the terminal gets back its blocking mode.
  The system calls made are kept in a log; \<open>badf\<close> says for which descriptors \<open>fcntl\<close> answers
  EBADF, and \<open>junk\<close> what is in fresh memory.
\<close>

datatype fdstate = FD_UNKNOWN | FD_CLOSE | FD_BLOCK | FD_NOBLOCK

record fdinfo_t =
  fi_flags :: "32 word"
  fi_state :: fdstate

datatype fdcall = Close nat | Setfl nat "32 word"

record fdt =
  fdinfo :: "fdinfo_t list"
  calls :: "fdcall list"

definition O_NONBLOCK :: "32 word" where "O_NONBLOCK = 2048"

definition fd_state :: "fdt \<Rightarrow> nat \<Rightarrow> fdstate" where
  "fd_state t fd = fi_state (fdinfo t ! fd)"

definition set_state :: "nat \<Rightarrow> fdstate \<Rightarrow> fdt \<Rightarrow> fdt" where
  "set_state fd st t = t\<lparr>fdinfo := (fdinfo t)[fd := (fdinfo t ! fd)\<lparr>fi_state := st\<rparr>]\<rparr>"

definition emit :: "fdcall \<Rightarrow> fdt \<Rightarrow> fdt" where
  "emit c t = t\<lparr>calls := calls t @ [c]\<rparr>"

function fd_change :: "(nat \<Rightarrow> bool) \<Rightarrow> nat \<Rightarrow> fdstate \<Rightarrow> fdt \<Rightarrow> fdt" where
  "fd_change badf fd st t =
     (if st \<noteq> fd_state t fd \<and> fd_state t fd \<noteq> FD_CLOSE
      then if st = FD_CLOSE
        then let t = (if fd_state t fd = FD_NOBLOCK \<and> fd \<le> 2 then fd_change badf fd FD_BLOCK t else t)
             in set_state fd FD_CLOSE (emit (Close fd) t)
        else let t = set_state fd st t;
                 flags = (if st = FD_BLOCK then fi_flags (fdinfo t ! fd) AND NOT O_NONBLOCK
                          else fi_flags (fdinfo t ! fd) OR O_NONBLOCK);
                 t = emit (Setfl fd flags) t
             in if badf fd then set_state fd FD_CLOSE t else t
      else t)"
  by pat_completeness auto
termination
  by (relation "measure (\<lambda>(badf, fd, st, t). if st = FD_CLOSE then 1 else 0)") auto

declare fd_change.simps [simp del]

definition fd_init :: "(nat \<Rightarrow> bool) \<Rightarrow> fdinfo_t \<Rightarrow> nat \<Rightarrow> 32 word \<Rightarrow> fdstate \<Rightarrow> fdt \<Rightarrow> fdt" where
  "fd_init badf junk fd flags st t =
     (let n = length (fdinfo t);
          t = (if fd \<ge> n then t\<lparr>fdinfo := fdinfo t @ replicate (fd + 10 - n) junk\<rparr> else t);
          t = t\<lparr>fdinfo := (fdinfo t)[fd := \<lparr>fi_flags = flags, fi_state = FD_UNKNOWN\<rparr>]\<rparr>
      in fd_change badf fd st t)"

definition fd_closed :: "fdt \<Rightarrow> nat \<Rightarrow> bool" where
  "fd_closed t fd \<longleftrightarrow> fd_state t fd = FD_CLOSE"

definition fd_open :: "fdt \<Rightarrow> nat \<Rightarrow> bool" where
  "fd_open t fd \<longleftrightarrow> \<not> fd_closed t fd"

section \<open>Closing\<close>

lemma fdt_simps [simp]:
  "calls (set_state fd st t) = calls t"
  "length (fdinfo (set_state fd st t)) = length (fdinfo t)"
  "fdinfo (emit c t) = fdinfo t"
  "calls (emit c t) = calls t @ [c]"
  "fd_state (emit c t) fd = fd_state t fd"
  by (simp_all add: set_state_def emit_def fd_state_def)

lemma fd_state_set [simp]:
  "fd' < length (fdinfo t) \<Longrightarrow> fd_state (set_state fd st t) fd' = (if fd' = fd then st else fd_state t fd')"
  by (simp add: set_state_def fd_state_def nth_list_update)

lemma fi_flags_set [simp]: "fi_flags (fdinfo (set_state fd st t) ! fd') = fi_flags (fdinfo t ! fd')"
  by (cases "fd < length (fdinfo t)") (auto simp: set_state_def nth_list_update list_update_beyond)

text \<open>What a change does, by cases.\<close>

lemma fd_change_same: "st = fd_state t fd \<or> fd_state t fd = FD_CLOSE \<Longrightarrow> fd_change badf fd st t = t"
  by (subst fd_change.simps) auto

lemma fd_change_mode:
  "st \<noteq> FD_CLOSE \<Longrightarrow> st \<noteq> fd_state t fd \<Longrightarrow> fd_state t fd \<noteq> FD_CLOSE \<Longrightarrow>
    fd_change badf fd st t =
      (let u = emit (Setfl fd (if st = FD_BLOCK then fi_flags (fdinfo t ! fd) AND NOT O_NONBLOCK
                 else fi_flags (fdinfo t ! fd) OR O_NONBLOCK)) (set_state fd st t)
       in if badf fd then set_state fd FD_CLOSE u else u)"
  by (subst fd_change.simps) (simp add: Let_def)

lemma fd_change_close:
  "fd_state t fd \<noteq> FD_CLOSE \<Longrightarrow>
    fd_change badf fd FD_CLOSE t =
      set_state fd FD_CLOSE (emit (Close fd)
        (if fd_state t fd = FD_NOBLOCK \<and> fd \<le> 2 then fd_change badf fd FD_BLOCK t else t))"
  by (subst fd_change.simps) (simp add: Let_def)

lemma length_fd_change [simp]: "length (fdinfo (fd_change badf fd st t)) = length (fdinfo t)"
  by (cases "st = fd_state t fd \<or> fd_state t fd = FD_CLOSE"; cases "st = FD_CLOSE")
    (auto simp: fd_change_same fd_change_close fd_change_mode Let_def)

lemma fd_change_other:
  assumes "fd' \<noteq> fd" and "fd' < length (fdinfo t)"
  shows "fd_state (fd_change badf fd st t) fd' = fd_state t fd'"
  using assms
  by (cases "st = fd_state t fd \<or> fd_state t fd = FD_CLOSE"; cases "st = FD_CLOSE")
    (auto simp: fd_change_same fd_change_close fd_change_mode Let_def)

lemma fd_change_state:
  assumes "fd < length (fdinfo t)"
  shows "fd_state (fd_change badf fd st t) fd \<in> {st, FD_CLOSE}"
    and "fd_state t fd = FD_CLOSE \<Longrightarrow> fd_state (fd_change badf fd st t) fd = FD_CLOSE"
    and "fd_state (fd_change badf fd FD_CLOSE t) fd = FD_CLOSE"
  using assms
  by (cases "st = fd_state t fd \<or> fd_state t fd = FD_CLOSE"; cases "st = FD_CLOSE";
      cases "fd_state t fd = FD_CLOSE";
      auto simp: fd_change_same fd_change_close fd_change_mode Let_def)+

text \<open>The calls a change adds.\<close>

definition fd_calls :: "(nat \<Rightarrow> bool) \<Rightarrow> nat \<Rightarrow> fdstate \<Rightarrow> fdt \<Rightarrow> fdcall list" where
  "fd_calls badf fd st t =
     (let fl = fi_flags (fdinfo t ! fd) in
      if st = fd_state t fd \<or> fd_state t fd = FD_CLOSE then []
      else if st = FD_CLOSE
      then (if fd_state t fd = FD_NOBLOCK \<and> fd \<le> 2 then [Setfl fd (fl AND NOT O_NONBLOCK)] else [])
        @ [Close fd]
      else if st = FD_BLOCK then [Setfl fd (fl AND NOT O_NONBLOCK)]
      else [Setfl fd (fl OR O_NONBLOCK)])"

lemma fd_change_calls: "calls (fd_change badf fd st t) = calls t @ fd_calls badf fd st t"
  by (cases "st = fd_state t fd \<or> fd_state t fd = FD_CLOSE"; cases "st = FD_CLOSE")
    (auto simp: fd_change_same fd_change_close fd_change_mode Let_def fd_calls_def)

text \<open>
  Changing descriptors one after the other closes each of them at most once, and once a descriptor
  is closed nothing more is done to it.
\<close>

primrec fd_changes :: "(nat \<Rightarrow> bool) \<Rightarrow> (nat \<times> fdstate) list \<Rightarrow> fdt \<Rightarrow> fdt" where
  "fd_changes badf [] t = t"
| "fd_changes badf (x # xs) t = fd_changes badf xs (fd_change badf (fst x) (snd x) t)"

lemma fd_changes_closed:
  assumes "fd < length (fdinfo t)" and "fd_state t fd = FD_CLOSE"
  shows "\<exists>cs. calls (fd_changes badf xs t) = calls t @ cs \<and> Close fd \<notin> set cs
    \<and> (\<forall>fl. Setfl fd fl \<notin> set cs) \<and> fd_state (fd_changes badf xs t) fd = FD_CLOSE"
  using assms
proof (induction xs arbitrary: t)
  case (Cons x xs)
  obtain f st where x: "x = (f, st)" by fastforce
  let ?t = "fd_change badf f st t"
  have "fd_state ?t fd = FD_CLOSE"
    using Cons.prems by (cases "f = fd") (simp_all add: fd_change_state(2) fd_change_other)
  with Cons obtain cs where cs: "calls (fd_changes badf xs ?t) = calls ?t @ cs" "Close fd \<notin> set cs"
    "\<forall>fl. Setfl fd fl \<notin> set cs" "fd_state (fd_changes badf xs ?t) fd = FD_CLOSE"
    by (metis length_fd_change)
  have "Close fd \<notin> set (fd_calls badf f st t) \<and> (\<forall>fl. Setfl fd fl \<notin> set (fd_calls badf f st t))"
    using Cons.prems by (cases "f = fd") (auto simp: fd_calls_def Let_def)
  then show ?case
    using cs by (intro exI [of _ "fd_calls badf f st t @ cs"]) (simp add: x fd_change_calls)
qed simp

lemma fd_changes_once:
  assumes "fd < length (fdinfo t)"
  shows "\<exists>cs. calls (fd_changes badf xs t) = calls t @ cs \<and> count_list cs (Close fd) \<le> 1"
  using assms
proof (induction xs arbitrary: t)
  case (Cons x xs)
  obtain f st where x: "x = (f, st)" by fastforce
  let ?t = "fd_change badf f st t"
  show ?case
  proof (cases "Close fd \<in> set (fd_calls badf f st t)")
    case True
    then have f: "f = fd" "st = FD_CLOSE" "count_list (fd_calls badf f st t) (Close fd) = 1"
      by (auto simp: fd_calls_def Let_def split: if_splits)
    then have "fd_state ?t fd = FD_CLOSE" using Cons.prems by (simp add: fd_change_state(3))
    then obtain cs where "calls (fd_changes badf xs ?t) = calls ?t @ cs" "Close fd \<notin> set cs"
      using fd_changes_closed [of fd ?t badf xs] Cons.prems by auto
    then show ?thesis
      using f by (intro exI [of _ "fd_calls badf f st t @ cs"])
        (simp add: x fd_change_calls count_list_0_iff)
  next
    case False
    obtain cs where "calls (fd_changes badf xs ?t) = calls ?t @ cs" "count_list cs (Close fd) \<le> 1"
      using Cons.IH [of ?t] Cons.prems by auto
    then show ?thesis
      using False by (intro exI [of _ "fd_calls badf f st t @ cs"])
        (simp add: x fd_change_calls count_list_0_iff)
  qed
qed simp

end
