(* ===== verification/MainLoop.thy ===== *)
theory MainLoop
  imports CopyBuf Poll FdTable
begin

text \<open>
  The frontend program's copy loop, \<open>doit\<close> of src/src/speedy_main.c: stdin to the backend, its two
  output sockets to stdout and stderr, until the backend has exited and its output is delivered.
  Stream 0 is \<open>CB_IN\<close>, 1 is \<open>CB_OUT\<close> and 2 is \<open>CB_ERR\<close>. What the system answers is \<open>menv\<close>, read at
  a clock that moves with every question; what the program does is kept in \<open>trace\<close>.
\<close>

section \<open>State\<close>

datatype mev =
    Rcvd nat "byte list"
  | Sent nat "byte list"
  | Proto2 int
  | Collected int int
  | Forked bool

record menv =
  e_mem :: kmem
  e_rd :: "nat \<Rightarrow> rdres"
  e_wr :: "nat \<Rightarrow> wrres"
  e_poll :: "nat \<Rightarrow> pollres"
  e_sig :: "nat \<Rightarrow> bool"
  e_status :: "nat \<Rightarrow> (int \<times> int) option"
  e_fork :: "nat \<Rightarrow> int"
  e_badf :: "nat \<Rightarrow> bool"
  e_tty :: bool
  e_sigpipe :: nat

record mloop =
  cbs :: "copybuf list"
  got_stdout :: bool
  stop_sock_reads :: bool
  read_stopped :: "bool list"
  backend_exited :: bool
  am_child :: bool
  got_sig :: bool
  pinfo :: poll_info
  fdtab :: fdt
  exit_st :: "(int \<times> int) option"
  mclock :: nat
  trace :: "mev list"

definition NUMFDS :: nat where "NUMFDS = 3"
definition CB_OUT :: nat where "CB_OUT = 1"

definition cbuf_of :: "mloop \<Rightarrow> nat \<Rightarrow> copybuf" where "cbuf_of s i = cbs s ! i"

definition mtick :: "mloop \<Rightarrow> mloop" where "mtick s = s\<lparr>mclock := Suc (mclock s)\<rparr>"
definition record_ev :: "mev \<Rightarrow> mloop \<Rightarrow> mloop" where "record_ev e s = s\<lparr>trace := trace s @ [e]\<rparr>"
definition set_cb :: "nat \<Rightarrow> copybuf \<Rightarrow> mloop \<Rightarrow> mloop" where "set_cb i b s = s\<lparr>cbs := (cbs s)[i := b]\<rparr>"

section \<open>Conditions\<close>

definition my_copydone :: "mloop \<Rightarrow> nat \<Rightarrow> bool" where
  "my_copydone s i \<longleftrightarrow> speedy_cb_copydone (cbuf_of s i)
     \<and> (got_stdout s \<or> i \<noteq> CB_OUT \<or> eof (cbuf_of s i))"

definition my_canread :: "mloop \<Rightarrow> nat \<Rightarrow> bool" where
  "my_canread s i \<longleftrightarrow> \<not> (i \<noteq> 0 \<and> stop_sock_reads s \<and> read_stopped s ! i)
     \<and> (speedy_cb_canread (cbuf_of s i) \<or> (\<not> got_stdout s \<and> i = CB_OUT \<and> \<not> eof (cbuf_of s i)))"

definition try_close :: "menv \<Rightarrow> nat \<Rightarrow> mloop \<Rightarrow> mloop" where
  "try_close e i s =
     (if my_copydone s i
      then s\<lparr>fdtab := fd_change (e_badf e) (nat (wrfd (cbuf_of s i))) FD_CLOSE
               (fd_change (e_badf e) (nat (rdfd (cbuf_of s i))) FD_CLOSE (fdtab s))\<rparr>
      else s)"

section \<open>Reading and writing\<close>

text \<open>The first half of the inner loop; also whether a write should follow.\<close>

definition read_part :: "menv \<Rightarrow> nat \<Rightarrow> bool \<Rightarrow> mloop \<Rightarrow> mloop \<times> bool" where
  "read_part e i do_write s =
     (let sz = speedy_cb_data_len (cbuf_of s i) in
      case speedy_cb_read (e_mem e) (e_rd e (mclock s)) (cbuf_of s i) of (b, got) \<Rightarrow>
      let s = mtick (record_ev (Rcvd i got) (set_cb i b s));
          data_read = (speedy_cb_data_len b > sz);
          s = (if \<not> data_read then s\<lparr>read_stopped := (read_stopped s)[i := True]\<rparr> else s);
          s = (if \<not> got_stdout s \<and> i = CB_OUT \<and> data_read
               then case speedy_cb_shift (cbuf_of s i) of (b, c) \<Rightarrow>
                 record_ev (Proto2 c) (set_cb i b (s\<lparr>got_stdout := True\<rparr>))
               else s)
      in (s, do_write \<or> (speedy_cb_canwrite (cbuf_of s i) \<and> (eof (cbuf_of s i) \<or> data_read))))"

text \<open>The second half; also whether to read again.\<close>

definition write_part :: "menv \<Rightarrow> nat \<Rightarrow> mloop \<Rightarrow> mloop \<times> bool" where
  "write_part e i s =
     (let sz = speedy_cb_data_len (cbuf_of s i) in
      case speedy_cb_write (e_wr e (mclock s)) (cbuf_of s i) of (b, sent) \<Rightarrow>
      let s = mtick (record_ev (Sent i sent) (set_cb i b s))
      in (s, my_canread s i \<and> speedy_cb_data_len b < sz \<and> \<not> (i = 0 \<and> e_tty e)))"

primrec io_loop :: "nat \<Rightarrow> menv \<Rightarrow> nat \<Rightarrow> bool \<Rightarrow> bool \<Rightarrow> mloop \<Rightarrow> mloop option" where
  "io_loop 0 e i do_read do_write s = None"
| "io_loop (Suc fuel) e i do_read do_write s =
     (if \<not> do_read \<and> \<not> do_write then Some s
      else case (if do_read then read_part e i do_write s else (s, do_write)) of (s, do_write) \<Rightarrow>
           case (if do_write then write_part e i s else (s, False)) of (s, do_read) \<Rightarrow>
             io_loop fuel e i do_read False (if \<not> do_read then try_close e i s else s))"

definition io_stream :: "nat \<Rightarrow> menv \<Rightarrow> nat \<Rightarrow> mloop \<Rightarrow> mloop option" where
  "io_stream fuel e i s =
     io_loop fuel e i
       (my_canread s i \<and> speedy_poll_isset (pinfo s) (nat (rdfd (cbuf_of s i))) SPEEDY_POLLIN)
       (speedy_cb_canwrite (cbuf_of s i)
         \<and> speedy_poll_isset (pinfo s) (nat (wrfd (cbuf_of s i))) SPEEDY_POLLOUT) s"

definition io_all :: "nat \<Rightarrow> menv \<Rightarrow> mloop \<Rightarrow> mloop option" where
  "io_all fuel e s =
     Option.bind (io_stream fuel e 0 s) (\<lambda>s. Option.bind (io_stream fuel e 1 s) (io_stream fuel e 2))"

section \<open>One turn\<close>

text \<open>
  How a turn ends: on to the next one, the loop is over, the loop is over in the parent of a fork
  (or after a fork that failed), or the program exits with 1.
\<close>

datatype turn = Next mloop | Done mloop | Left mloop | Failed mloop

definition poll_set :: "nat \<Rightarrow> nat \<Rightarrow> mloop \<Rightarrow> mloop" where
  "poll_set fd flag s = s\<lparr>pinfo := speedy_poll_set (pinfo s) fd flag\<rparr>"

definition poll_reset :: "mloop \<Rightarrow> mloop" where
  "poll_reset s = s\<lparr>pinfo := speedy_poll_reset (pinfo s)\<rparr>"

definition set_events :: "nat \<Rightarrow> mloop \<Rightarrow> mloop" where
  "set_events i s =
     (let s = (if my_canread s i then poll_set (nat (rdfd (cbuf_of s i))) SPEEDY_POLLIN s else s)
      in if speedy_cb_canwrite (cbuf_of s i)
         then poll_set (nat (wrfd (cbuf_of s i))) SPEEDY_POLLOUT s else s)"

definition EINTR :: int where "EINTR = 4"

text \<open>The end of a turn: set the events and wait.\<close>

definition wait_part :: "menv \<Rightarrow> mloop \<Rightarrow> turn" where
  "wait_part e s =
     (let s = poll_reset s;
          s = (if \<not> backend_exited s then poll_set (e_sigpipe e) SPEEDY_POLLIN s else s);
          s = set_events 2 (set_events 1 (set_events 0 s));
          r = e_poll e (mclock s)
      in case speedy_poll_wait r (pinfo s) of (n, pi, tv) \<Rightarrow>
         let s = mtick (s\<lparr>pinfo := pi\<rparr>) in
         if n < 1
         then if n = - 1 \<and> r \<noteq> PollErr EINTR then Failed s
              else let s = (if \<not> backend_exited s then s\<lparr>got_sig := True\<rparr> else s)
                   in Next (poll_reset s)
         else Next s)"

text \<open>The backend had exited before: see if its output is delivered, or go on in the background.\<close>

definition exited_part :: "menv \<Rightarrow> mloop \<Rightarrow> turn" where
  "exited_part e s =
     (let finished = my_copydone s 1 \<and> my_copydone s 2 in
      if am_child s then if finished then Done s else wait_part e s
      else if \<not> speedy_cb_canwrite (cbuf_of s 1) \<and> \<not> speedy_cb_canwrite (cbuf_of s 2)
      then if finished then Done s
           else if read_stopped s ! 1 \<and> read_stopped s ! 2
           then let parent = (e_fork e (mclock s) \<noteq> 0);
                    s = mtick (record_ev (Forked parent) s)
                in if parent then Left s
                   else wait_part e (s\<lparr>am_child := True, stop_sock_reads := False\<rparr>)
           else wait_part e s
      else wait_part e s)"

text \<open>See whether the backend exited (\<open>speedy_frontend_collect_status\<close>).\<close>

definition collect_part :: "menv \<Rightarrow> mloop \<Rightarrow> turn" where
  "collect_part e s =
     (case e_status e (mclock s) of
       None \<Rightarrow> wait_part e (mtick (s\<lparr>got_sig := False\<rparr>))
     | Some (sig, val) \<Rightarrow>
        let s = mtick (record_ev (Collected sig val) (s\<lparr>backend_exited := True, exit_st := Some (sig, val)\<rparr>))
        in if my_copydone s 1 \<and> my_copydone s 2 then Done s
           else let s = s\<lparr>got_sig := False, stop_sock_reads := True, read_stopped := [False, False, False]\<rparr>;
                    s = poll_reset s;
                    s = poll_set (nat (wrfd (cbuf_of s 1))) SPEEDY_POLLOUT
                          (poll_set (nat (rdfd (cbuf_of s 1))) SPEEDY_POLLIN s);
                    s = poll_set (nat (wrfd (cbuf_of s 2))) SPEEDY_POLLOUT
                          (poll_set (nat (rdfd (cbuf_of s 2))) SPEEDY_POLLIN s)
                in Next s)"

definition turn_end :: "menv \<Rightarrow> mloop \<Rightarrow> turn" where
  "turn_end e s =
     (if backend_exited s then exited_part e s
      else if got_sig s \<or> e_sig e (mclock s)
              \<or> speedy_poll_isset (pinfo s) (e_sigpipe e) SPEEDY_POLLIN
      then collect_part e s
      else wait_part e s)"

primrec copy_loop :: "nat \<Rightarrow> menv \<Rightarrow> mloop \<Rightarrow> turn option" where
  "copy_loop 0 e s = None"
| "copy_loop (Suc fuel) e s =
     (case io_all fuel e s of
       None \<Rightarrow> None
     | Some s \<Rightarrow> (case turn_end e s of Next s \<Rightarrow> copy_loop fuel e s | t \<Rightarrow> Some t))"

section \<open>Before and after the loop\<close>

definition O_RDWR :: "32 word" where "O_RDWR = 2"
definition EBADF :: int where "EBADF = 9"

text \<open>
  The start: \<open>cb_in\<close> is \<open>CB_IN\<close> as it was set up with the environment, \<open>socks\<close> the three sockets of
  the backend, and the table of descriptors has 0, 1 and 2.
\<close>

definition main_cb_in :: "int \<Rightarrow> speedy_buf \<Rightarrow> copybuf" where
  "main_cb_in bufsizpost ibuf = speedy_cb_init (max bufsizpost (alloced ibuf)) 0 (- 1) (Some ibuf)"

definition sock_fds :: "menv \<Rightarrow> fdinfo_t \<Rightarrow> nat list \<Rightarrow> fdt \<Rightarrow> fdt" where
  "sock_fds e junk socks t = fold (\<lambda>fd. fd_init (e_badf e) junk fd O_RDWR FD_NOBLOCK) socks t"

definition mstart :: "menv \<Rightarrow> fdinfo_t \<Rightarrow> int \<Rightarrow> copybuf \<Rightarrow> nat list \<Rightarrow> fdt \<Rightarrow> mloop" where
  "mstart e junk bufsizget cb_in socks t =
     (let t = sock_fds e junk socks t;
          b0 = speedy_cb_setfd 0 (int (socks ! 0)) cb_in;
          b1 = speedy_cb_init bufsizget (int (socks ! 1)) 1 None;
          b2 = speedy_cb_init 512 (int (socks ! 2)) 2 None;
          b0 = (if fd_closed t 0 then speedy_cb_seteof b0 else b0);
          b1 = (if fd_closed t 1 then speedy_cb_set_write_err EBADF b1 else b1);
          b2 = (if fd_closed t 2 then speedy_cb_set_write_err EBADF b2 else b2);
          m = max (socks ! 0) (max (socks ! 1) (socks ! 2));
          s = \<lparr>cbs = [b0, b1, b2], got_stdout = False, stop_sock_reads = False,
               read_stopped = [False, False, False], backend_exited = False, am_child = False,
               got_sig = False, pinfo = speedy_poll_reset (speedy_poll_init m), fdtab = t,
               exit_st = None, mclock = 0, trace = []\<rparr>;
          s = (if \<not> e_tty e \<and> my_canread s 0 then poll_set 0 SPEEDY_POLLIN s else s);
          s = (if my_canread s 1 then poll_set (nat (rdfd b1)) SPEEDY_POLLIN s else s);
          s = (if my_canread s 2 then poll_set (nat (rdfd b2)) SPEEDY_POLLIN s else s);
          s = (if speedy_cb_canwrite b0 then poll_set (nat (wrfd b0)) SPEEDY_POLLOUT s else s)
      in try_close e 2 (try_close e 1 (try_close e 0 s)))"

text \<open>
  After it: blocking mode for the standard descriptors, and the end of the process: in a background
  child with 0, otherwise as the backend ended.
\<close>

datatype mexit = Exit int | Kill_self int int

definition doit_end :: "menv \<Rightarrow> mloop \<Rightarrow> mloop" where
  "doit_end e s =
     s\<lparr>fdtab := fold (\<lambda>i. fd_change (e_badf e) i FD_BLOCK) [0..<NUMFDS] (fdtab s)\<rparr>"

definition main_exit :: "turn \<Rightarrow> mexit option" where
  "main_exit t =
     (case t of
       Next s \<Rightarrow> None
     | Failed s \<Rightarrow> Some (Exit 1)
     | Done s \<Rightarrow>
        if am_child s then Some (Exit 0)
        else map_option (\<lambda>(sig, val). if sig \<noteq> 0 then Kill_self val (val + 128) else Exit val) (exit_st s)
     | Left s \<Rightarrow>
        map_option (\<lambda>(sig, val). if sig \<noteq> 0 then Kill_self val (val + 128) else Exit val) (exit_st s))"

end
