(* ===== verification/MainLoopSpecs.thy ===== *)
theory MainLoopSpecs
  imports MainLoop
begin

text \<open>
  What the copy loop of src/src/speedy_main.c does: each stream comes out in order and complete,
  the exit status is collected once, the program stops only when the backend has exited and its
  output is delivered, and no descriptor is closed twice.
\<close>

named_theorems mloop_simps

section \<open>The streams of a trace\<close>

primrec rcvd :: "nat \<Rightarrow> mev list \<Rightarrow> byte list" where
  "rcvd i [] = []"
| "rcvd i (x # tr) = (case x of Rcvd j bs \<Rightarrow> if j = i then bs else [] | _ \<Rightarrow> []) @ rcvd i tr"

primrec sent :: "nat \<Rightarrow> mev list \<Rightarrow> byte list" where
  "sent i [] = []"
| "sent i (x # tr) = (case x of Sent j bs \<Rightarrow> if j = i then bs else [] | _ \<Rightarrow> []) @ sent i tr"

primrec collected :: "mev list \<Rightarrow> nat" where
  "collected [] = 0"
| "collected (x # tr) = (case x of Collected sig val \<Rightarrow> 1 | _ \<Rightarrow> 0) + collected tr"

lemma trace_append [mloop_simps]:
  "rcvd i (tr @ tr') = rcvd i tr @ rcvd i tr'"
  "sent i (tr @ tr') = sent i tr @ sent i tr'"
  "collected (tr @ tr') = collected tr + collected tr'"
  by (induction tr) auto

text \<open>
  What a stream has to carry: what was in its buffer at first and then what was received, without
  the first byte of stdout, which is for the program itself.
\<close>

definition carried :: "copybuf list \<Rightarrow> nat \<Rightarrow> mloop \<Rightarrow> byte list" where
  "carried bs i s = cb_data (bs ! i) @
     (if i = CB_OUT \<and> got_stdout s then tl (rcvd i (trace s)) else rcvd i (trace s))"

definition stream_ok :: "copybuf list \<Rightarrow> nat \<Rightarrow> mloop \<Rightarrow> bool" where
  "stream_ok bs i s \<longleftrightarrow> cb_ok (cbuf_of s i) \<and> cb_same (bs ! i) (cbuf_of s i)
     \<and> (write_err (cbuf_of s i) = 0 \<longrightarrow> carried bs i s = sent i (trace s) @ cb_data (cbuf_of s i))
     \<and> (\<exists>rest. carried bs i s = sent i (trace s) @ rest)"

definition minv :: "menv \<Rightarrow> copybuf list \<Rightarrow> fdt \<Rightarrow> mloop \<Rightarrow> bool" where
  "minv e bs t s \<longleftrightarrow> length (cbs s) = NUMFDS \<and> length bs = NUMFDS \<and> cb_data (bs ! CB_OUT) = []
     \<and> (\<forall>i < NUMFDS. stream_ok bs i s)
     \<and> (if got_stdout s then rcvd CB_OUT (trace s) \<noteq> []
        else rcvd CB_OUT (trace s) = [] \<and> sent CB_OUT (trace s) = [] \<and> cb_data (cbuf_of s CB_OUT) = [])
     \<and> collected (trace s) = (if backend_exited s then 1 else 0)
     \<and> (backend_exited s \<longleftrightarrow> exit_st s \<noteq> None)
     \<and> (am_child s \<longrightarrow> backend_exited s)
     \<and> (\<exists>xs. fdtab s = fd_changes (e_badf e) xs t)"

text \<open>Steps that leave the buffers and the trace alone.\<close>

lemma cbuf_of_simps [mloop_simps]:
  "cbuf_of (mtick s) i = cbuf_of s i"
  "cbuf_of (record_ev x s) i = cbuf_of s i"
  "i < length (cbs s) \<Longrightarrow> cbuf_of (set_cb j b s) i = (if i = j then b else cbuf_of s i)"
  "cbuf_of (s\<lparr>read_stopped := r\<rparr>) i = cbuf_of s i"
  "cbuf_of (s\<lparr>got_stdout := g\<rparr>) i = cbuf_of s i"
  "cbuf_of (s\<lparr>fdtab := t\<rparr>) i = cbuf_of s i"
  "cbuf_of (s\<lparr>pinfo := p\<rparr>) i = cbuf_of s i"
  "cbuf_of (s\<lparr>stop_sock_reads := g\<rparr>) i = cbuf_of s i"
  "cbuf_of (s\<lparr>got_sig := g\<rparr>) i = cbuf_of s i"
  "cbuf_of (s\<lparr>am_child := g\<rparr>) i = cbuf_of s i"
  "cbuf_of (s\<lparr>backend_exited := g\<rparr>) i = cbuf_of s i"
  "cbuf_of (s\<lparr>exit_st := est\<rparr>) i = cbuf_of s i"
  by (simp_all add: cbuf_of_def mtick_def record_ev_def set_cb_def nth_list_update)

definition mview :: "mloop \<Rightarrow> copybuf list \<times> bool \<times> bool \<times> bool \<times> (int \<times> int) option \<times> fdt \<times> mev list" where
  "mview s = (cbs s, got_stdout s, backend_exited s, am_child s, exit_st s, fdtab s, trace s)"

lemma minv_view: "mview s = mview s' \<Longrightarrow> minv e bs t s = minv e bs t s'"
  by (simp add: mview_def minv_def stream_ok_def carried_def cbuf_of_def)

lemma mview_simps [mloop_simps]:
  "mview (mtick s) = mview s"
  "mview (s\<lparr>read_stopped := r\<rparr>) = mview s"
  "mview (s\<lparr>pinfo := p\<rparr>) = mview s"
  "mview (s\<lparr>stop_sock_reads := g\<rparr>) = mview s"
  "mview (s\<lparr>got_sig := g\<rparr>) = mview s"
  "mview (poll_set fd fl s) = mview s"
  "mview (poll_reset s) = mview s"
  "mview (set_events i s) = mview s"
  by (simp_all add: mview_def mtick_def poll_set_def poll_reset_def set_events_def Let_def)

section \<open>Reading and writing\<close>

lemma set_cb_fields [mloop_simps]:
  "got_stdout (set_cb i b s) = got_stdout s" "trace (set_cb i b s) = trace s"
  "backend_exited (set_cb i b s) = backend_exited s" "exit_st (set_cb i b s) = exit_st s"
  "am_child (set_cb i b s) = am_child s" "fdtab (set_cb i b s) = fdtab s"
  "cbs (set_cb i b s) = (cbs s)[i := b]"
  "got_stdout (record_ev x s) = got_stdout s" "trace (record_ev x s) = trace s @ [x]"
  "backend_exited (record_ev x s) = backend_exited s" "exit_st (record_ev x s) = exit_st s"
  "am_child (record_ev x s) = am_child s" "fdtab (record_ev x s) = fdtab s"
  "cbs (record_ev x s) = cbs s"
  "got_stdout (mtick s) = got_stdout s" "trace (mtick s) = trace s"
  "backend_exited (mtick s) = backend_exited s" "exit_st (mtick s) = exit_st s"
  "am_child (mtick s) = am_child s" "fdtab (mtick s) = fdtab s" "cbs (mtick s) = cbs s"
  by (simp_all add: set_cb_def record_ev_def mtick_def)

lemma stream_ok_other:
  assumes "stream_ok bs j s" and "cbuf_of s' j = cbuf_of s j"
    and "rcvd j (trace s') = rcvd j (trace s)" and "sent j (trace s') = sent j (trace s)"
    and "j = CB_OUT \<longrightarrow> got_stdout s' = got_stdout s"
  shows "stream_ok bs j s'"
  using assms by (auto simp: stream_ok_def carried_def)

lemma write_part_inv:
  assumes inv: "minv e bs t s" and i: "i < NUMFDS" and run: "write_part e i s = (s', again)"
  shows "minv e bs t s'"
proof -
  obtain b xs where w: "speedy_cb_write (e_wr e (mclock s)) (cbuf_of s i) = (b, xs)" by fastforce
  let ?s = "record_ev (Sent i xs) (set_cb i b s)"
  have len: "length (cbs s) = NUMFDS" and ok: "\<And>j. j < NUMFDS \<Longrightarrow> stream_ok bs j s"
    using inv by (auto simp: minv_def)
  have ci: "cb_ok (cbuf_of s i)" using ok [OF i] by (simp add: stream_ok_def)
  note spec = cb_write_spec [OF ci w]
  have cb: "cbuf_of ?s j = (if j = i then b else cbuf_of s j)" if "j < NUMFDS" for j
    using that len by (simp add: mloop_simps)
  have err: "write_err b = 0 \<Longrightarrow> write_err (cbuf_of s i) = 0"
    using spec(4) by (auto split: wrres.splits if_splits simp: EIO_def)
  have "stream_ok bs i ?s"
  proof -
    have c: "carried bs i ?s = carried bs i s" by (simp add: carried_def mloop_simps)
    have "cb_same (bs ! i) b"
      using ok [OF i] spec(2) by (auto simp: stream_ok_def cb_same_def)
    moreover have eq: "write_err b = 0 \<longrightarrow> carried bs i s = (sent i (trace s) @ xs) @ cb_data b"
      using ok [OF i] err spec(5) by (auto simp: stream_ok_def)
    moreover have "\<exists>rest. carried bs i s = (sent i (trace s) @ xs) @ rest"
    proof (cases "write_err b = 0")
      case True
      then show ?thesis using eq by blast
    next
      case False
      then show ?thesis using ok [OF i] spec(6) by (simp add: stream_ok_def)
    qed
    ultimately show ?thesis
      using i spec(1) by (simp add: stream_ok_def c cb, simp add: mloop_simps)
  qed
  moreover have "stream_ok bs j ?s" if "j < NUMFDS" "j \<noteq> i" for j
    using ok [OF that(1)] by (rule stream_ok_other) (use that len in \<open>simp_all add: mloop_simps\<close>)
  ultimately have all: "stream_ok bs j ?s" if "j < NUMFDS" for j using that by (cases "j = i") auto
  have quiet: "xs = [] \<and> cb_data b = []" if "cb_data (cbuf_of s i) = []"
    using that spec(5,6) by (cases "write_err b = 0") auto
  have "minv e bs t ?s"
    using inv all quiet i len
    by (auto simp: minv_def mloop_simps CB_OUT_def NUMFDS_def)
  moreover have "mview s' = mview ?s" using run w by (auto simp: write_part_def Let_def mloop_simps)
  ultimately show ?thesis using minv_view by blast
qed

lemma read_part_inv:
  assumes inv: "minv e bs t s" and i: "i < NUMFDS" and run: "read_part e i w s = (s', again)"
  shows "minv e bs t s'"
proof -
  obtain b xs where r: "speedy_cb_read (e_mem e) (e_rd e (mclock s)) (cbuf_of s i) = (b, xs)"
    by fastforce
  let ?s = "record_ev (Rcvd i xs) (set_cb i b s)"
  have len: "length (cbs s) = NUMFDS" and ok: "\<And>j. j < NUMFDS \<Longrightarrow> stream_ok bs j s"
    using inv by (auto simp: minv_def)
  have ci: "cb_ok (cbuf_of s i)" using ok [OF i] by (simp add: stream_ok_def)
  note spec = cb_read_spec(1-4) [OF ci r]
  have cb: "cbuf_of ?s j = (if j = i then b else cbuf_of s j)" if "j < NUMFDS" for j
    using that len by (simp add: mloop_simps)
  have more: "speedy_cb_data_len b > speedy_cb_data_len (cbuf_of s i) \<longleftrightarrow> xs \<noteq> []"
    using cb_data_len [OF ci] cb_data_len [OF spec(1)] spec(2) by simp
  have same: "cb_same (bs ! i) b" using ok [OF i] spec(3) by (auto simp: stream_ok_def cb_same_def)
  have others: "stream_ok bs j u"
    if "j < NUMFDS" "j \<noteq> i" "cbuf_of u j = cbuf_of s j" "rcvd j (trace u) = rcvd j (trace s)"
      "sent j (trace u) = sent j (trace s)" "j = CB_OUT \<longrightarrow> got_stdout u = got_stdout s" for j u
    using ok [OF that(1)] that(3-6) by (rule stream_ok_other)
  show ?thesis
  proof (cases "\<not> got_stdout s \<and> i = CB_OUT \<and> xs \<noteq> []")
    case True
    let ?b = "fst (speedy_cb_shift b)" and ?c = "snd (speedy_cb_shift b)"
    let ?u = "record_ev (Proto2 ?c) (set_cb i ?b (?s\<lparr>got_stdout := True\<rparr>))"
    have first: "rcvd CB_OUT (trace s) = []" "sent CB_OUT (trace s) = []" "cb_data (cbuf_of s CB_OUT) = []"
      "cb_data (bs ! CB_OUT) = []"
      using inv ok [OF i] True by (auto simp: minv_def stream_ok_def carried_def)
    note shift = cb_shift_spec [OF spec(1)]
    have data: "cb_data ?b = tl xs" using shift(3) spec(2) first True by simp
    have b': "cb_same (bs ! i) ?b"
      using same by (auto simp: shift(1) cb_same_def split: list.split)
    have cu: "cbuf_of ?u j = (if j = i then ?b else cbuf_of s j)" if "j < NUMFDS" for j
      using cb [OF that] that len by (simp add: mloop_simps)
    have "stream_ok bs CB_OUT ?u"
      using shift(2) b' data first True i cu [OF i]
      by (simp add: stream_ok_def carried_def, simp add: mloop_simps)
    moreover have "stream_ok bs j ?u" if "j < NUMFDS" "j \<noteq> i" for j
      using that by (intro others) (use that True len in \<open>simp_all add: mloop_simps\<close>)
    ultimately have "stream_ok bs j ?u" if "j < NUMFDS" for j
      using that True by (cases "j = i") auto
    then have "minv e bs t ?u"
      using inv True first len by (auto simp: minv_def mloop_simps)
    moreover have "mview s' = mview ?u"
      using run r more True i len by (auto simp: read_part_def Let_def mloop_simps mview_def
          split: prod.splits)
    ultimately show ?thesis using minv_view by blast
  next
    case False
    have "stream_ok bs i ?s"
    proof -
      have "carried bs i ?s = carried bs i s @ xs"
        using False inv by (auto simp: carried_def mloop_simps minv_def)
      then show ?thesis
        using ok [OF i] spec same i
        by (simp add: stream_ok_def cb, simp add: mloop_simps) (metis append_assoc)
    qed
    moreover have "stream_ok bs j ?s" if "j < NUMFDS" "j \<noteq> i" for j
      using that by (intro others) (use that len in \<open>simp_all add: mloop_simps\<close>)
    ultimately have all: "stream_ok bs j ?s" if "j < NUMFDS" for j using that by (cases "j = i") auto
    have "minv e bs t ?s"
      using inv all False len i spec(2)
      by (auto simp: minv_def mloop_simps CB_OUT_def NUMFDS_def)
    moreover have "mview s' = mview ?s"
      using run r more False i len by (auto simp: read_part_def Let_def mloop_simps mview_def
          split: prod.splits if_splits)
    ultimately show ?thesis using minv_view by blast
  qed
qed

lemma fd_changes_append: "fd_changes badf (xs @ ys) t = fd_changes badf ys (fd_changes badf xs t)"
  by (induction xs arbitrary: t) auto

lemma try_close_inv: "minv e bs t s \<Longrightarrow> minv e bs t (try_close e i s)"
proof -
  assume inv: "minv e bs t s"
  then obtain xs where xs: "fdtab s = fd_changes (e_badf e) xs t" by (auto simp: minv_def)
  show "minv e bs t (try_close e i s)"
  proof (cases "my_copydone s i")
    case True
    have "fdtab (try_close e i s) = fd_changes (e_badf e)
        (xs @ [(nat (rdfd (cbuf_of s i)), FD_CLOSE), (nat (wrfd (cbuf_of s i)), FD_CLOSE)]) t"
      using True xs by (simp add: try_close_def fd_changes_append)
    then show ?thesis
      using inv True
      by (auto simp: try_close_def minv_def stream_ok_def carried_def mloop_simps)
  next
    case False
    then show ?thesis using inv by (simp add: try_close_def)
  qed
qed

lemma io_loop_inv:
  assumes "minv e bs t s" and "i < NUMFDS" and "io_loop fuel e i rd wr s = Some s'"
  shows "minv e bs t s'"
  using assms
proof (induction fuel arbitrary: rd wr s)
  case (Suc fuel)
  show ?case
  proof (cases "\<not> rd \<and> \<not> wr")
    case True
    then show ?thesis using Suc.prems by simp
  next
    case False
    obtain s1 wr1 where 1: "(if rd then read_part e i wr s else (s, wr)) = (s1, wr1)" by fastforce
    obtain s2 rd2 where 2: "(if wr1 then write_part e i s1 else (s1, False)) = (s2, rd2)" by fastforce
    have "minv e bs t s1"
      using 1 Suc.prems read_part_inv [of e bs t s i wr s1 wr1] by (auto split: if_splits)
    then have "minv e bs t s2"
      using 2 Suc.prems write_part_inv [of e bs t s1 i s2 rd2] by (auto split: if_splits)
    then have "minv e bs t (if \<not> rd2 then try_close e i s2 else s2)"
      by (simp add: try_close_inv)
    moreover have "io_loop fuel e i rd2 False (if \<not> rd2 then try_close e i s2 else s2) = Some s'"
      using Suc.prems(3) False 1 2 by simp
    ultimately show ?thesis using Suc.IH Suc.prems(2) by blast
  qed
qed simp

lemma io_all_inv:
  assumes "minv e bs t s" and "io_all fuel e s = Some s'"
  shows "minv e bs t s'"
proof -
  obtain s0 s1 where io: "io_stream fuel e 0 s = Some s0" "io_stream fuel e 1 s0 = Some s1"
    "io_stream fuel e 2 s1 = Some s'"
    using assms(2) by (auto simp: io_all_def bind_eq_Some_conv)
  have step: "minv e bs t u'" if "minv e bs t u" "io_stream fuel e i u = Some u'" "i < 3" for u u' i
    using io_loop_inv [OF that(1), of i] that(2,3) unfolding io_stream_def NUMFDS_def by blast
  have "minv e bs t s0" using step [OF assms(1) io(1)] by simp
  then have "minv e bs t s1" using step [OF _ io(2)] by simp
  then show ?thesis using step [OF _ io(3)] by simp
qed

section \<open>Turns\<close>

definition turn_ok :: "menv \<Rightarrow> copybuf list \<Rightarrow> fdt \<Rightarrow> turn \<Rightarrow> bool" where
  "turn_ok e bs t r \<longleftrightarrow>
     (case r of
       Next s \<Rightarrow> minv e bs t s
     | Done s \<Rightarrow> minv e bs t s \<and> backend_exited s \<and> my_copydone s 1 \<and> my_copydone s 2
     | Left s \<Rightarrow> minv e bs t s \<and> backend_exited s \<and> \<not> am_child s
         \<and> \<not> speedy_cb_canwrite (cbuf_of s 1) \<and> \<not> speedy_cb_canwrite (cbuf_of s 2)
     | Failed s \<Rightarrow> minv e bs t s)"

lemma wait_part_ok:
  assumes "minv e bs t s"
  shows "turn_ok e bs t (wait_part e s)"
proof -
  define s1 where "s1 = poll_reset s"
  define s2 where "s2 = (if \<not> backend_exited s1 then poll_set (e_sigpipe e) SPEEDY_POLLIN s1 else s1)"
  define s3 where "s3 = set_events 2 (set_events 1 (set_events 0 s2))"
  obtain n pi tv where w: "speedy_poll_wait (e_poll e (mclock s3)) (pinfo s3) = (n, pi, tv)"
    using prod_cases3 by blast
  define s4 where "s4 = mtick (s3\<lparr>pinfo := pi\<rparr>)"
  have view: "mview s4 = mview s"
    by (simp add: s4_def s3_def s2_def s1_def mloop_simps)
  have "wait_part e s = (if n < 1 then if n = - 1 \<and> e_poll e (mclock s3) \<noteq> PollErr EINTR then Failed s4
      else Next (poll_reset (if \<not> backend_exited s4 then s4\<lparr>got_sig := True\<rparr> else s4)) else Next s4)"
    by (simp only: wait_part_def Let_def w s1_def [symmetric] s2_def [symmetric] s3_def [symmetric]
        s4_def [symmetric] prod.case)
  moreover have view': "mview (poll_reset (if \<not> backend_exited s4 then s4\<lparr>got_sig := True\<rparr> else s4)) = mview s"
    using view by (simp add: mloop_simps)
  moreover note minv_view [OF view] minv_view [OF view']
  ultimately show ?thesis using assms by (simp add: turn_ok_def)
qed

lemma forked_inv: "minv e bs t s \<Longrightarrow> minv e bs t (record_ev (Forked p) s)"
  by (auto simp: minv_def stream_ok_def carried_def mloop_simps)

lemma my_copydone_simps [mloop_simps]:
  "my_copydone (mtick s) i = my_copydone s i"
  "my_copydone (record_ev x s) i = my_copydone s i"
  by (simp_all add: my_copydone_def mloop_simps)

lemma exited_part_ok:
  assumes "minv e bs t s" and "backend_exited s"
  shows "turn_ok e bs t (exited_part e s)"
proof -
  let ?f = "\<lambda>p. mtick (record_ev (Forked p) s)"
  have f: "minv e bs t (?f p)" for p
    using forked_inv [OF assms(1)] by (simp add: mloop_simps cong: minv_view)
  have child: "minv e bs t (?f p\<lparr>am_child := True, stop_sock_reads := False\<rparr>)" for p
    using f [of p] assms(2) by (auto simp: minv_def stream_ok_def carried_def mloop_simps)
  show ?thesis
    using assms f child wait_part_ok [OF assms(1)] wait_part_ok [OF child]
    by (auto simp: exited_part_def Let_def turn_ok_def mloop_simps)
qed

lemma collect_part_ok:
  assumes inv: "minv e bs t s" and no: "\<not> backend_exited s"
  shows "turn_ok e bs t (collect_part e s)"
proof (cases "e_status e (mclock s)")
  case None
  have "minv e bs t (mtick (s\<lparr>got_sig := False\<rparr>))"
    using inv minv_view by (metis mview_simps(1,5))
  then show ?thesis using None wait_part_ok by (simp add: collect_part_def)
next
  case (Some sv)
  obtain sig val where sv: "sv = (sig, val)" by fastforce
  let ?s = "mtick (record_ev (Collected sig val) (s\<lparr>backend_exited := True, exit_st := Some (sig, val)\<rparr>))"
  have s: "minv e bs t ?s"
    using inv no by (auto simp: minv_def stream_ok_def carried_def mloop_simps)
  define u where "u = poll_set (nat (wrfd (cbuf_of ?s 2))) SPEEDY_POLLOUT
    (poll_set (nat (rdfd (cbuf_of ?s 2))) SPEEDY_POLLIN
      (poll_set (nat (wrfd (cbuf_of ?s 1))) SPEEDY_POLLOUT
        (poll_set (nat (rdfd (cbuf_of ?s 1))) SPEEDY_POLLIN
          (poll_reset (?s\<lparr>got_sig := False, stop_sock_reads := True,
            read_stopped := [False, False, False]\<rparr>)))))"
  have cb: "cbuf_of (poll_set fd fl v) i = cbuf_of v i" "cbuf_of (poll_reset v) i = cbuf_of v i" for fd fl v i
    by (simp_all add: poll_set_def poll_reset_def mloop_simps)
  have "mview u = mview ?s" by (simp add: u_def mloop_simps)
  then have "minv e bs t u" using s minv_view by blast
  moreover have "collect_part e s = (if my_copydone ?s 1 \<and> my_copydone ?s 2 then Done ?s else Next u)"
    by (simp only: collect_part_def Let_def Some sv option.case prod.case u_def cb cbuf_of_simps)
  moreover have "backend_exited ?s" by (simp add: mloop_simps)
  ultimately show ?thesis using s by (auto simp: turn_ok_def)
qed

lemma turn_end_ok: "minv e bs t s \<Longrightarrow> turn_ok e bs t (turn_end e s)"
  using exited_part_ok collect_part_ok wait_part_ok by (auto simp: turn_end_def)

lemma copy_loop_ok:
  assumes "minv e bs t s" and "copy_loop fuel e s = Some r"
  shows "turn_ok e bs t r"
  using assms
proof (induction fuel arbitrary: s)
  case (Suc fuel)
  obtain u where u: "io_all fuel e s = Some u" using Suc.prems by (auto split: option.splits)
  then have "minv e bs t u" using Suc.prems io_all_inv by blast
  then have "turn_ok e bs t (turn_end e u)" by (rule turn_end_ok)
  then show ?case
    using Suc u by (cases "turn_end e u") (auto simp: turn_ok_def)
qed simp

lemma copy_loop_not_next: "copy_loop fuel e s \<noteq> Some (Next s')"
  by (induction fuel arbitrary: s) (auto split: option.splits turn.splits)

section \<open>From start to end\<close>

lemma main_cb_in_ok:
  assumes "0 \<le> sb_len b" "sb_len b \<le> alloced b" "alloced b = int (length (sb_buf b))"
  shows "cb_ok (main_cb_in sz b)" and "cb_data (main_cb_in sz b) = take (nat (sb_len b)) (sb_buf b)"
  using cb_init_ok [OF assms, of "max sz (alloced b)"] by (simp_all add: main_cb_in_def)

lemma mstart_inv:
  assumes ok: "cb_ok cb_in" and sz: "0 \<le> bufsizget"
  shows "\<exists>bs. minv e bs (sock_fds e junk socks t) (mstart e junk bufsizget cb_in socks t)
    \<and> cb_data (bs ! 0) = cb_data cb_in \<and> cb_data (bs ! 1) = [] \<and> cb_data (bs ! 2) = []"
proof -
  define t0 where "t0 = sock_fds e junk socks t"
  define b0 where "b0 = (if fd_closed t0 0 then speedy_cb_seteof (speedy_cb_setfd 0 (int (socks ! 0)) cb_in)
    else speedy_cb_setfd 0 (int (socks ! 0)) cb_in)"
  define b1 where "b1 = (if fd_closed t0 1 then speedy_cb_set_write_err EBADF
      (speedy_cb_init bufsizget (int (socks ! 1)) 1 None) else speedy_cb_init bufsizget (int (socks ! 1)) 1 None)"
  define b2 where "b2 = (if fd_closed t0 2 then speedy_cb_set_write_err EBADF
      (speedy_cb_init 512 (int (socks ! 2)) 2 None) else speedy_cb_init 512 (int (socks ! 2)) 2 None)"
  have b: "cb_ok b0" "cb_data b0 = cb_data cb_in" "cb_ok b1" "cb_data b1 = []" "cb_ok b2" "cb_data b2 = []"
    using ok cb_init_empty [of bufsizget "int (socks ! 1)" 1] cb_init_empty [of 512 "int (socks ! 2)" 2] sz
    by (auto simp: b0_def b1_def b2_def cb_ok_def cb_data_def speedy_cb_seteof_def
        speedy_cb_setfd_def speedy_cb_set_write_err_def)
  define s where "s = \<lparr>cbs = [b0, b1, b2], got_stdout = False, stop_sock_reads = False,
               read_stopped = [False, False, False], backend_exited = False, am_child = False,
               got_sig = False, pinfo = speedy_poll_reset (speedy_poll_init
                 (max (socks ! 0) (max (socks ! 1) (socks ! 2)))), fdtab = t0,
               exit_st = None, mclock = 0, trace = []\<rparr>"
  have three: "i = 0 \<or> i = 1 \<or> i = 2" if "i < 3" for i :: nat using that by auto
  have "minv e [b0, b1, b2] t0 s"
    using b
    by (auto simp: minv_def s_def NUMFDS_def CB_OUT_def stream_ok_def carried_def cbuf_of_def
        cb_same_def intro: exI [of _ "[]"] dest!: three)
  then have inv: "minv e [b0, b1, b2] t0 u" if "mview u = mview s" for u
    using minv_view [OF that] by simp
  define s' where "s' = (let
      s = (if \<not> e_tty e \<and> my_canread s 0 then poll_set 0 SPEEDY_POLLIN s else s);
      s = (if my_canread s 1 then poll_set (nat (rdfd b1)) SPEEDY_POLLIN s else s);
      s = (if my_canread s 2 then poll_set (nat (rdfd b2)) SPEEDY_POLLIN s else s)
    in if speedy_cb_canwrite b0 then poll_set (nat (wrfd b0)) SPEEDY_POLLOUT s else s)"
  have "mview s' = mview s" by (simp add: s'_def Let_def mloop_simps)
  moreover have "mstart e junk bufsizget cb_in socks t = try_close e 2 (try_close e 1 (try_close e 0 s'))"
    unfolding mstart_def s'_def Let_def t0_def [symmetric] b0_def [symmetric] b1_def [symmetric]
      b2_def [symmetric] s_def [symmetric] by (rule refl)
  ultimately have "minv e [b0, b1, b2] t0 (mstart e junk bufsizget cb_in socks t)"
    using inv by (simp add: try_close_inv)
  then show ?thesis using b by (intro exI [of _ "[b0, b1, b2]"]) (simp add: t0_def)
qed

definition turn_state :: "turn \<Rightarrow> mloop" where
  "turn_state r = (case r of Next s \<Rightarrow> s | Done s \<Rightarrow> s | Left s \<Rightarrow> s | Failed s \<Rightarrow> s)"

lemma copy_loop_inv:
  assumes "cb_ok cb_in" and "0 \<le> bufsizget"
    and "copy_loop fuel e (mstart e junk bufsizget cb_in socks t) = Some r"
  obtains bs where "minv e bs (sock_fds e junk socks t) (turn_state r)"
    and "turn_ok e bs (sock_fds e junk socks t) r"
    and "cb_data (bs ! 0) = cb_data cb_in" "cb_data (bs ! 1) = []" "cb_data (bs ! 2) = []"
proof -
  obtain bs where bs: "minv e bs (sock_fds e junk socks t) (mstart e junk bufsizget cb_in socks t)"
    "cb_data (bs ! 0) = cb_data cb_in" "cb_data (bs ! 1) = []" "cb_data (bs ! 2) = []"
    using mstart_inv [OF assms(1,2)] by blast
  have "turn_ok e bs (sock_fds e junk socks t) r" using copy_loop_ok [OF bs(1) assms(3)] .
  moreover from this have "minv e bs (sock_fds e junk socks t) (turn_state r)"
    by (auto simp: turn_ok_def turn_state_def split: turn.splits)
  ultimately show ?thesis using that bs by blast
qed

text \<open>In order, at any end.\<close>

lemma streams_in_order:
  assumes "cb_ok cb_in" and "0 \<le> bufsizget"
    and "copy_loop fuel e (mstart e junk bufsizget cb_in socks t) = Some r"
  shows "\<exists>rest. cb_data cb_in @ rcvd 0 (trace (turn_state r)) = sent 0 (trace (turn_state r)) @ rest"
    and "\<exists>rest. tl (rcvd 1 (trace (turn_state r))) = sent 1 (trace (turn_state r)) @ rest"
    and "\<exists>rest. rcvd 2 (trace (turn_state r)) = sent 2 (trace (turn_state r)) @ rest"
    and "collected (trace (turn_state r)) \<le> 1"
    and "fd < length (fdinfo (sock_fds e junk socks t)) \<Longrightarrow>
      \<exists>cs. calls (fdtab (turn_state r)) = calls (sock_fds e junk socks t) @ cs
        \<and> count_list cs (Close fd) \<le> 1"
proof -
  obtain bs where bs: "minv e bs (sock_fds e junk socks t) (turn_state r)"
    "cb_data (bs ! 0) = cb_data cb_in" "cb_data (bs ! 1) = []" "cb_data (bs ! 2) = []"
    using copy_loop_inv [OF assms] by blast
  have st: "\<exists>rest. carried bs i (turn_state r) = sent i (trace (turn_state r)) @ rest" if "i < 3" for i
    using bs(1) that by (auto simp: minv_def stream_ok_def NUMFDS_def)
  show "\<exists>rest. cb_data cb_in @ rcvd 0 (trace (turn_state r)) = sent 0 (trace (turn_state r)) @ rest"
    "\<exists>rest. rcvd 2 (trace (turn_state r)) = sent 2 (trace (turn_state r)) @ rest"
    using st [of 0] st [of 2] bs by (simp_all add: carried_def CB_OUT_def)
  show "\<exists>rest. tl (rcvd 1 (trace (turn_state r))) = sent 1 (trace (turn_state r)) @ rest"
    using st [of 1] bs by (auto simp: carried_def CB_OUT_def minv_def split: if_splits)
  show "collected (trace (turn_state r)) \<le> 1" using bs(1) by (auto simp: minv_def)
  show "\<exists>cs. calls (fdtab (turn_state r)) = calls (sock_fds e junk socks t) @ cs
        \<and> count_list cs (Close fd) \<le> 1"
    if "fd < length (fdinfo (sock_fds e junk socks t))"
    using bs(1) fd_changes_once [OF that] by (auto simp: minv_def)
qed

text \<open>Complete, when the loop is over.\<close>

lemma streams_complete:
  assumes "cb_ok cb_in" and "0 \<le> bufsizget"
    and "copy_loop fuel e (mstart e junk bufsizget cb_in socks t) = Some (Done s)"
  shows "exit_st s \<noteq> None" and "collected (trace s) = 1"
    and "write_err (cbuf_of s 1) = 0 \<Longrightarrow> eof (cbuf_of s 1) \<and> sent 1 (trace s) = tl (rcvd 1 (trace s))"
    and "write_err (cbuf_of s 2) = 0 \<Longrightarrow> eof (cbuf_of s 2) \<and> sent 2 (trace s) = rcvd 2 (trace s)"
proof -
  obtain bs where bs: "minv e bs (sock_fds e junk socks t) s"
    "turn_ok e bs (sock_fds e junk socks t) (Done s)" "cb_data (bs ! 1) = []" "cb_data (bs ! 2) = []"
    using copy_loop_inv [OF assms] by (auto simp: turn_state_def)
  show "exit_st s \<noteq> None" "collected (trace s) = 1" using bs(1,2) by (auto simp: minv_def turn_ok_def)
  have st: "stream_ok bs i s" if "i < 3" for i using bs(1) that by (auto simp: minv_def NUMFDS_def)
  have end': "eof (cbuf_of s i) \<and> carried bs i s = sent i (trace s)"
    if "i = 1 \<or> i = 2" "write_err (cbuf_of s i) = 0" for i
  proof -
    have i: "stream_ok bs i s" using st that by auto
    have "eof (cbuf_of s i) \<and> speedy_cb_data_len (cbuf_of s i) = 0"
      using bs(2) that by (auto simp: turn_ok_def my_copydone_def speedy_cb_copydone_def)
    then show ?thesis using i that(2) cb_data_len [of "cbuf_of s i"] by (auto simp: stream_ok_def)
  qed
  show "eof (cbuf_of s 1) \<and> sent 1 (trace s) = tl (rcvd 1 (trace s))"
    if "write_err (cbuf_of s 1) = 0"
    using end' [of 1] that bs by (auto simp: carried_def CB_OUT_def minv_def split: if_splits)
  show "eof (cbuf_of s 2) \<and> sent 2 (trace s) = rcvd 2 (trace s)"
    if "write_err (cbuf_of s 2) = 0"
    using end' [of 2] that bs by (simp add: carried_def CB_OUT_def)
qed

end
