(* ===== verification/Wire.thy ===== *)
theory Wire
  imports CopyBuf
begin

text \<open>
  What the frontend sends the backend ahead of stdin, and how the backend reads it: the growing
  buffer and \<open>speedy_frontend_mkenv\<close> of src/src/speedy_frontend.c against \<open>get_string\<close> and the first
  part of \<open>onerun\<close> in src/src/speedy_perl.c. A C string is the list of its bytes before the NUL.
\<close>

section \<open>Growing buffers\<close>

definition SPEEDY_REALLOC_MULT :: int where "SPEEDY_REALLOC_MULT = 2"
definition MAX_SHORT_STR :: nat where "MAX_SHORT_STR = 255"

definition sb_ok :: "speedy_buf \<Rightarrow> bool" where
  "sb_ok b \<longleftrightarrow> alloced b = int (length (sb_buf b)) \<and> 0 \<le> sb_len b \<and> sb_len b \<le> alloced b"

definition sb_content :: "speedy_buf \<Rightarrow> byte list" where
  "sb_content b = take (nat (sb_len b)) (sb_buf b)"

text \<open>\<open>junk\<close> is what is in fresh memory.\<close>

definition enlarge_buf :: "(nat \<Rightarrow> byte) \<Rightarrow> int \<Rightarrow> speedy_buf \<Rightarrow> speedy_buf" where
  "enlarge_buf junk min_to_add b =
     (let new_size = alloced b * SPEEDY_REALLOC_MULT;
          min_size = sb_len b + min_to_add;
          new_size = (if new_size < min_size then min_size else new_size)
      in b\<lparr>alloced := new_size,
           sb_buf := the (speedy_renew \<lparr>k_oom = False, k_junk = junk\<rparr> new_size (sb_buf b))\<rparr>)"

definition alloc_buf :: "(nat \<Rightarrow> byte) \<Rightarrow> int \<Rightarrow> speedy_buf" where
  "alloc_buf junk bytes = \<lparr>sb_buf = map junk [0..<nat bytes], alloced = bytes, sb_len = 0\<rparr>"

definition BUF_ENLARGE :: "(nat \<Rightarrow> byte) \<Rightarrow> int \<Rightarrow> speedy_buf \<Rightarrow> speedy_buf" where
  "BUF_ENLARGE junk l b = (if sb_len b + l > alloced b then enlarge_buf junk l b else b)"

definition ADD2 :: "byte list \<Rightarrow> speedy_buf \<Rightarrow> speedy_buf" where
  "ADD2 xs b = b\<lparr>sb_buf := poke (nat (sb_len b)) xs (sb_buf b), sb_len := sb_len b + int (length xs)\<rparr>"

definition ADD :: "(nat \<Rightarrow> byte) \<Rightarrow> byte list \<Rightarrow> speedy_buf \<Rightarrow> speedy_buf" where
  "ADD junk xs b = ADD2 xs (BUF_ENLARGE junk (int (length xs)) b)"

definition ADDCHAR2 :: "byte \<Rightarrow> speedy_buf \<Rightarrow> speedy_buf" where
  "ADDCHAR2 c b = b\<lparr>sb_buf := (sb_buf b)[nat (sb_len b) := c], sb_len := sb_len b + 1\<rparr>"

definition ADDCHAR :: "(nat \<Rightarrow> byte) \<Rightarrow> byte \<Rightarrow> speedy_buf \<Rightarrow> speedy_buf" where
  "ADDCHAR junk c b = ADDCHAR2 c (BUF_ENLARGE junk 1 b)"

text \<open>The bytes of an integer in memory, least significant first.\<close>

primrec le_bytes :: "nat \<Rightarrow> int \<Rightarrow> byte list" where
  "le_bytes 0 n = []"
| "le_bytes (Suc k) n = word_of_int (n mod 256) # le_bytes k (n div 256)"

primrec le_uint :: "byte list \<Rightarrow> int" where
  "le_uint [] = 0"
| "le_uint (b # bs) = uint b + 256 * le_uint bs"

definition le_sint :: "byte list \<Rightarrow> int" where
  "le_sint bs = (if le_uint bs < 2 ^ (8 * length bs - 1) then le_uint bs
     else le_uint bs - 2 ^ (8 * length bs))"

definition SIZEOF_INT :: nat where "SIZEOF_INT = 4"

definition ADD_STRING :: "(nat \<Rightarrow> byte) \<Rightarrow> byte list \<Rightarrow> speedy_buf \<Rightarrow> speedy_buf" where
  "ADD_STRING junk s b =
     (let l = length s;
          b = (if l \<ge> MAX_SHORT_STR
               then ADD2 (le_bytes SIZEOF_INT (int l))
                 (ADDCHAR2 (of_nat MAX_SHORT_STR) (BUF_ENLARGE junk (int SIZEOF_INT + 1) b))
               else ADDCHAR junk (of_nat l) b)
      in ADD junk s b)"

definition add_string :: "(nat \<Rightarrow> byte) \<Rightarrow> byte list \<Rightarrow> speedy_buf \<Rightarrow> speedy_buf" where
  "add_string junk s b = ADD_STRING junk s b"

primrec add_strings :: "(nat \<Rightarrow> byte) \<Rightarrow> byte list list \<Rightarrow> speedy_buf \<Rightarrow> speedy_buf" where
  "add_strings junk [] b = ADDCHAR junk 0 b"
| "add_strings junk (s # p) b =
     add_strings junk p (if length s \<noteq> 0 then ADD_STRING junk s b else b)"

record devino =
  d_ino :: int
  d_dev :: int

definition SIZEOF_INO :: nat where "SIZEOF_INO = 8"

definition devino_bytes :: "devino \<Rightarrow> byte list" where
  "devino_bytes d = le_bytes SIZEOF_INO (d_ino d) @ le_bytes SIZEOF_INO (d_dev d)"

definition ADD_DEVINO :: "(nat \<Rightarrow> byte) \<Rightarrow> devino \<Rightarrow> speedy_buf \<Rightarrow> speedy_buf" where
  "ADD_DEVINO junk d b = ADD junk (devino_bytes d) b"

definition SPEEDY_CWD_IN_SCRIPT :: byte where "SPEEDY_CWD_IN_SCRIPT = 0"
definition SPEEDY_CWD_DEVINO :: byte where "SPEEDY_CWD_DEVINO = 1"
definition SPEEDY_CWD_UNKNOWN :: byte where "SPEEDY_CWD_UNKNOWN = 2"

text \<open>\<open>dir_stat\<close> is the answer of \<open>stat(".")\<close>.\<close>

definition speedy_frontend_mkenv :: "(nat \<Rightarrow> byte) \<Rightarrow> byte list list \<Rightarrow> byte list list \<Rightarrow> int
    \<Rightarrow> byte list \<Rightarrow> devino \<Rightarrow> devino option \<Rightarrow> bool \<Rightarrow> speedy_buf" where
  "speedy_frontend_mkenv junk envp scr_argv min_alloc script_fname script_stat dir_stat script_has_cwd =
     (let sb = alloc_buf junk (max 512 min_alloc);
          sb = add_strings junk envp sb;
          sb = add_strings junk (tl scr_argv) sb;
          sb = add_string junk script_fname sb;
          sb = ADD_DEVINO junk script_stat sb
      in if script_has_cwd then ADDCHAR junk SPEEDY_CWD_IN_SCRIPT sb
         else case dir_stat of
             Some d \<Rightarrow> ADD_DEVINO junk d (ADDCHAR junk SPEEDY_CWD_DEVINO sb)
           | None \<Rightarrow> ADDCHAR junk SPEEDY_CWD_UNKNOWN sb)"

section \<open>The format\<close>

definition str_wire :: "byte list \<Rightarrow> byte list" where
  "str_wire s =
     (if length s \<ge> MAX_SHORT_STR then of_nat MAX_SHORT_STR # le_bytes SIZEOF_INT (int (length s))
      else [of_nat (length s)]) @ s"

definition strs_wire :: "byte list list \<Rightarrow> byte list" where
  "strs_wire p = concat (map str_wire (filter (\<lambda>s. s \<noteq> []) p)) @ [0]"

definition cwd_wire :: "devino option \<Rightarrow> bool \<Rightarrow> byte list" where
  "cwd_wire dir_stat script_has_cwd =
     (if script_has_cwd then [SPEEDY_CWD_IN_SCRIPT]
      else case dir_stat of
          Some d \<Rightarrow> SPEEDY_CWD_DEVINO # devino_bytes d
        | None \<Rightarrow> [SPEEDY_CWD_UNKNOWN])"

text \<open>Adding to the buffer.\<close>

lemma length_le_bytes [simp]: "length (le_bytes k n) = k"
  by (induction k arbitrary: n) auto

lemma length_devino_bytes [simp]: "length (devino_bytes d) = 16"
  by (simp add: devino_bytes_def SIZEOF_INO_def)

lemma alloc_buf_ok:
  assumes "0 \<le> n"
  shows "sb_ok (alloc_buf junk n)" and "sb_content (alloc_buf junk n) = []"
  using assms by (simp_all add: sb_ok_def sb_content_def alloc_buf_def)

text \<open>\<open>b\<close> has the bytes \<open>xs\<close>.\<close>

definition holds :: "speedy_buf \<Rightarrow> byte list \<Rightarrow> bool" where
  "holds b xs \<longleftrightarrow> sb_ok b \<and> sb_content b = xs"

lemma holds_len: "holds b xs \<Longrightarrow> sb_len b = int (length xs)"
  by (auto simp: holds_def sb_ok_def sb_content_def)

lemma holds_enlarge:
  assumes "holds b xs" and "0 \<le> l"
  shows "holds (BUF_ENLARGE junk l b) xs"
    and "int (length xs) + l \<le> alloced (BUF_ENLARGE junk l b)"
    and "int (length xs) + l \<le> alloced b \<Longrightarrow> alloced (BUF_ENLARGE junk l b) = alloced b"
proof -
  define n where "n = (if alloced b * 2 < sb_len b + l then sb_len b + l else alloced b * 2)"
  have b: "alloced b = int (length (sb_buf b))" "0 \<le> sb_len b" "sb_len b \<le> alloced b"
    "take (nat (sb_len b)) (sb_buf b) = xs"
    using assms(1) by (auto simp: holds_def sb_ok_def sb_content_def)
  have n: "alloced b \<le> n" "sb_len b + l \<le> n" using b by (auto simp: n_def)
  obtain m where m: "speedy_renew \<lparr>k_oom = False, k_junk = junk\<rparr> n (sb_buf b) = Some m"
    by (simp add: speedy_renew_def)
  have m': "int (length m) = n" "take (length (sb_buf b)) m = sb_buf b"
    using renew_keeps [OF m] b n by simp_all
  have e: "enlarge_buf junk l b = b\<lparr>alloced := n, sb_buf := m\<rparr>"
    using m by (simp add: enlarge_buf_def Let_def n_def SPEEDY_REALLOC_MULT_def)
  have "take (nat (sb_len b)) m = xs"
    using b m'(2) by (metis min.absorb2 nat_le_iff of_nat_le_iff take_take min.commute)
  then have "holds (enlarge_buf junk l b) xs"
    using b m' n by (simp add: e holds_def sb_ok_def sb_content_def)
  then show "holds (BUF_ENLARGE junk l b) xs"
    using assms by (simp add: BUF_ENLARGE_def)
  show "int (length xs) + l \<le> alloced (BUF_ENLARGE junk l b)"
    "int (length xs) + l \<le> alloced b \<Longrightarrow> alloced (BUF_ENLARGE junk l b) = alloced b"
    using n holds_len [OF assms(1)] by (simp_all add: BUF_ENLARGE_def e)
qed

lemma holds_ADD2:
  assumes "holds b xs" and "int (length xs) + int (length ys) \<le> alloced b"
  shows "holds (ADD2 ys b) (xs @ ys)" and "alloced (ADD2 ys b) = alloced b"
proof -
  have b: "alloced b = int (length (sb_buf b))" "sb_len b = int (length xs)"
    "take (length xs) (sb_buf b) = xs" "length xs \<le> length (sb_buf b)"
    using assms(1) holds_len [OF assms(1)] by (auto simp: holds_def sb_ok_def sb_content_def)
  then have "length xs + length ys \<le> length (sb_buf b)" using assms(2) by linarith
  then show "holds (ADD2 ys b) (xs @ ys)"
    using b by (simp add: holds_def sb_ok_def sb_content_def ADD2_def poke_def nat_add_distrib)
  show "alloced (ADD2 ys b) = alloced b" by (simp add: ADD2_def)
qed

lemma holds_ADDCHAR2:
  assumes "holds b xs" and "int (length xs) + 1 \<le> alloced b"
  shows "holds (ADDCHAR2 c b) (xs @ [c])" and "alloced (ADDCHAR2 c b) = alloced b"
proof -
  have b: "alloced b = int (length (sb_buf b))" "sb_len b = int (length xs)"
    "take (length xs) (sb_buf b) = xs" "length xs \<le> length (sb_buf b)"
    using assms(1) holds_len [OF assms(1)] by (auto simp: holds_def sb_ok_def sb_content_def)
  then have "length xs < length (sb_buf b)" using assms(2) by linarith
  moreover from this have "take (Suc (length xs)) ((sb_buf b)[length xs := c]) = xs @ [c]"
    using b by (simp add: take_Suc_conv_app_nth)
  ultimately show "holds (ADDCHAR2 c b) (xs @ [c])"
    using b by (simp add: holds_def sb_ok_def sb_content_def ADDCHAR2_def nat_add_distrib)
  show "alloced (ADDCHAR2 c b) = alloced b" by (simp add: ADDCHAR2_def)
qed

lemma holds_ADD: "holds b xs \<Longrightarrow> holds (ADD junk ys b) (xs @ ys)"
  unfolding ADD_def using holds_enlarge [of b xs "int (length ys)"]
  by (intro holds_ADD2) simp_all

lemma holds_ADDCHAR: "holds b xs \<Longrightarrow> holds (ADDCHAR junk c b) (xs @ [c])"
  unfolding ADDCHAR_def using holds_enlarge [of b xs 1]
  by (intro holds_ADDCHAR2) simp_all

lemma holds_ADD_STRING:
  assumes "holds b xs"
  shows "holds (ADD_STRING junk s b) (xs @ str_wire s)"
proof (cases "length s \<ge> MAX_SHORT_STR")
  case True
  let ?b = "BUF_ENLARGE junk (int SIZEOF_INT + 1) b"
  have e: "holds ?b xs" "int (length xs) + (int SIZEOF_INT + 1) \<le> alloced ?b"
    using holds_enlarge [OF assms, of "int SIZEOF_INT + 1"] by simp_all
  have c: "holds (ADDCHAR2 (of_nat MAX_SHORT_STR) ?b) (xs @ [of_nat MAX_SHORT_STR])"
    "alloced (ADDCHAR2 (of_nat MAX_SHORT_STR) ?b) = alloced ?b"
    using holds_ADDCHAR2 [OF e(1)] e(2) by simp_all
  have "holds (ADD2 (le_bytes SIZEOF_INT (int (length s))) (ADDCHAR2 (of_nat MAX_SHORT_STR) ?b))
      ((xs @ [of_nat MAX_SHORT_STR]) @ le_bytes SIZEOF_INT (int (length s)))"
    using c e(2) by (intro holds_ADD2) simp_all
  from holds_ADD [OF this, of junk s] show ?thesis
    using True by (simp add: ADD_STRING_def Let_def str_wire_def)
next
  case False
  then show ?thesis
    using holds_ADD [OF holds_ADDCHAR [OF assms], of junk s] 
    by (simp add: ADD_STRING_def Let_def str_wire_def)
qed

lemma holds_add_strings: "holds b xs \<Longrightarrow> holds (add_strings junk p b) (xs @ strs_wire p)"
proof (induction p arbitrary: b xs)
  case Nil
  then show ?case by (simp add: strs_wire_def holds_ADDCHAR)
next
  case (Cons s p)
  then show ?case
    using Cons.IH [OF holds_ADD_STRING [OF Cons.prems, of junk s]] Cons.IH [OF Cons.prems]
    by (simp add: strs_wire_def)
qed

definition env_wire :: "byte list list \<Rightarrow> byte list list \<Rightarrow> byte list \<Rightarrow> devino \<Rightarrow> devino option \<Rightarrow> bool
    \<Rightarrow> byte list" where
  "env_wire envp args fname script_stat dir_stat script_has_cwd =
     strs_wire envp @ strs_wire args @ str_wire fname @ devino_bytes script_stat
       @ cwd_wire dir_stat script_has_cwd"

lemma mkenv_spec:
  "holds (speedy_frontend_mkenv junk envp scr_argv min_alloc fname script_stat dir_stat in_script)
     (env_wire envp (tl scr_argv) fname script_stat dir_stat in_script)"
proof -
  define b0 where "b0 = alloc_buf junk (max 512 min_alloc)"
  define b1 where "b1 = add_strings junk (tl scr_argv) (add_strings junk envp b0)"
  define b2 where "b2 = ADD junk (devino_bytes script_stat) (ADD_STRING junk fname b1)"
  have 0: "holds b0 []"
    using alloc_buf_ok [of "max 512 min_alloc"] by (simp add: holds_def b0_def)
  have 1: "holds b1 (strs_wire envp @ strs_wire (tl scr_argv))"
    unfolding b1_def using holds_add_strings [OF holds_add_strings [OF 0]] by simp
  have 2: "holds b2 (strs_wire envp @ strs_wire (tl scr_argv) @ str_wire fname @ devino_bytes script_stat)"
    unfolding b2_def using holds_ADD [OF holds_ADD_STRING [OF 1]] by simp
  have "speedy_frontend_mkenv junk envp scr_argv min_alloc fname script_stat dir_stat in_script =
    (if in_script then ADDCHAR junk SPEEDY_CWD_IN_SCRIPT b2
     else case dir_stat of
         Some d \<Rightarrow> ADD junk (devino_bytes d) (ADDCHAR junk SPEEDY_CWD_DEVINO b2)
       | None \<Rightarrow> ADDCHAR junk SPEEDY_CWD_UNKNOWN b2)"
    by (cases dir_stat)
      (simp_all add: speedy_frontend_mkenv_def Let_def add_string_def ADD_DEVINO_def b0_def b1_def b2_def)
  then show ?thesis
    using holds_ADDCHAR [OF 2] holds_ADD [OF holds_ADDCHAR [OF 2]]
    by (simp add: env_wire_def cwd_wire_def split: option.split)
qed

section \<open>Reading it\<close>

text \<open>
  A string read off the stream: an error that ends the process (end of file where a length is due),
  NULL for the empty string, or a string and the rest of the stream. Where the stream ends before
  the string does, the buffer keeps what was in the memory, \<open>junk\<close>. A negative length makes the
  code read past its buffer (\<open>Overrun\<close>).
\<close>

datatype 'a got = Protocol_error | Overrun | Null "byte list" | Got 'a "byte list"

definition perlio_read :: "(nat \<Rightarrow> byte) \<Rightarrow> nat \<Rightarrow> byte list \<Rightarrow> byte list \<times> byte list" where
  "perlio_read junk n xs = (take n xs @ map junk [length (take n xs)..<n], List.drop n xs)"

definition get_string :: "(nat \<Rightarrow> byte) \<Rightarrow> byte list \<Rightarrow> byte list got" where
  "get_string junk pio =
     (case pio of
       [] \<Rightarrow> Protocol_error
     | c # pio \<Rightarrow>
        if c = 0 then Null pio
        else case (if unat c = MAX_SHORT_STR
                   then case perlio_read junk SIZEOF_INT pio of (bs, pio) \<Rightarrow> (le_sint bs, pio)
                   else (uint c, pio)) of
          (sz, pio) \<Rightarrow>
            (if sz < 0 then Overrun
             else case perlio_read junk (nat sz) pio of (buf, pio) \<Rightarrow> Got buf pio))"

definition get_devino :: "(nat \<Rightarrow> byte) \<Rightarrow> byte list \<Rightarrow> devino \<times> byte list" where
  "get_devino junk pio =
     (case perlio_read junk (2 * SIZEOF_INO) pio of (bs, pio) \<Rightarrow>
       (\<lparr>d_ino = le_sint (take SIZEOF_INO bs), d_dev = le_sint (List.drop SIZEOF_INO bs)\<rparr>, pio))"

text \<open>
  The loops that read strings until NULL; the stream is shorter after every string, so its length
  bounds the number of turns.
\<close>

primrec get_all :: "nat \<Rightarrow> (byte list \<Rightarrow> 'a got) \<Rightarrow> byte list \<Rightarrow> ('a list \<times> byte list) option" where
  "get_all 0 get pio = None"
| "get_all (Suc fuel) get pio =
     (case get pio of
       Protocol_error \<Rightarrow> None
     | Overrun \<Rightarrow> None
     | Null pio \<Rightarrow> Some ([], pio)
     | Got x pio \<Rightarrow>
        (case get_all fuel get pio of None \<Rightarrow> None | Some (xs, pio) \<Rightarrow> Some (x # xs, pio)))"

definition get_strings :: "(nat \<Rightarrow> byte) \<Rightarrow> byte list \<Rightarrow> (byte list list \<times> byte list) option" where
  "get_strings junk pio = get_all (Suc (length pio)) (get_string junk) pio"

text \<open>Key and value of an entry of the environment; entries without \<open>=\<close> are left out.\<close>

fun split_at :: "byte \<Rightarrow> byte list \<Rightarrow> (byte list \<times> byte list) option" where
  "split_at c [] = None"
| "split_at c (x # xs) =
     (if x = c then Some ([], xs)
      else case split_at c xs of None \<Rightarrow> None | Some (k, v) \<Rightarrow> Some (x # k, v))"

definition EQUALS :: byte where "EQUALS = 61"

definition env_pairs :: "byte list list \<Rightarrow> (byte list \<times> byte list) list" where
  "env_pairs = List.map_filter (split_at EQUALS)"

text \<open>The hash \<open>%ENV\<close>: the last value stored for a key.\<close>

definition perl_env :: "byte list list \<Rightarrow> (byte list \<rightharpoonup> byte list)" where
  "perl_env env = fold (\<lambda>(k, v) m. m(k \<mapsto> v)) (env_pairs env) Map.empty"

record request =
  rq_env :: "byte list list"
  rq_argv :: "byte list list"
  rq_path :: "byte list option"
  rq_script :: devino
  rq_where :: "byte option"
  rq_cwd :: "devino option"

text \<open>\<open>None\<close>: no request, because of a protocol error or an overrun.\<close>

definition read_request :: "(nat \<Rightarrow> byte) \<Rightarrow> byte list \<Rightarrow> (request \<times> byte list) option" where
  "read_request junk pio =
     (case get_strings junk pio of None \<Rightarrow> None | Some (env, pio) \<Rightarrow>
      case get_strings junk pio of None \<Rightarrow> None | Some (argv, pio) \<Rightarrow>
      case (case get_string junk pio of
              Protocol_error \<Rightarrow> None
            | Overrun \<Rightarrow> None
            | Null pio \<Rightarrow> Some (None, pio)
            | Got s pio \<Rightarrow> Some (Some s, pio)) of
        None \<Rightarrow> None
      | Some (path, pio) \<Rightarrow>
        (case get_devino junk pio of (script, pio) \<Rightarrow>
         case (case pio of [] \<Rightarrow> (None, []) | c # pio \<Rightarrow> (Some c, pio)) of (cwd_where, pio) \<Rightarrow>
         case (if cwd_where = Some SPEEDY_CWD_DEVINO
               then case get_devino junk pio of (d, pio) \<Rightarrow> (Some d, pio)
               else (None, pio)) of (cwd, pio) \<Rightarrow>
         Some (\<lparr>rq_env = env, rq_argv = argv, rq_path = path, rq_script = script,
                rq_where = cwd_where, rq_cwd = cwd\<rparr>, pio)))"

section \<open>The round trip\<close>

text \<open>
  The interface of a reader of terminated sequences: it gives back every valid item that was put
  ahead of anything else, and knows the terminator.
\<close>

locale codec =
  fixes put :: "'a \<Rightarrow> byte list"
    and get :: "byte list \<Rightarrow> 'a got"
    and stop :: "byte list"
    and valid :: "'a \<Rightarrow> bool"
  assumes get_put: "valid x \<Longrightarrow> get (put x @ rest) = Got x rest"
    and get_stop: "get (stop @ rest) = Null rest"
begin

lemma get_all_put:
  "list_all valid xs \<Longrightarrow> length xs < fuel \<Longrightarrow>
    get_all fuel get (concat (map put xs) @ stop @ rest) = Some (xs, rest)"
proof (induction xs arbitrary: fuel)
  case Nil
  then show ?case by (cases fuel) (simp_all add: get_stop)
next
  case (Cons x xs)
  then obtain f where "fuel = Suc f" "length xs < f" by (cases fuel) auto
  then show ?case using Cons by (simp add: get_put)
qed

end

lemma le_uint_le_bytes: "le_uint (le_bytes k n) = n mod 256 ^ k"
proof (induction k arbitrary: n)
  case (Suc k)
  have "uint (word_of_int (n mod 256) :: byte) = n mod 256"
    by (simp add: uint_word_of_int)
  moreover have "n mod (256 * 256 ^ k) = 256 * (n div 256 mod 256 ^ k) + n mod 256"
    by (rule zmod_zmult2_eq) simp
  ultimately show ?case using Suc by simp
qed simp

lemma le_sint_le_bytes:
  assumes "0 < k" and "- (2 ^ (8 * k - 1)) \<le> n" and "n < 2 ^ (8 * k - 1)"
  shows "le_sint (le_bytes k n) = n"
proof -
  have p: "(256 :: int) ^ k = 2 ^ (8 * k)" by (simp add: power_mult)
  have h: "(2 :: int) ^ (8 * k) = 2 * 2 ^ (8 * k - 1)"
    using assms(1) by (simp flip: power_Suc)
  show ?thesis
  proof (cases "0 \<le> n")
    case True
    then have "n mod 2 ^ (8 * k) = n" using assms h by (intro mod_pos_pos_trivial) auto
    then show ?thesis using assms by (simp add: le_sint_def le_uint_le_bytes p)
  next
    case False
    then have "(n + 2 ^ (8 * k)) mod 2 ^ (8 * k) = n + 2 ^ (8 * k)"
      using assms h by (intro mod_pos_pos_trivial) auto
    then have "n mod 2 ^ (8 * k) = n + 2 ^ (8 * k)" by simp
    then show ?thesis using assms h by (simp add: le_sint_def le_uint_le_bytes p)
  qed
qed

lemma perlio_read_append: "length xs = n \<Longrightarrow> perlio_read junk n (xs @ rest) = (xs, rest)"
  by (simp add: perlio_read_def)

definition wire_str :: "byte list \<Rightarrow> bool" where
  "wire_str s \<longleftrightarrow> s \<noteq> [] \<and> length s < 2 ^ 31"

lemma get_string_wire:
  assumes "wire_str s"
  shows "get_string junk (str_wire s @ rest) = Got s rest"
proof (cases "length s \<ge> MAX_SHORT_STR")
  case True
  have "le_sint (le_bytes SIZEOF_INT (int (length s))) = int (length s)"
    using assms by (intro le_sint_le_bytes) (auto simp: wire_str_def SIZEOF_INT_def)
  then show ?thesis
    using True
    by (simp add: get_string_def str_wire_def MAX_SHORT_STR_def perlio_read_append)
next
  case False
  then have u: "uint (of_nat (length s) :: byte) = int (length s)"
    "unat (of_nat (length s) :: byte) = length s"
    by (simp_all add: MAX_SHORT_STR_def unsigned_of_nat take_bit_nat_eq_self)
  then have "(of_nat (length s) :: byte) \<noteq> 0"
    using assms by (metis length_0_conv unat_0 wire_str_def)
  then show ?thesis
    using False u by (simp add: get_string_def str_wire_def perlio_read_append)
qed

interpretation env: codec str_wire "get_string junk" "[0]" wire_str for junk
  by unfold_locales (simp_all add: get_string_wire, simp add: get_string_def)

lemma get_strings_wire:
  assumes "\<And>s. s \<in> set p \<Longrightarrow> length s < 2 ^ 31"
  shows "get_strings junk (strs_wire p @ rest) = Some (filter (\<lambda>s. s \<noteq> []) p, rest)"
proof -
  let ?p = "filter (\<lambda>s. s \<noteq> []) p"
  have valid: "list_all wire_str ?p" using assms by (auto simp: list_all_iff wire_str_def)
  have le: "length xs \<le> length (concat (map str_wire xs))" for xs
  proof (induction xs)
    case (Cons x xs)
    then show ?case by (simp add: str_wire_def)
  qed simp
  have "length ?p < Suc (length (concat (map str_wire ?p) @ [0] @ rest))"
    using le [of ?p] by simp
  from env.get_all_put [OF valid this] show ?thesis
    by (simp add: get_strings_def strs_wire_def)
qed

definition devino_ok :: "devino \<Rightarrow> bool" where
  "devino_ok d \<longleftrightarrow> - (2 ^ 63) \<le> d_ino d \<and> d_ino d < 2 ^ 63 \<and> - (2 ^ 63) \<le> d_dev d \<and> d_dev d < 2 ^ 63"

lemma get_devino_wire:
  assumes "devino_ok d"
  shows "get_devino junk (devino_bytes d @ rest) = (d, rest)"
proof -
  have "le_sint (le_bytes SIZEOF_INO (d_ino d)) = d_ino d"
    "le_sint (le_bytes SIZEOF_INO (d_dev d)) = d_dev d"
    using assms by (auto intro!: le_sint_le_bytes simp: devino_ok_def SIZEOF_INO_def)
  then show ?thesis
    by (simp add: get_devino_def perlio_read_append SIZEOF_INO_def, simp add: devino_bytes_def SIZEOF_INO_def)
qed

lemma read_request_wire:
  assumes "\<And>s. s \<in> set envp \<union> set args \<Longrightarrow> length s < 2 ^ 31" and "wire_str fname"
    and "devino_ok script_stat" and "\<And>d. dir_stat = Some d \<Longrightarrow> devino_ok d"
  shows "read_request junk (env_wire envp args fname script_stat dir_stat in_script @ rest) =
    Some (\<lparr>rq_env = filter (\<lambda>s. s \<noteq> []) envp, rq_argv = filter (\<lambda>s. s \<noteq> []) args,
      rq_path = Some fname, rq_script = script_stat,
      rq_where = Some (if in_script then SPEEDY_CWD_IN_SCRIPT
        else if dir_stat = None then SPEEDY_CWD_UNKNOWN else SPEEDY_CWD_DEVINO),
      rq_cwd = (if in_script then None else dir_stat)\<rparr>, rest)"
  using assms
  by (cases dir_stat)
    (simp_all add: read_request_def env_wire_def get_strings_wire get_string_wire get_devino_wire
      cwd_wire_def SPEEDY_CWD_IN_SCRIPT_def SPEEDY_CWD_UNKNOWN_def SPEEDY_CWD_DEVINO_def)

section \<open>The directory of the frontend\<close>

text \<open>
  \<open>speedy_frontend_proto2\<close> answers the first byte of stdout: nothing for 0, otherwise the current
  directory. \<open>cwd\<close> is the answer of \<open>getcwd\<close>; \<open>w t\<close> is the answer of the \<open>t\<close>-th \<open>write\<close>. The
  loop sends until nothing is left or there is an error; \<open>None\<close> if it is still sending.
\<close>

definition STR_BUFSIZE :: "nat \<Rightarrow> int" where
  "STR_BUFSIZE l = 1 + (if l \<ge> MAX_SHORT_STR then int SIZEOF_INT else 0) + int l"

primrec send_loop :: "nat \<Rightarrow> (nat \<Rightarrow> wrres) \<Rightarrow> nat \<Rightarrow> byte list \<Rightarrow> byte list option" where
  "send_loop 0 w t bp = None"
| "send_loop (Suc fuel) w t bp =
     (case (case w t of
         WrErr e \<Rightarrow> if SP_NOTREADY e then Some 0 else None
       | Wr n \<Rightarrow> Some (min n (length bp))) of
       None \<Rightarrow> Some []
     | Some n \<Rightarrow>
        if length bp - n = 0 then Some (take n bp)
        else map_option (\<lambda>sent. take n bp @ sent) (send_loop fuel w (Suc t) (List.drop n bp)))"

definition proto2_buf :: "(nat \<Rightarrow> byte) \<Rightarrow> byte list option \<Rightarrow> speedy_buf" where
  "proto2_buf junk cwd =
     (let cwd_len = (case cwd of Some c \<Rightarrow> length c | None \<Rightarrow> 0);
          b = alloc_buf junk (STR_BUFSIZE cwd_len)
      in case cwd of Some c \<Rightarrow> add_string junk c b | None \<Rightarrow> add_string junk [] b)"

definition speedy_frontend_proto2 :: "(nat \<Rightarrow> byte) \<Rightarrow> nat \<Rightarrow> (nat \<Rightarrow> wrres) \<Rightarrow> int \<Rightarrow> byte list option
    \<Rightarrow> byte list option" where
  "speedy_frontend_proto2 junk fuel w first_byte cwd =
     (if first_byte = 0 then Some []
      else send_loop fuel w 0 (sb_content (proto2_buf junk cwd)))"

text \<open>The first byte, and what the backend does with the answer.\<close>

definition do_proto2 :: "(nat \<Rightarrow> byte) \<Rightarrow> bool \<Rightarrow> byte list \<Rightarrow> byte \<times> byte list got" where
  "do_proto2 junk want_cwd pio_file =
     (if want_cwd then (1, get_string junk pio_file) else (0, Null pio_file))"

text \<open>The buffer is exactly as large as it has to be.\<close>

lemma proto2_buf_spec:
  shows "holds (proto2_buf junk cwd) (str_wire (case cwd of Some c \<Rightarrow> c | None \<Rightarrow> []))"
    and "alloced (proto2_buf junk cwd) = sb_len (proto2_buf junk cwd)"
proof -
  define c where "c = (case cwd of Some c \<Rightarrow> c | None \<Rightarrow> [])"
  define b where "b = alloc_buf junk (STR_BUFSIZE (length c))"
  have buf: "proto2_buf junk cwd = ADD_STRING junk c b"
    by (simp add: proto2_buf_def Let_def add_string_def c_def b_def split: option.split)
  have 0: "holds b []"
    using alloc_buf_ok [of "STR_BUFSIZE (length c)" junk] by (simp add: holds_def b_def STR_BUFSIZE_def)
  have al: "alloced b = STR_BUFSIZE (length c)" by (simp add: b_def alloc_buf_def)
  show h: "holds (proto2_buf junk cwd) (str_wire (case cwd of Some c \<Rightarrow> c | None \<Rightarrow> []))"
    using holds_ADD_STRING [OF 0, of junk c] by (simp add: buf flip: c_def)
  have wire: "sb_len (proto2_buf junk cwd) = STR_BUFSIZE (length c)"
    using holds_len [OF h] by (simp add: c_def STR_BUFSIZE_def str_wire_def)
  have fits: "alloced (ADD junk ys b') = alloced b'"
    if "holds b' xs" "int (length xs) + int (length ys) \<le> alloced b'" for b' xs ys
    using that holds_len [OF that(1)] by (simp add: ADD_def BUF_ENLARGE_def ADD2_def)
  have "alloced (ADD_STRING junk c b) = alloced b"
  proof (cases "length c \<ge> MAX_SHORT_STR")
    case True
    let ?b = "ADD2 (le_bytes SIZEOF_INT (int (length c))) (ADDCHAR2 (of_nat MAX_SHORT_STR) b)"
    have e: "BUF_ENLARGE junk (int SIZEOF_INT + 1) b = b"
      using True al holds_len [OF 0] by (simp add: BUF_ENLARGE_def STR_BUFSIZE_def)
    have room: "5 \<le> alloced b" using True al by (simp add: STR_BUFSIZE_def SIZEOF_INT_def)
    note b1 = holds_ADDCHAR2 [OF 0, of "of_nat MAX_SHORT_STR"]
    have b2: "holds ?b ([of_nat MAX_SHORT_STR] @ le_bytes SIZEOF_INT (int (length c)))"
      "alloced ?b = alloced b"
      using holds_ADD2 [OF b1(1), of "le_bytes SIZEOF_INT (int (length c))"] b1(2) room
      by (simp_all add: SIZEOF_INT_def)
    show ?thesis
      using True b2 fits [OF b2(1), of c] al by (simp add: ADD_STRING_def Let_def e STR_BUFSIZE_def)
  next
    case False
    have "BUF_ENLARGE junk 1 b = b"
      using False al holds_len [OF 0] by (simp add: BUF_ENLARGE_def STR_BUFSIZE_def)
    then have a: "ADDCHAR junk (of_nat (length c)) b = ADDCHAR2 (of_nat (length c)) b"
      by (simp add: ADDCHAR_def)
    have "1 \<le> alloced b" using al by (simp add: STR_BUFSIZE_def)
    then have b1: "holds (ADDCHAR2 (of_nat (length c)) b) [of_nat (length c)]"
      "alloced (ADDCHAR2 (of_nat (length c)) b) = alloced b"
      using holds_ADDCHAR2 [OF 0, of "of_nat (length c)"] by simp_all
    show ?thesis
      using False b1 fits [OF b1(1), of c] al by (simp add: ADD_STRING_def Let_def a STR_BUFSIZE_def)
  qed
  then show "alloced (proto2_buf junk cwd) = sb_len (proto2_buf junk cwd)"
    using wire al by (simp add: buf)
qed

lemma send_loop_prefix:
  "send_loop fuel w t bp = Some sent \<Longrightarrow>
    \<exists>rest. bp = sent @ rest \<and> (rest \<noteq> [] \<longrightarrow> (\<exists>t e. w t = WrErr e \<and> \<not> SP_NOTREADY e))"
proof (induction fuel arbitrary: t bp sent)
  case (Suc fuel)
  show ?case
  proof (cases "case w t of WrErr e \<Rightarrow> if SP_NOTREADY e then Some 0 else None
       | Wr n \<Rightarrow> Some (min n (length bp))")
    case None
    then show ?thesis using Suc.prems by (auto split: wrres.splits if_splits)
  next
    case (Some n)
    show ?thesis
    proof (cases "length bp - n = 0")
      case True
      then show ?thesis using Suc.prems Some by auto
    next
      case False
      then obtain s where s: "send_loop fuel w (Suc t) (List.drop n bp) = Some s" "sent = take n bp @ s"
        using Suc.prems Some by auto
      from Suc.IH [OF s(1)] obtain rest where "List.drop n bp = s @ rest"
        "rest \<noteq> [] \<longrightarrow> (\<exists>t e. w t = WrErr e \<and> \<not> SP_NOTREADY e)" by blast
      then show ?thesis using s(2) by (metis append_assoc append_take_drop_id)
    qed
  qed
qed simp

lemma send_loop_sends:
  assumes "\<And>t. \<exists>n > 0. w t = Wr n"
  shows "bp \<noteq> [] \<Longrightarrow> length bp \<le> fuel \<Longrightarrow> send_loop fuel w t bp = Some bp"
proof (induction fuel arbitrary: t bp)
  case (Suc fuel)
  obtain n where n: "0 < n" "w t = Wr n" using assms by blast
  show ?case
  proof (cases "length bp \<le> n")
    case True
    then show ?thesis using n by simp
  next
    case False
    then have "send_loop fuel w (Suc t) (List.drop n bp) = Some (List.drop n bp)"
      using Suc.prems n by (intro Suc.IH) auto
    then show ?thesis using n False by simp
  qed
qed simp

end
