(* ===== verification/Util.thy ===== *)
theory Util
  imports Main "HOL-Library.Word"
begin

text \<open>
  The process-level helpers of src/src/speedy_util.c: cached ids and time, names of files, reading
  a whole file, descriptors put where they are preferred. System calls are arguments.
\<close>

section \<open>Cached ids and time\<close>

text \<open>
  The static variables. \<open>saved_pid = 0\<close> and the ids \<open>- 1\<close> mean that the system has to be asked;
  so does a cached time whose seconds are 0.
\<close>

record ucache =
  saved_pid :: int
  my_euid :: int
  my_uid :: int
  saved_time :: "int \<times> int"

definition util_getpid :: "int \<Rightarrow> ucache \<Rightarrow> int \<times> ucache" where
  "util_getpid getpid c =
     (let c = (if saved_pid c = 0 then c\<lparr>saved_pid := getpid\<rparr> else c) in (saved_pid c, c))"

definition speedy_util_pid_invalidate :: "ucache \<Rightarrow> ucache" where
  "speedy_util_pid_invalidate c = c\<lparr>saved_pid := 0\<rparr>"

definition speedy_util_geteuid :: "int \<Rightarrow> ucache \<Rightarrow> int \<times> ucache" where
  "speedy_util_geteuid geteuid c =
     (let c = (if my_euid c = - 1 then c\<lparr>my_euid := geteuid\<rparr> else c) in (my_euid c, c))"

text \<open>\<open>retval\<close> is the answer of \<open>seteuid\<close>.\<close>

definition speedy_util_seteuid :: "int \<Rightarrow> int \<Rightarrow> ucache \<Rightarrow> int \<times> ucache" where
  "speedy_util_seteuid retval i c = (retval, if retval \<noteq> - 1 then c\<lparr>my_euid := i\<rparr> else c)"

definition speedy_util_getuid :: "int \<Rightarrow> ucache \<Rightarrow> int \<times> ucache" where
  "speedy_util_getuid getuid c =
     (let c = (if my_uid c = - 1 then c\<lparr>my_uid := getuid\<rparr> else c) in (my_uid c, c))"

definition speedy_util_gettimeofday :: "int \<times> int \<Rightarrow> ucache \<Rightarrow> (int \<times> int) \<times> ucache" where
  "speedy_util_gettimeofday gettimeofday c =
     (let c = (if fst (saved_time c) = 0 then c\<lparr>saved_time := gettimeofday\<rparr> else c)
      in (saved_time c, c))"

definition speedy_util_time :: "int \<times> int \<Rightarrow> ucache \<Rightarrow> int \<times> ucache" where
  "speedy_util_time gettimeofday c =
     (case speedy_util_gettimeofday gettimeofday c of (tv, c) \<Rightarrow> (fst tv, c))"

definition speedy_util_time_invalidate :: "ucache \<Rightarrow> ucache" where
  "speedy_util_time_invalidate c = c\<lparr>saved_time := (0, snd (saved_time c))\<rparr>"

text \<open>Between invalidations the answer does not change; after one the system is asked again.\<close>

lemma time_stable:
  assumes "speedy_util_time t c = (a, c')" and "a \<noteq> 0"
  shows "speedy_util_time t' c' = (a, c')"
  using assms by (auto simp: speedy_util_time_def speedy_util_gettimeofday_def Let_def split: if_splits)

lemma time_fresh: "fst (speedy_util_time t (speedy_util_time_invalidate c)) = fst t"
  by (simp add: speedy_util_time_def speedy_util_gettimeofday_def speedy_util_time_invalidate_def Let_def)

lemma pid_fresh: "fst (util_getpid p (speedy_util_pid_invalidate c)) = p"
  by (simp add: util_getpid_def speedy_util_pid_invalidate_def Let_def)

lemma euid_follows:
  "i \<noteq> - 1 \<Longrightarrow> retval \<noteq> - 1 \<Longrightarrow> speedy_util_seteuid retval i c = (r, c') \<Longrightarrow>
    fst (speedy_util_geteuid e c') = i"
  by (auto simp: speedy_util_seteuid_def speedy_util_geteuid_def Let_def)

section \<open>Names\<close>

text \<open>\<open>%x\<close> of an unsigned number.\<close>

definition hex_digit :: "nat \<Rightarrow> char" where
  "hex_digit n = ''0123456789abcdef'' ! n"

fun hex :: "nat \<Rightarrow> string" where
  "hex n = (if n < 16 then [hex_digit n] else hex (n div 16) @ [hex_digit (n mod 16)])"

declare hex.simps [simp del]

text \<open>\<open>int\<close> read by \<open>%x\<close>: its value as an unsigned 32-bit number.\<close>

definition hex_int :: "int \<Rightarrow> string" where
  "hex_int i = hex (nat (i mod 2 ^ 32))"

definition speedy_util_fname :: "string \<Rightarrow> int \<Rightarrow> int \<Rightarrow> int \<Rightarrow> char \<Rightarrow> string" where
  "speedy_util_fname tmpbase uid euid num typ =
     (if euid = uid
      then tmpbase @ ''.'' @ hex_int num @ ''.'' @ hex_int euid @ ''.'' @ [typ]
      else tmpbase @ ''.'' @ hex_int num @ ''.'' @ hex_int euid @ ''.'' @ hex_int uid @ ''.'' @ [typ])"

lemma hex_digit_inj: "a < 16 \<Longrightarrow> b < 16 \<Longrightarrow> hex_digit a = hex_digit b \<Longrightarrow> a = b"
proof -
  assume "a < 16" "b < 16"
  then have "a \<in> set [0..<16]" "b \<in> set [0..<16]" by auto
  moreover have "list_all (\<lambda>a. list_all (\<lambda>b. hex_digit a = hex_digit b \<longrightarrow> a = b) [0..<16]) [0..<16]"
    by (simp add: hex_digit_def upt_rec [of _ 16] upt_rec numeral_eq_Suc)
  moreover assume "hex_digit a = hex_digit b"
  ultimately show ?thesis by (auto simp: list_all_iff)
qed

lemma hex_digit_not_dot: "n < 16 \<Longrightarrow> hex_digit n \<noteq> CHR ''.''"
proof -
  assume "n < 16"
  then have "n \<in> set [0..<16]" by auto
  moreover have "list_all (\<lambda>n. hex_digit n \<noteq> CHR ''.'') [0..<16]"
    by (simp add: hex_digit_def upt_rec [of _ 16] upt_rec numeral_eq_Suc)
  ultimately show ?thesis by (auto simp: list_all_iff)
qed

lemma hex_nonempty [simp]: "hex n \<noteq> []" "[] \<noteq> hex n"
  by (subst hex.simps, simp)+

lemma hex_inj: "hex a = hex b \<Longrightarrow> a = b"
proof (induction a arbitrary: b rule: hex.induct)
  case (1 a)
  show ?case
  proof (cases "a < 16")
    case True
    have "b < 16"
    proof (rule ccontr)
      assume b: "\<not> b < 16"
      then show False using 1 True b by (simp add: hex.simps [of a] hex.simps [of b])
    qed
    then show ?thesis using 1 True hex_digit_inj by (simp add: hex.simps [of a] hex.simps [of b])
  next
    case False
    have b: "\<not> b < 16"
    proof
      assume b: "b < 16"
      then show False using 1 False b by (simp add: hex.simps [of a] hex.simps [of b])
    qed
    then have "hex (a div 16) = hex (b div 16)" "hex_digit (a mod 16) = hex_digit (b mod 16)"
      using 1 False by (simp_all add: hex.simps [of a] hex.simps [of b])
    then have "a div 16 = b div 16" "a mod 16 = b mod 16"
      using 1 False hex_digit_inj [of "a mod 16" "b mod 16"] by auto
    then show ?thesis by (metis div_mult_mod_eq)
  qed
qed

lemma hex_no_dot: "CHR ''.'' \<notin> set (hex n)"
proof (induction n rule: hex.induct)
  case (1 n)
  then show ?case
    using hex_digit_not_dot by (subst hex.simps) (auto dest!: sym [of "CHR ''.''"])
qed

lemma split_dot:
  assumes "CHR ''.'' \<notin> set a" "CHR ''.'' \<notin> set a'" and "a @ CHR ''.'' # b = a' @ CHR ''.'' # b'"
  shows "a = a' \<and> b = b'"
  using assms
proof (induction a arbitrary: a')
  case Nil
  then show ?case by (cases a') auto
next
  case (Cons x a)
  then show ?case by (cases a') auto
qed

text \<open>Users with different ids never share a file.\<close>

lemma fname_inj:
  assumes "speedy_util_fname base uid euid num typ = speedy_util_fname base uid' euid' num' typ'"
    and "0 \<le> uid" "uid < 2 ^ 32" "0 \<le> euid" "euid < 2 ^ 32"
    and "0 \<le> uid'" "uid' < 2 ^ 32" "0 \<le> euid'" "euid' < 2 ^ 32"
    and "typ \<noteq> CHR ''.''" and "typ' \<noteq> CHR ''.''"
  shows "uid = uid' \<and> euid = euid' \<and> typ = typ'"
proof -
  have inj: "i = j" if "hex_int i = hex_int j" "0 \<le> i" "i < 2 ^ 32" "0 \<le> j" "j < 2 ^ 32" for i j
  proof -
    have "nat (i mod 2 ^ 32) = nat (j mod 2 ^ 32)" using that(1) by (simp add: hex_int_def hex_inj)
    then show ?thesis using that by simp
  qed
  have dot: "CHR ''.'' \<notin> set (hex_int i)" for i by (simp add: hex_int_def hex_no_dot)
  have ne: "hex_int i \<noteq> []" for i by (simp add: hex_int_def)
  define r where "r = (\<lambda>u e t. if e = u then hex_int e @ CHR ''.'' # [t]
    else hex_int e @ CHR ''.'' # hex_int u @ CHR ''.'' # [t])"
  have f: "speedy_util_fname base u e n t = base @ CHR ''.'' # hex_int n @ CHR ''.'' # r u e t" for u e n t
    by (simp add: speedy_util_fname_def r_def)
  have "hex_int num @ CHR ''.'' # r uid euid typ = hex_int num' @ CHR ''.'' # r uid' euid' typ'"
    using assms(1) by (simp add: f)
  then have "r uid euid typ = r uid' euid' typ'" using split_dot dot by blast
  moreover define q where "q = (\<lambda>u e t. if e = u then [t] else hex_int u @ CHR ''.'' # [t :: char])"
  have rq: "r u e t = hex_int e @ CHR ''.'' # q u e t" for u e t by (simp add: r_def q_def)
  ultimately have "hex_int euid = hex_int euid'" "q uid euid typ = q uid' euid' typ'"
    using split_dot [OF dot dot] by (simp_all add: rq)
  then have e: "euid = euid'" and q: "q uid euid typ = q uid' euid' typ'"
    using inj assms by auto
  show ?thesis
  proof (cases "euid = uid"; cases "euid' = uid'")
    assume "euid = uid" "euid' = uid'"
    then show ?thesis using e q by (simp add: q_def)
  next
    assume a: "euid = uid" "euid' \<noteq> uid'"
    then show ?thesis using arg_cong [OF q, of length] by (simp add: q_def)
  next
    assume a: "euid \<noteq> uid" "euid' = uid'"
    then show ?thesis using arg_cong [OF q, of length] by (simp add: q_def)
  next
    assume a: "euid \<noteq> uid" "euid' \<noteq> uid'"
    then have "hex_int uid @ CHR ''.'' # [typ] = hex_int uid' @ CHR ''.'' # [typ']"
      using q by (simp add: q_def)
    from split_dot [OF dot dot this] have "hex_int uid = hex_int uid'" "typ = typ'" by simp_all
    then show ?thesis using e inj [of uid uid'] assms by simp
  qed
qed

section \<open>Descriptors and files\<close>

definition PREF_FD_DONTCARE :: int where "PREF_FD_DONTCARE = - 1"

text \<open>The table of open descriptors is a map to what is open there.\<close>

definition speedy_util_pref_fd :: "int \<Rightarrow> int \<Rightarrow> (int \<rightharpoonup> 'f) \<Rightarrow> int \<times> (int \<rightharpoonup> 'f)" where
  "speedy_util_pref_fd oldfd newfd tab =
     (if newfd = oldfd \<or> newfd = PREF_FD_DONTCARE \<or> oldfd = - 1 then (oldfd, tab)
      else (newfd, (tab(newfd := tab oldfd))(oldfd := None)))"

text \<open>The file keeps open, at the descriptor returned, and nothing else but that place changes.\<close>

lemma pref_fd_spec:
  assumes "speedy_util_pref_fd oldfd newfd tab = (fd, tab')" and "tab oldfd \<noteq> None"
  shows "tab' fd = tab oldfd"
    and "fd' \<noteq> fd \<Longrightarrow> fd' \<noteq> oldfd \<Longrightarrow> tab' fd' = tab fd'"
    and "fd \<noteq> oldfd \<Longrightarrow> tab' oldfd = None"
  using assms by (auto simp: speedy_util_pref_fd_def split: if_splits)

text \<open>\<open>getcwd\<close> into a buffer that is doubled until it is large enough; \<open>cwd\<close> is the answer it has
  room for, or the error.\<close>

datatype cwdres = Cwd string | Cwd_err

primrec getcwd_loop :: "nat \<Rightarrow> cwdres \<Rightarrow> nat \<Rightarrow> string option option" where
  "getcwd_loop 0 cwd bufsz = None"
| "getcwd_loop (Suc fuel) cwd bufsz =
     (case cwd of
       Cwd_err \<Rightarrow> Some None
     | Cwd d \<Rightarrow> if length d < bufsz then Some (Some d) else getcwd_loop fuel cwd (bufsz * 2))"

definition speedy_util_getcwd :: "nat \<Rightarrow> cwdres \<Rightarrow> string option option" where
  "speedy_util_getcwd fuel cwd = getcwd_loop fuel cwd 512"

lemma getcwd_loop_result:
  "(\<exists>d. cwd = Cwd d \<and> length d < bufsz * 2 ^ fuel) \<or> cwd = Cwd_err \<and> 0 < fuel \<Longrightarrow>
    fuel > 0 \<Longrightarrow>
    getcwd_loop (Suc fuel) cwd bufsz = Some (case cwd of Cwd d \<Rightarrow> Some d | Cwd_err \<Rightarrow> None)"
proof (induction fuel arbitrary: bufsz)
  case (Suc fuel)
  show ?case
  proof (cases cwd)
    case (Cwd d)
    show ?thesis
    proof (cases "length d < bufsz")
      case False
      show ?thesis
      proof (cases fuel)
        case 0
        then show ?thesis using Suc.prems Cwd False by (auto simp: mult.commute)
      next
        case (Suc f)
        then have "getcwd_loop (Suc fuel) cwd (bufsz * 2) = Some (Some d)"
          using Suc.prems Cwd Suc.IH [of "bufsz * 2"] by (simp add: mult.assoc)
        then show ?thesis using Cwd False by simp
      qed
    qed (simp add: Cwd)
  qed simp
qed simp

text \<open>\<open>read\<close> until everything is there: each answer is an error, or some bytes, none at the end.\<close>

primrec readall :: "nat \<Rightarrow> (nat \<Rightarrow> 'b list option) \<Rightarrow> nat \<Rightarrow> nat \<Rightarrow> 'b list option option" where
  "readall 0 rd t len = None"
| "readall (Suc fuel) rd t len =
     (if len = 0 then Some (Some [])
      else case rd t of
          None \<Rightarrow> Some None
        | Some bs \<Rightarrow>
           let bs = take len bs in
           if bs = [] then Some (Some [])
           else map_option (map_option (\<lambda>rest. bs @ rest)) (readall fuel rd (Suc t) (len - length bs)))"

lemma readall_ends: "len < fuel \<Longrightarrow> readall fuel rd t len \<noteq> None"
proof (induction fuel arbitrary: t len)
  case (Suc fuel)
  have "readall fuel rd (Suc t) (len - length (take len bs)) \<noteq> None" if "bs \<noteq> []" "len \<noteq> 0" for bs
  proof (rule Suc.IH)
    have "0 < length (take len bs)" using that by simp
    then show "len - length (take len bs) < fuel" using Suc.prems that(2) by linarith
  qed
  then show ?case by (auto simp: Let_def split: option.split)
qed simp

lemma readall_length: "readall fuel rd t len = Some (Some bs) \<Longrightarrow> length bs \<le> len"
proof (induction fuel arbitrary: t len bs)
  case (Suc fuel)
  show ?case
  proof (cases "len = 0 \<or> rd t = None \<or> take len (the (rd t)) = []")
    case True
    then show ?thesis using Suc.prems by (auto simp: Let_def split: if_splits option.splits)
  next
    case False
    then obtain xs where xs: "rd t = Some xs" by auto
    let ?n = "len - length (take len xs)"
    obtain rest where r: "readall fuel rd (Suc t) ?n = Some (Some rest)" "bs = take len xs @ rest"
      using Suc.prems False xs by (auto simp: Let_def split: if_splits)
    have "length rest \<le> ?n" using Suc.IH [OF r(1)] .
    then show ?thesis using r(2) by auto
  qed
qed simp

text \<open>
  \<open>speedy_util_mapin\<close>: the beginning of a file, mapped if \<open>mmap\<close> works (\<open>mapped\<close> is what is then
  seen), otherwise read.
\<close>

record 'b map_info =
  addr :: "'b list option"
  mi_maplen :: nat
  is_mmaped :: bool

definition speedy_util_mapin :: "nat \<Rightarrow> 'b list option \<Rightarrow> (nat \<Rightarrow> 'b list option) \<Rightarrow> int \<Rightarrow> nat
    \<Rightarrow> 'b map_info option option" where
  "speedy_util_mapin fuel mapped rd max_size file_size =
     (if file_size \<noteq> 0
      then let len = (if max_size = - 1 then file_size else min file_size (nat max_size)) in
        case mapped of
          Some m \<Rightarrow> Some (Some \<lparr>addr = Some (take len m), mi_maplen = len, is_mmaped = True\<rparr>)
        | None \<Rightarrow>
           map_option (map_option (\<lambda>bs. \<lparr>addr = Some bs, mi_maplen = length bs, is_mmaped = False\<rparr>))
             (readall fuel rd 0 len)
      else Some (Some \<lparr>addr = None, mi_maplen = 0, is_mmaped = False\<rparr>))"

text \<open>What is seen is at most what was asked for, and all of it is there.\<close>

lemma mapin_bound:
  assumes "speedy_util_mapin fuel mapped rd max_size file_size = Some (Some mi)"
    and "\<And>m. mapped = Some m \<Longrightarrow> length m = file_size" and "- 1 \<le> max_size"
  shows "mi_maplen mi \<le> file_size" and "max_size \<noteq> - 1 \<Longrightarrow> int (mi_maplen mi) \<le> max_size"
    and "mi_maplen mi = (case addr mi of None \<Rightarrow> 0 | Some m \<Rightarrow> length m)"
proof -
  have "mi_maplen mi \<le> file_size \<and> (max_size \<noteq> - 1 \<longrightarrow> int (mi_maplen mi) \<le> max_size)
    \<and> mi_maplen mi = (case addr mi of None \<Rightarrow> 0 | Some m \<Rightarrow> length m)"
    using assms
    by (auto simp: speedy_util_mapin_def Let_def dest!: readall_length split: if_splits option.splits)
  then show "mi_maplen mi \<le> file_size" "max_size \<noteq> - 1 \<Longrightarrow> int (mi_maplen mi) \<le> max_size"
    "mi_maplen mi = (case addr mi of None \<Rightarrow> 0 | Some m \<Rightarrow> length m)" by blast+
qed

end
