(* ===== verification/FileLock.thy ===== *)
theory FileLock
  imports Slots Util
begin

text \<open>
  How a process opens, maps, locks and removes the temp file, src/src/speedy_file.c. The state is
  what the process remembers and the part of the system it talks to: inodes with their size and
  header, and names. \<open>others\<close> is what other processes do to inodes and names while this one waits
  for the lock; \<open>fails\<close> says which system calls fail. The slots behind the header are not touched
  here (the other theories work on them), so only their number matters.
\<close>

section \<open>State\<close>

datatype fs_state = FS_CLOSED | FS_OPEN | FS_HAVESLOTS | FS_CORRUPT

fun fs_num :: "fs_state \<Rightarrow> nat" where
  "fs_num FS_CLOSED = 0"
| "fs_num FS_OPEN = 1"
| "fs_num FS_HAVESLOTS = 2"
| "fs_num FS_CORRUPT = 3"

instantiation fs_state :: linorder
begin

definition less_eq_fs_state :: "fs_state \<Rightarrow> fs_state \<Rightarrow> bool" where
  "less_eq_fs_state a b \<longleftrightarrow> fs_num a \<le> fs_num b"

definition less_fs_state :: "fs_state \<Rightarrow> fs_state \<Rightarrow> bool" where
  "less_fs_state a b \<longleftrightarrow> fs_num a < fs_num b"

instance
proof
  fix a b :: fs_state
  show "a \<le> b \<Longrightarrow> b \<le> a \<Longrightarrow> a = b"
    by (cases a; cases b) (simp_all add: less_eq_fs_state_def)
qed (auto simp: less_eq_fs_state_def less_fs_state_def)

end

lemmas fs_order = less_eq_fs_state_def less_fs_state_def

record inode =
  i_size :: int
  i_head :: file_head

record disk =
  inodes :: "nat \<Rightarrow> inode"
  names :: "string \<rightharpoonup> nat"
  fresh_ino :: nat

record fproc =
  dsk :: disk
  others :: "nat \<Rightarrow> disk \<Rightarrow> disk"
  fails :: "nat \<Rightarrow> bool"
  ncalls :: nat
  file_fd :: "nat option"
  fmap :: "(nat \<times> int) option"
  file_locked :: bool
  sigs_blocked :: bool
  file_name :: "string option"
  saved_tmpbase :: "string option"
  stat_ino :: nat
  stat_size :: int
  cur_state :: fs_state
  last_reopen :: int
  file_create_time :: "int \<times> int"
  fd_is_suspect :: bool
  fd_still_ours :: bool
  f_pid :: int
  f_time :: "int \<times> int"
  f_tmpbase :: string
  f_restat :: int
  f_uids :: "int \<times> int"

text \<open>Why the process ends. \<open>Unmapped\<close> would be an access through a null pointer.\<close>

datatype fwhy = Mmap_failed | Unlock_failed | Fd_suspect | Fstat_failed | Unlink_failed | Open_failed
  | Lock_failed | Truncate_failed | File_corrupt | Could_not_open | Unmapped

type_synonym 'a fio = "(fwhy, fproc, 'a) M"

definition FILE_ALLOC_CHUNK :: int where "FILE_ALLOC_CHUNK = 512"
definition FILE_REV :: int where "FILE_REV = 6"
definition MIN_SLOTS_FREE :: int where "MIN_SLOTS_FREE = 5"

text \<open>A system call that may fail.\<close>

definition syscall :: "fwhy \<Rightarrow> unit fio" where
  "syscall e = bnd (gets (\<lambda>s. fails s (ncalls s))) (\<lambda>b.
     thenM [modify (\<lambda>s. s\<lparr>ncalls := Suc (ncalls s)\<rparr>)] (if b then die e else ret ()))"

definition upd_inode :: "nat \<Rightarrow> (inode \<Rightarrow> inode) \<Rightarrow> fproc \<Rightarrow> fproc" where
  "upd_inode i f s = s\<lparr>dsk := (dsk s)\<lparr>inodes := (inodes (dsk s))(i := f (inodes (dsk s) i))\<rparr>\<rparr>"

text \<open>\<open>FILE_HEAD\<close>: through the mapping, whatever \<open>file_fd\<close> is.\<close>

definition get_head :: "file_head fio" where
  "get_head = bnd (gets fmap) (\<lambda>m. case m of
     None \<Rightarrow> die Unmapped
   | Some (i, len) \<Rightarrow> gets (\<lambda>s. i_head (inodes (dsk s) i)))"

definition upd_fhead :: "(file_head \<Rightarrow> file_head) \<Rightarrow> unit fio" where
  "upd_fhead f = bnd (gets fmap) (\<lambda>m. case m of
     None \<Rightarrow> die Unmapped
   | Some (i, len) \<Rightarrow> modify (upd_inode i (\<lambda>n. n\<lparr>i_head := f (i_head n)\<rparr>)))"

definition fmaplen :: "fproc \<Rightarrow> int" where
  "fmaplen s = (case fmap s of None \<Rightarrow> 0 | Some (i, len) \<Rightarrow> len)"

section \<open>Mapping and closing\<close>

definition file_unmap :: "unit fio" where
  "file_unmap = modify (\<lambda>s. if fmaplen s \<noteq> 0 then s\<lparr>fmap := None\<rparr> else s)"

definition file_map :: "int \<Rightarrow> unit fio" where
  "file_map len = bnd (gets fmaplen) (\<lambda>l.
     whenM (l \<noteq> len)
      (seqM
        [file_unmap,
         whenM (len \<noteq> 0)
          (seqM
            [syscall Mmap_failed,
             modify (\<lambda>s. s\<lparr>fmap := map_option (\<lambda>i. (i, len)) (file_fd s)\<rparr>)])]))"

definition file_unlock :: "unit fio" where
  "file_unlock = bnd (gets file_locked) (\<lambda>locked.
     whenM locked
      (seqM
        [upd_fhead (\<lambda>h. h\<lparr>lock_owner := 0\<rparr>),
         syscall Unlock_failed,
         modify (\<lambda>s. s\<lparr>file_locked := False\<rparr>),
         modify (\<lambda>s. s\<lparr>sigs_blocked := False\<rparr>)]))"

definition file_close2 :: "unit fio" where
  "file_close2 = bnd (gets fd_is_suspect) (\<lambda>suspect.
     seqM
      [whenM suspect (die Fd_suspect),
       file_unlock,
       file_unmap,
       modify (\<lambda>s. s\<lparr>file_fd := None\<rparr>)])"

definition speedy_file_fd_is_suspect :: "unit fio" where
  "speedy_file_fd_is_suspect = modify (\<lambda>s. s\<lparr>fd_is_suspect := True\<rparr>)"

text \<open>\<open>fd_still_ours\<close>: \<open>fstat\<close> works and gives the device and inode of \<open>file_stat\<close>.\<close>

definition fix_suspect_fd :: "unit fio" where
  "fix_suspect_fd = bnd (gets fd_is_suspect) (\<lambda>suspect.
     whenM suspect
      (bnd (gets file_fd) (\<lambda>fd.
       bnd (gets fd_still_ours) (\<lambda>ours.
       seqM
        [whenM (fd \<noteq> None \<and> \<not> ours)
          (seqM [file_unmap, modify (\<lambda>s. s\<lparr>file_fd := None\<rparr>)]),
         modify (\<lambda>s. s\<lparr>fd_is_suspect := False\<rparr>)]))))"

definition get_stat :: "unit fio" where
  "get_stat = thenM [syscall Fstat_failed]
     (modify (\<lambda>s. case file_fd s of
        None \<Rightarrow> s
      | Some i \<Rightarrow> s\<lparr>stat_ino := i, stat_size := i_size (inodes (dsk s) i)\<rparr>))"

text \<open>\<open>unlink\<close> goes by the name; it is no error if there is no such name.\<close>

definition remove_file :: "unit fio" where
  "remove_file = seqM
     [bnd (gets (\<lambda>s. case file_name s of None \<Rightarrow> None | Some n \<Rightarrow> names (dsk s) n)) (\<lambda>ino.
        whenM (ino \<noteq> None) (syscall Unlink_failed)),
      modify (\<lambda>s. case file_name s of
        None \<Rightarrow> s
      | Some n \<Rightarrow> s\<lparr>dsk := (dsk s)\<lparr>names := (names (dsk s))(n := None)\<rparr>\<rparr>),
      upd_fhead (\<lambda>h. h\<lparr>file_removed := True\<rparr>)]"

section \<open>Locking\<close>

definition zero_head :: file_head where
  "zero_head = \<lparr>create_time = (0, 0), lock_owner = 0, group_head = 0, group_tail = 0, slot_free = 0,
     slots_alloced = 0, fe_run_head = 0, fe_run_tail = 0, file_removed = False\<rparr>"

text \<open>\<open>open\<close> with \<open>O_CREAT\<close>: a new file is empty, so its header reads as zero once it is enlarged.\<close>

definition open_file :: "string \<Rightarrow> fproc \<Rightarrow> fproc" where
  "open_file n s =
     (case names (dsk s) n of
       Some i \<Rightarrow> s\<lparr>file_fd := Some i\<rparr>
     | None \<Rightarrow>
        (let i = fresh_ino (dsk s) in
         s\<lparr>file_fd := Some i,
           dsk := \<lparr>inodes = (inodes (dsk s))(i := \<lparr>i_size = 0, i_head = zero_head\<rparr>),
                   names = (names (dsk s))(n \<mapsto> i), fresh_ino = Suc i\<rparr>\<rparr>))"

definition lock_open :: "unit fio" where
  "lock_open = bnd (gets file_fd) (\<lambda>fd.
     whenM (fd = None)
      (seqM
        [modify (\<lambda>s. s\<lparr>saved_tmpbase := Some (f_tmpbase s)\<rparr>),
         modify (\<lambda>s. s\<lparr>file_name := Some (speedy_util_fname (f_tmpbase s) (fst (f_uids s))
           (snd (f_uids s)) FILE_REV (CHR ''F''))\<rparr>),
         syscall Open_failed,
         modify (\<lambda>s. case file_name s of None \<Rightarrow> s | Some n \<Rightarrow> open_file n s)]))"

text \<open>The wait for the lock, during which other processes go on.\<close>

definition lock_wait :: "unit fio" where
  "lock_wait = thenM [syscall Lock_failed]
     (modify (\<lambda>s. s\<lparr>dsk := others s (ncalls s) (dsk s)\<rparr>))"

definition lock_extend :: "unit fio" where
  "lock_extend = bnd (gets stat_size) (\<lambda>sz.
     bnd (if sz < SIZEOF_HEAD then ret True
          else bnd get_head (\<lambda>h.
            ret (sz < SIZEOF_HEAD + SIZEOF_SLOT * (uint (slots_alloced h) + MIN_SLOTS_FREE)))) (\<lambda>small.
     whenM small
      (seqM
        [syscall Truncate_failed,
         modify (\<lambda>s. case file_fd s of None \<Rightarrow> s
           | Some i \<Rightarrow> upd_inode i (\<lambda>n. n\<lparr>i_size := sz + FILE_ALLOC_CHUNK\<rparr>) s),
         get_stat,
         bnd (gets stat_size) file_map])))"

definition lock_times :: "unit fio" where
  "lock_times = bnd get_head (\<lambda>h.
     thenM
      [whenM (fst (create_time h) = 0)
        (bnd (gets f_time) (\<lambda>t. upd_fhead (\<lambda>h. h\<lparr>create_time := t\<rparr>)))]
      (bnd get_head (\<lambda>h.
       bnd (gets file_create_time) (\<lambda>ours.
       bnd (gets cur_state) (\<lambda>st.
       if fst ours = 0 \<or> st < FS_HAVESLOTS
       then modify (\<lambda>s. s\<lparr>file_create_time := create_time h\<rparr>)
       else whenM (fst ours \<noteq> fst (create_time h) \<or> snd ours \<noteq> snd (create_time h)) remove_file)))))"

text \<open>One try; \<open>True\<close> if it was good.\<close>

definition lock_try :: "bool fio" where
  "lock_try =
     thenM
      [lock_open, lock_wait, get_stat, bnd (gets stat_size) file_map, lock_extend, lock_times,
       bnd get_head (\<lambda>h. whenM (lock_owner h \<noteq> 0) remove_file)]
      (bnd get_head (\<lambda>h.
       if \<not> file_removed h then ret True
       else bnd (gets cur_state) (\<lambda>st.
         if st \<ge> FS_HAVESLOTS then die File_corrupt
         else thenM [file_close2] (ret False))))"

primrec lock_tries :: "nat \<Rightarrow> unit fio" where
  "lock_tries 0 = die Could_not_open"
| "lock_tries (Suc tries) = bnd lock_try (\<lambda>good. if good then ret () else lock_tries tries)"

definition lock_reopen :: "unit fio" where
  "lock_reopen = bnd (gets (\<lambda>s. fst (f_time s))) (\<lambda>now.
     bnd (gets (\<lambda>s. now - last_reopen s > f_restat s \<or> saved_tmpbase s = None
       \<or> saved_tmpbase s \<noteq> Some (f_tmpbase s))) (\<lambda>again.
     whenM again (seqM [modify (\<lambda>s. s\<lparr>last_reopen := now\<rparr>), file_close2])))"

definition file_lock :: "unit fio" where
  "file_lock = bnd (gets file_locked) (\<lambda>locked.
     whenM (\<not> locked)
      (seqM
        [fix_suspect_fd,
         lock_reopen,
         lock_tries 5,
         modify (\<lambda>s. s\<lparr>sigs_blocked := True\<rparr>),
         modify (\<lambda>s. s\<lparr>file_locked := True\<rparr>),
         bnd (gets f_pid) (\<lambda>pid. upd_fhead (\<lambda>h. h\<lparr>lock_owner := pid\<rparr>))]))"

section \<open>The states of the file\<close>

definition file_close :: "unit fio" where
  "file_close = bnd (gets cur_state) (\<lambda>st.
     seqM
      [whenM (st \<ge> FS_HAVESLOTS)
        (seqM
          [file_lock,
           bnd get_head (\<lambda>h. whenM (group_head h = 0 \<and> fe_run_head h = 0) remove_file)]),
       file_close2])"

definition switch_state :: "fs_state \<Rightarrow> unit fio" where
  "switch_state new_state =
     (case new_state of
       FS_CLOSED \<Rightarrow> file_close
     | FS_OPEN \<Rightarrow> file_unlock
     | FS_HAVESLOTS \<Rightarrow> file_unlock
     | FS_CORRUPT \<Rightarrow> file_lock)"

definition speedy_file_set_state :: "fs_state \<Rightarrow> fs_state fio" where
  "speedy_file_set_state new_state = bnd (gets cur_state) (\<lambda>retval.
     thenM
      [whenM (new_state \<noteq> retval)
        (seqM [switch_state new_state, modify (\<lambda>s. s\<lparr>cur_state := new_state\<rparr>)])]
      (ret retval))"

definition speedy_file_fork_child :: "unit fio" where
  "speedy_file_fork_child = bnd (gets file_locked) (\<lambda>locked.
     bnd (gets cur_state) (\<lambda>st.
     seqM
      [whenM locked (modify (\<lambda>s. s\<lparr>sigs_blocked := False\<rparr>)),
       modify (\<lambda>s. s\<lparr>file_locked := False\<rparr>),
       whenM (st > FS_HAVESLOTS) (bnd (speedy_file_set_state FS_HAVESLOTS) (\<lambda>_. ret ()))]))"

definition speedy_file_need_reopen :: "unit fio" where
  "speedy_file_need_reopen = modify (\<lambda>s. s\<lparr>last_reopen := 0\<rparr>)"

end
