(* ===== verification/FileSpecs.thy ===== *)
theory FileSpecs
  imports FileLock
begin

text \<open>
  What locking, unlocking and closing the temp file guarantee (src/src/speedy_file.c). The
  assertions of the code never fail and the header is never read through a null pointer; a lock
  that succeeds gives a file that is not removed, was not left in the middle of an update, is the
  one whose slots the process holds, and has room; the states of the file are kept in step with
  the lock.
\<close>

text \<open>The ends a process may come to here; the other two are bugs.\<close>

definition fdies :: "fwhy \<Rightarrow> bool" where
  "fdies e \<longleftrightarrow> e \<noteq> Unmapped \<and> e \<noteq> Fd_suspect"

lemma fdies_simps [simp]:
  "fdies Mmap_failed" "fdies Unlock_failed" "fdies Fstat_failed" "fdies Unlink_failed"
  "fdies Open_failed" "fdies Lock_failed" "fdies Truncate_failed" "fdies File_corrupt"
  "fdies Could_not_open"
  by (simp_all add: fdies_def)

text \<open>The consistency of what a process remembers.\<close>

definition finv :: "fproc \<Rightarrow> bool" where
  "finv s \<longleftrightarrow> (\<forall>i len. fmap s = Some (i, len) \<longrightarrow> file_fd s = Some i \<and> 0 < len)
     \<and> (file_fd s \<noteq> None \<longrightarrow> file_name s \<noteq> None)
     \<and> file_locked s = sigs_blocked s
     \<and> (file_locked s \<longrightarrow> fmap s \<noteq> None \<and> \<not> fd_is_suspect s)"

text \<open>What no operation of this file changes.\<close>

definition fenv :: "fproc \<Rightarrow> fproc \<Rightarrow> bool" where
  "fenv s t \<longleftrightarrow> others t = others s \<and> fails t = fails s \<and> cur_state t = cur_state s \<and> f_pid t = f_pid s
     \<and> f_time t = f_time s \<and> f_tmpbase t = f_tmpbase s \<and> f_restat t = f_restat s \<and> f_uids t = f_uids s
     \<and> fd_still_ours t = fd_still_ours s"

lemma fenv_refl [simp]: "fenv s s" by (simp add: fenv_def)
lemma fenv_trans [trans]: "fenv s t \<Longrightarrow> fenv t u \<Longrightarrow> fenv s u" by (simp add: fenv_def)

text \<open>A file that was never extended, or has room for the slots that are allocated in it.\<close>

definition sane :: "inode \<Rightarrow> bool" where
  "sane n \<longleftrightarrow> i_size n = 0 \<and> slots_alloced (i_head n) = 0
     \<or> SIZEOF_HEAD + SIZEOF_SLOT * uint (slots_alloced (i_head n)) \<le> i_size n"

definition roomy :: "inode \<Rightarrow> bool" where
  "roomy n \<longleftrightarrow> SIZEOF_HEAD + SIZEOF_SLOT * (uint (slots_alloced (i_head n)) + MIN_SLOTS_FREE) \<le> i_size n"

definition sane_disk :: "disk \<Rightarrow> bool" where
  "sane_disk d \<longleftrightarrow> (\<forall>i. sane (inodes d i))"

definition sane_world :: "fproc \<Rightarrow> bool" where
  "sane_world s \<longleftrightarrow> sane_disk (dsk s) \<and> (\<forall>n d. sane_disk d \<longrightarrow> sane_disk (others s n d))"

lemma roomy_sane: "roomy n \<Longrightarrow> sane n"
  by (simp add: roomy_def sane_def MIN_SLOTS_FREE_def SIZEOF_SLOT_def)

lemma sane_upd: "sane_disk (dsk s) \<Longrightarrow> sane (f (inodes (dsk s) i)) \<Longrightarrow> sane_disk (dsk (upd_inode i f s))"
  by (simp add: sane_disk_def upd_inode_def)

lemma sane_head [simp]:
  "slots_alloced (f (i_head n)) = slots_alloced (i_head n) \<Longrightarrow> sane (n\<lparr>i_head := f (i_head n)\<rparr>) = sane n"
  by (simp add: sane_def)

lemma upd_inode_simps [simp]:
  "fmap (upd_inode i f s) = fmap s" "file_fd (upd_inode i f s) = file_fd s"
  "file_name (upd_inode i f s) = file_name s" "file_locked (upd_inode i f s) = file_locked s"
  "sigs_blocked (upd_inode i f s) = sigs_blocked s" "fd_is_suspect (upd_inode i f s) = fd_is_suspect s"
  "cur_state (upd_inode i f s) = cur_state s" "ncalls (upd_inode i f s) = ncalls s"
  "file_create_time (upd_inode i f s) = file_create_time s" "stat_size (upd_inode i f s) = stat_size s"
  "stat_ino (upd_inode i f s) = stat_ino s"
  "fenv u (upd_inode i f s) = fenv u s" "f_pid (upd_inode i f s) = f_pid s"
  "others (upd_inode i f s) = others s" "names (dsk (upd_inode i f s)) = names (dsk s)"
  "f_tmpbase (upd_inode i f s) = f_tmpbase s" "f_restat (upd_inode i f s) = f_restat s"
  "f_uids (upd_inode i f s) = f_uids s" "fd_still_ours (upd_inode i f s) = fd_still_ours s"
  "last_reopen (upd_inode i f s) = last_reopen s" "saved_tmpbase (upd_inode i f s) = saved_tmpbase s"
  "fails (upd_inode i f s) = fails s" "f_time (upd_inode i f s) = f_time s"
  "fresh_ino (dsk (upd_inode i f s)) = fresh_ino (dsk s)"
  "inodes (dsk (upd_inode i f s)) = (inodes (dsk s))(i := f (inodes (dsk s) i))"
  by (simp_all add: upd_inode_def fenv_def)

named_theorems fwps

lemma wpx_syscall [fwps]:
  "wpx h (syscall e) Q E s = (if fails s (ncalls s) then E e else Q () (s\<lparr>ncalls := Suc (ncalls s)\<rparr>))"
  by (simp add: syscall_def wpxs)

lemma wpx_get_head [fwps]:
  "fmap s = Some (i, len) \<Longrightarrow> wpx h get_head Q E s = Q (i_head (inodes (dsk s) i)) s"
  by (simp add: get_head_def wpxs)

lemma wpx_upd_fhead [fwps]:
  "fmap s = Some (i, len) \<Longrightarrow>
    wpx h (upd_fhead f) Q E s = Q () (upd_inode i (\<lambda>n. n\<lparr>i_head := f (i_head n)\<rparr>) s)"
  by (simp add: upd_fhead_def wpxs)

section \<open>Unlocking and closing\<close>

lemma unlock_spec:
  assumes inv: "finv s" and sane: "sane_world s"
  shows "wpx False file_unlock (\<lambda>_ t. finv t \<and> fenv s t \<and> sane_world t \<and> \<not> file_locked t
    \<and> fmap t = fmap s \<and> file_fd t = file_fd s \<and> fd_is_suspect t = fd_is_suspect s
    \<and> file_create_time t = file_create_time s \<and> names (dsk t) = names (dsk s)
    \<and> (\<forall>i. inodes (dsk t) i = (if file_locked s \<and> file_fd s = Some i
         then (inodes (dsk s) i)\<lparr>i_head := (i_head (inodes (dsk s) i))\<lparr>lock_owner := 0\<rparr>\<rparr>
         else inodes (dsk s) i))) fdies s"
proof (cases "file_locked s")
  case True
  then obtain i len where m: "fmap s = Some (i, len)" "file_fd s = Some i" "0 < len"
    using inv by (auto simp: finv_def)
  have "sane_disk (dsk (upd_inode i (\<lambda>n. n\<lparr>i_head := (i_head n)\<lparr>lock_owner := 0\<rparr>\<rparr>) s))"
    using sane by (intro sane_upd) (auto simp: sane_world_def sane_disk_def)
  then show ?thesis
    using True m inv sane
    by (simp add: file_unlock_def wpxs fwps, auto simp: finv_def fenv_def sane_world_def)
next
  case False
  then show ?thesis using inv sane by (auto simp: file_unlock_def wpxs finv_def)
qed

lemma close2_spec:
  assumes "finv s" and "\<not> fd_is_suspect s" and "sane_world s"
  shows "wpx False file_close2 (\<lambda>_ t. finv t \<and> fenv s t \<and> sane_world t \<and> \<not> file_locked t \<and> \<not> fd_is_suspect t
    \<and> fmap t = None \<and> file_fd t = None \<and> names (dsk t) = names (dsk s)
    \<and> file_create_time t = file_create_time s
    \<and> (\<forall>i. inodes (dsk t) i = (if file_locked s \<and> file_fd s = Some i
         then (inodes (dsk s) i)\<lparr>i_head := (i_head (inodes (dsk s) i))\<lparr>lock_owner := 0\<rparr>\<rparr>
         else inodes (dsk s) i))) fdies s"
  unfolding file_close2_def
  apply (simp add: wpxs assms(2))
  apply (rule wpx_mono [OF unlock_spec [OF assms(1,3)]])
  apply (auto simp: file_unmap_def wpxs finv_def fenv_def fmaplen_def sane_world_def assms(2)
      split: option.splits)
  done

lemma fix_suspect_spec:
  assumes "finv s" and "\<not> file_locked s" and "sane_world s"
  shows "wpx False fix_suspect_fd (\<lambda>_ t. finv t \<and> fenv s t \<and> sane_world t \<and> \<not> file_locked t \<and> \<not> fd_is_suspect t
    \<and> dsk t = dsk s \<and> file_create_time t = file_create_time s) fdies s"
  using assms
  by (auto simp: fix_suspect_fd_def file_unmap_def wpxs finv_def fenv_def fmaplen_def sane_world_def
      split: option.splits)

section \<open>One try\<close>

text \<open>The process works on inode \<open>i\<close>, unlocked.\<close>

definition has_file :: "nat \<Rightarrow> fproc \<Rightarrow> bool" where
  "has_file i s \<longleftrightarrow> file_fd s = Some i \<and> file_name s \<noteq> None \<and> \<not> file_locked s \<and> \<not> sigs_blocked s
     \<and> \<not> fd_is_suspect s \<and> (\<forall>j len. fmap s = Some (j, len) \<longrightarrow> j = i \<and> 0 < len)"

lemma has_file_inv: "has_file i s \<Longrightarrow> finv s"
  by (auto simp: has_file_def finv_def)

definition mapped :: "nat \<Rightarrow> fproc \<Rightarrow> bool" where
  "mapped i s \<longleftrightarrow> has_file i s \<and> fmap s = Some (i, i_size (inodes (dsk s) i)) \<and> roomy (inodes (dsk s) i)"

lemma lock_open_spec:
  assumes "finv s" "\<not> file_locked s" "\<not> fd_is_suspect s" "sane_world s"
  shows "wpx False lock_open (\<lambda>_ t. fenv s t \<and> sane_world t \<and> file_create_time t = file_create_time s
    \<and> (\<exists>i. has_file i t)) fdies s"
proof (cases "file_fd s")
  case (Some i)
  then show ?thesis
    using assms by (auto simp: lock_open_def wpxs has_file_def finv_def)
next
  case None
  have "sane_disk \<lparr>inodes = (inodes d)(i := \<lparr>i_size = 0, i_head = zero_head\<rparr>), names = n, fresh_ino = f\<rparr>"
    if "sane_disk d" for d i n f
    using that by (auto simp: sane_disk_def sane_def zero_head_def)
  moreover have "fmap s = None"
    using assms(1) None by (cases "fmap s") (auto simp: finv_def)
  ultimately show ?thesis
    using None assms
    by (simp add: lock_open_def wpxs fwps)
      (auto simp: has_file_def finv_def fenv_def sane_world_def open_file_def Let_def split: option.splits)
qed

lemma lock_wait_spec:
  assumes "has_file i s" "sane_world s"
  shows "wpx False lock_wait (\<lambda>_ t. fenv s t \<and> sane_world t \<and> has_file i t
    \<and> file_create_time t = file_create_time s \<and> fmap t = fmap s \<and> dsk t = others s (Suc (ncalls s)) (dsk s)) fdies s"
  using assms by (auto simp: lock_wait_def wpxs fwps fenv_def sane_world_def has_file_def)

lemma wpx_get_stat [fwps]:
  "file_fd s = Some i \<Longrightarrow> wpx h get_stat Q E s = (if fails s (ncalls s) then E Fstat_failed
     else Q () (s\<lparr>ncalls := Suc (ncalls s), stat_ino := i, stat_size := i_size (inodes (dsk s) i)\<rparr>))"
  by (simp add: get_stat_def wpxs fwps)

lemma file_map_spec:
  assumes "has_file i s" "0 \<le> len"
  shows "wpx False (file_map len) (\<lambda>_ t. fenv s t \<and> has_file i t \<and> dsk t = dsk s \<and> stat_size t = stat_size s
    \<and> file_create_time t = file_create_time s
    \<and> (if len = 0 then fmap t = None else fmap t = Some (i, len))) fdies s"
  using assms
  by (auto simp: file_map_def file_unmap_def wpxs fwps fmaplen_def has_file_def fenv_def
      split: option.splits)

lemma lock_extend_spec:
  assumes "has_file i s" and sane: "sane_world s"
    and sz: "stat_size s = i_size (inodes (dsk s) i)"
    and map: "if stat_size s = 0 then fmap s = None else fmap s = Some (i, stat_size s)"
  shows "wpx False lock_extend (\<lambda>_ t. fenv s t \<and> sane_world t \<and> mapped i t
    \<and> file_create_time t = file_create_time s \<and> names (dsk t) = names (dsk s)
    \<and> (\<forall>j. i_head (inodes (dsk t) j) = i_head (inodes (dsk s) j))) fdies s"
proof -
  let ?sz = "stat_size s" and ?n = "inodes (dsk s) i"
  have n: "sane ?n" using sane by (simp add: sane_world_def sane_disk_def)
  have nonneg: "0 \<le> i_size ?n"
    using n by (auto simp: sane_def SIZEOF_HEAD_def SIZEOF_SLOT_def intro: order_trans [rotated])
  define small where "small \<longleftrightarrow> ?sz < SIZEOF_HEAD + SIZEOF_SLOT * (uint (slots_alloced (i_head ?n)) + MIN_SLOTS_FREE)"
  have le: "x < h + 32 * (a + 5)" if "x < h" "0 \<le> a" for x h a :: int using that by simp
  have lt: "?sz < SIZEOF_HEAD \<Longrightarrow> small"
    unfolding small_def SIZEOF_SLOT_def MIN_SLOTS_FREE_def by (rule le) simp_all
  have map': "\<not> ?sz < SIZEOF_HEAD \<Longrightarrow> fmap s = Some (i, ?sz)"
    using map by (auto simp: SIZEOF_HEAD_def split: if_splits)
  have test: "wpx False (if ?sz < SIZEOF_HEAD then ret True
      else bnd get_head (\<lambda>h. ret (?sz < SIZEOF_HEAD + SIZEOF_SLOT * (uint (slots_alloced h) + MIN_SLOTS_FREE))))
    Q fdies s = Q small s" for Q
    using lt map' by (auto simp: wpxs fwps small_def)
  show ?thesis
  proof (cases small)
    case False
    then have "fmap s = Some (i, ?sz)" "roomy ?n"
      using lt map' sz by (auto simp: small_def roomy_def)
    then show ?thesis
      using False assms test by (simp add: lock_extend_def wpxs mapped_def del: wpx_if)
  next
    case True
    define u where "u = upd_inode i (\<lambda>n. n\<lparr>i_size := ?sz + FILE_ALLOC_CHUNK\<rparr>) (s\<lparr>ncalls := Suc (ncalls s)\<rparr>)"
    define v where "v = u\<lparr>ncalls := Suc (Suc (ncalls s)), stat_ino := i, stat_size := ?sz + FILE_ALLOC_CHUNK\<rparr>"
    have room: "roomy (inodes (dsk u) i)"
      using n sz by (auto simp: u_def roomy_def sane_def FILE_ALLOC_CHUNK_def MIN_SLOTS_FREE_def
          SIZEOF_HEAD_def SIZEOF_SLOT_def)
    have "sane_disk (dsk u)"
      using sane room by (auto simp: u_def sane_world_def sane_disk_def intro: roomy_sane)
    then have v: "has_file i v" "sane_world v" "fenv s v" "roomy (inodes (dsk v) i)"
      "i_size (inodes (dsk v) i) = ?sz + FILE_ALLOC_CHUNK" "0 \<le> ?sz + FILE_ALLOC_CHUNK"
      "?sz + FILE_ALLOC_CHUNK \<noteq> 0" "file_create_time v = file_create_time s"
      "names (dsk v) = names (dsk s)" "\<forall>j. i_head (inodes (dsk v) j) = i_head (inodes (dsk s) j)"
      using assms(1) sane room sz nonneg
      by (auto simp: v_def u_def has_file_def sane_world_def fenv_def FILE_ALLOC_CHUNK_def)
    have "wpx False (file_map (?sz + FILE_ALLOC_CHUNK)) (\<lambda>_ t. fenv s t \<and> sane_world t \<and> mapped i t
        \<and> file_create_time t = file_create_time s \<and> names (dsk t) = names (dsk s)
        \<and> (\<forall>j. i_head (inodes (dsk t) j) = i_head (inodes (dsk s) j))) fdies v"
      by (rule wpx_mono [OF file_map_spec [OF v(1,6)]])
        (use v in \<open>auto simp: mapped_def sane_world_def fenv_def\<close>)
    moreover have "wpx False (bnd (gets stat_size) file_map) Q fdies v =
        wpx False (file_map (?sz + FILE_ALLOC_CHUNK)) Q fdies v" for Q
      by (simp add: wpxs v_def)
    ultimately show ?thesis
      using True assms(1) test
      by (simp add: lock_extend_def wpxs fwps has_file_def v_def u_def del: wpx_if) 
  qed
qed

text \<open>The part of the header that locking leaves alone.\<close>

definition body :: "file_head \<Rightarrow> slotnum \<times> slotnum \<times> slotnum \<times> slotnum \<times> slotnum \<times> slotnum" where
  "body h = (group_head h, group_tail h, slot_free h, slots_alloced h, fe_run_head h, fe_run_tail h)"

definition bodies :: "disk \<Rightarrow> disk \<Rightarrow> bool" where
  "bodies d d' \<longleftrightarrow> (\<forall>j. body (i_head (inodes d' j)) = body (i_head (inodes d j)))"

lemma bodies_refl [simp]: "bodies d d" by (simp add: bodies_def)
lemma bodies_trans: "bodies d d' \<Longrightarrow> bodies d' d'' \<Longrightarrow> bodies d d''" by (simp add: bodies_def)

lemma has_file_upd [simp]: "has_file i (upd_inode j f s) = has_file i s"
  by (simp add: has_file_def)

lemma has_file_simps [simp]:
  "has_file i (s\<lparr>ncalls := c\<rparr>) = has_file i s"
  "has_file i (s\<lparr>dsk := d\<rparr>) = has_file i s"
  "has_file i (s\<lparr>file_create_time := t\<rparr>) = has_file i s"
  by (simp_all add: has_file_def)

lemma mapped_upd:
  assumes "mapped i s" and "slots_alloced (f (i_head (inodes (dsk s) i))) = slots_alloced (i_head (inodes (dsk s) i))"
  shows "mapped i (upd_inode i (\<lambda>n. n\<lparr>i_head := f (i_head n)\<rparr>) s)"
  using assms by (simp add: mapped_def roomy_def)

lemma remove_spec:
  assumes m: "mapped i s" and sane: "sane_world s"
  shows "wpx False remove_file (\<lambda>_ t. mapped i t \<and> fenv s t \<and> sane_world t
    \<and> file_create_time t = file_create_time s \<and> bodies (dsk s) (dsk t)
    \<and> names (dsk t) (the (file_name s)) = None \<and> file_name t = file_name s
    \<and> i_head (inodes (dsk t) i) = (i_head (inodes (dsk s) i))\<lparr>file_removed := True\<rparr>) fdies s"
proof -
  obtain n where n: "file_name s = Some n" using m by (auto simp: mapped_def has_file_def)
  have f: "fmap s = Some (i, i_size (inodes (dsk s) i))" using m by (simp add: mapped_def)
  define u where "u c = s\<lparr>ncalls := c, dsk := (dsk s)\<lparr>names := (names (dsk s))(n := None)\<rparr>\<rparr>" for c
  have mu: "mapped i (u c)" "sane_world (u c)" "fenv s (u c)" for c
    using m sane by (simp_all add: u_def mapped_def sane_world_def sane_disk_def fenv_def)
  define v where "v c = upd_inode i (\<lambda>n. n\<lparr>i_head := (i_head n)\<lparr>file_removed := True\<rparr>\<rparr>) (u c)" for c
  have "mapped i (v c)" for c unfolding v_def using mu(1) by (rule mapped_upd) simp
  moreover have "sane_world (v c)" for c
    using mu(2) [of c] by (auto simp: v_def sane_world_def intro!: sane_upd simp: sane_disk_def)
  moreover have "fenv s (v c)" "file_create_time (v c) = file_create_time s" "bodies (dsk s) (dsk (v c))"
    "names (dsk (v c)) n = None" "file_name (v c) = Some n"
    "i_head (inodes (dsk (v c)) i) = (i_head (inodes (dsk s) i))\<lparr>file_removed := True\<rparr>" for c
    using mu(3) n by (auto simp: v_def u_def bodies_def body_def)
  moreover have "wpx False remove_file Q fdies s =
    (if names (dsk s) n \<noteq> None
     then if fails s (ncalls s) then True else Q () (v (Suc (ncalls s)))
     else Q () (v (ncalls s)))" for Q
    using f n by (auto simp: remove_file_def wpxs fwps v_def u_def)
  ultimately show ?thesis using n by simp
qed

lemma lock_times_spec:
  assumes m: "mapped i s" and sane: "sane_world s"
  shows "wpx False lock_times (\<lambda>_ t. mapped i t \<and> fenv s t \<and> sane_world t \<and> bodies (dsk s) (dsk t)
    \<and> lock_owner (i_head (inodes (dsk t) i)) = lock_owner (i_head (inodes (dsk s) i))
    \<and> (file_removed (i_head (inodes (dsk s) i)) \<longrightarrow> file_removed (i_head (inodes (dsk t) i)))
    \<and> (\<not> file_removed (i_head (inodes (dsk t) i)) \<longrightarrow>
        file_create_time t = create_time (i_head (inodes (dsk t) i))
        \<and> (cur_state s \<ge> FS_HAVESLOTS \<and> fst (file_create_time s) \<noteq> 0 \<longrightarrow> file_create_time t = file_create_time s))
    ) fdies s"
proof -
  have f: "fmap s = Some (i, i_size (inodes (dsk s) i))" using m by (simp add: mapped_def)
  define h where "h = i_head (inodes (dsk s) i)"
  define u where "u = (if fst (create_time h) = 0
    then upd_inode i (\<lambda>n. n\<lparr>i_head := (i_head n)\<lparr>create_time := f_time s\<rparr>\<rparr>) s else s)"
  have mu: "mapped i u" using m mapped_upd [OF m, of "\<lambda>h. h\<lparr>create_time := f_time s\<rparr>"] by (simp add: u_def)
  have u: "sane_world u" "fenv s u" "bodies (dsk s) (dsk u)" "cur_state u = cur_state s"
    "file_create_time u = file_create_time s"
    "lock_owner (i_head (inodes (dsk u) i)) = lock_owner h"
    "file_removed (i_head (inodes (dsk u) i)) = file_removed h"
    using sane by (auto simp: u_def h_def sane_world_def bodies_def body_def intro!: sane_upd)
      (auto simp: sane_disk_def)
  have fu: "fmap u = Some (i, i_size (inodes (dsk u) i))" using mu by (simp add: mapped_def)
  let ?h = "i_head (inodes (dsk u) i)"
  have eq: "wpx False lock_times Q fdies s =
    (if fst (file_create_time s) = 0 \<or> cur_state s < FS_HAVESLOTS
     then Q () (u\<lparr>file_create_time := create_time ?h\<rparr>)
     else if file_create_time s \<noteq> create_time ?h then wpx False remove_file Q fdies u
     else Q () u)" for Q
  proof -
    have "wpx False lock_times Q fdies s =
      wpx False (bnd get_head (\<lambda>h. bnd (gets file_create_time) (\<lambda>ours. bnd (gets cur_state) (\<lambda>st.
       if fst ours = 0 \<or> st < FS_HAVESLOTS
       then modify (\<lambda>s. s\<lparr>file_create_time := create_time h\<rparr>)
       else whenM (fst ours \<noteq> fst (create_time h) \<or> snd ours \<noteq> snd (create_time h)) remove_file)))) Q fdies u"
      unfolding lock_times_def using f by (simp add: wpxs fwps u_def h_def del: wpx_if)
    also have "\<dots> = (if fst (file_create_time s) = 0 \<or> cur_state s < FS_HAVESLOTS
     then Q () (u\<lparr>file_create_time := create_time ?h\<rparr>)
     else if file_create_time s \<noteq> create_time ?h then wpx False remove_file Q fdies u
     else Q () u)"
      using fu u by (simp add: wpxs fwps prod_eq_iff)
    finally show ?thesis .
  qed
  have "mapped i (u\<lparr>file_create_time := create_time ?h\<rparr>)" "fenv s (u\<lparr>file_create_time := create_time ?h\<rparr>)"
    "sane_world (u\<lparr>file_create_time := create_time ?h\<rparr>)"
    using mu u by (simp_all add: mapped_def fenv_def sane_world_def)
  moreover have "wpx False remove_file (\<lambda>_ t. mapped i t \<and> fenv s t \<and> sane_world t \<and> bodies (dsk s) (dsk t)
    \<and> lock_owner (i_head (inodes (dsk t) i)) = lock_owner h \<and> file_removed (i_head (inodes (dsk t) i))) fdies u"
    by (rule wpx_mono [OF remove_spec [OF mu u(1)]])
      (use u in \<open>auto intro: bodies_trans simp: fenv_def\<close>)
  ultimately show ?thesis
    unfolding eq h_def [symmetric]
    by (cases "fst (file_create_time s) = 0 \<or> cur_state s < FS_HAVESLOTS";
        cases "file_create_time s \<noteq> create_time ?h")
      (use mu u in \<open>auto simp: not_less [symmetric] elim!: wpx_mono\<close>)
qed

text \<open>
  What follows the wait for the lock. A good try ends with the file mapped, with room, not removed,
  not left in the middle of an update, and with the create time the process knows; a bad one ends
  the process if it holds slots, otherwise it closes the file.
\<close>

definition locked_file :: "nat \<Rightarrow> fproc \<Rightarrow> bool" where
  "locked_file i t \<longleftrightarrow> mapped i t \<and> lock_owner (i_head (inodes (dsk t) i)) = 0
     \<and> \<not> file_removed (i_head (inodes (dsk t) i))
     \<and> file_create_time t = create_time (i_head (inodes (dsk t) i))"

definition try_post :: "fproc \<Rightarrow> bool \<Rightarrow> fproc \<Rightarrow> bool" where
  "try_post s good t \<longleftrightarrow> fenv s t \<and> sane_world t \<and>
    (if good
     then \<exists>i n d. locked_file i t \<and> bodies (others s n d) (dsk t)
       \<and> (cur_state s \<ge> FS_HAVESLOTS \<and> fst (file_create_time s) \<noteq> 0 \<longrightarrow> file_create_time t = file_create_time s)
     else cur_state s < FS_HAVESLOTS \<and> finv t \<and> \<not> file_locked t \<and> \<not> fd_is_suspect t
       \<and> file_fd t = None \<and> fmap t = None)"

text \<open>Between the wait for the lock and the verdict.\<close>

definition trying :: "fproc \<Rightarrow> nat \<Rightarrow> fproc \<Rightarrow> bool" where
  "trying s i t \<longleftrightarrow> mapped i t \<and> fenv s t \<and> sane_world t \<and> (\<exists>n d. bodies (others s n d) (dsk t))
    \<and> (\<not> file_removed (i_head (inodes (dsk t) i)) \<longrightarrow> file_create_time t = create_time (i_head (inodes (dsk t) i))
      \<and> (cur_state s \<ge> FS_HAVESLOTS \<and> fst (file_create_time s) \<noteq> 0 \<longrightarrow> file_create_time t = file_create_time s))"

lemma trying_map: "trying s i t \<Longrightarrow> fmap t = Some (i, i_size (inodes (dsk t) i))"
  by (simp add: trying_def mapped_def)

lemma try_verdict:
  assumes g: "trying s i t" and o: "lock_owner (i_head (inodes (dsk t) i)) = 0 \<or> file_removed (i_head (inodes (dsk t) i))"
  shows "wpx False (bnd get_head (\<lambda>h.
       if \<not> file_removed h then ret True
       else bnd (gets cur_state) (\<lambda>st.
         if st \<ge> FS_HAVESLOTS then die File_corrupt
         else thenM [file_close2] (ret False)))) (try_post s) fdies t"
proof (cases "file_removed (i_head (inodes (dsk t) i))")
  case False
  then have "try_post s True t" using g o by (auto simp: try_post_def trying_def locked_file_def)
  then show ?thesis using trying_map [OF g] False by (simp add: wpxs fwps)
next
  case True
  have h: "has_file i t" and st: "cur_state t = cur_state s" and w: "sane_world t"
    using g by (simp_all add: trying_def mapped_def fenv_def)
  have "wpx False (thenM [file_close2] (ret False)) (try_post s) fdies t" if "cur_state s < FS_HAVESLOTS"
    unfolding wpx_thenM wpx_seqM
    by (rule wpx_mono [OF close2_spec [OF has_file_inv [OF h] _ w]])
      (use h g that in \<open>auto simp: has_file_def wpxs try_post_def trying_def intro: fenv_trans\<close>)
  then show ?thesis
    using trying_map [OF g] True st by (simp add: wpx_bnd wpx_if wpx_gets wpx_die fwps not_le)
qed

lemma try_owner:
  assumes g: "trying s i t" and Q: "\<And>u. trying s i u \<Longrightarrow>
    lock_owner (i_head (inodes (dsk u) i)) = 0 \<or> file_removed (i_head (inodes (dsk u) i)) \<Longrightarrow> Q () u"
  shows "wpx False (bnd get_head (\<lambda>h. whenM (lock_owner h \<noteq> 0) remove_file)) Q fdies t"
proof (cases "lock_owner (i_head (inodes (dsk t) i)) = 0")
  case True
  then show ?thesis using trying_map [OF g] Q [OF g] by (simp add: wpxs fwps)
next
  case False
  have m: "mapped i t" and w: "sane_world t" using g by (simp_all add: trying_def)
  have "wpx False remove_file Q fdies t"
    by (rule wpx_mono [OF remove_spec [OF m w]], simp, rule Q)
      (use g in \<open>auto simp: trying_def intro: fenv_trans bodies_trans\<close>)
  then show ?thesis using trying_map [OF g] False by (simp add: wpxs fwps)
qed

definition verdict :: "bool fio" where
  "verdict = bnd get_head (\<lambda>h.
     if \<not> file_removed h then ret True
     else bnd (gets cur_state) (\<lambda>st.
       if st \<ge> FS_HAVESLOTS then die File_corrupt
       else thenM [file_close2] (ret False)))"

text \<open>The try from the look at the locked file on.\<close>

lemma try_checks:
  assumes v: "has_file i v" "sane_world v" "fenv s v" "file_create_time v = file_create_time s"
    "stat_size v = i_size (inodes (dsk v) i)" "dsk v = others s n d"
  shows "wpx False (thenM [file_map (stat_size v), lock_extend, lock_times,
      bnd get_head (\<lambda>h. whenM (lock_owner h \<noteq> 0) remove_file)] verdict) (try_post s) fdies v"
  unfolding wpx_thenM wpx_seqM
proof -
  have "sane (inodes (dsk v) i)" using v by (simp add: sane_world_def sane_disk_def)
  then have pos: "0 \<le> stat_size v"
    by (auto simp: v(5) sane_def SIZEOF_HEAD_def SIZEOF_SLOT_def intro: order_trans [rotated])
  have owner: "wpx False (bnd get_head (\<lambda>h. whenM (lock_owner h \<noteq> 0) remove_file))
      (\<lambda>_. wpx False verdict (try_post s) fdies) fdies y" if "trying s i y" for y
    unfolding verdict_def using that try_verdict by (rule try_owner)
  have times: "wpx False lock_times (\<lambda>_. wpx False (bnd get_head (\<lambda>h. whenM (lock_owner h \<noteq> 0) remove_file))
      (\<lambda>_. wpx False verdict (try_post s) fdies) fdies) fdies x"
    if "mapped i x" "fenv s x" "sane_world x" "file_create_time x = file_create_time s"
      "bodies (dsk v) (dsk x)" for x
  proof (rule wpx_mono [OF lock_times_spec [OF that(1,3)]], rule owner)
    fix a y
    assume y: "mapped i y \<and> fenv x y \<and> sane_world y \<and> bodies (dsk x) (dsk y)
      \<and> lock_owner (i_head (inodes (dsk y) i)) = lock_owner (i_head (inodes (dsk x) i))
      \<and> (file_removed (i_head (inodes (dsk x) i)) \<longrightarrow> file_removed (i_head (inodes (dsk y) i)))
      \<and> (\<not> file_removed (i_head (inodes (dsk y) i)) \<longrightarrow>
          file_create_time y = create_time (i_head (inodes (dsk y) i))
          \<and> (cur_state x \<ge> FS_HAVESLOTS \<and> fst (file_create_time x) \<noteq> 0 \<longrightarrow> file_create_time y = file_create_time x))"
    have "bodies (others s n d) (dsk y)" using that(5) y v(6) by (auto intro: bodies_trans)
    moreover have "cur_state x = cur_state s" using that(2) by (simp add: fenv_def)
    ultimately show "trying s i y"
      using y that by (auto simp: trying_def intro: fenv_trans)
  qed
  show "wpx False (file_map (stat_size v)) (\<lambda>_. wpx False lock_extend (\<lambda>_. wpx False lock_times
      (\<lambda>_. wpx False (bnd get_head (\<lambda>h. whenM (lock_owner h \<noteq> 0) remove_file))
        (\<lambda>_. wpx False verdict (try_post s) fdies) fdies) fdies) fdies) fdies v"
  proof (rule wpx_mono [OF file_map_spec [OF v(1) pos]], elim conjE)
    fix a w
    assume w: "fenv v w" "has_file i w" "dsk w = dsk v" "stat_size w = stat_size v"
      "file_create_time w = file_create_time v"
      "if stat_size v = 0 then fmap w = None else fmap w = Some (i, stat_size v)"
    have sw: "sane_world w" using v w by (simp add: sane_world_def fenv_def)
    have sz: "stat_size w = i_size (inodes (dsk w) i)" using w v by simp
    have map: "if stat_size w = 0 then fmap w = None else fmap w = Some (i, stat_size w)"
      using w by simp
    show "wpx False lock_extend (\<lambda>_. wpx False lock_times
      (\<lambda>_. wpx False (bnd get_head (\<lambda>h. whenM (lock_owner h \<noteq> 0) remove_file))
        (\<lambda>_. wpx False verdict (try_post s) fdies) fdies) fdies) fdies w"
      by (rule wpx_mono [OF lock_extend_spec [OF w(2) sw sz map]], elim conjE, rule times)
        (use v w in \<open>auto simp: fenv_def bodies_def\<close>)
  qed
qed

lemma lock_try_spec:
  assumes inv: "finv s" "\<not> file_locked s" "\<not> fd_is_suspect s" and sane: "sane_world s"
  shows "wpx False lock_try (try_post s) fdies s"
  unfolding lock_try_def verdict_def [symmetric] wpx_thenM wpx_seqM
proof (rule wpx_mono [OF lock_open_spec [OF inv sane]], elim conjE exE,
    rule wpx_mono [OF lock_wait_spec], assumption, assumption, elim conjE)
  fix a a' t i u
  assume t: "fenv s t" "sane_world t" "file_create_time t = file_create_time s" "has_file i t"
    and u: "fenv t u" "sane_world u" "has_file i u" "file_create_time u = file_create_time t"
      "dsk u = others t (Suc (ncalls t)) (dsk t)"
  define v where "v = u\<lparr>ncalls := Suc (ncalls u), stat_ino := i, stat_size := i_size (inodes (dsk u) i)\<rparr>"
  have v: "has_file i v" "sane_world v" "fenv s v" "file_create_time v = file_create_time s"
    "stat_size v = i_size (inodes (dsk v) i)" "dsk v = others s (Suc (ncalls t)) (dsk t)"
    using t u by (simp_all add: v_def has_file_def sane_world_def fenv_def)
  note checks = try_checks [OF v, unfolded wpx_thenM wpx_seqM]
  have fd: "file_fd u = Some i" using u(3) by (simp add: has_file_def)
  show "wpx False get_stat (\<lambda>_. wpx False (bnd (gets stat_size) file_map)
    (\<lambda>_. wpx False lock_extend (\<lambda>_. wpx False lock_times
      (\<lambda>_. wpx False (bnd get_head (\<lambda>h. whenM (lock_owner h \<noteq> 0) remove_file))
        (\<lambda>_. wpx False verdict (try_post s) fdies) fdies) fdies) fdies) fdies) fdies u"
    using checks by (simp only: wpx_get_stat [OF fd] wpx_bnd wpx_gets v_def [symmetric]) simp
qed

section \<open>Locking\<close>

lemma lock_tries_spec:
  assumes "finv s" "\<not> file_locked s" "\<not> fd_is_suspect s" "sane_world s"
  shows "wpx False (lock_tries tries) (\<lambda>_. try_post s True) fdies s"
  using assms
proof (induction tries arbitrary: s)
  case 0
  then show ?case by (simp add: wpxs)
next
  case (Suc tries)
  have "wpx False (if good then ret () else lock_tries tries) (\<lambda>_. try_post s True) fdies t"
    if t: "try_post s good t" for good t
  proof (cases good)
    case True
    then show ?thesis using t by (simp add: wpxs)
  next
    case False
    then have f: "fenv s t" "sane_world t" "cur_state s < FS_HAVESLOTS" "finv t" "\<not> file_locked t"
      "\<not> fd_is_suspect t" using t by (simp_all add: try_post_def)
    have "wpx False (lock_tries tries) (\<lambda>_. try_post s True) fdies t"
      by (rule wpx_mono [OF Suc.IH [OF f(4-6,2)]])
        (use f(1,3) in \<open>auto simp: try_post_def fenv_def not_le [symmetric]\<close>)
    then show ?thesis using False by simp
  qed
  then show ?case
    by (simp only: lock_tries.simps wpx_bnd) (rule wpx_mono [OF lock_try_spec [OF Suc.prems]])
qed

text \<open>What holds while the process has the lock.\<close>

definition holds_lock :: "fproc \<Rightarrow> bool" where
  "holds_lock t \<longleftrightarrow> file_locked t \<and> (\<exists>i. file_fd t = Some i \<and> fmap t = Some (i, i_size (inodes (dsk t) i))
     \<and> roomy (inodes (dsk t) i) \<and> lock_owner (i_head (inodes (dsk t) i)) = f_pid t
     \<and> \<not> file_removed (i_head (inodes (dsk t) i))
     \<and> create_time (i_head (inodes (dsk t) i)) = file_create_time t)"

definition lock_post :: "fproc \<Rightarrow> fproc \<Rightarrow> bool" where
  "lock_post s t \<longleftrightarrow> finv t \<and> fenv s t \<and> sane_world t \<and> holds_lock t
    \<and> (\<exists>n d. bodies (others s n d) (dsk t))
    \<and> (cur_state s \<ge> FS_HAVESLOTS \<and> fst (file_create_time s) \<noteq> 0 \<longrightarrow> file_create_time t = file_create_time s)"

text \<open>The last part of \<open>file_lock\<close>.\<close>

lemma take_lock_spec:
  assumes t: "try_post u True t" and u: "fenv s u" "file_create_time u = file_create_time s"
  shows "wpx False (seqM [modify (\<lambda>s. s\<lparr>sigs_blocked := True\<rparr>), modify (\<lambda>s. s\<lparr>file_locked := True\<rparr>),
    bnd (gets f_pid) (\<lambda>pid. upd_fhead (\<lambda>h. h\<lparr>lock_owner := pid\<rparr>))]) (\<lambda>_. lock_post s) fdies t"
proof -
  obtain i n d where i: "locked_file i t" "bodies (others u n d) (dsk t)"
    and ct: "cur_state u \<ge> FS_HAVESLOTS \<and> fst (file_create_time u) \<noteq> 0 \<longrightarrow> file_create_time t = file_create_time u"
    and w: "fenv u t" "sane_world t"
    using t by (auto simp: try_post_def)
  have f: "fmap t = Some (i, i_size (inodes (dsk t) i))" "roomy (inodes (dsk t) i)" "has_file i t"
    using i by (simp_all add: locked_file_def mapped_def)
  have env: "others u = others s" "cur_state u = cur_state s" using u by (simp_all add: fenv_def)
  define v where "v = t\<lparr>sigs_blocked := True, file_locked := True\<rparr>"
  define x where "x = upd_inode i (\<lambda>n. n\<lparr>i_head := (i_head n)\<lparr>lock_owner := f_pid t\<rparr>\<rparr>) v"
  have "sane_disk (dsk x)"
    unfolding x_def using w(2) by (intro sane_upd) (auto simp: v_def sane_world_def sane_disk_def)
  moreover have "fmap x = fmap t" "file_fd x = Some i" "file_name x = file_name t" "file_locked x" "sigs_blocked x"
    "fd_is_suspect x = fd_is_suspect t" "file_create_time x = file_create_time t" "f_pid x = f_pid t"
    "fenv t x" "others x = others t"
    using f(3) by (simp_all add: x_def v_def has_file_def fenv_def)
  moreover have "i_head (inodes (dsk x) i) = (i_head (inodes (dsk t) i))\<lparr>lock_owner := f_pid t\<rparr>"
    "i_size (inodes (dsk x) i) = i_size (inodes (dsk t) i)" "bodies (dsk t) (dsk x)"
    by (simp_all add: x_def v_def bodies_def body_def)
  ultimately have "lock_post s x"
    using i(1,2) ct w f u env
    by (auto simp: lock_post_def finv_def holds_lock_def locked_file_def roomy_def has_file_def sane_world_def
        intro: fenv_trans bodies_trans)
  then show ?thesis
    using f(1) by (simp add: wpxs fwps x_def v_def)
qed

lemma reopen_spec:
  assumes "finv u" "\<not> file_locked u" "\<not> fd_is_suspect u" "sane_world u"
  shows "wpx False lock_reopen (\<lambda>_ t. finv t \<and> fenv u t \<and> sane_world t \<and> \<not> file_locked t
      \<and> \<not> fd_is_suspect t \<and> file_create_time t = file_create_time u) fdies u"
proof -
  let ?u = "u\<lparr>last_reopen := fst (f_time u)\<rparr>"
  have "finv ?u" "\<not> fd_is_suspect ?u" "sane_world ?u"
    using assms by (auto simp: finv_def sane_world_def)
  note c = close2_spec [OF this]
  show ?thesis
    using assms
    by (auto simp: lock_reopen_def wpxs simp del: wpx_if intro!: wpx_mono [OF c] simp: fenv_def)
qed

lemma file_lock_spec:
  assumes inv: "finv s" "\<not> file_locked s" and sane: "sane_world s"
  shows "wpx False file_lock (\<lambda>_. lock_post s) fdies s"
proof -
  let ?set = "seqM [modify (\<lambda>s. s\<lparr>sigs_blocked := True\<rparr>), modify (\<lambda>s. s\<lparr>file_locked := True\<rparr>),
    bnd (gets f_pid) (\<lambda>pid. upd_fhead (\<lambda>h. h\<lparr>lock_owner := pid\<rparr>))]"
  have "wpx False fix_suspect_fd (\<lambda>_. wpx False lock_reopen (\<lambda>_. wpx False (lock_tries 5)
      (\<lambda>_. wpx False ?set (\<lambda>_. lock_post s) fdies) fdies) fdies) fdies s"
  proof (rule wpx_mono [OF fix_suspect_spec [OF inv sane]], elim conjE,
      rule wpx_mono [OF reopen_spec], assumption+, elim conjE,
      rule wpx_mono [OF lock_tries_spec], assumption+, rule take_lock_spec, assumption)
    fix u x
    assume "fenv s u" "fenv u x" then show "fenv s x" by (rule fenv_trans)
  qed simp
  then show ?thesis
    using inv(2) by (simp add: file_lock_def wpx_bnd wpx_gets wpx_whenM wpx_seqM del: wpx_if)
qed

section \<open>The states of the file\<close>

text \<open>
  Between calls: the lock is held in the state \<open>FS_CORRUPT\<close> and only there, and in \<open>FS_CLOSED\<close> the
  file is neither open nor mapped. A frontend, which never runs perl, never has to suspect its
  descriptor; a backend never asks for \<open>FS_OPEN\<close>.
\<close>

definition sinv :: "bool \<Rightarrow> fproc \<Rightarrow> bool" where
  "sinv isbe s \<longleftrightarrow> finv s \<and> sane_world s \<and> (file_locked s \<longleftrightarrow> cur_state s = FS_CORRUPT)
     \<and> (cur_state s = FS_CLOSED \<longrightarrow> file_fd s = None \<and> fmap s = None)
     \<and> (if isbe then cur_state s \<noteq> FS_OPEN else \<not> fd_is_suspect s)"

lemma file_lock_any:
  assumes "finv s" and "sane_world s"
  shows "wpx False file_lock (\<lambda>_ t. finv t \<and> fenv s t \<and> sane_world t \<and> file_locked t) fdies s"
proof (cases "file_locked s")
  case True
  then show ?thesis using assms by (simp add: file_lock_def wpxs)
next
  case False
  then show ?thesis
    using assms by (auto intro!: wpx_mono [OF file_lock_spec] simp: lock_post_def holds_lock_def)
qed

lemma remove_keeps:
  assumes inv: "finv s" and f: "fmap s = Some (i, len)" and sane: "sane_world s"
  shows "wpx False remove_file (\<lambda>_ t. finv t \<and> fenv s t \<and> sane_world t \<and> fmap t = fmap s \<and> file_fd t = file_fd s
    \<and> file_locked t = file_locked s \<and> fd_is_suspect t = fd_is_suspect s
    \<and> names (dsk t) (the (file_name s)) = None
    \<and> file_removed (i_head (inodes (dsk t) i))) fdies s"
proof -
  obtain n where n: "file_name s = Some n" using inv f by (auto simp: finv_def)
  define v where "v c = upd_inode i (\<lambda>n. n\<lparr>i_head := (i_head n)\<lparr>file_removed := True\<rparr>\<rparr>)
    (s\<lparr>ncalls := c, dsk := (dsk s)\<lparr>names := (names (dsk s))(n := None)\<rparr>\<rparr>)" for c
  have "sane_disk (dsk (v c))" for c
    unfolding v_def using sane by (intro sane_upd) (auto simp: sane_world_def sane_disk_def)
  then have v: "finv (v c)" "fenv s (v c)" "sane_world (v c)" "fmap (v c) = fmap s" "file_fd (v c) = file_fd s"
    "file_locked (v c) = file_locked s" "fd_is_suspect (v c) = fd_is_suspect s"
    "names (dsk (v c)) n = None" "file_removed (i_head (inodes (dsk (v c)) i))" for c
    using inv sane by (simp_all add: finv_def fenv_def sane_world_def) (simp_all add: v_def)
  have "wpx False remove_file Q fdies s =
    (if names (dsk s) n \<noteq> None
     then if fails s (ncalls s) then True else Q () (v (Suc (ncalls s)))
     else Q () (v (ncalls s)))" for Q
    using f n by (auto simp: remove_file_def wpxs fwps v_def)
  then show ?thesis using v n by simp
qed

lemma close_spec:
  assumes inv: "finv s" and sane: "sane_world s" and su: "fd_is_suspect s \<longrightarrow> cur_state s \<ge> FS_HAVESLOTS"
  shows "wpx False file_close (\<lambda>_ t. finv t \<and> fenv s t \<and> sane_world t \<and> \<not> file_locked t \<and> \<not> fd_is_suspect t
    \<and> file_fd t = None \<and> fmap t = None) fdies s"
proof -
  have c2: "wpx False file_close2 (\<lambda>_ t. finv t \<and> fenv s t \<and> sane_world t \<and> \<not> file_locked t \<and> \<not> fd_is_suspect t
    \<and> file_fd t = None \<and> fmap t = None) fdies u"
    if "finv u" "fenv s u" "sane_world u" "\<not> fd_is_suspect u" for u
    by (rule wpx_mono [OF close2_spec [OF that(1,4,3)]]) (use that in \<open>auto intro: fenv_trans\<close>)
  show ?thesis
  proof (cases "cur_state s \<ge> FS_HAVESLOTS")
    case False
    then show ?thesis using c2 [OF inv _ sane] su by (simp add: file_close_def wpx_bnd wpx_gets wpx_whenM wpx_seqM wpx_ret)
  next
    case True
    have "wpx False (bnd get_head (\<lambda>h. whenM (group_head h = 0 \<and> fe_run_head h = 0) remove_file))
       (\<lambda>_. wpx False file_close2 (\<lambda>_ t. finv t \<and> fenv s t \<and> sane_world t \<and> \<not> file_locked t \<and> \<not> fd_is_suspect t
         \<and> file_fd t = None \<and> fmap t = None) fdies) fdies u"
      if u: "finv u" "fenv s u" "sane_world u" "file_locked u" for u
    proof -
      obtain i len where f: "fmap u = Some (i, len)" and su: "\<not> fd_is_suspect u"
        using u by (auto simp: finv_def)
      have "wpx False remove_file (\<lambda>_. wpx False file_close2 (\<lambda>_ t. finv t \<and> fenv s t \<and> sane_world t
          \<and> \<not> file_locked t \<and> \<not> fd_is_suspect t \<and> file_fd t = None \<and> fmap t = None) fdies) fdies u"
        by (rule wpx_mono [OF remove_keeps [OF u(1) f u(3)]], rule c2)
          (use u su in \<open>auto intro: fenv_trans\<close>)
      then show ?thesis using f c2 [OF u(1-3) su] by (simp add: wpx_bnd wpx_whenM fwps)
    qed
    then show ?thesis
      using True by (simp add: file_close_def wpx_bnd wpx_gets wpx_whenM wpx_seqM wpx_ret)
        (rule wpx_mono [OF file_lock_any [OF inv sane]], blast)
  qed
qed

lemma switch_spec:
  assumes inv: "sinv isbe s" and st: "isbe \<longrightarrow> st \<noteq> FS_OPEN" and new: "st \<noteq> cur_state s"
  shows "wpx False (switch_state st) (\<lambda>_ t. fenv s t \<and> sinv isbe (t\<lparr>cur_state := st\<rparr>)) fdies s"
proof -
  have i: "finv s" "sane_world s" using inv by (simp_all add: sinv_def)
  have sus: "fd_is_suspect s \<longrightarrow> st = FS_CLOSED \<longrightarrow> cur_state s \<ge> FS_HAVESLOTS"
    using inv new by (cases "cur_state s") (auto simp: sinv_def fs_order split: if_splits)
  have upd: "sinv isbe (t\<lparr>cur_state := st\<rparr>)"
    if "finv t" "sane_world t" "file_locked t \<longleftrightarrow> st = FS_CORRUPT"
      "st = FS_CLOSED \<longrightarrow> file_fd t = None \<and> fmap t = None" "\<not> isbe \<longrightarrow> \<not> fd_is_suspect t" for t
    using that st by (auto simp: sinv_def finv_def sane_world_def)
  show ?thesis
  proof (cases st)
    case FS_CLOSED
    then show ?thesis
      using sus upd by (auto simp: switch_state_def intro!: wpx_mono [OF close_spec [OF i]])
  next
    case FS_OPEN
    then show ?thesis
      using inv upd st by (auto simp: switch_state_def sinv_def intro!: wpx_mono [OF unlock_spec [OF i]])
  next
    case FS_HAVESLOTS
    then show ?thesis
      using inv upd by (auto simp: switch_state_def sinv_def intro!: wpx_mono [OF unlock_spec [OF i]])
  next
    case FS_CORRUPT
    have "\<not> file_locked s" using inv new FS_CORRUPT by (simp add: sinv_def)
    then show ?thesis
      using FS_CORRUPT upd
      by (auto simp: switch_state_def lock_post_def holds_lock_def finv_def
          intro!: wpx_mono [OF file_lock_spec [OF i(1) _ i(2)]])
  qed
qed

lemma set_state_spec:
  assumes inv: "sinv isbe s" and st: "isbe \<longrightarrow> st \<noteq> FS_OPEN"
  shows "wpx False (speedy_file_set_state st) (\<lambda>r t. r = cur_state s \<and> cur_state t = st \<and> sinv isbe t) fdies s"
proof (cases "st = cur_state s")
  case True
  then show ?thesis using inv by (simp add: speedy_file_set_state_def wpxs)
next
  case False
  then show ?thesis
    by (simp add: speedy_file_set_state_def wpx_bnd wpx_gets wpx_thenM wpx_seqM wpx_whenM wpx_modify wpx_ret)
      (rule wpx_mono [OF switch_spec [OF inv st False]], simp add: wpx_modify)
qed

text \<open>
  A forked child, which has the variables of its parent but not its lock, does not touch the lock
  of its parent: the file is left as it is.
\<close>

lemma fork_child_spec:
  assumes "sinv isbe s"
  shows "wpx False speedy_file_fork_child (\<lambda>_ t. sinv isbe t \<and> \<not> file_locked t \<and> \<not> sigs_blocked t
    \<and> dsk t = dsk s \<and> cur_state t = (if cur_state s = FS_CORRUPT then FS_HAVESLOTS else cur_state s)) fdies s"
  using assms
  by (cases "cur_state s"; cases "file_locked s")
    (auto simp: speedy_file_fork_child_def speedy_file_set_state_def switch_state_def file_unlock_def
      wpxs sinv_def finv_def sane_world_def fs_order)

text \<open>What happens to a process between its calls.\<close>

definition fs_init :: "fproc \<Rightarrow> bool" where
  "fs_init s \<longleftrightarrow> file_fd s = None \<and> fmap s = None \<and> \<not> file_locked s \<and> \<not> sigs_blocked s
     \<and> \<not> fd_is_suspect s \<and> cur_state s = FS_CLOSED \<and> last_reopen s = 0 \<and> sane_world s"

inductive fs_step :: "bool \<Rightarrow> fproc \<Rightarrow> fproc \<Rightarrow> bool" for isbe :: bool where
  fs_set: "speedy_file_set_state st s = Ok r t \<Longrightarrow> isbe \<longrightarrow> st \<noteq> FS_OPEN \<Longrightarrow> fs_step isbe s t"
| fs_fork: "speedy_file_fork_child s = Ok () t \<Longrightarrow> fs_step isbe s t"
| fs_perl: "speedy_file_fd_is_suspect s = Ok () t \<Longrightarrow> isbe \<Longrightarrow> \<not> file_locked s \<Longrightarrow>
    fs_step isbe s (t\<lparr>fd_still_ours := ours\<rparr>)"
| fs_reopen: "speedy_file_need_reopen s = Ok () t \<Longrightarrow> fs_step isbe s t"
| fs_time: "fs_step isbe s (s\<lparr>f_time := tv, f_tmpbase := base\<rparr>)"
| fs_others: "\<not> file_locked s \<Longrightarrow> sane_disk d \<Longrightarrow> fs_step isbe s (s\<lparr>dsk := d\<rparr>)"

inductive_cases fs_stepE: "fs_step isbe s t"
inductive_simps fs_step_iff: "fs_step isbe s t"

lemma wpx_Ok_D: "wpx h m Q E s \<Longrightarrow> m s = Ok a t \<Longrightarrow> Q a t"
  by (simp add: wpx_def)

interpretation fsm: inv_system fs_init "fs_step isbe" "sinv isbe" for isbe
proof
  show "fs_init s \<Longrightarrow> sinv isbe s" for s
    by (auto simp: fs_init_def sinv_def finv_def)
  fix s t
  assume inv: "sinv isbe s" and step: "fs_step isbe s t"
  from step show "sinv isbe t"
  proof (rule fs_stepE)
    show "sinv isbe t" if "speedy_file_set_state st s = Ok r t" "isbe \<longrightarrow> st \<noteq> FS_OPEN" for st r
      using wpx_Ok_D [OF set_state_spec [OF inv that(2)] that(1)] by blast
    show "sinv isbe t" if "speedy_file_fork_child s = Ok () t"
      using wpx_Ok_D [OF fork_child_spec [OF inv] that] by blast
    show "sinv isbe t" if "t = u\<lparr>fd_still_ours := ours\<rparr>" "speedy_file_fd_is_suspect s = Ok () u" isbe
      "\<not> file_locked s" for u ours
      using that inv
      by (auto simp: speedy_file_fd_is_suspect_def modify_def sinv_def finv_def sane_world_def)
    show "sinv isbe t" if "speedy_file_need_reopen s = Ok () t"
      using that inv
      by (auto simp: speedy_file_need_reopen_def modify_def sinv_def finv_def sane_world_def)
    show "sinv isbe t" if "t = s\<lparr>f_time := tv, f_tmpbase := base\<rparr>" for tv base
      using that inv by (auto simp: sinv_def finv_def sane_world_def)
    show "sinv isbe t" if "t = s\<lparr>dsk := d\<rparr>" "\<not> file_locked s" "sane_disk d" for d
      using that inv by (auto simp: sinv_def finv_def sane_world_def)
  qed
qed

text \<open>So in every reachable state a call ends well or in one of the declared ways.\<close>

lemma reachable_call:
  assumes "reach fs_init (fs_step isbe) s" and "isbe \<longrightarrow> st \<noteq> FS_OPEN"
  shows "wpx False (speedy_file_set_state st)
    (\<lambda>r t. r = cur_state s \<and> cur_state t = st \<and> (file_locked t \<longleftrightarrow> st = FS_CORRUPT)
       \<and> sigs_blocked t = file_locked t \<and> (st = FS_CLOSED \<longrightarrow> file_fd t = None \<and> fmap t = None)
       \<and> reach fs_init (fs_step isbe) t) fdies s"
proof -
  have inv: "sinv isbe s" using assms(1) by (rule fsm.reach_inv)
  have "wpx False (speedy_file_set_state st) (\<lambda>r t. (r = cur_state s \<and> cur_state t = st \<and> sinv isbe t)
      \<and> speedy_file_set_state st s = Ok r t) fdies s"
    using set_state_spec [OF inv assms(2)] by (auto simp: wpx_def split: res.splits)
  then show ?thesis
    by (rule wpx_mono) (use assms in \<open>auto simp: sinv_def finv_def intro: reach_step fs_set\<close>)
qed

end
