(* ===== verification/FileRecovery.thy ===== *)
theory FileRecovery
  imports FileSpecs
begin

text \<open>
  How taking the lock can fail. When no system call fails, the process ends in only two ways: the
  file it holds slots of is corrupt, or five tries were not enough. And a flaw of the recovery: it
  removes by name, so a process that still has the removed file open removes the good file that has
  taken its place.
\<close>

section \<open>No failure without a failing call\<close>

definition safe :: "'a fio \<Rightarrow> bool" where
  "safe m \<longleftrightarrow> (\<forall>s. (\<forall>n. \<not> fails s n) \<longrightarrow>
     (case m s of
       Ok a t \<Rightarrow> fails t = fails s \<and> cur_state t = cur_state s
     | Die e t \<Rightarrow> \<not> fdies e \<or> e = Could_not_open \<or> e = File_corrupt \<and> FS_HAVESLOTS \<le> cur_state s
     | Hang \<Rightarrow> False))"

named_theorems safes

lemma safe_ret [safes]: "safe (ret a)" by (simp add: safe_def ret_def)
lemma safe_gets [safes]: "safe (gets f)" by (simp add: safe_def gets_def)

lemma safe_bnd [safes]: "safe m \<Longrightarrow> (\<And>a. safe (f a)) \<Longrightarrow> safe (bnd m f)"
proof -
  assume m: "safe m" and f: "\<And>a. safe (f a)"
  have "case bnd m f s of
       Ok a t \<Rightarrow> fails t = fails s \<and> cur_state t = cur_state s
     | Die e t \<Rightarrow> \<not> fdies e \<or> e = Could_not_open \<or> e = File_corrupt \<and> FS_HAVESLOTS \<le> cur_state s
     | Hang \<Rightarrow> False" if s: "\<And>n. \<not> fails s n" for s
  proof (cases "m s")
    case (Ok a t)
    then have t: "fails t = fails s" "cur_state t = cur_state s"
      using m [unfolded safe_def, rule_format, of s] s by simp_all
    have ft: "case f a t of
       Ok b u \<Rightarrow> fails u = fails t \<and> cur_state u = cur_state t
     | Die e u \<Rightarrow> \<not> fdies e \<or> e = Could_not_open \<or> e = File_corrupt \<and> FS_HAVESLOTS \<le> cur_state t
     | Hang \<Rightarrow> False"
      using f [of a, unfolded safe_def, rule_format, of t] s t by simp
    have "bnd m f s = f a t" using Ok by (simp add: bnd_def)
    with ft t show ?thesis by (simp split: res.splits)
  next
    case (Die e t)
    then show ?thesis using m [unfolded safe_def, rule_format, of s] s by (simp add: bnd_def)
  next
    case Hang
    then show ?thesis using m [unfolded safe_def, rule_format, of s] s by simp
  qed
  then show ?thesis by (simp add: safe_def)
qed

lemma safe_modify [safes]:
  "(\<And>s. fails (f s) = fails s \<and> cur_state (f s) = cur_state s) \<Longrightarrow> safe (modify f)"
  by (simp add: safe_def modify_def)

lemma safe_if [safes]: "safe m \<Longrightarrow> safe m' \<Longrightarrow> safe (if b then m else m')" by simp
lemma safe_whenM [safes]: "safe m \<Longrightarrow> safe (whenM b m)" by (simp add: whenM_def safes)
lemma safe_seqM [safes]: "safe (seqM [])" "safe m \<Longrightarrow> safe (seqM ms) \<Longrightarrow> safe (seqM (m # ms))"
  by (simp_all add: safes)
lemma safe_thenM [safes]: "safe (seqM ms) \<Longrightarrow> safe m \<Longrightarrow> safe (thenM ms m)"
  by (simp add: thenM_def safes)

lemma safe_die [safes]: "\<not> fdies e \<Longrightarrow> safe (die e)" "safe (die Could_not_open)"
  by (simp_all add: safe_def die_def)

lemma not_fdies: "\<not> fdies Unmapped" "\<not> fdies Fd_suspect" by (simp_all add: fdies_def)

lemma safe_syscall [safes]: "safe (syscall e)"
  by (simp add: safe_def syscall_def run_simps)

lemma safe_head [safes]: "safe get_head" "safe (upd_fhead f)"
  by (auto simp: get_head_def upd_fhead_def not_fdies upd_inode_def intro!: safes split: option.splits)

lemma safe_small [safes]:
  "safe file_unmap" "safe (file_map len)" "safe file_unlock" "safe file_close2" "safe fix_suspect_fd"
  "safe get_stat" "safe remove_file" "safe lock_open" "safe lock_wait" "safe lock_reopen"
  by (auto simp: file_unmap_def file_map_def file_unlock_def file_close2_def fix_suspect_fd_def get_stat_def
      remove_file_def lock_open_def lock_wait_def lock_reopen_def open_file_def Let_def not_fdies
      intro!: safes split: option.splits)

lemma safe_lock_try [safes]: "safe lock_try"
proof -
  define closing :: "bool fio" where "closing = bnd (gets cur_state) (\<lambda>st.
     if st \<ge> FS_HAVESLOTS then die File_corrupt else thenM [file_close2] (ret False))"
  have "safe closing"
    unfolding closing_def
    using safe_thenM [OF safe_seqM(2) [OF safe_small(4) safe_seqM(1)] safe_ret [of False]]
    by (simp add: safe_def bnd_def gets_def die_def)
  moreover have "safe lock_extend" "safe lock_times"
    by (auto simp: lock_extend_def lock_times_def upd_inode_def intro!: safes split: option.splits)
  ultimately show ?thesis
    unfolding lock_try_def closing_def [symmetric]
    by (intro safe_thenM safe_seqM safe_bnd safe_if safe_whenM) (rule safes | assumption)+
qed

lemma safe_file_lock: "safe file_lock"
proof -
  have "safe (lock_tries n)" for n by (induction n) (auto intro!: safes)
  then show ?thesis by (auto simp: file_lock_def intro!: safes)
qed

lemma safe_no_die:
  assumes "safe m" and "wpx False m Q fdies s" and "\<And>n. \<not> fails s n"
  shows "wpx False m Q (\<lambda>e. e = Could_not_open \<or> e = File_corrupt \<and> FS_HAVESLOTS \<le> cur_state s) s"
proof (cases "m s")
  case (Die e t)
  then have "\<not> fdies e \<or> e = Could_not_open \<or> e = File_corrupt \<and> FS_HAVESLOTS \<le> cur_state s"
    using assms(1) [unfolded safe_def, rule_format, of s] assms(3) by simp
  then show ?thesis using assms(2) Die by (auto simp: wpx_def)
qed (use assms(2) in \<open>simp_all add: wpx_def\<close>)

section \<open>A flaw of the recovery\<close>

text \<open>A process that holds slots of a file whose owner died in the middle of an update, when another
  process has already put a new file in its place under the same name.\<close>

definition replaced :: "fproc \<Rightarrow> nat \<Rightarrow> nat \<Rightarrow> string \<Rightarrow> bool" where
  "replaced s i j n \<longleftrightarrow> j \<noteq> i \<and> names (dsk s) n = Some j \<and> file_name s = Some n \<and> file_fd s = Some i
     \<and> fmap s = Some (i, i_size (inodes (dsk s) i)) \<and> roomy (inodes (dsk s) i)
     \<and> lock_owner (i_head (inodes (dsk s) i)) \<noteq> 0 \<and> fst (create_time (i_head (inodes (dsk s) i))) \<noteq> 0
     \<and> file_create_time s = create_time (i_head (inodes (dsk s) i))
     \<and> FS_HAVESLOTS \<le> cur_state s \<and> (\<forall>k. \<not> fails s k) \<and> (\<forall>k d. others s k d = d)"

lemma roomy_no_extend:
  "roomy n \<Longrightarrow> \<not> i_size n < SIZEOF_HEAD
    \<and> \<not> i_size n < SIZEOF_HEAD + SIZEOF_SLOT * (uint (slots_alloced (i_head n)) + MIN_SLOTS_FREE)"
proof -
  have less: "h + (32 * x + 160) \<le> z \<Longrightarrow> 0 \<le> x \<Longrightarrow> \<not> z < h" for h x z :: int by linarith
  show "roomy n \<Longrightarrow> \<not> i_size n < SIZEOF_HEAD
    \<and> \<not> i_size n < SIZEOF_HEAD + SIZEOF_SLOT * (uint (slots_alloced (i_head n)) + MIN_SLOTS_FREE)"
    using less [of SIZEOF_HEAD "uint (slots_alloced (i_head n))" "i_size n"]
    by (simp add: roomy_def SIZEOF_SLOT_def MIN_SLOTS_FREE_def)
qed

lemma lock_wait_calm:
  "\<forall>k. \<not> fails s k \<Longrightarrow> \<forall>k d. others s k d = d \<Longrightarrow> lock_wait s = Ok () (s\<lparr>ncalls := Suc (ncalls s)\<rparr>)"
  by (simp add: lock_wait_def syscall_def thenM_def run_simps)

lemma get_stat_calm:
  "\<forall>k. \<not> fails s k \<Longrightarrow> file_fd s = Some i \<Longrightarrow>
   get_stat s = Ok () (s\<lparr>ncalls := Suc (ncalls s), stat_ino := i, stat_size := i_size (inodes (dsk s) i)\<rparr>)"
  by (simp add: get_stat_def syscall_def thenM_def run_simps)

lemma lock_extend_none:
  "fmap s = Some (i, len) \<Longrightarrow> stat_size s = i_size (inodes (dsk s) i) \<Longrightarrow> roomy (inodes (dsk s) i) \<Longrightarrow>
   lock_extend s = Ok () s"
  using roomy_no_extend [of "inodes (dsk s) i"]
  by (simp add: lock_extend_def get_head_def run_simps whenM_def)

lemma lock_times_same:
  "fmap s = Some (i, len) \<Longrightarrow> fst (create_time (i_head (inodes (dsk s) i))) \<noteq> 0 \<Longrightarrow>
   file_create_time s = create_time (i_head (inodes (dsk s) i)) \<Longrightarrow> FS_HAVESLOTS \<le> cur_state s \<Longrightarrow>
   lock_times s = Ok () s"
  by (simp add: lock_times_def get_head_def run_simps whenM_def thenM_def linorder_not_less)

lemma remove_calm:
  "\<forall>k. \<not> fails s k \<Longrightarrow> fmap s = Some (i, len) \<Longrightarrow> file_name s = Some n \<Longrightarrow> names (dsk s) n = Some j \<Longrightarrow>
   \<exists>t. remove_file s = Ok () t \<and> names (dsk t) n = None \<and> inodes (dsk t) j = (if j = i then inodes (dsk t) i
     else inodes (dsk s) j) \<and> file_removed (i_head (inodes (dsk t) i)) \<and> fmap t = Some (i, len)
     \<and> cur_state t = cur_state s"
  by (simp add: remove_file_def syscall_def thenM_def run_simps whenM_def upd_fhead_def upd_inode_def)

lemma stale_try:
  assumes "replaced s i j n"
  shows "\<exists>t. lock_try s = Die File_corrupt t \<and> names (dsk t) n = None
    \<and> inodes (dsk t) j = inodes (dsk s) j"
proof -
  note r = assms [unfolded replaced_def]
  let ?s1 = "s\<lparr>ncalls := Suc (ncalls s)\<rparr>"
  let ?s2 = "?s1\<lparr>ncalls := Suc (ncalls ?s1), stat_ino := i, stat_size := i_size (inodes (dsk s) i)\<rparr>"
  have 0: "lock_open s = Ok () s" using r by (simp add: lock_open_def run_simps whenM_def)
  have 1: "lock_wait s = Ok () ?s1" using r by (simp add: lock_wait_calm)
  have 2: "get_stat ?s1 = Ok () ?s2" using r by (simp add: get_stat_calm)
  have 3: "file_map (stat_size ?s2) ?s2 = Ok () ?s2"
    using r by (simp add: file_map_def fmaplen_def run_simps whenM_def)
  have 4: "lock_extend ?s2 = Ok () ?s2" using r by (intro lock_extend_none) auto
  have 5: "lock_times ?s2 = Ok () ?s2" using r by (intro lock_times_same) auto
  obtain t where t: "remove_file ?s2 = Ok () t" "names (dsk t) n = None"
    "inodes (dsk t) j = inodes (dsk s) j" "file_removed (i_head (inodes (dsk t) i))"
    "fmap t = Some (i, i_size (inodes (dsk s) i))" "cur_state t = cur_state s"
    using remove_calm [of ?s2 i "i_size (inodes (dsk s) i)" n j] r by auto
  have own: "lock_owner (i_head (inodes (dsk ?s2) i)) \<noteq> 0" "fmap ?s2 = Some (i, i_size (inodes (dsk s) i))"
    using r by simp_all
  have "lock_try s = Die File_corrupt t"
    using r t by (simp add: lock_try_def thenM_def run_simps 0 1 2 [simplified] 3 [simplified] 4 [simplified]
        5 [simplified] get_head_def whenM_def own [simplified] t(1) [simplified])
  with t show ?thesis by blast
qed

lemma stale_lock:
  assumes "replaced s i j n" and "\<not> file_locked s" and "\<not> fd_is_suspect s"
    and "fst (f_time s) - last_reopen s \<le> f_restat s" and "saved_tmpbase s = Some (f_tmpbase s)"
  shows "\<exists>t. file_lock s = Die File_corrupt t \<and> names (dsk t) n = None
    \<and> inodes (dsk t) j = inodes (dsk s) j"
proof -
  obtain t where t: "lock_try s = Die File_corrupt t" "names (dsk t) n = None"
    "inodes (dsk t) j = inodes (dsk s) j"
    using stale_try [OF assms(1)] by blast
  have "lock_tries 5 s = Die File_corrupt t"
    using t(1) by (simp add: eval_nat_numeral run_simps)
  then have "file_lock s = Die File_corrupt t"
    using assms(2-) by (simp add: file_lock_def fix_suspect_fd_def lock_reopen_def run_simps whenM_def)
  with t show ?thesis by blast
qed

end
