(* ===== verification/Examples.thy ===== *)
theory Examples
  imports ExampleFile BackendMainSpecs MainLoopSpecs Wire FileRecovery Poll
begin

text \<open>
  Concrete states on which the hypotheses of the properties hold: variants of the example file for
  the process that owns a slot of it, other processes that do nothing, a copy loop that ends, and a
  process that opens the temp file.
\<close>

section \<open>The temp file\<close>

text \<open>The same file, seen by another process.\<close>

definition ex_as :: "int \<Rightarrow> sys" where
  "ex_as pid = ex_sys\<lparr>mypid := pid\<rparr>"

lemma ex_as_views [simp]:
  "nxt (ex_as p) = nxt ex_sys" "prv (ex_as p) = prv ex_sys" "pay (ex_as p) = pay ex_sys"
  "fhd (ex_as p) = fhd ex_sys" "be (ex_as p) = be ex_sys" "fe (ex_as p) = fe ex_sys"
  "gr (ex_as p) = gr ex_sys" "scr (ex_as p) = scr ex_sys" "okn (ex_as p) = okn ex_sys"
  "mypid (ex_as p) = p"
  by (auto simp: ex_as_def nxt_def prv_def pay_def be_def fe_def gr_def scr_def okn_def fun_eq_iff)

lemma ex_as_good: "good ex_abs (ex_as p)"
proof -
  have "samefile ex_sys (ex_as p)" by (simp add: samefile_def ex_as_def)
  then have "wfile ex_abs (ex_as p)" using wfile_samefile ex_wfile by blast
  moreover have "orders ex_abs (ex_as p)" using ex_good orders_cong [of ex_abs "ex_as p" ex_sys]
    by (simp add: good_def bv_def)
  ultimately show ?thesis using ex_good by (simp add: good_def)
qed

lemma ex_as_room: "room 12 (ex_as p)"
  by (simp add: room_def ex_head_def MAX_SLOTS_def SIZEOF_HEAD_def SIZEOF_SLOT_def)
    (simp add: ex_sys_def ex_as_def)

text \<open>Other processes that leave the file alone.\<close>

lemma ex_coop: "coop 3 (\<lambda>i. 4 * (3 - i)) (\<lambda>_ s. s)"
  unfolding coop_def
proof (intro allI impI)
  fix i a s
  assume i: "i < (3::nat)" and a: "good a s" and r: "room (4 * (3 - i)) s"
  have "4 * (3 - Suc i) + 4 = 4 * (3 - i)" using i by simp
  then show "steady s s \<and> room (4 * (3 - Suc i) + 4) s \<and> (\<exists>b. good b s \<and> keeps_own a s b s)"
    using a r by (auto simp: steady_def keeps_own_def)
qed

section \<open>The copy loop\<close>

text \<open>Standard error is closed; the backend sends the byte that asks for nothing, then "hi", and exits with 7.\<close>

definition ex_reads :: "nat \<Rightarrow> rdres" where
  "ex_reads t = (if t = 2 then Rd [0, 104, 105] else Rd [])"

definition ex_env :: menv where
  "ex_env = \<lparr>e_mem = \<lparr>k_oom = False, k_junk = (\<lambda>_. 0)\<rparr>, e_rd = ex_reads, e_wr = (\<lambda>_. Wr 100),
     e_poll = (\<lambda>_. Ready {0..9} {0..9}), e_sig = (\<lambda>_. True), e_status = (\<lambda>_. Some (0, 7)),
     e_fork = (\<lambda>_. 1), e_badf = (\<lambda>fd. fd = 2), e_tty = False, e_sigpipe = 6\<rparr>"

definition ex_fdt :: fdt where
  "ex_fdt = fd_init (\<lambda>fd. fd = 2) \<lparr>fi_flags = 0, fi_state = FD_UNKNOWN\<rparr> 2 1 FD_NOBLOCK
     (fd_init (\<lambda>_. False) \<lparr>fi_flags = 0, fi_state = FD_UNKNOWN\<rparr> 1 1 FD_NOBLOCK
     (fd_init (\<lambda>_. False) \<lparr>fi_flags = 0, fi_state = FD_UNKNOWN\<rparr> 0 0 FD_NOBLOCK
       \<lparr>fdinfo = [], calls = []\<rparr>))"

definition ex_cb_in :: copybuf where
  "ex_cb_in = main_cb_in 4 \<lparr>sb_buf = [1, 2, 3, 4], alloced = 4, sb_len = 3\<rparr>"

definition ex_start :: mloop where
  "ex_start = mstart ex_env \<lparr>fi_flags = 0, fi_state = FD_UNKNOWN\<rparr> 4 ex_cb_in [3, 4, 5] ex_fdt"

lemma ex_loop: "case copy_loop 9 ex_env ex_start of Some (Done s) \<Rightarrow> sent 1 (trace s) = [104, 105] | _ \<Rightarrow> False"
  by code_simp

lemma ex_cb_in_ok: "cb_ok ex_cb_in"
  unfolding ex_cb_in_def by (rule main_cb_in_ok) simp_all

section \<open>A process and the temp file\<close>

text \<open>Before it opens the file, with no file there.\<close>

definition ex_proc :: fproc where
  "ex_proc = \<lparr>dsk = \<lparr>inodes = (\<lambda>_. \<lparr>i_size = 0, i_head = zero_head\<rparr>), names = (\<lambda>_. None), fresh_ino = 1\<rparr>,
     others = (\<lambda>_ d. d), fails = (\<lambda>_. False), ncalls = 0, file_fd = None, fmap = None,
     file_locked = False, sigs_blocked = False, file_name = None, saved_tmpbase = None, stat_ino = 0,
     stat_size = 0, cur_state = FS_CLOSED, last_reopen = 0, file_create_time = (0, 0),
     fd_is_suspect = False, fd_still_ours = True, f_pid = 500, f_time = (5000, 0),
     f_tmpbase = ''/tmp/speedy'', f_restat = 3600, f_uids = (100, 100)\<rparr>"

lemma ex_proc_sane: "sane_world ex_proc"
  by (simp add: sane_world_def sane_disk_def sane_def ex_proc_def zero_head_def)

lemma ex_proc_init: "fs_init ex_proc"
  using ex_proc_sane by (simp add: fs_init_def) (simp add: ex_proc_def)

lemma ex_proc_inv: "finv ex_proc" "\<not> file_locked ex_proc" "sane_world ex_proc"
  using ex_proc_sane by (simp_all add: finv_def) (simp_all add: ex_proc_def)

text \<open>With slots in inode 0, which process 400 left locked when it died; the name is inode 1 by now.\<close>

definition ex_stale :: fproc where
  "ex_stale = ex_proc\<lparr>dsk := \<lparr>inodes = (\<lambda>i. \<lparr>i_size = 1024, i_head = zero_head\<lparr>create_time := (if i = 0 then 1000 else 2000, 0),
        lock_owner := (if i = 0 then 400 else 0), slots_alloced := 7\<rparr>\<rparr>),
      names = (\<lambda>n. if n = ''f'' then Some 1 else None), fresh_ino = 2\<rparr>,
     file_fd := Some 0, fmap := Some (0, 1024), file_name := Some ''f'', saved_tmpbase := Some ''/tmp/speedy'',
     cur_state := FS_HAVESLOTS, last_reopen := 4000, file_create_time := (1000, 0)\<rparr>"

lemma ex_stale_replaced: "replaced ex_stale 0 1 ''f''"
  by (simp add: replaced_def ex_stale_def ex_proc_def roomy_def zero_head_def SIZEOF_HEAD_def
      SIZEOF_SLOT_def MIN_SLOTS_FREE_def fs_order)

section \<open>Poll\<close>

definition ex_pollfd :: pollfd where
  "ex_pollfd = \<lparr>pfd_fd = 0, pfd_events = 0, pfd_revents = 0\<rparr>"

end
