(* ===== verification/BackendLoop.thy ===== *)
theory BackendLoop
  imports BackendMainSpecs
begin

text \<open>
  The whole turns of the backend parent and of a backend: cleaning up after other groups, the main
  loop of the parent, the runs of a backend, each in turn with other processes.
\<close>

section \<open>Cleaning up after another group\<close>

text \<open>The file stays good and the groups in \<open>G\<close> stay in it.\<close>

definition holds_groups :: "slotnum set \<Rightarrow> sys \<Rightarrow> sys \<Rightarrow> bool" where
  "holds_groups G s t \<longleftrightarrow> (\<exists>b. good b t \<and> G \<subseteq> live b) \<and> near s t"

lemma holds_groupsI: "good b t \<Longrightarrow> G \<subseteq> live b \<Longrightarrow> near s t \<Longrightarrow> holds_groups G s t"
  by (auto simp: holds_groups_def)

lemma holds_groupsE:
  assumes "holds_groups G s t"
  obtains b where "good b t" "G \<subseteq> live b" "near s t"
  using assms by (auto simp: holds_groups_def)

lemma inval_lists: "lst (inval g a) (LBe h) = lst a (LBe h)" "lst (inval g a) (LFe h) = lst a (LFe h)"
  "live (inval g a) = live a"
  by (simp_all add: inval_def)

lemma invalidate_good:
  assumes gd: "good a s" and g: "g \<in> live a"
  shows "wp (speedy_group_invalidate g) (\<lambda>_ t. good (inval g a) t \<and> near s t) s"
proof -
  have gl: "g \<in> set (lst a LGroups)" using g good_live [OF gd] by simp
  show ?thesis
    by (rule wp_mono [OF invalidate_spec [OF good_wfile [OF gd] g gl]])
      (use good_inval [OF gd g] near_calm in blast)
qed

lemma parent_sig_good:
  assumes gd: "good a s" and g: "g \<in> live a"
  shows "wp (speedy_group_parent_sig g sig) (\<lambda>ok t. good (if ok then a else inval g a) t \<and> near s t) s"
proof -
  have gl: "g \<in> set (lst a LGroups)" using g good_live [OF gd] by simp
  show ?thesis
  proof (rule wp_mono [OF parent_sig_spec [OF good_wfile [OF gd] g gl]])
    fix ok t assume t: "coreupd a g s t \<and> ok = kill_ok s (be_parent (gr s g)) sig \<and>
      (if ok then wfile a t \<and> gr t g = gr s g
       else wfile (inval g a) t \<and> be_parent (gr t g) = 0 \<and> be_starting (gr t g) = be_starting (gr s g))"
    then have c: "calm (live a) (live a - {g}) (bes a) s t" by (simp add: coreupd_def)
    show "good (if ok then a else inval g a) t \<and> near s t"
    proof (cases ok)
      case True
      then have "wfile a t" "coreupd a g s t" using t by simp_all
      then show ?thesis using True good_coreupd [OF gd] near_calm [OF c] by simp
    next
      case False
      then show ?thesis using t good_inval [OF gd g _ c] near_calm [OF c] by simp
    qed
  qed
qed

lemma cleanup_bes_loop_good:
  assumes "good a s" and "g \<in> live a" and "lst a (LBe g) = ys @ zs" and "length zs < fuel"
  shows "wp (cleanup_bes_loop fuel g (hd0 zs)) (\<lambda>_ t. \<exists>b. good b t \<and> near s t \<and> live b = live a) s"
  using assms
proof (induction zs arbitrary: a s ys fuel)
  case Nil
  then show ?case by (cases fuel) (auto simp: wps)
next
  case (Cons z zs)
  let ?Q = "\<lambda>_ t. \<exists>b. good b t \<and> near s t \<and> live b = live a"
  obtain n where n: "fuel = Suc n" using Cons.prems by (cases fuel) auto
  have R: "repr a s" by (rule good_repr [OF Cons.prems(1)])
  have z: "okn s z" "z \<noteq> 0" "is_be (pay s z)" "nxt s z = hd0 zs"
    using repr_walk [OF R Cons.prems(3)] by auto
  let ?t = "kill_state (be_pid (be s z)) 0 s"
  have gt: "good a ?t" "near s ?t" using Cons.prems(1) by (simp_all add: goods near_def views meta_def)
  have zt: "okn ?t z" "is_be (pay ?t z)" using z by (simp_all add: views)
  have rest: "wp (cleanup_bes_loop n g (hd0 zs)) ?Q ?t"
    by (rule wp_mono [OF Cons.IH [OF gt(1) Cons.prems(2), of "ys @ [z]"]])
      (use Cons.prems n near_trans [OF gt(2)] in auto)
  have dis: "wp (speedy_backend_dispose g z) (\<lambda>_. wp (cleanup_bes_loop n g (hd0 zs)) ?Q) ?t"
  proof (rule wp_mono [OF good_dispose [OF gt(1), of z g]])
    show "z \<in> set (lst a (LBe g))" using Cons.prems by simp
    fix x u assume "\<exists>c. good c u \<and> near ?t u \<and> shrink {LFeRun, LBe g} a c \<and> lst c (LBe g) = remove1 z (lst a (LBe g))"
    then obtain c where c: "good c u" "near ?t u" "shrink {LFeRun, LBe g} a c" "lst c (LBe g) = remove1 z (lst a (LBe g))"
      by blast
    have "z \<notin> set ys" using repr_distinct [OF R, of "LBe g"] Cons.prems(3) by auto
    then have l: "lst c (LBe g) = ys @ zs" using c(4) Cons.prems(3) by (simp add: remove1_append)
    have lc: "live c = live a" by (rule shrink_live [OF c(3)])
    show "wp (cleanup_bes_loop n g (hd0 zs)) ?Q u"
      by (rule wp_mono [OF Cons.IH [OF c(1) _ l]])
        (use Cons.prems n lc near_trans [OF near_trans [OF gt(2) c(2)]] in auto)
  qed
  have hd: "hd0 (z # zs) = z" by simp
  show ?case
    using z rest dis by (simp add: n wps)
qed

text \<open>\<open>speedy_slot_prev\<close> of a group, or the tail of the list, is a group.\<close>

lemma wp_slot_prev_group:
  assumes R: "repr a s" and g: "g \<in> set (lst a LGroups)" and l: "live a = set (lst a LGroups)"
    and Q: "\<And>p. p \<in> live a \<Longrightarrow> Q p s"
  shows "wp (bnd (speedy_slot_prev g) (\<lambda>p. if p = 0 then gets (\<lambda>s. group_tail (fhd s)) else ret p)) Q s"
proof -
  obtain ys zs where yz: "lst a LGroups = ys @ g # zs" using g by (auto simp: in_set_conv_decomp)
  have ok: "okn s g" using repr_mem [OF R g] by simp
  have p: "prv s g = last0 0 ys" by (rule repr_prev [OF R yz])
  have tl: "group_tail (fhd s) = last0 0 (lst a LGroups)"
    using repr_tail [OF R, of LGroups GROUP_TAIL] by (simp add: active_def)
  have last: "last0 0 xs \<in> set xs" if "xs \<noteq> []" for xs :: "slotnum list"
    using that by (cases xs rule: rev_cases) auto
  have ne: "lst a LGroups \<noteq> []" using g by auto
  have "(if prv s g = 0 then group_tail (fhd s) else prv s g) \<in> live a"
  proof (cases "ys = []")
    case True
    then show ?thesis using ne p tl l last [of "lst a LGroups"] by simp
  next
    case False
    then have "prv s g \<in> set (lst a LGroups)" using p last [of ys] yz by auto
    then show ?thesis using l tl last [of "lst a LGroups"] ne by simp
  qed
  then have "Q (if prv s g = 0 then group_tail (fhd s) else prv s g) s" by (rule Q)
  then show ?thesis using ok by (simp add: wps split: if_splits)
qed

lemma good_group_cleanup:
  assumes gd: "good a s" and p: "p \<in> live a"
  shows "wp (speedy_group_cleanup p) (\<lambda>_ t. \<exists>b. good b t \<and> live a - {p} \<subseteq> live b \<and> near s t) s"
proof (rule wp_mono [OF good_cleanup [OF gd p]])
  fix x t assume t: "good (cleaned p a) t \<and> still a s (cleaned p a) t \<and> calm (live a) (live a - {p}) (bes a) s t"
  have "live a - {p} \<subseteq> live (cleaned p a)" by (auto simp: cleaned_def)
  then show "\<exists>b. good b t \<and> live a - {p} \<subseteq> live b \<and> near s t" using t near_still by blast
qed

lemma clean_group_good:
  assumes gd: "good a s" and p: "p \<in> live a"
  shows "wp (seqM
         [speedy_group_invalidate p,
          bnd (gets list_fuel) (\<lambda>fuel. bnd (getref (BE_HEAD p)) (cleanup_bes_loop fuel p)),
          speedy_group_cleanup p]) (\<lambda>_ t. \<exists>b. good b t \<and> live a - {p} \<subseteq> live b \<and> near s t) s"
    (is "wp _ ?Q s")
  unfolding wp_seqM_Cons wp_seqM_Nil
proof (rule wp_mono [OF invalidate_good [OF gd p]])
  fix x t assume t: "good (inval p a) t \<and> near s t"
  let ?a = "inval p a"
  have R: "repr ?a t" and pl: "p \<in> live ?a" using t p by (simp_all add: goods inval_lists)
  have hd: "be_head (gr t p) = hd0 (lst ?a (LBe p))" by (rule repr_be_head [OF R pl])
  have "wp (cleanup_bes_loop (list_fuel t) p (hd0 (lst ?a (LBe p))))
      (\<lambda>_. wp (speedy_group_cleanup p) (\<lambda>_. ?Q ())) t"
  proof (rule wp_mono [OF cleanup_bes_loop_good [OF conjunct1 [OF t] pl, of "[]"]])
    show "length (lst ?a (LBe p)) < list_fuel t" by (rule repr_fuel [OF R])
    fix y u assume "\<exists>b. good b u \<and> near t u \<and> live b = live ?a"
    then obtain b where b: "good b u" "near t u" "live b = live a" by (auto simp: inval_lists)
    have "p \<in> live b" using p b by simp
    from good_group_cleanup [OF b(1) this]
    show "wp (speedy_group_cleanup p) (\<lambda>_. ?Q ()) u"
      by (rule wp_mono) (use b near_trans [OF near_trans [OF conjunct2 [OF t] b(2)]] in auto)
  qed simp
  then show "wp (bnd (gets list_fuel) (\<lambda>fuel. bnd (getref (BE_HEAD p)) (cleanup_bes_loop fuel p)))
      (\<lambda>_. wp (speedy_group_cleanup p) (\<lambda>_. ?Q ())) t"
    using repr_live [OF R pl] hd by (simp add: wps refok_def)
qed

text \<open>Cleaning up never takes the caller's own group out of the file.\<close>

theorem do_cleanup_spec:
  assumes gd: "good a s" and g: "g \<in> live a"
  shows "wp (do_cleanup g) (\<lambda>_ t. \<exists>b. good b t \<and> g \<in> live b \<and> near s t) s" (is "wp _ ?Q s")
proof -
  have R: "repr a s" and l: "live a = set (lst a LGroups)" using gd by (simp_all add: goods)
  have own: "?Q () t" if "\<exists>b. good b t \<and> live c - {p} \<subseteq> live b \<and> near u t" "near s u" "g \<in> live c" "p \<noteq> g"
    for c p t u
    using that near_trans by blast
  have step: "wp (if p = 0 \<or> p = g then ret ()
     else bnd (speedy_group_parent_sig p 0) (\<lambda>alive.
       if alive then ret ()
       else seqM
         [speedy_group_invalidate p,
          bnd (gets list_fuel) (\<lambda>fuel. bnd (getref (BE_HEAD p)) (cleanup_bes_loop fuel p)),
          speedy_group_cleanup p])) ?Q s" if p: "p \<in> live a" for p
  proof (cases "p = 0 \<or> p = g")
    case True
    have "wp (ret ()) ?Q s" using gd g by (auto simp: wps)
    then show ?thesis using True by simp
  next
    case False
    have "wp (speedy_group_parent_sig p 0) (\<lambda>alive. wp (if alive then ret ()
       else seqM
         [speedy_group_invalidate p,
          bnd (gets list_fuel) (\<lambda>fuel. bnd (getref (BE_HEAD p)) (cleanup_bes_loop fuel p)),
          speedy_group_cleanup p]) ?Q) s"
    proof (rule wp_mono [OF parent_sig_good [OF gd p]])
      fix ok t assume t: "good (if ok then a else inval p a) t \<and> near s t"
      show "wp (if ok then ret ()
       else seqM
         [speedy_group_invalidate p,
          bnd (gets list_fuel) (\<lambda>fuel. bnd (getref (BE_HEAD p)) (cleanup_bes_loop fuel p)),
          speedy_group_cleanup p]) ?Q t"
      proof (cases ok)
        case True
        then show ?thesis using t g by (auto simp: wps)
      next
        case no: False
        then have i: "good (inval p a) t" "p \<in> live (inval p a)" "g \<in> live (inval p a)" "near s t"
          using t p g by (simp_all add: inval_lists)
        have "p \<noteq> g" using False by simp
        then show ?thesis
          using wp_mono [OF clean_group_good [OF i(1,2)], of ?Q] own [OF _ i(4,3)] no by simp
      qed
    qed
    then show ?thesis using False by (simp only: if_False wp_bnd simp_thms)
  qed
  show ?thesis
    unfolding do_cleanup_def
    using wp_slot_prev_group [OF R, of g] g l step by (simp only: wp_bnd) 
qed

section \<open>The backend parent in turn with others\<close>

text \<open>What a process relies on while it waits: the file is good again, \<open>P\<close> still holds, and the
  lock has made room for \<open>n\<close> slots more than what is kept in reserve.\<close>

definition coop_on :: "(fstate \<Rightarrow> sys \<Rightarrow> bool) \<Rightarrow> nat \<Rightarrow> nat \<Rightarrow> (nat \<Rightarrow> nat) \<Rightarrow> (nat \<Rightarrow> sys \<Rightarrow> sys) \<Rightarrow> bool" where
  "coop_on P n m r others \<longleftrightarrow> (\<forall>i a s. i < m \<longrightarrow> good a s \<longrightarrow> P a s \<longrightarrow> room (r i) s \<longrightarrow>
     steady s (others i s) \<and> room (r (Suc i) + n) (others i s) \<and>
     (\<exists>b. good b (others i s) \<and> P b (others i s)))"

lemma coop_on_relocked:
  assumes c: "coop_on P n m r others" and "good a s" and "P a s" and "tick (loc s) < m"
    and "room (r (tick (loc s))) s"
  obtains b where "good b (relocked others s)" and "P b (others (tick (loc s)) s)"
    and "steady s (relocked others s)" and "tick (loc (relocked others s)) = Suc (tick (loc s))"
    and "room (r (Suc (tick (loc s))) + n) (relocked others s)"
proof -
  let ?o = "others (tick (loc s)) s"
  have o: "steady s ?o \<and> room (r (Suc (tick (loc s))) + n) ?o \<and> (\<exists>b. good b ?o \<and> P b ?o)"
    using c [unfolded coop_on_def, rule_format, of "tick (loc s)" a s] assms by blast
  then obtain b where b: "good b ?o" "P b ?o" by blast
  show thesis
    by (rule that [of b]) (use o b in \<open>auto simp: relocked_ploc intro: steady_trans\<close>)
qed

definition in_turn :: "slotnum \<Rightarrow> nat \<Rightarrow> sys \<Rightarrow> sys \<Rightarrow> bool" where
  "in_turn g k s t \<longleftrightarrow> (\<exists>c. good c t \<and> g \<in> live c) \<and> steady s t \<and> tick (loc t) = tick (loc s) \<and> room k t"

lemma in_turn_near:
  "good c t \<Longrightarrow> g \<in> live c \<Longrightarrow> near s t \<Longrightarrow> room k s \<Longrightarrow> in_turn g k s t"
  using near_steady near_loc near_room by (auto simp: in_turn_def)

lemma in_turn_trans: "in_turn g j s t \<Longrightarrow> in_turn g k t u \<Longrightarrow> in_turn g k s u"
  by (auto simp: in_turn_def intro: steady_trans)

lemma in_turn_kept: "kept g k s t \<Longrightarrow> in_turn g k s t"
  by (auto simp: kept_def in_turn_def)

lemma collect_child_turn:
  assumes "good a s" and "g \<in> live a" and "room k s"
  shows "wp (collect_child g) (\<lambda>_. in_turn g k s) s"
proof -
  have "wp (collect_children g ws) (\<lambda>_. in_turn g k s) s" for ws
    by (rule wp_mono [OF collect_children_spec [OF assms(1,2)]]) (use assms in_turn_near in auto)
  then show ?thesis by (simp add: collect_child_def wps)
qed

lemma do_cleanup_turn:
  assumes "good a s" and "g \<in> live a" and "room k s"
  shows "wp (do_cleanup g) (\<lambda>_. in_turn g k s) s"
  by (rule wp_mono [OF do_cleanup_spec [OF assms(1,2)]]) (use assms in_turn_near in auto)

theorem main_turn_spec:
  assumes gd: "good a s" and g: "g \<in> live a" and room: "room (Suc k) s"
  shows "wpx h (main_turn g) (\<lambda>_. in_turn g k s) exited0 s"
proof -
  have rest: "wpx h (thenM [do_cleanup g]
      (bnd (getref (BE_HEAD g)) (\<lambda>have_children.
       bnd (gets (\<lambda>s. kgot (orc s) (tick (loc s)) SIGALRM)) (\<lambda>alrm.
       if alrm \<and> have_children = 0 then ret True
       else bnd (alarm (if have_children \<noteq> 0 then 0 else 10)) (\<lambda>_. ret False)))))
      (\<lambda>_. in_turn g k s) exited0 t" if t: "in_turn g k s t" for t
  proof -
    obtain c where c: "good c t" "g \<in> live c" "room k t" using t by (auto simp: in_turn_def)
    have "wp (do_cleanup g) (\<lambda>_ u. wp (bnd (getref (BE_HEAD g)) (\<lambda>have_children.
       bnd (gets (\<lambda>s. kgot (orc s) (tick (loc s)) SIGALRM)) (\<lambda>alrm.
       if alrm \<and> have_children = 0 then ret True
       else bnd (alarm (if have_children \<noteq> 0 then 0 else 10)) (\<lambda>_. ret False)))) (\<lambda>_. in_turn g k s) u) t"
    proof (rule wp_mono [OF do_cleanup_turn [OF c]])
      fix x u assume u: "in_turn g k t u"
      then obtain d where d: "good d u" "g \<in> live d" by (auto simp: in_turn_def)
      have "in_turn g k s u" by (rule in_turn_trans [OF t u])
      moreover from this have "in_turn g k s (ploc (\<lambda>l. l\<lparr>alarm_left := n\<rparr>) u)" for n
        by (auto simp: in_turn_def intro: steady_trans)
      ultimately show "wp (bnd (getref (BE_HEAD g)) (\<lambda>have_children.
         bnd (gets (\<lambda>s. kgot (orc s) (tick (loc s)) SIGALRM)) (\<lambda>alrm.
         if alrm \<and> have_children = 0 then ret True
         else bnd (alarm (if have_children \<noteq> 0 then 0 else 10)) (\<lambda>_. ret False)))) (\<lambda>_. in_turn g k s) u"
        using repr_live [OF good_repr [OF d(1)] d(2)] by (simp add: wps refok_def)
    qed
    then show ?thesis by (intro wpx_wp) (simp only: wp_thenM wp_seqM_Cons wp_seqM_Nil)
  qed
  have mid: "wpx h (bnd (speedy_group_isvalid g) (\<lambda>valid.
       bnd (gets (\<lambda>s. kgot (orc s) (tick (loc s)) SIGUSR1)) (\<lambda>usr1.
       whenM (valid \<and> usr1) (start_child g)))) (\<lambda>_. in_turn g k s) exited0 t"
    if t: "in_turn g (Suc k) s t" for t
  proof -
    obtain c where c: "good c t" "g \<in> live c" "room (Suc k) t" using t by (auto simp: in_turn_def)
    have sc: "wpx h (start_child g) (\<lambda>_. in_turn g k s) exited0 t"
      by (rule wpx_mono [OF start_child_spec [OF c]]) (rule in_turn_trans [OF t in_turn_kept])
    have no: "in_turn g k s t" using t room_less [of "Suc k" t k] by (auto simp: in_turn_def)
    have valid: "wpx h (bnd (speedy_group_isvalid g) F) Q exited0 t = wpx h (F (script_head (gr t g) \<noteq> 0)) Q exited0 t" for F Q
      unfolding wpx_bnd using repr_live [OF good_repr [OF c(1)] c(2)] by (intro wpx_eq) (simp add: wp_isvalid)
    show ?thesis unfolding valid using sc no by (simp add: wpx_bnd wpx_gets wpx_whenM)
  qed
  have "wpx h (collect_child g) (\<lambda>_. wpx h (bnd (speedy_group_isvalid g) (\<lambda>valid.
       bnd (gets (\<lambda>s. kgot (orc s) (tick (loc s)) SIGUSR1)) (\<lambda>usr1.
       whenM (valid \<and> usr1) (start_child g)))) (\<lambda>_. wpx h (thenM [do_cleanup g]
      (bnd (getref (BE_HEAD g)) (\<lambda>have_children.
       bnd (gets (\<lambda>s. kgot (orc s) (tick (loc s)) SIGALRM)) (\<lambda>alrm.
       if alrm \<and> have_children = 0 then ret True
       else bnd (alarm (if have_children \<noteq> 0 then 0 else 10)) (\<lambda>_. ret False)))))
      (\<lambda>_. in_turn g k s) exited0) exited0) exited0 s"
    by (rule wpx_mono [OF wpx_wp [OF collect_child_turn [OF gd g room]]], rule wpx_mono [OF mid], assumption)
      (rule rest)
  then show ?thesis
    unfolding main_turn_def by (simp only: wpx_thenM wpx_seqM)
qed

theorem main_loop_spec:
  assumes "coop_on (\<lambda>a s. g \<in> live a) 1 m r others" and "good a s" and "g \<in> live a"
    and "tick (loc s) + n \<le> m" and "room (r (tick (loc s))) s"
  shows "wpx True (main_loop n others g) (\<lambda>_ t. \<exists>b. good b t \<and> steady s t) exited0 s"
  using assms(2-)
proof (induction n arbitrary: a s)
  case 0
  then show ?case by (simp add: wpxs)
next
  case (Suc n)
  let ?p = "ploc (pausing (orc s)) s"
  have tp: "tick (loc ?p) = tick (loc s)" by (simp add: pausing_def)
  obtain b where b: "good b (relocked others ?p)" "g \<in> live b" "steady ?p (relocked others ?p)"
    "tick (loc (relocked others ?p)) = Suc (tick (loc s))"
    "room (r (Suc (tick (loc s))) + 1) (relocked others ?p)"
    by (rule coop_on_relocked [OF assms(1), of a ?p]) (use Suc.prems tp in auto)
  let ?u = "relocked others ?p"
  have "wpx True (main_turn g) (\<lambda>last. wpx True (if last then speedy_group_cleanup g else main_loop n others g)
      (\<lambda>_ t. \<exists>b. good b t \<and> steady s t) exited0) exited0 ?u"
  proof (rule wpx_mono [OF main_turn_spec [OF b(1,2), of "r (Suc (tick (loc s)))"]])
    show "room (Suc (r (Suc (tick (loc s))))) ?u" using b(5) by simp
    fix last v assume "in_turn g (r (Suc (tick (loc s)))) ?u v"
    then obtain c where c: "good c v" "g \<in> live c" "steady ?u v" "tick (loc v) = Suc (tick (loc s))"
      "room (r (tick (loc v))) v"
      using b(4) by (auto simp: in_turn_def)
    have sp: "steady s ?p" by (simp add: steady_def)
    have sv: "steady s v" by (rule steady_trans [OF sp steady_trans [OF b(3) c(3)]])
    have "wpx True (speedy_group_cleanup g) (\<lambda>_ t. \<exists>b. good b t \<and> steady s t) exited0 v"
      by (rule wpx_wp, rule wp_mono [OF good_group_cleanup [OF c(1,2)]])
        (use sv steady_trans near_steady in blast)
    moreover have "wpx True (main_loop n others g) (\<lambda>_ t. \<exists>b. good b t \<and> steady s t) exited0 v"
      by (rule wpx_mono [OF Suc.IH [OF c(1,2)]]) (use Suc.prems c sv steady_trans in auto)
    ultimately show "wpx True (if last then speedy_group_cleanup g else main_loop n others g)
      (\<lambda>_ t. \<exists>b. good b t \<and> steady s t) exited0 v"
      by simp
  qed
  moreover have "wpx True pause Q exited0 s = Q () ?p" for Q by (rule wpx_eq) (rule wp_pause)
  ultimately show ?case
    by (simp only: main_loop.simps wpx_thenM wpx_seqM wpx_bnd wpx_lock_file)
qed

text \<open>Joining the group of the script: the process leaves when another parent is alive, and otherwise
  is the parent of a group of the file.\<close>

definition joined :: "nat \<Rightarrow> sys \<Rightarrow> slotnum option \<Rightarrow> sys \<Rightarrow> bool" where
  "joined k s x t \<longleftrightarrow> (\<exists>b. good b t \<and> (\<forall>g. x = Some g \<longrightarrow> g \<in> live b)) \<and> steady s t
     \<and> tick (loc t) = tick (loc s) \<and> room k t"

theorem main_join_spec:
  assumes gd: "good a s" and room: "room (k + 4) s" and o: "NUL \<notin> set (o_group s)"
  shows "wpx h main_join (joined k s) exited0 s"
proof -
  have room3: "room (Suc (Suc (Suc (Suc k)))) s" using room by (simp add: eval_nat_numeral)
  define st where "st = kstat (orc s) (tick (loc s))"
  let ?enter = "\<lambda>g p. thenM [gr_upd g (\<lambda>r. r\<lparr>be_parent := p\<rparr>), start_child g] (ret (Some g))"
  have enter: "wpx h (?enter g p) (joined k s) exited0 u"
    if c: "good c u" "g \<in> live c" "steady s u" "tick (loc u) = tick (loc s)" "room (Suc k) u" for g p c u
  proof -
    let ?v = "ppay g (U_gr ((gr u g)\<lparr>be_parent := p\<rparr>)) u"
    have v: "good c ?v" "near u ?v"
      using gr_still [OF c(1,2), of "(gr u g)\<lparr>be_parent := p\<rparr>"] near_still by (auto simp: heads_def)
    have rv: "room (Suc k) ?v" using near_room [OF v(2)] c(5) by simp
    have upd: "wpx h (gr_upd g (\<lambda>r. r\<lparr>be_parent := p\<rparr>)) Q E u = Q () ?v" for Q E
      by (rule wpx_eq) (use repr_live [OF good_repr [OF c(1)] c(2)] in \<open>simp add: wps\<close>)
    have "wpx h (start_child g) (\<lambda>_. joined k s (Some g)) exited0 ?v"
    proof (rule wpx_mono [OF start_child_spec [OF v(1) c(2) rv]])
      fix x w assume "kept g k ?v w"
      then show "joined k s (Some g) w"
        using c(3,4) near_steady [OF v(2)] near_loc [OF v(2)] steady_trans
        by (auto simp: kept_def joined_def)
    qed
    then show ?thesis by (simp only: wpx_thenM wpx_seqM upd wpx_ret)
  qed
  have after: "wpx h (bnd (gr_get g) (\<lambda>gslot. bnd speedy_util_getpid (\<lambda>ourpid.
     bnd (if be_parent gslot \<noteq> 0 \<and> be_parent gslot \<noteq> ourpid then speedy_group_start_be g else ret False) (\<lambda>leave.
     if leave then ret None else ?enter g ourpid)))) (joined k s) exited0 t"
    if t: "good b t" "g \<in> live b" "steady s t" "tick (loc t) = tick (loc s)" "room (Suc k) t" for b g t
  proof -
    have get: "wpx h (gr_get g) Q E t = Q (gr t g) t" for Q E
      by (rule wpx_eq) (use repr_live [OF good_repr [OF t(1)] t(2)] in \<open>simp add: wps\<close>)
    have pid: "wpx h speedy_util_getpid Q E t = Q (mypid t) t" for Q E
      by (simp add: speedy_util_getpid_def wpx_gets)
    have stay: "wpx h (if False then ret None else ?enter g p) (joined k s) exited0 t" for p
      using enter [OF t] by simp
    have gl: "g \<in> set (lst b LGroups)" using t(2) good_live [OF t(1)] by simp
    have sb: "wpx h (speedy_group_start_be g) (\<lambda>leave. wpx h (if leave then ret None else ?enter g p) (joined k s) exited0) exited0 t" for p
    proof (rule wpx_mono [OF wpx_wp [OF start_be_spec [OF good_wfile [OF t(1)] t(2) gl]]])
      fix ok u assume u: "coreupd b g t u \<and> (if ok then wfile b u \<and> gr u g = gr t g \<and> be_parent (gr t g) \<noteq> 0
        else wfile (inval g b) u \<and> be_parent (gr u g) = 0)"
      then have nr: "near t u" and cl: "calm (live b) (live b - {g}) (bes b) t u"
        using near_coreupd by (auto simp: coreupd_def)
      have su: "steady s u" "tick (loc u) = tick (loc s)" "room (Suc k) u" "room k u"
        using t(3-5) near_steady [OF nr] near_loc [OF nr] near_room [OF nr] steady_trans room_less [of "Suc k" u k] by auto
      show "wpx h (if ok then ret None else ?enter g p) (joined k s) exited0 u"
      proof (cases ok)
        case True
        then have "wfile b u" "coreupd b g t u" using u by simp_all
        then have "good b u" using good_coreupd [OF t(1)] by blast
        then show ?thesis using True su by (auto simp: wpx_ret joined_def)
      next
        case False
        then have "good (inval g b) u" using u good_inval [OF t(1,2) _ cl] by simp
        then show ?thesis using False enter [of "inval g b" u g p] t(2) su by (simp add: inval_lists)
      qed
    qed
    show ?thesis
    proof (cases "be_parent (gr t g) \<noteq> 0 \<and> be_parent (gr t g) \<noteq> mypid t")
      case True
      have "wpx h (if be_parent (gr t g) \<noteq> 0 \<and> be_parent (gr t g) \<noteq> mypid t then speedy_group_start_be g else ret False)
          Q E t = wpx h (speedy_group_start_be g) Q E t" for Q E
        using True by (simp only: if_True simp_thms)
      then show ?thesis using sb [of "mypid t"] by (simp only: wpx_bnd get pid)
    next
      case False
      then show ?thesis using stay [of "mypid t"] by (simp only: wpx_bnd get pid if_False wpx_ret)
    qed
  qed
  have "wpx h (speedy_script_find st) (\<lambda>g. wpx h (bnd (gr_get g) (\<lambda>gslot. bnd speedy_util_getpid (\<lambda>ourpid.
     bnd (if be_parent gslot \<noteq> 0 \<and> be_parent gslot \<noteq> ourpid then speedy_group_start_be g else ret False) (\<lambda>leave.
     if leave then ret None else ?enter g ourpid)))) (joined k s) exited0) exited0 s"
  proof (rule wpx_mono [OF wpx_wp [OF script_find_spec [OF gd room3 o]]])
    fix g t assume "\<exists>b. good b t \<and> regrown a b \<and> serves b t st g \<and> hd (lst b LGroups) = g \<and> room (Suc k) t
      \<and> mild (- procs a s) (live a) (bes a) s t \<and> (\<forall>m. held a s m \<longrightarrow> held b t m)"
    then obtain b where b: "good b t" "g \<in> live b" "room (Suc k) t" "env t = env s"
      by (auto simp: serves_def mild_def)
    show "wpx h (bnd (gr_get g) (\<lambda>gslot. bnd speedy_util_getpid (\<lambda>ourpid.
     bnd (if be_parent gslot \<noteq> 0 \<and> be_parent gslot \<noteq> ourpid then speedy_group_start_be g else ret False) (\<lambda>leave.
     if leave then ret None else ?enter g ourpid)))) (joined k s) exited0 t"
      using env_proj [OF b(4)] by (intro after [OF b(1,2) _ _ b(3)]) (auto simp: steady_def)
  qed
  then show ?thesis unfolding main_join_def by (simp only: wpx_bnd wpx_gets st_def)
qed

end
