(* ===== verification/BackendRun.thy ===== *)
theory BackendRun
  imports BackendLoop
begin

text \<open>
  The runs of a backend (\<open>speedy_perl_run\<close>): it offers itself to frontends, is taken, runs the
  script, reports how it ended and offers itself again, in turn with other processes, until the
  group is gone or it has run often enough.
\<close>

section \<open>Offering oneself\<close>

lemma wfile_be:
  assumes W: "wfile a s" and b: "b \<in> bes a" and r: "fe_running r = fe_running (be s b)"
  shows "wfile a (ppay b (U_be r) s)" (is "wfile a ?t")
proof -
  have R: "repr a s" by (rule wfile_repr [OF W])
  have be: "be ?t m = (if m = b then r else be s m)" for m by (simp add: views)
  have "fe ?t f = fe s f" if "f \<in> set (lst a LFeRun)" for f
  proof -
    have "f \<noteq> b" using bes_mem(4) [OF R b] that by auto
    then show ?thesis by (simp add: views)
  qed
  then have "links a ?t" using W r by (auto simp: wfile_def links_def be simp del: typed_ppay)
  then show ?thesis using repr_ppay [OF R payable_bes [OF R b]] by (simp add: wfile_def)
qed

text \<open>A backend of the group, which runs nothing unless it was handed to a frontend.\<close>

definition offered :: "slotnum \<Rightarrow> slotnum \<Rightarrow> fstate \<Rightarrow> sys \<Rightarrow> bool" where
  "offered g b a s \<longleftrightarrow> good a s \<and> b \<in> set (lst a (LBe g))"

lemma offered_live: "offered g b a s \<Longrightarrow> g \<in> live a"
  using repr_active good_repr by (fastforce simp: offered_def active_def)

lemma offered_bes: "offered g b a s \<Longrightarrow> b \<in> bes a"
  by (auto simp: offered_def bes_def)

text \<open>
  Putting itself back in the queue: with a new maturity the queue of the group is out of order only
  as far as \<open>b\<close> goes, which is taken out and inserted where it belongs.
\<close>

lemma good_put:
  assumes of: "offered g b a s" and u: "u = ppay b (U_be ((be s b)\<lparr>maturity := m\<rparr>)) s"
    and w: "wfile (upl (LBe g) (put_sorted t b (remove1 b (lst a (LBe g)))) a) t" and wt: "waiting t b"
    and c: "calm L G (bes a - {b}) u t"
  shows "offered g b (upl (LBe g) (put_sorted t b (remove1 b (lst a (LBe g)))) a) t"
proof -
  let ?L = "lst a (LBe g)" and ?b = "upl (LBe g) (put_sorted t b (remove1 b (lst a (LBe g)))) a"
  have gd: "good a s" and b: "b \<in> set ?L" using of by (simp_all add: offered_def)
  have R: "repr a s" by (rule good_repr [OF gd])
  have bv: "bv t c = bv s c" if "c \<in> bes a" "c \<noteq> b" for c
    using that c by (simp add: calm_def bv_def u views)
  have o: "be_order s (lst a (LBe h))" for h using gd by (simp add: good_def orders_def)
  have "be_order s (remove1 b ?L)"
    using be_order_filter [OF o] remove1_filter [OF repr_distinct [OF R]] by simp
  moreover have "x \<in> set (remove1 b ?L) \<Longrightarrow> bv t x = bv s x" for x
    using repr_distinct [OF R, of "LBe g"] by (intro bv) (auto simp: bes_def)
  ultimately have "be_order t (remove1 b ?L)" using be_order_cong [of "remove1 b ?L" t s] by blast
  then have g': "be_order t (lst ?b (LBe g))" using be_order_put [OF _ wt] by simp
  have "be_order t (lst ?b (LBe h))" for h
  proof (cases "h = g")
    case False
    have "b \<notin> set (lst a (LBe h))" using repr_disjoint [OF R b] False by blast
    then have "x \<in> set (lst a (LBe h)) \<Longrightarrow> bv t x = bv s x" for x
      by (intro bv) (auto simp: bes_def)
    then show ?thesis using be_order_cong [of "lst a (LBe h)" t s] o False by simp
  qed (use g' in simp)
  moreover have "tidyf ?b = tidyf a" by (rule tidyf_lists) simp_all
  ultimately show ?thesis using gd w by (simp add: offered_def good_def orders_def)
qed

definition offers :: "slotnum \<Rightarrow> slotnum \<Rightarrow> sys \<Rightarrow> sys \<Rightarrow> bool" where
  "offers g b s t \<longleftrightarrow> (\<exists>c. offered g b c t) \<and> near s t"

lemma offersI: "offered g b c t \<Longrightarrow> near s t \<Longrightarrow> offers g b s t"
  by (auto simp: offers_def)

lemma wait_put_good:
  assumes of: "offered g b a s" and fr: "fe_running (be s b) \<in> {0, b}"
  shows "wp (seqM [be_upd b (\<lambda>r. r\<lparr>maturity := m\<rparr>), speedy_backend_be_wait_put g b])
    (\<lambda>_ t. offers g b s t \<and> fe_running (be t b) = 0 \<and> maturity (be t b) = m) s"
proof -
  let ?u = "ppay b (U_be ((be s b)\<lparr>maturity := m\<rparr>)) s"
  have W: "wfile a s" and b: "b \<in> set (lst a (LBe g))" using of good_wfile by (simp_all add: offered_def)
  have Wu: "wfile a ?u" by (rule wfile_be [OF W offered_bes [OF of]]) simp
  have "calm {b} {} {} s ?u" by (simp add: calm_def cores_ppay)
  then have nu: "near s ?u" by (rule near_calm)
  have "wp (speedy_backend_be_wait_put g b)
    (\<lambda>_ t. offers g b s t \<and> fe_running (be t b) = 0 \<and> maturity (be t b) = m) ?u"
  proof (rule wp_mono [OF be_wait_put_spec [OF Wu b]])
    show "fe_running (be ?u b) \<in> {0, b}" using fr by (simp add: views)
    fix x t
    assume t: "wfile (upl (LBe g) (put_sorted t b (remove1 b (lst a (LBe g)))) a) t \<and>
     waiting t b \<and> be_pid (be t b) = be_pid (be ?u b) \<and> maturity (be t b) = maturity (be ?u b) \<and>
     calm (live a \<union> {b}) (live a) (bes a - {b}) ?u t"
    then have c: "calm (live a \<union> {b}) (live a) (bes a - {b}) ?u t" by blast
    have "offers g b s t"
      by (rule offersI [OF good_put [OF of refl]]) (use t near_trans [OF nu near_calm [OF c]] in auto)
    moreover have "fe_running (be t b) = 0" using t by (simp add: waiting_def)
    ultimately show "offers g b s t \<and> fe_running (be t b) = 0 \<and> maturity (be t b) = m"
      using t by (simp add: views)
  qed
  then show ?thesis using repr_mem [OF wfile_repr [OF W] b] by (simp add: wps)
qed

lemma not_starting_good:
  assumes of: "offered g b a s"
  shows "wp (not_starting g) (\<lambda>_ t. offered g b a t \<and> near s t \<and> be t b = be s b \<and>
    gr t g = (gr s g)\<lparr>be_starting := if be_starting (gr s g) = mypid s then 0 else be_starting (gr s g)\<rparr>) s"
proof -
  have gd: "good a s" using of by (simp add: offered_def)
  have g: "g \<in> live a" by (rule offered_live [OF of])
  have "b \<noteq> g" using offered_bes [OF of] live_bes_disjoint [OF good_repr [OF gd]] g by auto
  then show ?thesis
    using of repr_live [OF good_repr [OF gd] g] gr_still [OF gd g, of "(gr s g)\<lparr>be_starting := 0\<rparr>"]
      near_still [of a s a "ppay g (U_gr ((gr s g)\<lparr>be_starting := 0\<rparr>)) s"]
    by (simp add: not_starting_def wps speedy_util_getpid_def heads_def offered_def views)
qed

lemma sendsigs_good:
  assumes of: "offered g b a s"
  shows "wp (speedy_group_sendsigs g) (\<lambda>_ t. offers g b s t \<and> bv t b = bv s b) s"
proof (rule wp_mono [OF sendsigs_spec [OF good_wfile offered_live [OF of]]])
  show "good a s" using of by (simp add: offered_def)
  fix x t
  assume "\<exists>c. wfile c t \<and> shrink {LFe g} a c \<and>
     calm (live a \<union> set (lst a (LFe g))) (live a) (bes a) s t \<and> woken g a c s t"
  then obtain c where c: "wfile c t" "shrink {LFe g} a c"
    "calm (live a \<union> set (lst a (LFe g))) (live a) (bes a) s t" by blast
  have "good c t" by (rule good_shrink [OF _ c]) (use of in \<open>auto simp: offered_def\<close>)
  moreover have "lst c (LBe g) = lst a (LBe g)" using c(2) by (simp add: shrink_def)
  ultimately show "offers g b s t \<and> bv t b = bv s b"
    using of near_calm [OF c(3)] offered_bes [OF of] c(3)
    by (auto simp: offered_def calm_def intro!: offersI)
qed

theorem run_ready_spec:
  assumes of: "offered g b a s" and fr: "fe_running (be s b) \<in> {0, b}"
  shows "wp (run_ready g b k) (\<lambda>_ t. offers g b s t \<and> fe_running (be t b) = 0 \<and>
     maturity (be t b) = (if k \<noteq> 0 then 2 else 1)) s" (is "wp _ ?Q s")
proof -
  let ?m = "if k \<noteq> 0 then 2 else 1 :: int"
  have last: "wp (speedy_group_sendsigs g) ?Q u"
    if u: "offered g b c u" "near s u" "fe_running (be u b) = 0" "maturity (be u b) = ?m" for c u
    by (rule wp_mono [OF sendsigs_good [OF u(1)]])
      (use u near_trans in \<open>auto simp: offers_def bv_def\<close>)
  have mid: "wp (not_starting g) (\<lambda>_. wp (speedy_group_sendsigs g) ?Q) t"
    if t: "offers g b s t" "fe_running (be t b) = 0" "maturity (be t b) = ?m" for t
  proof -
    obtain c where c: "offered g b c t" "near s t" using t(1) by (auto simp: offers_def)
    show ?thesis
    proof (rule wp_mono [OF not_starting_good [OF c(1)]])
      fix x u assume "offered g b c u \<and> near t u \<and> be u b = be t b \<and>
        gr u g = (gr t g)\<lparr>be_starting := if be_starting (gr t g) = mypid t then 0 else be_starting (gr t g)\<rparr>"
      then show "wp (speedy_group_sendsigs g) ?Q u"
        using t c(2) near_trans by (intro last [of c]) auto
    qed
  qed
  have "wp (seqM [be_upd b (\<lambda>r. r\<lparr>maturity := ?m\<rparr>), speedy_backend_be_wait_put g b])
      (\<lambda>_. wp (not_starting g) (\<lambda>_. wp (speedy_group_sendsigs g) ?Q)) s"
    by (rule wp_mono [OF wait_put_good [OF of fr]]) (use mid in blast)
  then show ?thesis by (simp only: run_ready_def wp_seqM_Cons wp_seqM_Nil)
qed

theorem run_accepted_spec:
  assumes of: "offered g b a s"
  shows "wp (run_accepted g) (\<lambda>_. offers g b s) s"
proof -
  have "wp (not_starting g) (\<lambda>_. wp (speedy_group_sendsigs g) (\<lambda>_. offers g b s)) s"
  proof (rule wp_mono [OF not_starting_good [OF of]])
    fix x t assume t: "offered g b a t \<and> near s t \<and> be t b = be s b \<and>
      gr t g = (gr s g)\<lparr>be_starting := if be_starting (gr s g) = mypid s then 0 else be_starting (gr s g)\<rparr>"
    then have o: "offered g b a t" by blast
    show "wp (speedy_group_sendsigs g) (\<lambda>_. offers g b s) t"
      by (rule wp_mono [OF sendsigs_good [OF o]]) (use t near_trans in \<open>auto simp: offers_def\<close>)
  qed
  then show ?thesis by (simp only: run_accepted_def wp_seqM_Cons wp_seqM_Nil)
qed

theorem run_exited_spec:
  assumes of: "offered g b a s"
  shows "wp (speedy_backend_exited b x v) (\<lambda>_ t. offers g b s t \<and> fe_running (be t b) \<in> {0, b}) s"
proof (rule wp_mono [OF exited_spec [OF good_wfile offered_bes [OF of]]])
  show "good a s" using of by (simp add: offered_def)
  fix y t
  assume "\<exists>a'. wfile a' t \<and> shrink {LFeRun} a a' \<and>
     calm (busy a) (live a) (bes a) s t \<and> fe_running (be t b) \<in> {0, b} \<and>
     (\<forall>f. f = fe_running (be s b) \<longrightarrow> f \<in> set (lst a' LFeRun) \<longrightarrow>
        fe t f = (fe s f)\<lparr>backend := 0, exit_on_sig := x, exit_val := v\<rparr>) \<and>
     (fe_pid (fe s (fe_running (be s b))) = mypid s \<longrightarrow> mypid s \<noteq> 0 \<longrightarrow> a' = a)"
  then obtain c where c: "wfile c t" "shrink {LFeRun} a c" "calm (busy a) (live a) (bes a) s t"
    "fe_running (be t b) \<in> {0, b}" by blast
  have "good c t" by (rule good_shrink [OF _ c(1-3)]) (use of in \<open>auto simp: offered_def\<close>)
  moreover have "lst c (LBe g) = lst a (LBe g)" using c(2) by (simp add: shrink_def)
  ultimately show "offers g b s t \<and> fe_running (be t b) \<in> {0, b}"
    using of near_calm [OF c(3)] c(4) by (auto simp: offered_def intro!: offersI)
qed

section \<open>Run after run\<close>

text \<open>The lock, taken again after other processes have worked on the file.\<close>

lemma group_lock_turn:
  assumes c: "coop_on P 0 m r others" and P: "\<And>a s f. P a (ploc f s) = P a s"
    and s: "good a s" "P a s" "g \<in> live a" "tick (loc s) < m" "room (r (tick (loc s))) s"
    and G: "\<And>a s. good a s \<Longrightarrow> P a s \<Longrightarrow> g \<in> live a"
    and F: "\<And>v c t. good c t \<Longrightarrow> P c t \<Longrightarrow> tick (loc t) = Suc (tick (loc s)) \<Longrightarrow>
      room (r (tick (loc t))) t \<Longrightarrow> wpx h (F v) Q E t"
  shows "wpx h (bnd (speedy_group_lock others g) F) Q E s"
proof -
  let ?u = "relocked others s"
  obtain c where c: "good c ?u" "P c (others (tick (loc s)) s)" "tick (loc ?u) = Suc (tick (loc s))"
    "room (r (Suc (tick (loc s))) + 0) ?u"
    by (rule coop_on_relocked [OF c s(1,2,4,5)])
  have p: "P c ?u" using c(2) by (simp add: relocked_ploc P)
  have "wpx h (F (valid c g)) Q E ?u" using F [OF c(1) p c(3)] c(3,4) by simp
  then show ?thesis
    by (simp only: speedy_group_lock_def wpx_bnd wpx_thenM wpx_seqM wpx_lock_file wpx_isvalid [OF c(1) G [OF c(1) p]])
qed

definition queued :: "slotnum \<Rightarrow> slotnum \<Rightarrow> fstate \<Rightarrow> sys \<Rightarrow> bool" where
  "queued g b a s \<longleftrightarrow> b \<in> set (lst a (LBe g))"

definition taken :: "slotnum \<Rightarrow> slotnum \<Rightarrow> fstate \<Rightarrow> sys \<Rightarrow> bool" where
  "taken g b a s \<longleftrightarrow> b \<in> set (lst a (LBe g)) \<and> fe_running (be s b) = b"

text \<open>
  What a backend relies on: while it is taken, and while it waits for a frontend, nobody drops it from
  its group.
\<close>

definition backend_rely :: "slotnum \<Rightarrow> slotnum \<Rightarrow> nat \<Rightarrow> (nat \<Rightarrow> nat) \<Rightarrow> (nat \<Rightarrow> sys \<Rightarrow> sys) \<Rightarrow> bool" where
  "backend_rely g b m r others \<longleftrightarrow> coop_on (taken g b) 0 m r others \<and> coop_on (queued g b) 0 m r others"

lemma queued_simps:
  "queued g b a (ploc f s) = queued g b a s" "taken g b a (ploc f s) = taken g b a s"
  "good a s \<Longrightarrow> queued g b a s \<Longrightarrow> g \<in> live a" "good a s \<Longrightarrow> taken g b a s \<Longrightarrow> g \<in> live a"
  using offered_live by (auto simp: queued_def taken_def offered_def ploc_views)

lemma all_done_spec: "wpx h all_done Q exited0 s"
  by (simp add: all_done_def wpxs exited0_def)

lemma offers_tick: "offers g b s t \<Longrightarrow> tick (loc t) = tick (loc s) \<and> room k t = room k s"
  using near_loc near_room by (auto simp: offers_def)

text \<open>A whole run, from the lock to the next turn of the loop.\<close>

lemma run_once:
  assumes rely: "backend_rely g b m r others"
    and of: "offered g b a s" and fr: "fe_running (be s b) \<in> {0, b}"
    and m: "tick (loc s) + 1 < m" and room: "room (r (tick (loc s))) s"
    and again: "\<And>c t. offered g b c t \<Longrightarrow> fe_running (be t b) \<in> {0, b} \<Longrightarrow>
      tick (loc t) = tick (loc s) + 2 \<Longrightarrow> room (r (tick (loc t))) t \<Longrightarrow> wpx h next_run Q exited0 t"
  shows "wpx h (thenM [run_ready g b k]
          (bnd (speedy_group_lock others g) (\<lambda>valid.
           if \<not> valid then all_done
           else thenM
             [run_accepted g, lock_file others, speedy_backend_exited b 0 x] next_run))) Q exited0 s"
proof -
  have q: "coop_on (queued g b) 0 m r others" using rely by (simp add: backend_rely_def)
  have ex: "wpx h (speedy_backend_exited b 0 x) (\<lambda>_. wpx h next_run Q exited0) exited0 t"
    if t: "offered g b c t" "tick (loc t) = tick (loc s) + 2" "room (r (tick (loc t))) t" for c t
  proof (rule wpx_mono [OF wpx_wp [OF run_exited_spec [OF t(1)]]])
    fix y u assume u: "offers g b t u \<and> fe_running (be u b) \<in> {0, b}"
    then obtain d where "offered g b d u" by (auto simp: offers_def)
    then show "wpx h next_run Q exited0 u"
      using u t offers_tick [of g b t u] by (intro again [of d]) auto
  qed
  have served: "wpx h (thenM [run_accepted g, lock_file others, speedy_backend_exited b 0 x] next_run) Q exited0 t"
    if t: "good c t" "queued g b c t" "tick (loc t) = Suc (tick (loc s))" "room (r (tick (loc t))) t" for c t
  proof -
    have o: "offered g b c t" using t by (simp add: offered_def queued_def)
    have "wpx h (run_accepted g) (\<lambda>_. wpx h (lock_file others)
        (\<lambda>_. wpx h (speedy_backend_exited b 0 x) (\<lambda>_. wpx h next_run Q exited0) exited0) exited0) exited0 t"
    proof (rule wpx_mono [OF wpx_wp [OF run_accepted_spec [OF o]]])
      fix y u assume u: "offers g b t u"
      then obtain d where d: "good d u" "queued g b d u" by (auto simp: offers_def offered_def queued_def)
      note tu = offers_tick [OF u]
      obtain e where "good e (relocked others u)" "queued g b e (others (tick (loc u)) u)"
        "tick (loc (relocked others u)) = Suc (tick (loc u))"
        "room (r (Suc (tick (loc u))) + 0) (relocked others u)"
        by (rule coop_on_relocked [OF q d]) (use t tu m in auto)
      then show "wpx h (lock_file others)
          (\<lambda>_. wpx h (speedy_backend_exited b 0 x) (\<lambda>_. wpx h next_run Q exited0) exited0) exited0 u"
        using tu t(3) unfolding wpx_lock_file by (intro ex [of e]) (auto simp: offered_def queued_def)
    qed
    then show ?thesis by (simp only: wpx_thenM wpx_seqM)
  qed
  have "wpx h (run_ready g b k) (\<lambda>_. wpx h (bnd (speedy_group_lock others g) (\<lambda>valid.
           if \<not> valid then all_done
           else thenM [run_accepted g, lock_file others, speedy_backend_exited b 0 x] next_run)) Q exited0) exited0 s"
  proof (rule wpx_mono [OF wpx_wp [OF run_ready_spec [OF of fr]]])
    fix y t assume "offers g b s t \<and> fe_running (be t b) = 0 \<and> maturity (be t b) = (if k \<noteq> 0 then 2 else 1)"
    then have o: "offers g b s t" by blast
    then obtain c where c: "good c t" "queued g b c t" by (auto simp: offers_def offered_def queued_def)
    note tt = offers_tick [OF o]
    show "wpx h (bnd (speedy_group_lock others g) (\<lambda>valid.
           if \<not> valid then all_done
           else thenM [run_accepted g, lock_file others, speedy_backend_exited b 0 x] next_run)) Q exited0 t"
    proof (rule group_lock_turn [OF q queued_simps(1) c queued_simps(3) [OF c]])
      show "tick (loc t) < m" "room (r (tick (loc t))) t" using tt m room by auto
      fix v d u assume u: "good d u" "queued g b d u" "tick (loc u) = Suc (tick (loc t))" "room (r (tick (loc u))) u"
      show "wpx h (if \<not> v then all_done
           else thenM [run_accepted g, lock_file others, speedy_backend_exited b 0 x] next_run) Q exited0 u"
        using served [OF u(1,2) _ u(4)] u(3) tt all_done_spec by (cases v) auto
    qed (rule queued_simps(3))
  qed
  then show ?thesis by (simp only: wpx_thenM wpx_seqM)
qed

definition runs :: "slotnum \<Rightarrow> slotnum \<Rightarrow> fstate \<Rightarrow> nat \<Rightarrow> sys \<Rightarrow> bool" where
  "runs g b a k s \<longleftrightarrow> offered g b a s \<and> fe_running (be s b) \<in> {0, b} \<and> (k = 0 \<longrightarrow> fe_running (be s b) = b)"

lemma start_replacement:
  assumes "good a s" and "g \<in> live a"
  shows "wpx h (thenM [whenM v (bnd (speedy_group_start_be g) (\<lambda>_. ret ()))] all_done) Q exited0 s"
proof -
  have gl: "g \<in> set (lst a LGroups)" using assms good_live by blast
  have "wpx h (speedy_group_start_be g) (\<lambda>_ _. True) exited0 s"
    by (rule wpx_mono [OF wpx_wp [OF start_be_spec [OF good_wfile [OF assms(1)] assms(2) gl]]]) simp
  then show ?thesis
    by (cases v) (simp_all add: all_done_spec [THEN eqTrueI] wpx_thenM wpx_seqM wpx_whenM wpx_bnd wpx_ret del: seqM.simps)
qed

lemma perl_run_lock_turn:
  assumes rely: "backend_rely g b m r others" and s: "runs g b a k s"
    and m: "tick (loc s) < m" and room: "room (r (tick (loc s))) s"
    and F: "\<And>v c t. runs g b c k t \<Longrightarrow> tick (loc t) \<le> Suc (tick (loc s)) \<Longrightarrow>
      room (r (tick (loc t))) t \<Longrightarrow> wpx h (F v) Q E t"
  shows "wpx h (bnd (perl_run_lock others g k) F) Q E s"
proof (cases "k = 0")
  case True
  have t: "good a s" "taken g b a s" using s True by (auto simp: runs_def offered_def taken_def)
  have q: "coop_on (taken g b) 0 m r others" using rely by (simp add: backend_rely_def)
  show ?thesis
    unfolding perl_run_lock_def using True
    by (simp only: if_True simp_thms)
      (rule group_lock_turn [OF q queued_simps(2) t queued_simps(4) [OF t] m room queued_simps(4)],
        assumption+, rule F, auto simp: runs_def offered_def taken_def)
next
  case False
  have gd: "good a s" "g \<in> live a" using s offered_live by (auto simp: runs_def offered_def)
  have "wpx h (F (valid a g)) Q E s" by (rule F [OF s]) (use room in simp_all)
  then show ?thesis
    unfolding perl_run_lock_def using False by (simp only: if_False wpx_bnd wpx_isvalid [OF gd])
qed

text \<open>
  A backend never trips over the file: it exits with status 0, whatever the others do within what
  it relies on, and within a bounded number of turns if it has a limit on its runs.
\<close>

theorem perl_run_spec:
  assumes rely: "backend_rely g b m r others" and "runs g b a k s"
    and "tick (loc s) + 3 * n \<le> m" and "room (r (tick (loc s))) s"
    and "h \<or> 0 < maxruns \<and> 0 < n \<and> maxruns < int k + int n"
  shows "wpx h (perl_run n others maxruns orphan onerun g b k) (\<lambda>_ _. False) exited0 s"
  using assms(2-)
proof (induction n arbitrary: a k s)
  case 0
  then show ?case by (simp add: wpxs)
next
  case (Suc n)
  let ?next = "perl_run n others maxruns orphan onerun g b (Suc k)"
  let ?run = "\<lambda>v. if \<not> v then all_done
        else thenM [run_ready g b k]
          (bnd (speedy_group_lock others g) (\<lambda>valid.
           if \<not> valid then all_done
           else thenM [run_accepted g, lock_file others, speedy_backend_exited b 0 (onerun k)] ?next))"
  have m: "tick (loc s) < m" using Suc.prems(2) by simp
  show ?case
  proof (cases "maxruns = 0 \<or> int k < maxruns")
    case more: True
    have again: "wpx h ?next (\<lambda>_ _. False) exited0 t"
      if "offered g b c t" "fe_running (be t b) \<in> {0, b}" "tick (loc t) \<le> tick (loc s) + 3" "room (r (tick (loc t))) t"
      for c t
      by (rule Suc.IH [of c]) (use that Suc.prems(2,4) more in \<open>auto simp: runs_def\<close>)
    have run: "wpx h (?run v) (\<lambda>_ _. False) exited0 t"
      if t: "runs g b c k t" "tick (loc t) \<le> Suc (tick (loc s))" "room (r (tick (loc t))) t" for v c t
    proof (cases v)
      case True
      have o: "offered g b c t" "fe_running (be t b) \<in> {0, b}" using t(1) by (simp_all add: runs_def)
      have "wpx h (?run True) (\<lambda>_ _. False) exited0 t"
        unfolding not_True_eq_False if_False
        by (rule run_once [OF rely o _ t(3)]) (use t(2) Suc.prems(2) in \<open>auto intro!: again\<close>)
      then show ?thesis using True by simp
    next
      case False
      then show ?thesis using all_done_spec by simp
    qed
    have "wpx h (bnd (if orphan k then ret False else perl_run_lock others g k) ?run) (\<lambda>_ _. False) exited0 s"
    proof (cases "orphan k")
      case True
      then show ?thesis using all_done_spec by (simp add: wpx_bnd wpx_ret)
    next
      case False
      have "wpx h (bnd (perl_run_lock others g k) ?run) (\<lambda>_ _. False) exited0 s"
        by (rule perl_run_lock_turn [OF rely Suc.prems(1) m Suc.prems(3)]) (rule run)
      then show ?thesis using False by (simp only: if_False)
    qed
    then show ?thesis using more by (simp only: perl_run.simps if_True simp_thms)
  next
    case no: False
    have fin: "wpx h (thenM [whenM v (bnd (speedy_group_start_be g) (\<lambda>_. ret ()))] all_done) (\<lambda>_ _. False) exited0 t"
      if "runs g b c k t" for v c t
      using that offered_live by (intro start_replacement [of c]) (auto simp: runs_def offered_def)
    have "wpx h (bnd (perl_run_lock others g k) (\<lambda>v. thenM [whenM v (bnd (speedy_group_start_be g) (\<lambda>_. ret ()))] all_done))
        (\<lambda>_ _. False) exited0 s"
      by (rule perl_run_lock_turn [OF rely Suc.prems(1) m Suc.prems(3)]) (rule fin)
    then show ?thesis using no by (simp only: perl_run.simps if_False simp_thms)
  qed
qed

end
