(* ===== verification/Opt.thy ===== *)
theory Opt
  imports Prelude
begin

text \<open>
  Options and arguments (src/src/speedy_opt.c): the growing arrays of strings, how a command line
  is taken apart into arguments of perl, options and arguments of the script, the table of
  options, and how it is set from the command line, the environment and the first line of the
  script. The table itself (speedy_optdefs.c) is generated by the build and part of the state.
  Strings that option records point to are cells of a memory, because the records share and free
  them; the strings of an array belong to that array alone and are kept as values.
\<close>

section \<open>Arrays of strings\<close>

record strlist =
  ptrs :: "string list"
  malloced :: nat

definition STRLIST_REALLOC_MULT :: nat where "STRLIST_REALLOC_MULT = 2"
definition STRLIST_MALLOC :: nat where "STRLIST_MALLOC = 10"

definition strlist_len :: "strlist \<Rightarrow> nat" where "strlist_len l = length (ptrs l)"

definition strlist_init :: strlist where
  "strlist_init = \<lparr>ptrs = [], malloced = 0\<rparr>"

definition strlist_alloc :: "nat \<Rightarrow> strlist \<Rightarrow> strlist" where
  "strlist_alloc mn l = (if malloced l < mn then l\<lparr>malloced := mn\<rparr> else l)"

text \<open>New places are not initialised in the code; here they hold the empty string.\<close>

definition strlist_setlen :: "nat \<Rightarrow> strlist \<Rightarrow> strlist" where
  "strlist_setlen newlen l =
     (let len = strlist_len l;
          l' = l\<lparr>ptrs := take newlen (ptrs l) @ replicate (newlen - len) ''''\<rparr>
      in if malloced l < newlen
         then let m = (if malloced l \<noteq> 0 then malloced l * STRLIST_REALLOC_MULT else STRLIST_MALLOC)
              in strlist_alloc (if m < newlen then newlen else m) l'
         else l')"

definition strlist_append3 :: "strlist \<Rightarrow> string \<Rightarrow> strlist" where
  "strlist_append3 l str =
     (let len = strlist_len l; l' = strlist_setlen (len + 1) l in l'\<lparr>ptrs := (ptrs l')[len := str]\<rparr>)"

text \<open>\<open>strlist_append\<close> and \<open>strlist_append2\<close> append a copy.\<close>

definition strlist_append :: "strlist \<Rightarrow> string \<Rightarrow> strlist" where
  "strlist_append l s = strlist_append3 l s"

text \<open>The exported array is the strings and one place more for the NULL at the end.\<close>

definition strlist_export :: "strlist \<Rightarrow> strlist" where
  "strlist_export l = strlist_alloc (strlist_len l + 1) l"

definition strlist_concat2 :: "strlist \<Rightarrow> string list \<Rightarrow> strlist" where
  "strlist_concat2 l xs = fold (\<lambda>x l. strlist_append l x) xs l"

definition strlist_replace :: "strlist \<Rightarrow> nat \<Rightarrow> string \<Rightarrow> strlist" where
  "strlist_replace l i newstr = l\<lparr>ptrs := (ptrs l)[i := newstr]\<rparr>"

text \<open>The C locale.\<close>

definition isspace :: "char \<Rightarrow> bool" where
  "isspace c \<longleftrightarrow> c \<in> set [CHR '' '', CHR 0x09, CHR 0x0A, CHR 0x0B, CHR 0x0C, CHR 0x0D]"

text \<open>\<open>w\<close> is what has been read since \<open>beg\<close>.\<close>

function split_words :: "string \<Rightarrow> string \<Rightarrow> string list" where
  "split_words w [] = (if w \<noteq> [] then [w] else [])"
| "split_words w (c # cs) =
     (if isspace c then (if w \<noteq> [] then [w] else []) @ split_words [] (dropWhile isspace cs)
      else split_words (w @ [c]) cs)"
  by pat_completeness auto
termination
  by (relation "measure (\<lambda>(w, cs). length cs)") (auto simp: le_imp_less_Suc length_dropWhile_le)

definition strlist_split :: "strlist \<Rightarrow> string list \<Rightarrow> strlist" where
  "strlist_split out xs = fold (\<lambda>p out. strlist_concat2 out (split_words [] p)) xs out"

section \<open>Taking a command line apart\<close>

definition is_opt :: "string \<Rightarrow> bool" where
  "is_opt p \<longleftrightarrow> p \<noteq> [] \<and> hd p = CHR ''-''"

text \<open>The options at the front of one argument: what is left of it comes first in the result.\<close>

fun cmd_opts :: "bool \<Rightarrow> string list \<Rightarrow> strlist \<Rightarrow> strlist \<Rightarrow> string list \<times> bool \<times> strlist \<times> strlist" where
  "cmd_opts doing [] perl_args speedy_opts = ([], doing, perl_args, speedy_opts)"
| "cmd_opts doing (p # ps) perl_args speedy_opts =
     (if \<not> is_opt p then (p # ps, doing, perl_args, speedy_opts)
      else if \<not> doing \<and> p = ''--'' then cmd_opts True ps perl_args speedy_opts
      else if doing then cmd_opts doing ps perl_args (strlist_append speedy_opts p)
      else cmd_opts doing ps (strlist_append perl_args p) speedy_opts)"

fun cmd_loop :: "bool \<Rightarrow> string list \<Rightarrow> strlist \<Rightarrow> strlist \<Rightarrow> strlist \<times> strlist \<times> string list" where
  "cmd_loop doing [] perl_args speedy_opts = (perl_args, speedy_opts, [])"
| "cmd_loop doing (a # xs) perl_args speedy_opts =
     (let split = ptrs (strlist_split strlist_init [a]) in
      if split = [] \<or> \<not> is_opt (hd split) then (perl_args, speedy_opts, a # xs)
      else case cmd_opts doing split perl_args speedy_opts of (p, doing, perl_args, speedy_opts) \<Rightarrow>
        if p \<noteq> [] then (perl_args, speedy_opts, p @ xs)
        else cmd_loop doing xs perl_args speedy_opts)"

text \<open>
  The result is \<open>arg0\<close> and the three arrays; \<open>script_args\<close> may be NULL. There is always an
  \<open>arg0\<close>.
\<close>

definition cmdline_split :: "string list \<Rightarrow> strlist \<Rightarrow> strlist \<Rightarrow> strlist option
    \<Rightarrow> string \<times> strlist \<times> strlist \<times> strlist option" where
  "cmdline_split xs perl_args speedy_opts script_args =
     (case cmd_loop False (tl xs) perl_args speedy_opts of (perl_args, speedy_opts, rest) \<Rightarrow>
       (hd xs, perl_args, speedy_opts, map_option (\<lambda>l. strlist_concat2 l rest) script_args))"

section \<open>The table of options\<close>

type_synonym addr = nat

definition the_default :: "'a \<Rightarrow> 'a option \<Rightarrow> 'a" where
  "the_default d x = (case x of None \<Rightarrow> d | Some y \<Rightarrow> y)"

datatype otype = OTYPE_NATURAL | OTYPE_STR | OTYPE_TOGGLE | OTYPE_WHOLE

text \<open>The value of a record points to an integer of its own or to a string.\<close>

datatype oval = Int_at nat | Str_at addr | Null_val

record optrec =
  oname :: string
  ovalue :: oval
  oletter :: char
  otyp :: otype
  ochanged :: bool
  omust_free :: bool

text \<open>
  \<open>str_mem\<close> holds the strings; those below \<open>str_static\<close> are literals of the program, those below
  \<open>str_brk\<close> have been allocated at some time.
\<close>

record ostate =
  optdefs :: "optrec list"
  opt_ints :: "nat \<Rightarrow> int"
  str_mem :: "addr \<Rightarrow> string option"
  str_static :: addr
  str_brk :: addr
  optdefs_save :: "optrec list"
  exec_argv :: strlist
  exec_envp :: strlist
  perl_argv :: strlist
  orig_argv :: "string list"
  script_argv_loc :: nat
  got_shbang :: bool

datatype odeath = Bad_free addr | Dangling addr | Unknown_option char | Version_printed | Script_read_failed

type_synonym 'a oio = "(odeath, ostate, 'a) M"

text \<open>The literal \<open>"default"\<close> is at address 0.\<close>

definition default_addr :: addr where "default_addr = 0"

definition opt_free :: "addr \<Rightarrow> unit oio" where
  "opt_free a = (\<lambda>s. if a < str_static s \<or> str_mem s a = None then Die (Bad_free a) s
     else Ok () (s\<lparr>str_mem := (str_mem s)(a := None)\<rparr>))"

definition opt_strdup :: "string \<Rightarrow> addr oio" where
  "opt_strdup v = (\<lambda>s. Ok (str_brk s)
     (s\<lparr>str_mem := (str_mem s)(str_brk s := Some v), str_brk := Suc (str_brk s)\<rparr>))"

definition opt_deref :: "addr \<Rightarrow> string oio" where
  "opt_deref a = (\<lambda>s. case str_mem s a of None \<Rightarrow> Die (Dangling a) s | Some v \<Rightarrow> Ok v s)"

definition opt_upd :: "nat \<Rightarrow> (optrec \<Rightarrow> optrec) \<Rightarrow> unit oio" where
  "opt_upd i f = modify (\<lambda>s. s\<lparr>optdefs := (optdefs s)[i := f (optdefs s ! i)]\<rparr>)"

definition int_cell :: "optrec \<Rightarrow> nat" where
  "int_cell r = (case ovalue r of Int_at k \<Rightarrow> k | _ \<Rightarrow> 0)"

definition INT_OPTVAL :: "ostate \<Rightarrow> optrec \<Rightarrow> int" where
  "INT_OPTVAL s r = opt_ints s (int_cell r)"

definition STR_OPTVAL :: "ostate \<Rightarrow> optrec \<Rightarrow> string option" where
  "STR_OPTVAL s r = (case ovalue r of Str_at a \<Rightarrow> str_mem s a | _ \<Rightarrow> None)"

definition set_int :: "optrec \<Rightarrow> int \<Rightarrow> unit oio" where
  "set_int r v = modify (\<lambda>s. s\<lparr>opt_ints := (opt_ints s)(int_cell r := v)\<rparr>)"

text \<open>\<open>OPTREC_GROUP\<close> and its like are macros for the places in the table, which is sorted by name.\<close>

primrec opt_index :: "(optrec \<Rightarrow> bool) \<Rightarrow> nat \<Rightarrow> optrec list \<Rightarrow> nat option" where
  "opt_index P n [] = None"
| "opt_index P n (r # rs) = (if P r then Some n else opt_index P (Suc n) rs)"

definition opt_byname :: "string \<Rightarrow> ostate \<Rightarrow> nat option" where
  "opt_byname n s = opt_index (\<lambda>r. oname r = n) 0 (optdefs s)"

text \<open>\<open>OPTIDX_FROM_LETTER\<close>, where options without a letter have the letter 0.\<close>

definition opt_byletter :: "char \<Rightarrow> ostate \<Rightarrow> nat option" where
  "opt_byletter c s = opt_index (\<lambda>r. oletter r \<noteq> CHR 0x00 \<and> oletter r = c) 0 (optdefs s)"

section \<open>Setting and reading options\<close>

text \<open>
  \<open>atoi\<close> is \<open>(int) strtol(s, NULL, 10)\<close>: a 64-bit \<open>long\<close> that stops at its bounds, cut to 32 bits.
\<close>

definition isdigit :: "char \<Rightarrow> bool" where
  "isdigit c \<longleftrightarrow> of_char c \<in> {48..57 :: int}"

definition decimal :: "string \<Rightarrow> int" where
  "decimal ds = foldl (\<lambda>a c. 10 * a + (of_char c - 48)) 0 ds"

definition atoi :: "string \<Rightarrow> int" where
  "atoi v =
     (let s = dropWhile isspace v;
          neg = (s \<noteq> [] \<and> hd s = CHR ''-'');
          t = (if s \<noteq> [] \<and> (hd s = CHR ''-'' \<or> hd s = CHR ''+'') then tl s else s);
          n = decimal (takeWhile isdigit t);
          l = max (- (2 ^ 63)) (min (2 ^ 63 - 1) (if neg then - n else n))
      in sint (word_of_int l :: 32 word))"

text \<open>\<open>sprintf\<close> with \<open>%u\<close>.\<close>

fun dec :: "nat \<Rightarrow> string" where
  "dec n = (if n < 10 then [char_of (48 + n)] else dec (n div 10) @ [char_of (48 + n mod 10)])"

declare dec.simps [simp del]

definition show_unsigned :: "int \<Rightarrow> string" where
  "show_unsigned v = dec (nat (v mod 2 ^ 32))"

definition opt_changed :: "nat \<Rightarrow> unit oio" where
  "opt_changed i = opt_upd i (\<lambda>r. r\<lparr>ochanged := True\<rparr>)"

definition free_value :: "optrec \<Rightarrow> unit oio" where
  "free_value r = (case ovalue r of Str_at a \<Rightarrow> whenM (omust_free r) (opt_free a) | _ \<Rightarrow> ret ())"

definition speedy_opt_set :: "nat \<Rightarrow> string \<Rightarrow> bool oio" where
  "speedy_opt_set i val =
     bnd (gets (\<lambda>s. optdefs s ! i)) (\<lambda>optrec.
     if otyp optrec = OTYPE_STR
     then thenM
       [free_value optrec,
        if oname optrec = ''GROUP'' \<and> val = ''''
        then opt_upd i (\<lambda>r. r\<lparr>ovalue := Str_at default_addr, omust_free := False\<rparr>)
        else bnd (opt_strdup val) (\<lambda>a. opt_upd i (\<lambda>r. r\<lparr>ovalue := Str_at a, omust_free := True\<rparr>)),
        opt_changed i]
       (ret True)
     else if otyp optrec = OTYPE_TOGGLE
     then bnd (gets (\<lambda>s. INT_OPTVAL s optrec)) (\<lambda>v.
       thenM [set_int optrec (if v = 0 then 1 else 0), opt_changed i] (ret True))
     else if otyp optrec = OTYPE_WHOLE \<and> atoi val < 0 then ret False
     else if otyp optrec = OTYPE_NATURAL \<and> atoi val < 1 then ret False
     else thenM [set_int optrec (atoi val), opt_changed i] (ret True))"

text \<open>\<open>None\<close> is NULL.\<close>

definition speedy_opt_get :: "nat \<Rightarrow> string option oio" where
  "speedy_opt_get i =
     bnd (gets (\<lambda>s. optdefs s ! i)) (\<lambda>optrec.
     if otyp optrec = OTYPE_STR
     then case ovalue optrec of Str_at a \<Rightarrow> bnd (opt_deref a) (\<lambda>v. ret (Some v)) | _ \<Rightarrow> ret None
     else gets (\<lambda>s. Some (show_unsigned (INT_OPTVAL s optrec))))"

definition toupper :: "char \<Rightarrow> char" where
  "toupper c = (if of_char c \<in> {97..122 :: nat} then char_of (of_char c - 32 :: nat) else c)"

definition opt_set_byname :: "string \<Rightarrow> string \<Rightarrow> bool oio" where
  "opt_set_byname optname val =
     bnd (gets (opt_byname (map toupper optname))) (\<lambda>match.
     case match of None \<Rightarrow> ret False | Some i \<Rightarrow> speedy_opt_set i val)"

text \<open>The letter after the \<open>-\<close> is the NUL at the end for the string \<open>"-"\<close>.\<close>

definition opt_letter :: "string \<Rightarrow> char" where
  "opt_letter s = (if 1 < length s then s ! 1 else CHR 0x00)"

primrec process_speedy_opts :: "string list \<Rightarrow> unit oio" where
  "process_speedy_opts [] = ret ()"
| "process_speedy_opts (s # ss) =
     bnd (gets (opt_byletter (opt_letter s))) (\<lambda>j.
     case j of None \<Rightarrow> die (Unknown_option (opt_letter s))
     | Some j \<Rightarrow> bnd (speedy_opt_set j (drop 2 s)) (\<lambda>_. process_speedy_opts ss))"

section \<open>Starting from a command line\<close>

definition PREFIX :: string where "PREFIX = ''SPEEDY_''"

definition env_opt :: "string \<Rightarrow> unit oio" where
  "env_opt p =
     whenM (take (length PREFIX) p = PREFIX)
      (let optname = drop (length PREFIX) p; name = takeWhile (\<lambda>c. c \<noteq> CHR ''='') optname in
       whenM (CHR ''='' \<in> set optname)
        (bnd (opt_set_byname name (drop (length name + 1) optname)) (\<lambda>_. ret ())))"

text \<open>The options that were set before, written as arguments.\<close>

primrec changed_opts :: "nat list \<Rightarrow> strlist \<Rightarrow> strlist oio" where
  "changed_opts [] speedy_opts = ret speedy_opts"
| "changed_opts (i # is) speedy_opts =
     bnd (gets (\<lambda>s. optdefs s ! i)) (\<lambda>rec.
     if ochanged rec \<and> oletter rec \<noteq> CHR 0x00
     then bnd (speedy_opt_get i) (\<lambda>v.
       changed_opts is (strlist_append3 speedy_opts (CHR ''-'' # oletter rec # the_default '''' v)))
     else changed_opts is speedy_opts)"

text \<open>The option PerlArgs goes to perl.\<close>

definition perlargs_opt :: "strlist \<Rightarrow> strlist oio" where
  "perlargs_opt perl_args =
     bnd (gets (opt_byname ''PERLARGS'')) (\<lambda>pa.
     case pa of None \<Rightarrow> ret perl_args
     | Some i \<Rightarrow> bnd (gets (\<lambda>s. optdefs s ! i)) (\<lambda>rec.
        if ochanged rec
        then bnd (speedy_opt_get i) (\<lambda>v. ret (strlist_concat2 perl_args
          (ptrs (strlist_split strlist_init (case v of None \<Rightarrow> [] | Some v \<Rightarrow> [v])))))
        else ret perl_args))"

definition exec_list :: "strlist \<Rightarrow> strlist \<Rightarrow> strlist" where
  "exec_list perl_args speedy_opts =
     (let l = strlist_concat2 strlist_init (ptrs perl_args) in
      if strlist_len speedy_opts \<noteq> 0
      then strlist_concat2 (strlist_append l ''--'') (ptrs speedy_opts) else l)"

text \<open>
  \<open>show_version\<close>: whether the program is built with its version, so that the option prints it and
  ends.
\<close>

definition opt_version :: "bool \<Rightarrow> unit oio" where
  "opt_version show_version =
     bnd (gets (opt_byname ''VERSION'')) (\<lambda>v.
     bnd (gets (\<lambda>s. case v of None \<Rightarrow> 0 | Some i \<Rightarrow> INT_OPTVAL s (optdefs s ! i))) (\<lambda>v.
     whenM (show_version \<and> v \<noteq> 0) (die Version_printed)))"

definition speedy_opt_init :: "bool \<Rightarrow> string list \<Rightarrow> string list \<Rightarrow> unit oio" where
  "speedy_opt_init show_version argv envp =
     (case cmdline_split argv (strlist_append strlist_init ''perl'') strlist_init (Some strlist_init)
      of (_, perl_args, speedy_opts, script_args) \<Rightarrow>
     bnd (perlargs_opt perl_args) (\<lambda>perl_args.
     bnd (gets (\<lambda>s. [0..<length (optdefs s)])) (\<lambda>is.
     bnd (changed_opts is speedy_opts) (\<lambda>all_opts.
     seqM
      [modify (\<lambda>s. s\<lparr>orig_argv := argv, perl_argv := perl_args\<rparr>),
       process_speedy_opts (take (strlist_len speedy_opts) (ptrs all_opts)),
       (let l = exec_list perl_args all_opts in
        modify (\<lambda>s. s\<lparr>
          exec_argv := strlist_concat2 l (ptrs (the_default strlist_init script_args)),
          script_argv_loc := strlist_len l, got_shbang := False,
          exec_envp := strlist_concat2 strlist_init envp\<rparr>)),
       seqM (map env_opt envp),
       opt_version show_version]))))"

text \<open>
  The first line of the script: \<open>maddr\<close> is what could be mapped of the first 1024 bytes of the
  script. A C string ends at its first NUL.
\<close>

definition shbang_args :: "string \<Rightarrow> string option" where
  "shbang_args maddr =
     (if 2 < length maddr \<and> take 2 maddr = ''#!''
      then Some (takeWhile (\<lambda>c. c \<noteq> CHR 0x00)
        (takeWhile (\<lambda>c. c \<noteq> CHR 0x0A) (dropWhile (\<lambda>c. \<not> isspace c) (drop 2 maddr))))
      else None)"

definition speedy_opt_read_shbang :: "string option \<Rightarrow> unit oio" where
  "speedy_opt_read_shbang mi =
     bnd (gets got_shbang) (\<lambda>got.
     if got then ret ()
     else thenM [modify (\<lambda>s. s\<lparr>got_shbang := True\<rparr>)]
      (case mi of None \<Rightarrow> die Script_read_failed
       | Some maddr \<Rightarrow> (case shbang_args maddr of None \<Rightarrow> ret ()
         | Some args \<Rightarrow>
            bnd (gets (\<lambda>s. cmdline_split ['''', args] (perl_argv s) strlist_init None))
             (\<lambda>(arg0, perl_args, speedy_opts, _).
            thenM [modify (\<lambda>s. s\<lparr>perl_argv := strlist_replace perl_args 0 arg0\<rparr>)]
             (process_speedy_opts (ptrs speedy_opts))))))"

section \<open>The arguments of the processes to start\<close>

definition speedy_opt_set_script_argv :: "string list \<Rightarrow> unit oio" where
  "speedy_opt_set_script_argv argv =
     modify (\<lambda>s. s\<lparr>exec_argv := strlist_concat2 (strlist_setlen (script_argv_loc s) (exec_argv s)) argv,
       got_shbang := False\<rparr>)"

definition speedy_opt_script_argv :: "ostate \<Rightarrow> string list" where
  "speedy_opt_script_argv s = drop (script_argv_loc s) (ptrs (strlist_export (exec_argv s)))"

definition speedy_opt_script_fname :: "ostate \<Rightarrow> string option" where
  "speedy_opt_script_fname s =
     (if script_argv_loc s < strlist_len (exec_argv s)
      then Some (ptrs (strlist_export (exec_argv s)) ! script_argv_loc s) else None)"

definition speedy_opt_perl_argv :: "string option \<Rightarrow> ostate \<Rightarrow> string list" where
  "speedy_opt_perl_argv script_name s =
     (let l = strlist_concat2 strlist_init (ptrs (perl_argv s));
          l = (case script_name of None \<Rightarrow> l | Some n \<Rightarrow> strlist_append l n)
      in ptrs (strlist_export (strlist_concat2 l
           (drop (if script_name = None then 0 else 1) (speedy_opt_script_argv s)))))"

definition speedy_opt_exec_argv :: "string list oio" where
  "speedy_opt_exec_argv =
     bnd (gets (opt_byname ''BACKENDPROG'')) (\<lambda>i.
     bnd (case i of None \<Rightarrow> ret None | Some i \<Rightarrow> speedy_opt_get i) (\<lambda>v.
     thenM [modify (\<lambda>s. s\<lparr>exec_argv := strlist_replace (exec_argv s) 0 (the_default '''' v)\<rparr>)]
      (gets (\<lambda>s. ptrs (strlist_export (exec_argv s))))))"

section \<open>Saving and restoring\<close>

definition no_free :: "optrec list \<Rightarrow> optrec list" where
  "no_free rs = map (\<lambda>r. r\<lparr>omust_free := False\<rparr>) rs"

text \<open>\<open>copy_optdefs\<close> clears the flags of \<open>speedy_optdefs\<close>, whichever of the two is the destination.\<close>

definition speedy_opt_save :: "unit oio" where
  "speedy_opt_save = modify (\<lambda>s. s\<lparr>optdefs_save := optdefs s, optdefs := no_free (optdefs s)\<rparr>)"

definition speedy_opt_restore :: "unit oio" where
  "speedy_opt_restore =
     thenM [bnd (gets optdefs) (\<lambda>rs. seqM (map free_value rs))]
      (modify (\<lambda>s. s\<lparr>optdefs := no_free (optdefs_save s)\<rparr>))"

end
