(* ===== verification/OptArgv.thy ===== *)
theory OptArgv
  imports Opt
begin

text \<open>
  The arrays of strings as lists, and the round trip of the command line: the arguments a frontend
  builds to start a backend are taken apart by the backend into what the frontend started with.
\<close>

section \<open>Arrays as lists\<close>

named_theorems strs

definition cap_ok :: "strlist \<Rightarrow> bool" where
  "cap_ok l \<longleftrightarrow> length (ptrs l) \<le> malloced l"

lemma ptrs_alloc [strs]: "ptrs (strlist_alloc n l) = ptrs l"
  by (simp add: strlist_alloc_def)

lemma ptrs_export [strs]: "ptrs (strlist_export l) = ptrs l"
  by (simp add: strlist_export_def strs)

lemma ptrs_init [strs]: "ptrs strlist_init = []"
  by (simp add: strlist_init_def)

lemma ptrs_setlen [strs]: "n \<le> length (ptrs l) \<Longrightarrow> ptrs (strlist_setlen n l) = take n (ptrs l)"
  by (simp add: strlist_setlen_def Let_def strs strlist_len_def)

lemma ptrs_append [strs]: "ptrs (strlist_append l x) = ptrs l @ [x]"
  by (simp add: strlist_append_def strlist_append3_def strlist_setlen_def Let_def strs strlist_len_def)

lemma ptrs_append3 [strs]: "ptrs (strlist_append3 l x) = ptrs l @ [x]"
  using ptrs_append by (simp add: strlist_append_def)

lemma concat2_simps [simp]: "strlist_concat2 l [] = l"
  "strlist_concat2 l (x # xs) = strlist_concat2 (strlist_append l x) xs"
  by (simp_all add: strlist_concat2_def)

lemma concat2_append [simp]: "strlist_concat2 l (xs @ ys) = strlist_concat2 (strlist_concat2 l xs) ys"
  by (simp add: strlist_concat2_def)

lemma ptrs_concat2 [strs]: "ptrs (strlist_concat2 l xs) = ptrs l @ xs"
  by (induction xs arbitrary: l) (simp_all add: strs)

lemma ptrs_split [strs]: "ptrs (strlist_split l xs) = ptrs l @ concat (map (split_words []) xs)"
  unfolding strlist_split_def by (induction xs arbitrary: l) (simp_all add: strs)

lemma strlist_len [strs]: "strlist_len l = length (ptrs l)"
  by (simp add: strlist_len_def)

text \<open>No operation writes past the allocated space, and an exported array has room for the NULL.\<close>

lemma cap_ok_setlen: "cap_ok l \<Longrightarrow> cap_ok (strlist_setlen n l)"
  by (auto simp: cap_ok_def strlist_setlen_def strlist_alloc_def strlist_len_def STRLIST_REALLOC_MULT_def Let_def)

lemma setlen_room: "n \<le> malloced (strlist_setlen n l)"
  by (auto simp: strlist_setlen_def strlist_alloc_def Let_def)

lemma cap_ok_append: "cap_ok l \<Longrightarrow> cap_ok (strlist_append l x)"
  using cap_ok_setlen [of l] by (simp add: strlist_append_def strlist_append3_def cap_ok_def Let_def)

lemma cap_ok_concat2: "cap_ok l \<Longrightarrow> cap_ok (strlist_concat2 l xs)"
  by (induction xs arbitrary: l) (simp_all add: cap_ok_append)

lemma cap_ok_init: "cap_ok strlist_init"
  by (simp add: cap_ok_def strlist_init_def)

lemma export_room: "length (ptrs (strlist_export l)) < malloced (strlist_export l)"
  by (simp add: strlist_export_def strlist_alloc_def strlist_len_def)

section \<open>Words\<close>

definition word :: "string \<Rightarrow> bool" where
  "word w \<longleftrightarrow> w \<noteq> [] \<and> (\<forall>c \<in> set w. \<not> isspace c)"

lemma split_words_words:
  "(\<forall>c \<in> set w. \<not> isspace c) \<Longrightarrow> x \<in> set (split_words w cs) \<Longrightarrow> word x"
proof (induction w cs rule: split_words.induct)
  case (1 w)
  then show ?case by (cases "w = []") (simp_all add: word_def)
next
  case (2 w c cs)
  show ?case
  proof (cases "isspace c")
    case True
    then have "w \<noteq> [] \<and> x = w \<or> x \<in> set (split_words [] (dropWhile isspace cs))"
      using 2(4) by (cases "w = []") simp_all
    then show ?thesis using 2(1) [OF True] 2(3) by (auto simp: word_def)
  next
    case False
    then show ?thesis using 2(2) [OF False] 2(3,4) by simp
  qed
qed

lemma split_words_nospace: "(\<forall>c \<in> set cs. \<not> isspace c) \<Longrightarrow>
    split_words w cs = (if w @ cs \<noteq> [] then [w @ cs] else [])"
  by (induction cs arbitrary: w) auto

lemma split_word: "word w \<Longrightarrow> split_words [] w = [w]"
  by (simp add: word_def split_words_nospace)

text \<open>Nothing but white space is lost.\<close>

lemma filter_dropWhile: "filter (\<lambda>c. \<not> P c) (dropWhile P cs) = filter (\<lambda>c. \<not> P c) cs"
  by (induction cs) auto

lemma split_words_concat:
  "(\<forall>c \<in> set w. \<not> isspace c) \<Longrightarrow> concat (split_words w cs) = w @ filter (\<lambda>c. \<not> isspace c) cs"
  by (induction w cs rule: split_words.induct) (auto simp: filter_dropWhile)

section \<open>Taking a command line apart and putting it together\<close>

definition opt_arg :: "string \<Rightarrow> bool" where "opt_arg p \<longleftrightarrow> word p \<and> is_opt p"
definition perl_arg :: "string \<Rightarrow> bool" where "perl_arg p \<longleftrightarrow> opt_arg p \<and> p \<noteq> ''--''"

definition plain :: "string list \<Rightarrow> bool" where
  "plain sc \<longleftrightarrow> (sc \<noteq> [] \<longrightarrow> split_words [] (hd sc) = [] \<or> \<not> is_opt (hd (split_words [] (hd sc))))"

definition parsed :: "bool \<Rightarrow> strlist \<Rightarrow> strlist \<Rightarrow> string list \<Rightarrow> string list \<Rightarrow> bool \<Rightarrow> strlist \<Rightarrow> strlist \<Rightarrow> bool" where
  "parsed d pa so as os d' pa' so' \<longleftrightarrow> pa' = strlist_concat2 pa as \<and> so' = strlist_concat2 so os \<and>
     (\<forall>p \<in> set as. perl_arg p) \<and> (\<forall>p \<in> set os. opt_arg p) \<and> (d \<longrightarrow> d' \<and> as = []) \<and> (\<not> d' \<longrightarrow> os = [])"

lemma parsed_steps:
  "parsed d pa so [] [] d pa so"
  "parsed True pa so as os d' pa' so' \<Longrightarrow> \<not> d \<Longrightarrow> parsed d pa so as os d' pa' so'"
  "parsed True pa (strlist_append so p) as os d' pa' so' \<Longrightarrow> opt_arg p \<Longrightarrow>
     parsed True pa so as (p # os) d' pa' so'"
  "parsed False (strlist_append pa p) so as os d' pa' so' \<Longrightarrow> perl_arg p \<Longrightarrow>
     parsed False pa so (p # as) os d' pa' so'"
  by (auto simp: parsed_def)

lemma parsed_trans:
  "parsed d pa so as os d' pa' so' \<Longrightarrow> parsed d' pa' so' as' os' d'' pa'' so'' \<Longrightarrow>
    parsed d pa so (as @ as') (os @ os') d'' pa'' so''"
  by (auto simp: parsed_def)

lemma cmd_opts_result:
  assumes "cmd_opts d ps pa so = (r, d', pa', so')" and "\<forall>p \<in> set ps. word p"
  shows "\<exists>as os. parsed d pa so as os d' pa' so' \<and> set r \<subseteq> set ps \<and> (r \<noteq> [] \<longrightarrow> \<not> is_opt (hd r))"
  using assms
proof (induction d ps pa so rule: cmd_opts.induct)
  case (1 d pa so)
  then have "parsed d pa so [] [] d' pa' so'" "r = []" by (simp_all add: parsed_def)
  then show ?case by auto
next
  case (2 d p ps pa so)
  have ws: "\<forall>p \<in> set ps. word p" "word p" using 2(5) by auto
  consider (no) "\<not> is_opt p" | (mark) "is_opt p" "\<not> d" "p = ''--''" | (opt) "is_opt p" "d"
    | (perl) "is_opt p" "\<not> d" "p \<noteq> ''--''" by blast
  then show ?case
  proof cases
    case no
    then have "parsed d pa so [] [] d' pa' so'" "r = p # ps" using 2(4) by (simp_all add: parsed_def)
    then show ?thesis using no by auto
  next
    case mark
    then have "cmd_opts True ps pa so = (r, d', pa', so')" using 2(4) by simp
    then obtain as os where "parsed True pa so as os d' pa' so'" "set r \<subseteq> set ps" "r \<noteq> [] \<longrightarrow> \<not> is_opt (hd r)"
      using 2(1) mark ws(1) by blast
    then show ?thesis using parsed_steps(2) mark(2) by (metis set_subset_Cons subset_trans)
  next
    case opt
    then have "cmd_opts d ps pa (strlist_append so p) = (r, d', pa', so')" using 2(4) by simp
    then obtain as os where o: "parsed d pa (strlist_append so p) as os d' pa' so'" "set r \<subseteq> set ps"
        "r \<noteq> [] \<longrightarrow> \<not> is_opt (hd r)"
      using 2(2) opt ws(1) by blast
    have "parsed d pa so as (p # os) d' pa' so'"
      using parsed_steps(3) o(1) opt ws(2) by (simp add: opt_arg_def)
    then show ?thesis using o by (metis set_subset_Cons subset_trans)
  next
    case perl
    then have "cmd_opts d ps (strlist_append pa p) so = (r, d', pa', so')" using 2(4) by simp
    then obtain as os where o: "parsed d (strlist_append pa p) so as os d' pa' so'" "set r \<subseteq> set ps"
        "r \<noteq> [] \<longrightarrow> \<not> is_opt (hd r)"
      using 2(3) perl ws(1) by blast
    have "parsed d pa so (p # as) os d' pa' so'"
      using parsed_steps(4) o(1) perl ws(2) by (simp add: opt_arg_def perl_arg_def)
    then show ?thesis using o by (metis set_subset_Cons subset_trans)
  qed
qed

lemma cmd_loop_result:
  assumes "cmd_loop d xs pa so = (pa', so', sc)"
  shows "\<exists>as os d'. parsed d pa so as os d' pa' so' \<and> plain sc"
  using assms
proof (induction xs arbitrary: d pa so)
  case Nil
  then have "parsed d pa so [] [] d pa' so'" "plain sc" by (simp_all add: parsed_def plain_def)
  then show ?case by blast
next
  case (Cons a xs)
  let ?ws = "split_words [] a"
  have s: "ptrs (strlist_split strlist_init [a]) = ?ws" by (simp add: strs)
  show ?case
  proof (cases "?ws = [] \<or> \<not> is_opt (hd ?ws)")
    case True
    then have "cmd_loop d (a # xs) pa so = (pa, so, a # xs)" by (simp add: s)
    then have "pa' = pa" "so' = so" "plain sc" using Cons.prems True by (auto simp: plain_def)
    then show ?thesis using parsed_steps(1) by blast
  next
    case False
    obtain r d1 pa1 so1 where c: "cmd_opts d ?ws pa so = (r, d1, pa1, so1)" by (metis prod_cases4)
    have w: "\<forall>p \<in> set ?ws. word p" using split_words_words [of "[]" _ a] by simp
    obtain as os where p: "parsed d pa so as os d1 pa1 so1" "set r \<subseteq> set ?ws" "r \<noteq> [] \<longrightarrow> \<not> is_opt (hd r)"
      using cmd_opts_result [OF c w] by blast
    show ?thesis
    proof (cases "r = []")
      case True
      then have "cmd_loop d1 xs pa1 so1 = (pa', so', sc)" using Cons.prems False c by (simp add: s)
      then show ?thesis using Cons.IH parsed_trans [OF p(1)] by blast
    next
      case no: False
      then have e: "pa' = pa1" "so' = so1" "sc = r @ xs" using Cons.prems False c by (simp_all add: s)
      have "word (hd r)" using no p(2) w by (metis hd_in_set subsetD)
      then have "plain sc" using no p(3) e by (simp add: plain_def split_word)
      then show ?thesis using p(1) e by blast
    qed
  qed
qed

text \<open>The other way round.\<close>

lemma cmd_loop_word:
  assumes "opt_arg p"
  shows "cmd_loop d (p # xs) pa so =
    (if d then cmd_loop d xs pa (strlist_append so p)
     else if p = ''--'' then cmd_loop True xs pa so
     else cmd_loop d xs (strlist_append pa p) so)"
  using assms by (simp add: strs opt_arg_def split_word)

lemma cmd_loop_plain: "plain sc \<Longrightarrow> cmd_loop d sc pa so = (pa, so, sc)"
  by (cases sc) (auto simp: plain_def strs Let_def)

lemma cmd_loop_opts:
  "\<forall>p \<in> set os. opt_arg p \<Longrightarrow> cmd_loop True (os @ xs) pa so = cmd_loop True xs pa (strlist_concat2 so os)"
  by (induction os arbitrary: so) (simp_all add: cmd_loop_word del: cmd_loop.simps)

lemma cmd_loop_perl:
  "\<forall>p \<in> set as. perl_arg p \<Longrightarrow> cmd_loop False (as @ xs) pa so = cmd_loop False xs (strlist_concat2 pa as) so"
  by (induction as arbitrary: pa) (simp_all add: cmd_loop_word perl_arg_def del: cmd_loop.simps)

lemma opt_arg_mark: "opt_arg ''--''"
  by (simp add: opt_arg_def word_def is_opt_def isspace_def)

definition arg_list :: "string list \<Rightarrow> string list \<Rightarrow> string list \<Rightarrow> string list" where
  "arg_list as os sc = as @ (if os \<noteq> [] then ''--'' # os else []) @ sc"

lemma cmd_loop_arg_list:
  assumes "\<forall>p \<in> set as. perl_arg p" and "\<forall>p \<in> set os. opt_arg p" and "plain sc"
  shows "cmd_loop False (arg_list as os sc) pa so = (strlist_concat2 pa as, strlist_concat2 so os, sc)"
  using assms
  by (simp add: arg_list_def cmd_loop_perl cmd_loop_opts cmd_loop_word opt_arg_mark cmd_loop_plain del: cmd_loop.simps)

lemma cmdline_split_result:
  assumes "cmdline_split xs pa so sc = (a, pa', so', sc')"
  shows "\<exists>as os rest. cmd_loop False (tl xs) pa so = (pa', so', rest) \<and> a = hd xs \<and>
    pa' = strlist_concat2 pa as \<and> so' = strlist_concat2 so os \<and>
    sc' = map_option (\<lambda>l. strlist_concat2 l rest) sc \<and>
    (\<forall>p \<in> set as. perl_arg p) \<and> (\<forall>p \<in> set os. opt_arg p) \<and> plain rest"
proof -
  obtain p s r where c: "cmd_loop False (tl xs) pa so = (p, s, r)" by (metis prod_cases3)
  then have "a = hd xs" "pa' = p" "so' = s" "sc' = map_option (\<lambda>l. strlist_concat2 l r) sc"
    using assms by (simp_all add: cmdline_split_def)
  then show ?thesis using c cmd_loop_result [OF c] unfolding parsed_def by blast
qed

section \<open>What the table does not depend on\<close>

text \<open>
  Setting options neither looks at nor changes the arrays: it commutes with any change \<open>f\<close> of
  theirs.
\<close>

definition aside :: "(ostate \<Rightarrow> ostate) \<Rightarrow> bool" where
  "aside f \<longleftrightarrow> (\<forall>s. optdefs (f s) = optdefs s \<and> opt_ints (f s) = opt_ints s \<and> str_mem (f s) = str_mem s \<and>
     str_brk (f s) = str_brk s \<and> str_static (f s) = str_static s) \<and>
     (\<forall>s x. f (s\<lparr>optdefs := x\<rparr>) = (f s)\<lparr>optdefs := x\<rparr>) \<and>
     (\<forall>s x. f (s\<lparr>opt_ints := x\<rparr>) = (f s)\<lparr>opt_ints := x\<rparr>) \<and>
     (\<forall>s x. f (s\<lparr>str_mem := x\<rparr>) = (f s)\<lparr>str_mem := x\<rparr>) \<and>
     (\<forall>s x. f (s\<lparr>str_brk := x\<rparr>) = (f s)\<lparr>str_brk := x\<rparr>)"

definition map_state :: "('s \<Rightarrow> 's) \<Rightarrow> ('e, 's, 'a) res \<Rightarrow> ('e, 's, 'a) res" where
  "map_state f r = (case r of Ok a t \<Rightarrow> Ok a (f t) | Die e t \<Rightarrow> Die e (f t) | Hang \<Rightarrow> Hang)"

definition blind :: "(ostate \<Rightarrow> ostate) \<Rightarrow> 'a oio \<Rightarrow> bool" where
  "blind f m \<longleftrightarrow> (\<forall>s. m (f s) = map_state f (m s))"

named_theorems blinds

lemma aside_argv: "aside (\<lambda>s. s\<lparr>orig_argv := x\<rparr>)" "aside (\<lambda>s. s\<lparr>exec_argv := l\<rparr>)"
  "aside (\<lambda>s. s\<lparr>perl_argv := l\<rparr>)" "aside (\<lambda>s. s\<lparr>script_argv_loc := n\<rparr>)"
  by (simp_all add: aside_def)

lemma blind_ret [blinds]: "blind f (ret a)"
  by (simp add: blind_def ret_def map_state_def)

lemma blind_die [blinds]: "blind f (die e)"
  by (simp add: blind_def die_def map_state_def)

lemma blind_gets [blinds]: "(\<And>s. g (f s) = g s) \<Longrightarrow> blind f (gets g)"
  by (simp add: blind_def gets_def map_state_def)

lemma blind_modify [blinds]: "(\<And>s. g (f s) = f (g s)) \<Longrightarrow> blind f (modify g)"
  by (simp add: blind_def modify_def map_state_def)

lemma blind_bnd [blinds]: "blind f m \<Longrightarrow> (\<And>a. blind f (k a)) \<Longrightarrow> blind f (bnd m k)"
  by (simp add: blind_def bnd_def map_state_def split: res.splits)

lemma blind_if [blinds]: "blind f m \<Longrightarrow> blind f n \<Longrightarrow> blind f (if b then m else n)"
  by simp

lemma blind_whenM [blinds]: "blind f m \<Longrightarrow> blind f (whenM b m)"
  by (simp add: whenM_def blinds)

lemma blind_seqM [blinds]: "(\<And>m. m \<in> set ms \<Longrightarrow> blind f m) \<Longrightarrow> blind f (seqM ms)"
  by (induction ms) (simp_all add: blinds)

lemma blind_thenM [blinds]: "(\<And>m. m \<in> set ms \<Longrightarrow> blind f m) \<Longrightarrow> blind f m' \<Longrightarrow> blind f (thenM ms m')"
  by (simp add: thenM_def blinds)

lemma blind_prim:
  assumes "aside f"
  shows "blind f (opt_free a)" "blind f (opt_strdup str)" "blind f (opt_upd i g)" "blind f (set_int r n)"
    "blind f (gets (\<lambda>s. optdefs s ! i))" "blind f (gets (\<lambda>s. INT_OPTVAL s r))"
    "blind f (gets (opt_byname nm))" "blind f (gets (opt_byletter c))"
    "blind f (gets (\<lambda>s. case v of None \<Rightarrow> 0 | Some i \<Rightarrow> INT_OPTVAL s (optdefs s ! i)))"
  using assms
  by (auto simp: aside_def blind_def opt_free_def opt_strdup_def opt_upd_def set_int_def modify_def gets_def
    map_state_def INT_OPTVAL_def opt_byname_def opt_byletter_def split: option.splits)

lemma blind_free_value: "aside f \<Longrightarrow> blind f (free_value r)"
  by (auto simp: free_value_def blind_prim intro!: blinds split: oval.splits)

lemma blind_set: "aside f \<Longrightarrow> blind f (speedy_opt_set i v)"
  unfolding speedy_opt_set_def opt_changed_def
  by (intro blind_bnd blind_if blind_thenM blind_ret blind_prim)
    (auto intro!: blind_free_value blind_if blind_bnd blind_prim)

lemma blind_process: "aside f \<Longrightarrow> blind f (process_speedy_opts os)"
proof (induction os)
  case (Cons a os)
  then show ?case
    unfolding process_speedy_opts.simps
    by (intro blind_bnd) (auto intro!: blind_prim blind_bnd blind_set blind_die split: option.splits)
qed (simp add: blinds)

lemma blind_env: "aside f \<Longrightarrow> blind f (env_opt p)"
  unfolding env_opt_def opt_set_byname_def Let_def
  by (intro blind_whenM blind_bnd) (auto intro!: blind_prim blind_set blind_ret split: option.splits)

lemma blind_version: "aside f \<Longrightarrow> blind f (opt_version v)"
  unfolding opt_version_def by (intro blind_whenM blind_bnd blind_die blind_prim)

lemma blind_keeps:
  assumes "blind (\<lambda>s. s\<lparr>exec_argv := exec_argv t\<rparr>) m" and "m t = Ok a u"
  shows "exec_argv u = exec_argv t"
proof -
  have "m t = map_state (\<lambda>s. s\<lparr>exec_argv := exec_argv t\<rparr>) (m t)"
    using assms(1) [unfolded blind_def, rule_format, of t] by simp
  then have "u = u\<lparr>exec_argv := exec_argv t\<rparr>" using assms(2) by (simp add: map_state_def)
  then show ?thesis by (metis ostate.select_convs(7) ostate.update_convs(7) ostate.surjective)
qed

section \<open>A backend's command line\<close>

definition fresh_opts :: "ostate \<Rightarrow> bool" where
  "fresh_opts s \<longleftrightarrow> (\<forall>r \<in> set (optdefs s). \<not> ochanged r)"

lemma opt_index_bound: "opt_index P n rs = Some i \<Longrightarrow> n \<le> i \<and> i < n + length rs \<and> P (rs ! (i - n))"
proof (induction rs arbitrary: n)
  case (Cons r rs)
  show ?case
  proof (cases "P r")
    case False
    then have "Suc n \<le> i \<and> i < Suc n + length rs \<and> P (rs ! (i - Suc n))"
      using Cons.IH [of "Suc n"] Cons.prems by simp
    then show ?thesis by (auto simp: nth_Cons')
  qed (use Cons.prems in simp)
qed simp

lemma opt_byname_bound: "opt_byname n s = Some i \<Longrightarrow> i < length (optdefs s) \<and> oname (optdefs s ! i) = n"
  by (auto simp: opt_byname_def dest: opt_index_bound)

lemma opt_byletter_bound: "opt_byletter c s = Some i \<Longrightarrow> i < length (optdefs s)"
  by (auto simp: opt_byletter_def dest: opt_index_bound)

lemma fresh_perlargs: "fresh_opts s \<Longrightarrow> perlargs_opt pa s = Ok pa s"
  by (auto simp: perlargs_opt_def run_simps fresh_opts_def split: option.splits dest: opt_byname_bound)

lemma fresh_changed:
  "fresh_opts s \<Longrightarrow> \<forall>i \<in> set is. i < length (optdefs s) \<Longrightarrow> changed_opts is so s = Ok so s"
  by (induction "is" arbitrary: so) (auto simp: run_simps fresh_opts_def)

definition init_set_up :: "bool \<Rightarrow> string list \<Rightarrow> string list \<Rightarrow> strlist \<Rightarrow> strlist \<Rightarrow> strlist \<Rightarrow> unit oio" where
  "init_set_up show_version argv envp perl_args all_opts script_args = seqM
      [modify (\<lambda>s. s\<lparr>orig_argv := argv, perl_argv := perl_args\<rparr>),
       process_speedy_opts (ptrs all_opts),
       (let l = exec_list perl_args all_opts in
        modify (\<lambda>s. s\<lparr>exec_argv := strlist_concat2 l (ptrs script_args),
          script_argv_loc := strlist_len l, got_shbang := False,
          exec_envp := strlist_concat2 strlist_init envp\<rparr>)),
       seqM (map env_opt envp),
       opt_version show_version]"

lemma fresh_init:
  assumes "fresh_opts s"
    and "cmdline_split argv (strlist_append strlist_init ''perl'') strlist_init (Some strlist_init)
      = (a, pa, so, Some sc)"
  shows "speedy_opt_init show_version argv envp s = init_set_up show_version argv envp pa so sc s"
proof -
  have "changed_opts [0..<length (optdefs s)] so s = Ok so s"
    by (rule fresh_changed [OF assms(1)]) simp
  then show ?thesis
    using fresh_perlargs [OF assms(1), of pa] assms(2)
    by (simp add: speedy_opt_init_def init_set_up_def the_default_def bnd_def gets_def strs del: seqM.simps)
qed

lemma init_set_up_argv:
  "init_set_up show_version argv envp pa so sc s =
    map_state (\<lambda>s. s\<lparr>orig_argv := argv\<rparr>) (init_set_up show_version argv' envp pa so sc s)"
proof -
  let ?f = "\<lambda>s :: ostate. s\<lparr>orig_argv := argv\<rparr>"
  let ?rest = "[process_speedy_opts (ptrs so),
       (let l = exec_list pa so in
        modify (\<lambda>s. s\<lparr>exec_argv := strlist_concat2 l (ptrs sc),
          script_argv_loc := strlist_len l, got_shbang := False,
          exec_envp := strlist_concat2 strlist_init envp\<rparr>)),
       seqM (map env_opt envp), opt_version show_version]"
  have "blind ?f m" if "m \<in> set ?rest" for m
    using that
    by (auto simp: Let_def intro!: blind_process blind_version blind_modify blind_seqM blind_env aside_argv)
  then have b: "blind ?f (seqM ?rest)" by (rule blind_seqM)
  let ?s = "s\<lparr>orig_argv := argv', perl_argv := pa\<rparr>"
  have fs: "?f ?s = s\<lparr>orig_argv := argv, perl_argv := pa\<rparr>" by simp
  have "init_set_up show_version argv envp pa so sc s = seqM ?rest (?f ?s)"
    unfolding fs by (simp add: init_set_up_def run_simps)
  also have "\<dots> = map_state ?f (seqM ?rest ?s)" by (rule b [unfolded blind_def, rule_format])
  also have "seqM ?rest ?s = init_set_up show_version argv' envp pa so sc s"
    by (simp add: init_set_up_def run_simps)
  finally show ?thesis .
qed

lemma init_set_up_exec:
  assumes "init_set_up show_version argv envp pa so sc s = Ok () t"
  shows "ptrs (exec_argv t) = ptrs pa @ (if ptrs so \<noteq> [] then ''--'' # ptrs so else []) @ ptrs sc"
proof -
  let ?m = "seqM [seqM (map env_opt envp), opt_version show_version]"
  have b: "blind (\<lambda>s. s\<lparr>exec_argv := x\<rparr>) ?m" for x
    by (rule blind_seqM) (auto intro!: blind_seqM blind_version blind_env aside_argv)
  obtain u where "?m u = Ok () t" "exec_argv u = strlist_concat2 (exec_list pa so) (ptrs sc)"
    using assms by (auto simp: init_set_up_def run_simps Let_def split: res.splits)
  then show ?thesis
    using blind_keeps [OF b] by (simp add: strs exec_list_def Let_def)
qed

text \<open>
  The backend that is started with these arguments in the same environment takes them apart into
  the same arguments of perl, options and arguments of the script, and sets its options to the
  same values.
\<close>

theorem init_reparse:
  assumes fresh: "fresh_opts s" and i: "speedy_opt_init show_version argv envp s = Ok () t"
  shows "speedy_opt_init show_version (arg0 # tl (ptrs (exec_argv t))) envp s =
    Ok () (t\<lparr>orig_argv := arg0 # tl (ptrs (exec_argv t))\<rparr>)"
proof -
  let ?perl = "strlist_append strlist_init ''perl''"
  obtain a pa so sc' where c: "cmdline_split argv ?perl strlist_init (Some strlist_init) = (a, pa, so, sc')"
    by (metis prod_cases4)
  then obtain as os rest where r: "pa = strlist_concat2 ?perl as" "so = strlist_concat2 strlist_init os"
      "sc' = Some (strlist_concat2 strlist_init rest)"
      "\<forall>p \<in> set as. perl_arg p" "\<forall>p \<in> set os. opt_arg p" "plain rest"
    using cmdline_split_result [OF c] by auto
  let ?sc = "strlist_concat2 strlist_init rest"
  let ?new = "arg0 # tl (ptrs (exec_argv t))"
  have t: "init_set_up show_version argv envp pa so ?sc s = Ok () t"
    using fresh_init [OF fresh c [unfolded r(3)]] i by simp
  have "tl (ptrs (exec_argv t)) = arg_list as os rest"
    using init_set_up_exec [OF t] r by (simp add: strs arg_list_def)
  then have "cmdline_split ?new ?perl strlist_init (Some strlist_init) = (arg0, pa, so, Some ?sc)"
    using cmd_loop_arg_list [OF r(4-6)] r(1,2) by (simp add: cmdline_split_def)
  then have "speedy_opt_init show_version ?new envp s = init_set_up show_version ?new envp pa so ?sc s"
    by (rule fresh_init [OF fresh])
  also have "\<dots> = map_state (\<lambda>s. s\<lparr>orig_argv := ?new\<rparr>) (Ok () t)"
    using init_set_up_argv [of show_version ?new envp pa so ?sc s argv] t by simp
  finally show ?thesis by (simp add: map_state_def)
qed

end
