(* ===== verification/OptSpecs.thy ===== *)
theory OptSpecs
  imports OptArgv
begin

text \<open>
  The table of options: setting an option never frees a string that a record still points to,
  numbers stay within the range of their type, and what \<open>speedy_opt_restore\<close> brings back.
\<close>

section \<open>The invariant\<close>

definition is_str :: "optrec \<Rightarrow> bool" where "is_str r \<longleftrightarrow> otyp r = OTYPE_STR"

text \<open>What setting never changes of a record.\<close>

definition skel :: "optrec \<Rightarrow> string \<times> char \<times> otype \<times> nat option" where
  "skel r = (oname r, oletter r, otyp r, if is_str r then None else Some (int_cell r))"

definition shape :: "optrec list \<Rightarrow> bool" where
  "shape rs \<longleftrightarrow> (\<forall>r \<in> set rs. is_str r \<longleftrightarrow> \<not> (\<exists>k. ovalue r = Int_at k)) \<and>
     (\<forall>i j. i < length rs \<longrightarrow> j < length rs \<longrightarrow> \<not> is_str (rs ! i) \<longrightarrow> \<not> is_str (rs ! j) \<longrightarrow>
        int_cell (rs ! i) = int_cell (rs ! j) \<longrightarrow> i = j)"

definition legal_val :: "otype \<Rightarrow> int \<Rightarrow> bool" where
  "legal_val t v \<longleftrightarrow> (t = OTYPE_WHOLE \<longrightarrow> 0 \<le> v) \<and> (t = OTYPE_NATURAL \<longrightarrow> 1 \<le> v) \<and>
     (t = OTYPE_TOGGLE \<longrightarrow> v \<in> {0, 1})"

definition legal :: "ostate \<Rightarrow> bool" where
  "legal s \<longleftrightarrow> (\<forall>r \<in> set (optdefs s). \<not> is_str r \<longrightarrow> legal_val (otyp r) (INT_OPTVAL s r))"

definition alive :: "ostate \<Rightarrow> optrec \<Rightarrow> bool" where
  "alive s r \<longleftrightarrow> (\<forall>a. ovalue r = Str_at a \<longrightarrow> str_mem s a \<noteq> None \<and> a < str_brk s)"

text \<open>A record with the flag set is the only one that points to its string.\<close>

definition owns :: "ostate \<Rightarrow> bool" where
  "owns s \<longleftrightarrow> (\<forall>i a. i < length (optdefs s) \<longrightarrow> omust_free (optdefs s ! i) \<longrightarrow> ovalue (optdefs s ! i) = Str_at a \<longrightarrow>
     str_static s \<le> a \<and> (\<forall>j < length (optdefs s). j \<noteq> i \<longrightarrow> ovalue (optdefs s ! j) \<noteq> Str_at a) \<and>
     (\<forall>r \<in> set (optdefs_save s). ovalue r \<noteq> Str_at a))"

definition oinv :: "ostate \<Rightarrow> bool" where
  "oinv s \<longleftrightarrow> shape (optdefs s) \<and> legal s \<and>
     (\<forall>r \<in> set (optdefs s). alive s r) \<and> (\<forall>r \<in> set (optdefs_save s). alive s r) \<and> owns s \<and>
     str_mem s default_addr = Some ''default'' \<and> default_addr < str_static s \<and> str_static s \<le> str_brk s"

text \<open>Setting leaves the saved records and the strings they point to alone.\<close>

definition setting :: "ostate \<Rightarrow> ostate \<Rightarrow> bool" where
  "setting s t \<longleftrightarrow> map skel (optdefs t) = map skel (optdefs s) \<and> optdefs_save t = optdefs_save s \<and>
     (\<forall>r \<in> set (optdefs_save s). \<forall>a. ovalue r = Str_at a \<longrightarrow> str_mem t a = str_mem s a)"

lemma setting_refl [simp, intro]: "setting s s" by (simp add: setting_def)

lemma setting_trans: "setting s t \<Longrightarrow> setting t u \<Longrightarrow> setting s u"
  by (simp add: setting_def)

lemma setting_length: "setting s t \<Longrightarrow> length (optdefs t) = length (optdefs s)"
  unfolding setting_def by (metis length_map)

section \<open>Setting\<close>

lemma wp_opt_free [wps]: "wp (opt_free a) Q s \<longleftrightarrow> str_static s \<le> a \<and> str_mem s a \<noteq> None \<and>
    Q () (s\<lparr>str_mem := (str_mem s)(a := None)\<rparr>)"
  by (simp add: wp_def opt_free_def not_less)

lemma wp_opt_strdup [wps]: "wp (opt_strdup v) Q s = Q (str_brk s)
    (s\<lparr>str_mem := (str_mem s)(str_brk s := Some v), str_brk := Suc (str_brk s)\<rparr>)"
  by (simp add: wp_def opt_strdup_def)

lemma wp_opt_upd [wps]: "wp (opt_upd i f) Q s = Q () (s\<lparr>optdefs := (optdefs s)[i := f (optdefs s ! i)]\<rparr>)"
  by (simp add: opt_upd_def wps)

lemma wp_set_int [wps]: "wp (set_int r v) Q s = Q () (s\<lparr>opt_ints := (opt_ints s)(int_cell r := v)\<rparr>)"
  by (simp add: set_int_def wps)

text \<open>A record of the table is replaced by one with the same skeleton.\<close>

lemma shape_update:
  assumes sh: "shape rs" and i: "i < length rs" and k: "skel r = skel (rs ! i)"
    and v: "is_str r \<longleftrightarrow> \<not> (\<exists>k. ovalue r = Int_at k)"
  shows "shape (rs[i := r])"
proof -
  have e: "skel (rs[i := r] ! j) = skel (rs ! j)" if "j < length rs" for j
    using k i that by (simp add: nth_list_update)
  have sk: "is_str (rs[i := r] ! j) = is_str (rs ! j)"
    "\<not> is_str (rs ! j) \<Longrightarrow> int_cell (rs[i := r] ! j) = int_cell (rs ! j)" if "j < length rs" for j
    using e [OF that] by (auto simp: skel_def is_str_def split: if_splits)
  have one: "\<forall>x \<in> set (rs[i := r]). is_str x \<longleftrightarrow> \<not> (\<exists>k. ovalue x = Int_at k)"
    using sh v set_update_subset_insert [of rs i r] unfolding shape_def by blast
  show ?thesis
    unfolding shape_def
  proof (intro conjI allI impI one)
    fix j k assume a: "j < length (rs[i := r])" "k < length (rs[i := r])" "\<not> is_str (rs[i := r] ! j)"
      "\<not> is_str (rs[i := r] ! k)" "int_cell (rs[i := r] ! j) = int_cell (rs[i := r] ! k)"
    then show "j = k" using sh sk unfolding shape_def by simp
  qed
qed

lemma legal_cell:
  assumes sh: "shape (optdefs s)" and l: "legal s" and i: "i < length (optdefs s)" "\<not> is_str (optdefs s ! i)"
    and v: "legal_val (otyp (optdefs s ! i)) v"
  shows "legal (s\<lparr>opt_ints := (opt_ints s)(int_cell (optdefs s ! i) := v)\<rparr>)"
  unfolding legal_def
proof (intro ballI impI)
  fix r assume r: "r \<in> set (optdefs (s\<lparr>opt_ints := (opt_ints s)(int_cell (optdefs s ! i) := v)\<rparr>))" "\<not> is_str r"
  then obtain j where j: "j < length (optdefs s)" "r = optdefs s ! j" by (auto simp: in_set_conv_nth)
  show "legal_val (otyp r) (INT_OPTVAL (s\<lparr>opt_ints := (opt_ints s)(int_cell (optdefs s ! i) := v)\<rparr>) r)"
  proof (cases "j = i")
    case True
    then show ?thesis using v j by (simp add: INT_OPTVAL_def)
  next
    case False
    then have "int_cell r \<noteq> int_cell (optdefs s ! i)" using sh i j r(2) unfolding shape_def by blast
    then show ?thesis using l r by (simp add: legal_def INT_OPTVAL_def)
  qed
qed

lemma owns_ints [simp]: "owns (s\<lparr>opt_ints := x\<rparr>) = owns s" "alive (s\<lparr>opt_ints := x\<rparr>) r = alive s r"
  by (simp_all add: owns_def alive_def)

lemma oinv_int:
  assumes I: "oinv s" and i: "i < length (optdefs s)" "\<not> is_str (optdefs s ! i)"
    and v: "legal_val (otyp (optdefs s ! i)) v"
  shows "oinv (s\<lparr>opt_ints := (opt_ints s)(int_cell (optdefs s ! i) := v)\<rparr>)"
proof -
  have "legal (s\<lparr>opt_ints := (opt_ints s)(int_cell (optdefs s ! i) := v)\<rparr>)"
    by (rule legal_cell [OF _ _ i v]) (use I in \<open>simp_all add: oinv_def\<close>)
  then show ?thesis using I by (simp add: oinv_def)
qed

text \<open>
  Record \<open>i\<close> becomes \<open>r\<close>, and the memory changes such that nothing another record or a saved one
  points to is freed.
\<close>

lemma oinv_update:
  assumes I: "oinv s" and i: "i < length (optdefs s)" and k: "skel r = skel (optdefs s ! i)"
    and vt: "is_str r \<longleftrightarrow> \<not> (\<exists>k. ovalue r = Int_at k)"
    and t: "optdefs t = (optdefs s)[i := r]" "optdefs_save t = optdefs_save s" "opt_ints t = opt_ints s"
      "str_static t = str_static s" "str_brk s \<le> str_brk t"
    and mem: "\<And>a. a < str_brk s \<Longrightarrow> \<not> (omust_free (optdefs s ! i) \<and> ovalue (optdefs s ! i) = Str_at a) \<Longrightarrow>
      str_mem t a = str_mem s a"
    and r: "alive t r" "\<And>a. omust_free r \<Longrightarrow> ovalue r = Str_at a \<Longrightarrow>
      a = str_brk s \<or> omust_free (optdefs s ! i) \<and> ovalue (optdefs s ! i) = Str_at a"
    and r0: "\<And>a. ovalue r = Str_at a \<Longrightarrow> a = default_addr \<or> a = str_brk s \<or> ovalue (optdefs s ! i) = Str_at a"
  shows "oinv t" and "setting s t"
proof -
  let ?old = "optdefs s ! i"
  have m: "?old \<in> set (optdefs s)" using i by simp
  have D: "str_mem s default_addr = Some ''default''" "default_addr < str_static s" "str_static s \<le> str_brk s"
    using I by (simp_all add: oinv_def)
  have own: "str_static s \<le> a" "\<And>j. j < length (optdefs s) \<Longrightarrow> j \<noteq> l \<Longrightarrow> ovalue (optdefs s ! j) \<noteq> Str_at a"
      "\<And>r. r \<in> set (optdefs_save s) \<Longrightarrow> ovalue r \<noteq> Str_at a"
    if "l < length (optdefs s)" "omust_free (optdefs s ! l)" "ovalue (optdefs s ! l) = Str_at a" for l a
    using I that unfolding oinv_def owns_def by blast+
  have al: "a < str_brk s" "str_mem s a \<noteq> None" if "x \<in> set (optdefs s) \<union> set (optdefs_save s)" "ovalue x = Str_at a" for x a
    using I that unfolding oinv_def alive_def by blast+
  have keep: "str_mem t a = str_mem s a"
    if "x \<in> set (optdefs_save s) \<or> (\<exists>j. j < length (optdefs s) \<and> j \<noteq> i \<and> x = optdefs s ! j)" "ovalue x = Str_at a" for x a
  proof (rule mem)
    show "a < str_brk s" using al(1) [of x a] that by auto
    show "\<not> (omust_free ?old \<and> ovalue ?old = Str_at a)" using own(2,3) [OF i] that by blast
  qed
  show "setting s t"
    using k keep t i by (auto simp: setting_def map_update list_update_same_conv)
  have "shape (optdefs t)" unfolding t by (rule shape_update [OF _ i k vt]) (use I in \<open>simp add: oinv_def\<close>)
  moreover have "legal t"
    unfolding legal_def
  proof (intro ballI impI)
    fix x assume x: "x \<in> set (optdefs t)" "\<not> is_str x"
    have "otyp r = otyp ?old" "is_str r = is_str ?old" "\<not> is_str r \<longrightarrow> int_cell r = int_cell ?old"
      using k by (auto simp: skel_def split: if_splits)
    moreover have "x = r \<or> x \<in> set (optdefs s)" using x(1) t(1) set_update_subset_insert by fastforce
    ultimately show "legal_val (otyp x) (INT_OPTVAL t x)"
      using I m x(2) t(3) unfolding oinv_def legal_def INT_OPTVAL_def by metis
  qed
  moreover have "alive t x" if x: "x \<in> set (optdefs t)" for x
  proof -
    obtain j where j: "j < length (optdefs s)" "x = (optdefs s)[i := r] ! j" using x t(1) by (auto simp: in_set_conv_nth)
    show ?thesis
    proof (cases "j = i")
      case False
      then have xs: "x = optdefs s ! j" "x \<in> set (optdefs s)" using j by auto
      show ?thesis
        unfolding alive_def
      proof (intro allI impI)
        fix a assume a: "ovalue x = Str_at a"
        then have "str_mem t a = str_mem s a" using keep [of x a] False j(1) xs(1) by blast
        then show "str_mem t a \<noteq> None \<and> a < str_brk t" using al [of x a] a xs(2) t(5) by auto
      qed
    qed (use j r(1) in simp)
  qed
  moreover have "alive t x" if x: "x \<in> set (optdefs_save t)" for x
    unfolding alive_def
  proof (intro allI impI)
    fix a assume a: "ovalue x = Str_at a"
    then have "str_mem t a = str_mem s a" using keep [of x a] x t(2) by auto
    then show "str_mem t a \<noteq> None \<and> a < str_brk t" using al [of x a] a x t(2,5) by auto
  qed
  moreover have "owns t"
    unfolding owns_def
  proof (intro allI impI)
    fix j a assume j: "j < length (optdefs t)" "omust_free (optdefs t ! j)" "ovalue (optdefs t ! j) = Str_at a"
    have jl: "j < length (optdefs s)" using j(1) t(1) by simp
    let ?x = "optdefs t ! j"
    have u: "optdefs t ! l = (if l = i then r else optdefs s ! l)" if "l < length (optdefs s)" for l
      using that t(1) i by simp
    have "str_static s \<le> a \<and> (\<forall>l < length (optdefs s). l \<noteq> j \<longrightarrow> ovalue (optdefs t ! l) \<noteq> Str_at a) \<and>
        (\<forall>x \<in> set (optdefs_save s). ovalue x \<noteq> Str_at a)"
    proof (cases "j = i")
      case True
      then have c: "a = str_brk s \<or> omust_free ?old \<and> ovalue ?old = Str_at a"
        using r(2) j u [OF jl] by simp
      have "ovalue (optdefs s ! l) \<noteq> Str_at a" if "l < length (optdefs s)" "l \<noteq> i" for l
        using c own(2) [OF i] al(1) [of "optdefs s ! l" a] that by auto
      moreover have "ovalue x \<noteq> Str_at a" if "x \<in> set (optdefs_save s)" for x
        using c own(3) [OF i] al(1) [of x a] that by auto
      moreover have "str_static s \<le> a" using c own(1) [OF i] D(3) by auto
      ultimately show ?thesis using u True by auto
    next
      case False
      then have o: "omust_free (optdefs s ! j)" "ovalue (optdefs s ! j) = Str_at a" using j u [OF jl] by simp_all
      have "a < str_brk s" using al(1) [of "optdefs s ! j" a] o(2) jl by simp
      then have "ovalue r \<noteq> Str_at a" using r0 own(1) [OF jl o] own(2) [OF jl o i] False D(2) by fastforce
      then show ?thesis using own [OF jl o] u by auto
    qed
    then show "str_static t \<le> a \<and> (\<forall>l < length (optdefs t). l \<noteq> j \<longrightarrow> ovalue (optdefs t ! l) \<noteq> Str_at a) \<and>
        (\<forall>x \<in> set (optdefs_save t). ovalue x \<noteq> Str_at a)"
      using t by simp
  qed
  moreover have "str_mem t default_addr = Some ''default''"
    using mem [of default_addr] own(1) [OF i] D by fastforce
  ultimately show "oinv t" using D t(4,5) by (simp add: oinv_def)
qed

lemma oinv_changed:
  assumes I: "oinv s" and i: "i < length (optdefs s)"
  shows "wp (opt_changed i) (\<lambda>_ t. oinv t \<and> setting s t \<and> opt_ints t = opt_ints s \<and>
    optdefs t = (optdefs s)[i := (optdefs s ! i)\<lparr>ochanged := True\<rparr>] \<and> str_mem t = str_mem s) s"
proof -
  let ?t = "s\<lparr>optdefs := (optdefs s)[i := (optdefs s ! i)\<lparr>ochanged := True\<rparr>]\<rparr>"
  have m: "optdefs s ! i \<in> set (optdefs s)" using i by simp
  have "oinv ?t \<and> setting s ?t"
    by (rule conjI; rule oinv_update [OF I i])
      (use I m in \<open>auto simp: skel_def is_str_def int_cell_def oinv_def shape_def alive_def\<close>)
  then show ?thesis by (simp add: opt_changed_def wps)
qed

text \<open>What an option is set to.\<close>

definition str_value :: "string \<Rightarrow> string \<Rightarrow> string" where
  "str_value name v = (if name = ''GROUP'' \<and> v = '''' then ''default'' else v)"

definition new_value :: "ostate \<Rightarrow> optrec \<Rightarrow> string \<Rightarrow> int" where
  "new_value s r v = (if otyp r = OTYPE_TOGGLE then if INT_OPTVAL s r = 0 then 1 else 0 else atoi v)"

definition accepts :: "otype \<Rightarrow> string \<Rightarrow> bool" where
  "accepts t v \<longleftrightarrow> (t = OTYPE_WHOLE \<longrightarrow> 0 \<le> atoi v) \<and> (t = OTYPE_NATURAL \<longrightarrow> 1 \<le> atoi v)"

lemma set_str:
  assumes I: "oinv s" and i: "i < length (optdefs s)" and st: "is_str (optdefs s ! i)"
  shows "wp (speedy_opt_set i v) (\<lambda>ok t. ok \<and> oinv t \<and> setting s t \<and> opt_ints t = opt_ints s \<and>
    STR_OPTVAL t (optdefs t ! i) = Some (str_value (oname (optdefs s ! i)) v)) s"
proof -
  let ?r = "optdefs s ! i"
  define gone where "gone = (\<lambda>a. omust_free ?r \<and> ovalue ?r = Str_at a)"
  define mem where "mem = (\<lambda>a. if gone a then None else str_mem s a)"
  define def where "def \<longleftrightarrow> oname ?r = ''GROUP'' \<and> v = ''''"
  define r where "r = (if def then ?r\<lparr>ovalue := Str_at default_addr, omust_free := False\<rparr>
    else ?r\<lparr>ovalue := Str_at (str_brk s), omust_free := True\<rparr>)"
  define t where "t = (if def then s\<lparr>str_mem := mem, optdefs := (optdefs s)[i := r]\<rparr>
    else s\<lparr>str_mem := mem(str_brk s := Some v), str_brk := Suc (str_brk s), optdefs := (optdefs s)[i := r]\<rparr>)"
  have m: "?r \<in> set (optdefs s)" using i by simp
  have D: "str_mem s default_addr = Some ''default''" "default_addr < str_static s" "str_static s \<le> str_brk s"
    using I by (simp_all add: oinv_def)
  have own: "str_static s \<le> a" "str_mem s a \<noteq> None" "a < str_brk s" if "gone a" for a
    using that I i m unfolding gone_def oinv_def owns_def alive_def by blast+
  have mdef: "mem default_addr = Some ''default''" using own(1) [of default_addr] D by (auto simp: mem_def)
  have "skel r = skel ?r" "is_str r"
    using st by (simp_all add: r_def skel_def is_str_def)
  have T: "oinv t \<and> setting s t"
  proof (rule conjI; rule oinv_update [OF I i \<open>skel r = skel ?r\<close>])
    show "is_str r \<longleftrightarrow> \<not> (\<exists>k. ovalue r = Int_at k)" "is_str r \<longleftrightarrow> \<not> (\<exists>k. ovalue r = Int_at k)"
      using \<open>is_str r\<close> by (simp_all add: r_def)
    show "alive t r" "alive t r" using mdef D by (auto simp: alive_def r_def t_def)
  qed (auto simp: t_def r_def mem_def gone_def split: if_splits)
  have fin: "wp (opt_changed i) (\<lambda>_ u. oinv u \<and> setting s u \<and> opt_ints u = opt_ints s \<and>
      STR_OPTVAL u (optdefs u ! i) = Some (str_value (oname ?r) v)) t"
  proof (rule wp_mono [OF oinv_changed [of t i]])
    show "oinv t" "i < length (optdefs t)" using T i by (simp_all add: t_def)
    fix x u assume "oinv u \<and> setting t u \<and> opt_ints u = opt_ints t \<and>
      optdefs u = (optdefs t)[i := (optdefs t ! i)\<lparr>ochanged := True\<rparr>] \<and> str_mem u = str_mem t"
    then show "oinv u \<and> setting s u \<and> opt_ints u = opt_ints s \<and>
      STR_OPTVAL u (optdefs u ! i) = Some (str_value (oname ?r) v)"
      using T i setting_trans [of s t u] mdef
      by (auto simp: t_def r_def STR_OPTVAL_def str_value_def def_def)
  qed
  have rest: "wp (if oname ?r = ''GROUP'' \<and> v = ''''
        then opt_upd i (\<lambda>r. r\<lparr>ovalue := Str_at default_addr, omust_free := False\<rparr>)
        else bnd (opt_strdup v) (\<lambda>a. opt_upd i (\<lambda>r. r\<lparr>ovalue := Str_at a, omust_free := True\<rparr>)))
      (\<lambda>_. wp (opt_changed i) (\<lambda>_ u. oinv u \<and> setting s u \<and> opt_ints u = opt_ints s \<and>
      STR_OPTVAL u (optdefs u ! i) = Some (str_value (oname ?r) v))) (s\<lparr>str_mem := mem\<rparr>)"
    using fin by (auto simp: wps t_def r_def def_def)
  have "wp (free_value ?r) R s = R () (s\<lparr>str_mem := mem\<rparr>)" for R
  proof (cases "\<exists>a. gone a")
    case True
    then obtain a where a: "gone a" by blast
    then have "mem = (str_mem s)(a := None)" by (auto simp: mem_def gone_def fun_eq_iff)
    then show ?thesis using a own [OF a] by (simp add: free_value_def gone_def wps)
  next
    case False
    then have "mem = str_mem s" by (auto simp: mem_def fun_eq_iff)
    then show ?thesis using False by (auto simp: free_value_def gone_def wps split: oval.splits)
  qed
  then show ?thesis
    using rest st by (simp add: speedy_opt_set_def wps is_str_def del: opt_changed_def)
qed

lemma set_num:
  assumes I: "oinv s" and i: "i < length (optdefs s)" and st: "\<not> is_str (optdefs s ! i)"
  shows "wp (speedy_opt_set i v) (\<lambda>ok t. oinv t \<and> setting s t \<and> ok = accepts (otyp (optdefs s ! i)) v \<and>
    opt_ints t = (if ok then (opt_ints s)(int_cell (optdefs s ! i) := new_value s (optdefs s ! i) v)
       else opt_ints s)) s"
proof -
  let ?r = "optdefs s ! i"
  have go: "wp (opt_changed i) (\<lambda>_ u. oinv u \<and> setting s u \<and> opt_ints u = (opt_ints s)(int_cell ?r := n))
      (s\<lparr>opt_ints := (opt_ints s)(int_cell ?r := n)\<rparr>)" if n: "legal_val (otyp ?r) n" for n
  proof (rule wp_mono [OF oinv_changed])
    let ?t = "s\<lparr>opt_ints := (opt_ints s)(int_cell ?r := n)\<rparr>"
    show "oinv ?t" "i < length (optdefs ?t)" using oinv_int [OF I i st n] i by simp_all
    fix x u assume "oinv u \<and> setting ?t u \<and> opt_ints u = opt_ints ?t \<and>
      optdefs u = (optdefs ?t)[i := (optdefs ?t ! i)\<lparr>ochanged := True\<rparr>] \<and> str_mem u = str_mem ?t"
    then show "oinv u \<and> setting s u \<and> opt_ints u = (opt_ints s)(int_cell ?r := n)"
      unfolding setting_def by (elim conjE) simp
  qed
  show ?thesis
    using go [of "new_value s ?r v"] st I
    by (cases "otyp ?r") (auto simp: speedy_opt_set_def wps is_str_def accepts_def new_value_def legal_val_def)
qed

theorem opt_set_spec:
  assumes "oinv s" and "i < length (optdefs s)"
  shows "wp (speedy_opt_set i v) (\<lambda>ok t. oinv t \<and> setting s t) s"
proof (cases "is_str (optdefs s ! i)")
  case True
  show ?thesis by (rule wp_mono [OF set_str [OF assms True]]) blast
next
  case False
  show ?thesis by (rule wp_mono [OF set_num [OF assms False]]) blast
qed

section \<open>Options from arguments and environment\<close>

lemma oinv_aside [simp]: "oinv (s\<lparr>orig_argv := x, perl_argv := l\<rparr>) = oinv s"
  "oinv (s\<lparr>orig_argv := x\<rparr>) = oinv s" "setting u (s\<lparr>orig_argv := x\<rparr>) = setting u s"
  "oinv (s\<lparr>perl_argv := l\<rparr>) = oinv s" "oinv (s\<lparr>got_shbang := b\<rparr>) = oinv s"
  "oinv (s\<lparr>exec_argv := l, script_argv_loc := n, got_shbang := b, exec_envp := e\<rparr>) = oinv s"
  "setting u (s\<lparr>orig_argv := x, perl_argv := l\<rparr>) = setting u s"
  "setting u (s\<lparr>perl_argv := l\<rparr>) = setting u s" "setting u (s\<lparr>got_shbang := b\<rparr>) = setting u s"
  "setting u (s\<lparr>exec_argv := l, script_argv_loc := n, got_shbang := b, exec_envp := e\<rparr>) = setting u s"
  by (simp_all add: oinv_def legal_def alive_def owns_def setting_def INT_OPTVAL_def)

definition opt_deaths :: "odeath \<Rightarrow> bool" where
  "opt_deaths e \<longleftrightarrow> (\<exists>c. e = Unknown_option c) \<or> e = Version_printed \<or> e = Script_read_failed"

definition sets :: "ostate \<Rightarrow> ostate \<Rightarrow> bool" where
  "sets s t \<longleftrightarrow> oinv t \<and> setting s t"

lemma sets_refl: "oinv s \<Longrightarrow> sets s s" by (simp add: sets_def)
lemma sets_trans: "sets s t \<Longrightarrow> sets t u \<Longrightarrow> sets s u" using setting_trans by (auto simp: sets_def)

lemma set_wpx: "oinv s \<Longrightarrow> i < length (optdefs s) \<Longrightarrow> wpx h (speedy_opt_set i v) (\<lambda>_. sets s) E s"
  unfolding sets_def by (rule wpx_wp [OF opt_set_spec])

lemma process_spec: "oinv s \<Longrightarrow> wpx h (process_speedy_opts os) (\<lambda>_. sets s) opt_deaths s"
proof (induction os arbitrary: s)
  case (Cons a os)
  show ?case
  proof (cases "opt_byletter (opt_letter a) s")
    case None
    then show ?thesis by (simp add: wpxs opt_deaths_def)
  next
    case (Some j)
    have "wpx h (speedy_opt_set j (drop 2 a)) (\<lambda>_. wpx h (process_speedy_opts os) (\<lambda>_. sets s) opt_deaths) opt_deaths s"
    proof (rule wpx_mono [OF set_wpx [OF Cons.prems opt_byletter_bound [OF Some]]])
      fix x t assume t: "sets s t"
      then have "oinv t" by (simp add: sets_def)
      from Cons.IH [OF this] show "wpx h (process_speedy_opts os) (\<lambda>_. sets s) opt_deaths t"
        by (rule wpx_mono) (rule sets_trans [OF t])
    qed
    then show ?thesis using Some by (simp add: wpxs)
  qed
qed (simp add: wpxs sets_refl)

lemma env_opt_spec: "oinv s \<Longrightarrow> wpx h (env_opt p) (\<lambda>_. sets s) E s"
  using set_wpx opt_byname_bound
  by (auto simp: env_opt_def opt_set_byname_def Let_def wpxs sets_refl split: option.splits)

lemma env_opts_spec: "oinv s \<Longrightarrow> wpx h (seqM (map env_opt ps)) (\<lambda>_. sets s) E s"
proof (induction ps arbitrary: s)
  case (Cons p ps)
  have "wpx h (env_opt p) (\<lambda>_. wpx h (seqM (map env_opt ps)) (\<lambda>_. sets s) E) E s"
  proof (rule wpx_mono [OF env_opt_spec [OF Cons.prems]])
    fix x t assume t: "sets s t"
    then have "oinv t" by (simp add: sets_def)
    from Cons.IH [OF this] show "wpx h (seqM (map env_opt ps)) (\<lambda>_. sets s) E t"
      by (rule wpx_mono) (rule sets_trans [OF t])
  qed
  then show ?case by (simp add: wpxs)
qed (simp add: wpxs sets_refl)

lemma opt_get_spec:
  assumes "oinv s" and "i < length (optdefs s)"
  shows "\<exists>v. speedy_opt_get i s = Ok v s"
proof -
  have "alive s (optdefs s ! i)" using assms by (simp add: oinv_def)
  then show ?thesis
    by (auto simp: speedy_opt_get_def run_simps opt_deref_def alive_def split: oval.splits option.splits)
qed

lemma perlargs_ok:
  assumes "oinv s"
  shows "\<exists>l. perlargs_opt pa s = Ok l s"
proof (cases "opt_byname ''PERLARGS'' s")
  case (Some i)
  then obtain v where "speedy_opt_get i s = Ok v s" using opt_get_spec [OF assms] opt_byname_bound by blast
  then show ?thesis using Some by (simp add: perlargs_opt_def run_simps)
qed (simp add: perlargs_opt_def run_simps)

lemma changed_ok:
  "oinv s \<Longrightarrow> \<forall>i \<in> set is. i < length (optdefs s) \<Longrightarrow> \<exists>l. changed_opts is so s = Ok l s"
proof (induction "is" arbitrary: so)
  case (Cons i "is")
  obtain v where "speedy_opt_get i s = Ok v s" using opt_get_spec [OF Cons.prems(1), of i] Cons.prems(2) by auto
  then show ?case using Cons by (simp add: run_simps)
qed (simp add: run_simps)

lemma bnd_Ok: "m s = Ok a t \<Longrightarrow> bnd m F s = F a t"
  by (simp add: bnd_def)

lemma modify_eta: "wpx h (modify f) Q E = (\<lambda>s. Q () (f s))"
  by (simp add: fun_eq_iff wpx_modify)

text \<open>
  Whatever the arguments and the environment are, starting never uses a freed string; the process
  may end only because of an unknown option or to print its version.
\<close>

theorem opt_init_spec:
  assumes I: "oinv s"
  shows "wpx False (speedy_opt_init show_version argv envp) (\<lambda>_. sets s) opt_deaths s"
proof -
  obtain a pa so sc where c: "cmdline_split argv (strlist_append strlist_init ''perl'') strlist_init (Some strlist_init)
      = (a, pa, so, sc)" by (metis prod_cases4)
  obtain pa' where p: "perlargs_opt pa s = Ok pa' s" using perlargs_ok [OF I] by blast
  obtain all where a: "changed_opts [0..<length (optdefs s)] so s = Ok all s" using changed_ok [OF I] by fastforce
  let ?s1 = "s\<lparr>orig_argv := argv, perl_argv := pa'\<rparr>"
  let ?set = "\<lambda>s :: ostate. s\<lparr>exec_argv := strlist_concat2 (exec_list pa' all) (ptrs (the_default strlist_init sc)),
          script_argv_loc := strlist_len (exec_list pa' all), got_shbang := False,
          exec_envp := strlist_concat2 strlist_init envp\<rparr>"
  have env: "wpx False (seqM (map env_opt envp)) (\<lambda>_. wpx False (opt_version show_version) (\<lambda>_. sets s) opt_deaths) opt_deaths (?set t)"
    if t: "sets ?s1 t" for t
  proof (rule wpx_mono [OF env_opts_spec])
    show "oinv (?set t)" using t by (simp add: sets_def)
    fix x u assume "sets (?set t) u"
    then have "sets s u" using t by (simp add: sets_def setting_def)
    then show "wpx False (opt_version show_version) (\<lambda>_. sets s) opt_deaths u"
      by (simp add: opt_version_def wpxs opt_deaths_def)
  qed
  have I1: "oinv ?s1" using I by simp
  have "wpx False (process_speedy_opts (take (strlist_len so) (ptrs all)))
      (\<lambda>_ t. wpx False (seqM (map env_opt envp)) (\<lambda>_. wpx False (opt_version show_version) (\<lambda>_. sets s) opt_deaths)
        opt_deaths (?set t)) opt_deaths ?s1"
    by (rule wpx_mono [OF process_spec [OF I1]]) (rule env)
  then have m: "wpx False (seqM [modify (\<lambda>s. s\<lparr>orig_argv := argv, perl_argv := pa'\<rparr>),
       process_speedy_opts (take (strlist_len so) (ptrs all)),
       (let l = exec_list pa' all in modify (\<lambda>s. s\<lparr>
          exec_argv := strlist_concat2 l (ptrs (the_default strlist_init sc)),
          script_argv_loc := strlist_len l, got_shbang := False,
          exec_envp := strlist_concat2 strlist_init envp\<rparr>)),
       seqM (map env_opt envp), opt_version show_version]) (\<lambda>_. sets s) opt_deaths s"
    by (simp only: wpx_seqM modify_eta Let_def)
  show ?thesis
    using m by (simp add: wpx_def speedy_opt_init_def c bnd_Ok [where m = "perlargs_opt pa", OF p]
      bnd_Ok [where m = "gets f" for f, OF run_gets] bnd_Ok [where m = "changed_opts x y" for x y, OF a] del: seqM.simps)
qed

theorem read_shbang_spec:
  assumes I: "oinv s"
  shows "wpx False (speedy_opt_read_shbang mi) (\<lambda>_. sets s) opt_deaths s"
proof -
  have "wpx False (process_speedy_opts os) (\<lambda>_. sets s) opt_deaths (s\<lparr>got_shbang := True, perl_argv := l\<rparr>)" for os l
    by (rule wpx_mono [OF process_spec]) (use I in \<open>auto simp: sets_def setting_def\<close>)
  then show ?thesis
    using I by (auto simp: speedy_opt_read_shbang_def wpxs opt_deaths_def sets_refl sets_def
      split: option.splits prod.splits)
qed

section \<open>Saving and restoring\<close>

definition owned :: "optrec \<Rightarrow> addr list" where
  "owned r = (case ovalue r of Str_at a \<Rightarrow> if omust_free r then [a] else [] | _ \<Rightarrow> [])"

lemma owned_iff: "a \<in> set (owned r) \<longleftrightarrow> omust_free r \<and> ovalue r = Str_at a"
  by (auto simp: owned_def split: oval.splits if_splits)

lemma free_values_spec:
  assumes "distinct (concat (map owned rs))"
    and "\<forall>a \<in> set (concat (map owned rs)). str_static s \<le> a \<and> str_mem s a \<noteq> None"
  shows "wp (seqM (map free_value rs)) (\<lambda>_ t.
    t = s\<lparr>str_mem := (\<lambda>a. if a \<in> set (concat (map owned rs)) then None else str_mem s a)\<rparr>) s"
  using assms
proof (induction rs arbitrary: s)
  case (Cons r rs)
  show ?case
  proof (cases "owned r")
    case Nil
    then have "free_value r = ret ()"
      by (auto simp: free_value_def owned_def whenM_def split: oval.splits if_splits)
    then show ?thesis using Cons Nil by (simp add: wp_bnd wp_ret del: seqM.simps) (simp add: wps)
  next
    case (Cons a as)
    then have r: "ovalue r = Str_at a" "omust_free r" "owned r = [a]"
      by (auto simp: owned_def split: oval.splits if_splits)
    let ?t = "s\<lparr>str_mem := (str_mem s)(a := None)\<rparr>"
    have d: "distinct (concat (map owned rs))" "a \<notin> set (concat (map owned rs))"
      using Cons.prems(1) r(3) by auto
    have "wp (seqM (map free_value rs)) (\<lambda>_ t.
      t = ?t\<lparr>str_mem := (\<lambda>a. if a \<in> set (concat (map owned rs)) then None else str_mem ?t a)\<rparr>) ?t"
      by (rule Cons.IH [OF d(1)]) (use Cons.prems(2) d(2) in auto)
    moreover have "?t\<lparr>str_mem := (\<lambda>a. if a \<in> set (concat (map owned rs)) then None else str_mem ?t a)\<rparr> =
      s\<lparr>str_mem := (\<lambda>a. if a \<in> set (concat (map owned (r # rs))) then None else str_mem s a)\<rparr>"
      using r(3) by (auto simp: fun_eq_iff)
    moreover have "str_static s \<le> a" "str_mem s a \<noteq> None" using Cons.prems(2) r(3) by auto
    moreover have "wp (free_value r) R s = (str_static s \<le> a \<and> str_mem s a \<noteq> None \<and> R () ?t)" for R
      using r by (simp add: free_value_def wps)
    ultimately show ?thesis by (simp only: list.map wp_seqM_Cons simp_thms)
  qed
qed (simp add: wps)

lemma owned_distinct:
  assumes I: "oinv s"
  shows "distinct (concat (map owned (optdefs s)))"
proof -
  have "distinct (concat (map owned (take n (optdefs s))))" if "n \<le> length (optdefs s)" for n
    using that
  proof (induction n)
    case (Suc n)
    then have n: "n < length (optdefs s)" by simp
    let ?r = "optdefs s ! n"
    have "a \<notin> set (owned r)" if a: "a \<in> set (owned ?r)" and r: "r \<in> set (take n (optdefs s))" for a r
    proof
      assume "a \<in> set (owned r)"
      moreover obtain j where "j < n" "r = optdefs s ! j" using r by (auto simp: in_set_conv_nth)
      ultimately show False
        using I a n unfolding oinv_def owns_def owned_iff by (metis less_trans nat_neq_iff)
    qed
    moreover have "distinct (owned ?r)" by (auto simp: owned_def split: oval.splits)
    ultimately show ?case using Suc n by (auto simp: take_Suc_conv_app_nth)
  qed simp
  from this [of "length (optdefs s)"] show ?thesis by simp
qed

text \<open>The table was saved and has the same options still.\<close>

definition saved :: "ostate \<Rightarrow> bool" where
  "saved s \<longleftrightarrow> oinv s \<and> shape (optdefs_save s) \<and> map skel (optdefs_save s) = map skel (optdefs s)"

lemma skel_no_free: "skel (r\<lparr>omust_free := b\<rparr>) = skel r"
  by (simp add: skel_def is_str_def int_cell_def)

lemma no_free_simps: "length (no_free rs) = length rs" "map skel (no_free rs) = map skel rs"
  "i < length rs \<Longrightarrow> no_free rs ! i = (rs ! i)\<lparr>omust_free := False\<rparr>"
  by (simp_all add: no_free_def skel_no_free comp_def)

lemma shape_no_free: "shape (no_free rs) = shape rs"
  unfolding shape_def by (simp add: no_free_simps no_free_def is_str_def int_cell_def cong: conj_cong imp_cong)

lemma no_free_set: "r \<in> set (no_free rs) \<Longrightarrow> \<exists>q \<in> set rs. r = q\<lparr>omust_free := False\<rparr>"
  by (auto simp: no_free_def)

text \<open>A table with the same options in the same cells is as legal.\<close>

lemma legal_skel:
  assumes "legal s" and "map skel rs = map skel (optdefs s)"
  shows "legal (s\<lparr>optdefs := rs\<rparr>)"
  unfolding legal_def
proof (intro ballI impI)
  fix r assume r: "r \<in> set (optdefs (s\<lparr>optdefs := rs\<rparr>))" "\<not> is_str r"
  then have "skel r \<in> set (map skel (optdefs s))" using assms(2) by (metis image_eqI list.set_map ostate.select_convs(1) ostate.surjective ostate.update_convs(1))
  then obtain q where q: "q \<in> set (optdefs s)" "skel r = skel q" by auto
  then have "otyp r = otyp q" "\<not> is_str q" "int_cell r = int_cell q"
    using r(2) by (auto simp: skel_def is_str_def split: if_splits)
  then show "legal_val (otyp r) (INT_OPTVAL (s\<lparr>optdefs := rs\<rparr>) r)"
    using assms(1) q(1) by (auto simp: legal_def INT_OPTVAL_def)
qed

lemma oinv_no_free:
  assumes "shape rs" and "legal s" and "map skel rs = map skel (optdefs s)"
    and "\<forall>r \<in> set rs. alive s r" and "\<forall>r \<in> set (optdefs_save s). alive s r"
    and "str_mem s default_addr = Some ''default''" and "default_addr < str_static s" and "str_static s \<le> str_brk s"
  shows "oinv (s\<lparr>optdefs := no_free rs\<rparr>)"
proof -
  have "legal (s\<lparr>optdefs := no_free rs\<rparr>)"
    by (rule legal_skel [OF assms(2)]) (simp add: no_free_simps assms(3))
  moreover have "owns (s\<lparr>optdefs := no_free rs\<rparr>)" by (simp add: owns_def no_free_simps)
  ultimately show ?thesis
    using assms by (auto simp: oinv_def shape_no_free alive_def dest!: no_free_set)
qed

theorem save_spec:
  assumes I: "oinv s"
  shows "wp speedy_opt_save (\<lambda>_ t. saved t \<and> optdefs_save t = optdefs s \<and> str_mem t = str_mem s \<and>
    opt_ints t = opt_ints s) s"
proof -
  let ?t = "s\<lparr>optdefs_save := optdefs s\<rparr>"
  have "oinv (?t\<lparr>optdefs := no_free (optdefs s)\<rparr>)"
    by (rule oinv_no_free) (use I in \<open>auto simp: oinv_def legal_def INT_OPTVAL_def alive_def\<close>)
  then show ?thesis
    using I by (simp add: speedy_opt_save_def wps saved_def no_free_simps oinv_def)
qed

theorem restore_spec:
  assumes S: "saved s"
  shows "wp speedy_opt_restore (\<lambda>_ t. saved t \<and> setting s t \<and> opt_ints t = opt_ints s \<and>
    optdefs t = no_free (optdefs_save s)) s"
proof -
  have I: "oinv s" using S by (simp add: saved_def)
  let ?gone = "set (concat (map owned (optdefs s)))"
  let ?u = "s\<lparr>str_mem := (\<lambda>a. if a \<in> ?gone then None else str_mem s a)\<rparr>"
  have g: "str_static s \<le> a" "str_mem s a \<noteq> None" "\<And>r. r \<in> set (optdefs_save s) \<Longrightarrow> ovalue r \<noteq> Str_at a"
    if gone: "a \<in> ?gone" for a
  proof -
    obtain r where r: "r \<in> set (optdefs s)" "omust_free r" "ovalue r = Str_at a"
      using gone by (auto simp: owned_iff)
    then obtain i where i: "i < length (optdefs s)" "r = optdefs s ! i" by (auto simp: in_set_conv_nth)
    show "str_static s \<le> a" "\<And>r. r \<in> set (optdefs_save s) \<Longrightarrow> ovalue r \<noteq> Str_at a"
      using I i r unfolding oinv_def owns_def by blast+
    show "str_mem s a \<noteq> None" using I r unfolding oinv_def alive_def by blast
  qed
  have al: "\<forall>r \<in> set (optdefs_save s). alive ?u r"
  proof
    fix r assume r: "r \<in> set (optdefs_save s)"
    then have "alive s r" using I by (simp add: oinv_def)
    then show "alive ?u r" using g(3) r by (auto simp: alive_def)
  qed
  have D: "str_mem s default_addr = Some ''default''" "default_addr < str_static s" "str_static s \<le> str_brk s"
    using I by (simp_all add: oinv_def)
  have d0: "default_addr \<notin> ?gone" using g(1) [of default_addr] D(2) by auto
  have "oinv (?u\<lparr>optdefs := no_free (optdefs_save s)\<rparr>)"
  proof (rule oinv_no_free)
    show "legal ?u" using I by (simp add: oinv_def legal_def INT_OPTVAL_def)
  qed (use S al D d0 in \<open>auto simp: saved_def\<close>)
  moreover have "setting s (?u\<lparr>optdefs := no_free (optdefs_save s)\<rparr>)"
    using S g(3) by (auto simp: setting_def no_free_simps saved_def)
  ultimately have Q: "saved (?u\<lparr>optdefs := no_free (optdefs_save s)\<rparr>) \<and> setting s (?u\<lparr>optdefs := no_free (optdefs_save s)\<rparr>)"
    using S by (simp add: saved_def no_free_simps)
  have "wp (seqM (map free_value (optdefs s))) (\<lambda>_ t. t = ?u) s"
    by (rule free_values_spec [OF owned_distinct [OF I]]) (use g in blast)
  then have "wp (seqM (map free_value (optdefs s))) (\<lambda>_ t. let w = t\<lparr>optdefs := no_free (optdefs_save t)\<rparr> in
      saved w \<and> setting s w \<and> opt_ints w = opt_ints s \<and> optdefs w = no_free (optdefs_save s)) s"
    by (rule wp_mono) (use Q in simp)
  then show ?thesis by (simp add: speedy_opt_restore_def wp_thenM wp_seqM_Cons wp_seqM_Nil wp_bnd wp_gets wp_modify Let_def del: seqM.simps)
qed

section \<open>Request after request\<close>

text \<open>
  An Apache process saves the table once; for each request it restores it and sets options from the
  first line of the script.
\<close>

datatype opt_cmd = Set_opt nat string | Restore_opts

fun do_opt :: "opt_cmd \<Rightarrow> unit oio" where
  "do_opt (Set_opt i v) = bnd (speedy_opt_set i v) (\<lambda>_. ret ())"
| "do_opt Restore_opts = speedy_opt_restore"

definition within :: "nat \<Rightarrow> opt_cmd \<Rightarrow> bool" where
  "within n c \<longleftrightarrow> (case c of Set_opt i v \<Rightarrow> i < n | Restore_opts \<Rightarrow> True)"

lemma do_opt_spec:
  assumes S: "saved s" and w: "within (length (optdefs s)) c"
  shows "wp (do_opt c) (\<lambda>_ t. saved t \<and> setting s t) s"
proof (cases c)
  case (Set_opt i v)
  have "wp (speedy_opt_set i v) (\<lambda>_ t. saved t \<and> setting s t) s"
    by (rule wp_mono [OF opt_set_spec]) (use S w Set_opt in \<open>auto simp: saved_def within_def setting_def\<close>)
  then show ?thesis using Set_opt by (simp add: wps)
next
  case Restore_opts
  show ?thesis unfolding Restore_opts do_opt.simps by (rule wp_mono [OF restore_spec [OF S]]) blast
qed

lemma do_opts_spec:
  "saved s \<Longrightarrow> list_all (within (length (optdefs s))) cs \<Longrightarrow>
    wp (seqM (map do_opt cs)) (\<lambda>_ t. saved t \<and> setting s t) s"
proof (induction cs arbitrary: s)
  case (Cons c cs)
  have "wp (do_opt c) (\<lambda>_. wp (seqM (map do_opt cs)) (\<lambda>_ t. saved t \<and> setting s t)) s"
  proof (rule wp_mono [OF do_opt_spec [OF Cons.prems(1)]])
    show "within (length (optdefs s)) c" using Cons.prems(2) by simp
    fix x t assume t: "saved t \<and> setting s t"
    have "wp (seqM (map do_opt cs)) (\<lambda>_ u. saved u \<and> setting t u) t"
      by (rule Cons.IH) (use t Cons.prems(2) setting_length [of s t] in auto)
    then show "wp (seqM (map do_opt cs)) (\<lambda>_ t. saved t \<and> setting s t) t"
      by (rule wp_mono) (use t setting_trans in blast)
  qed
  then show ?case by (simp only: list.map wp_seqM_Cons)
qed (simp add: wps)

lemma wp_seqM_append: "wp (seqM (ms @ ns)) Q = wp (seqM ms) (\<lambda>_. wp (seqM ns) Q)"
  by (induction ms) (simp_all only: append.simps wp_seqM_Cons wp_seqM_Nil)

lemma STR_OPTVAL_no_free: "STR_OPTVAL t (r\<lparr>omust_free := False\<rparr>) = STR_OPTVAL t r"
  by (simp add: STR_OPTVAL_def)

theorem save_restore:
  assumes I: "oinv s" and w: "list_all (within (length (optdefs s))) cs"
  shows "wp (seqM (speedy_opt_save # map do_opt cs @ [speedy_opt_restore])) (\<lambda>_ t. oinv t \<and>
    map skel (optdefs t) = map skel (optdefs s) \<and>
    (\<forall>i < length (optdefs s). STR_OPTVAL t (optdefs t ! i) = STR_OPTVAL s (optdefs s ! i))) s" (is "wp _ ?Q s")
proof -
  have last: "wp speedy_opt_restore ?Q u"
    if u: "saved u" "setting t u" and t: "optdefs_save t = optdefs s" "str_mem t = str_mem s" for t u
  proof (rule wp_mono [OF restore_spec [OF u(1)]])
    fix x v assume v: "saved v \<and> setting u v \<and> opt_ints v = opt_ints u \<and> optdefs v = no_free (optdefs_save u)"
    have sv: "optdefs_save u = optdefs s" using u(2) t(1) by (simp add: setting_def)
    have mem: "str_mem v a = str_mem s a" if "r \<in> set (optdefs s)" "ovalue r = Str_at a" for r a
      using u(2) v t that sv unfolding setting_def by (metis (no_types, lifting))
    have "STR_OPTVAL v (optdefs v ! i) = STR_OPTVAL s (optdefs s ! i)" if i: "i < length (optdefs s)" for i
      using v sv i mem [of "optdefs s ! i"]
      by (simp add: no_free_simps STR_OPTVAL_no_free) (auto simp: STR_OPTVAL_def split: oval.splits)
    then show "?Q () v" using v sv by (simp add: saved_def no_free_simps)
  qed
  have "wp speedy_opt_save (\<lambda>_. wp (seqM (map do_opt cs)) (\<lambda>_. wp speedy_opt_restore ?Q)) s"
  proof (rule wp_mono [OF save_spec [OF I]])
    fix x t assume t: "saved t \<and> optdefs_save t = optdefs s \<and> str_mem t = str_mem s \<and> opt_ints t = opt_ints s"
    then have "length (optdefs t) = length (optdefs s)" by (metis length_map saved_def)
    then have "wp (seqM (map do_opt cs)) (\<lambda>_ u. saved u \<and> setting t u) t"
      using t w by (intro do_opts_spec) simp_all
    then show "wp (seqM (map do_opt cs)) (\<lambda>_. wp speedy_opt_restore ?Q) t"
      by (rule wp_mono) (use t last in blast)
  qed
  then show ?thesis by (simp only: wp_seqM_Cons wp_seqM_append wp_seqM_Nil)
qed

text \<open>
  Numbers are not restored: the saved record is a copy of the pointer to the number, not of the
  number.
\<close>

theorem restore_keeps_number:
  assumes I: "oinv s" and i: "i < length (optdefs s)" "\<not> is_str (optdefs s ! i)"
    and v: "otyp (optdefs s ! i) \<noteq> OTYPE_TOGGLE" "accepts (otyp (optdefs s ! i)) v"
  shows "wp (seqM [speedy_opt_save, do_opt (Set_opt i v), speedy_opt_restore])
    (\<lambda>_ t. INT_OPTVAL t (optdefs t ! i) = atoi v) s" (is "wp _ ?Q s")
proof -
  have last: "wp speedy_opt_restore ?Q u"
    if u: "saved u" "optdefs_save u = optdefs s" "opt_ints u (int_cell (optdefs s ! i)) = atoi v" for u
    by (rule wp_mono [OF restore_spec [OF u(1)]])
      (use u i in \<open>auto simp: no_free_simps INT_OPTVAL_def int_cell_def\<close>)
  have "wp speedy_opt_save (\<lambda>_. wp (do_opt (Set_opt i v)) (\<lambda>_. wp speedy_opt_restore ?Q)) s"
  proof (rule wp_mono [OF save_spec [OF I]])
    fix x t assume t: "saved t \<and> optdefs_save t = optdefs s \<and> str_mem t = str_mem s \<and> opt_ints t = opt_ints s"
    then have sk: "map skel (optdefs t) = map skel (optdefs s)" by (metis saved_def)
    then have l: "length (optdefs t) = length (optdefs s)" by (metis length_map)
    have "skel (optdefs t ! i) = skel (optdefs s ! i)" using sk i(1) l by (metis nth_map)
    then have r: "\<not> is_str (optdefs t ! i)" "otyp (optdefs t ! i) = otyp (optdefs s ! i)"
        "int_cell (optdefs t ! i) = int_cell (optdefs s ! i)"
      using i(2) by (auto simp: skel_def is_str_def split: if_splits)
    have "wp (speedy_opt_set i v) (\<lambda>_. wp speedy_opt_restore ?Q) t"
    proof (rule wp_mono [OF set_num])
      show "oinv t" "i < length (optdefs t)" "\<not> is_str (optdefs t ! i)" using t i l r by (simp_all add: saved_def)
      fix ok u assume "oinv u \<and> setting t u \<and> ok = accepts (otyp (optdefs t ! i)) v \<and>
        opt_ints u = (if ok then (opt_ints t)(int_cell (optdefs t ! i) := new_value t (optdefs t ! i) v) else opt_ints t)"
      then show "wp speedy_opt_restore ?Q u"
        using t r v by (intro last) (auto simp: saved_def setting_def new_value_def)
    qed
    then show "wp (do_opt (Set_opt i v)) (\<lambda>_. wp speedy_opt_restore ?Q) t"
      by (simp add: wp_bnd wp_ret)
  qed
  then show ?thesis by (simp only: wp_seqM_Cons wp_seqM_Nil)
qed

end
