(* ===== verification/Cwd.thy ===== *)
theory Cwd
  imports Prelude Wire Util
begin

text \<open>
  How a backend goes to the directory a script wants to run in (src/src/speedy_perl.c: the hashes
  of directories and scripts, \<open>quick_cd\<close>, \<open>cwd_new\<close>, and the part of \<open>onerun\<close> between the wire
  protocol and the run of the script). Directories are known by device and inode; what the paths
  lead to, and which system calls work, are answers of the system that may change from call to
  call.
\<close>

section \<open>Keys of the hashes\<close>

text \<open>
  \<open>HEX_CVT\<close>: the digits of a 64-bit number, the lowest first; \<open>>>\<close> on a negative number shifts in
  ones, as \<open>div\<close> does.
\<close>

primrec HEX_CVT :: "nat \<Rightarrow> int \<Rightarrow> string" where
  "HEX_CVT 0 i = []"
| "HEX_CVT (Suc cnt) i = hex_digit (nat (i mod 16)) # (if i div 16 \<noteq> 0 then HEX_CVT cnt (i div 16) else [])"

definition HEX_STR_SIZE :: nat where "HEX_STR_SIZE = 8 * 2"
definition DEVINO_STR_SIZE :: nat where "DEVINO_STR_SIZE = HEX_STR_SIZE + HEX_STR_SIZE + 2"

definition devino_str :: "devino \<Rightarrow> string" where
  "devino_str devino = HEX_CVT HEX_STR_SIZE (d_ino devino) @ ''_'' @ HEX_CVT HEX_STR_SIZE (d_dev devino)"

section \<open>The state of a backend\<close>

type_synonym cptr = nat

record speedy_cwd =
  refcnt :: int
  cpath :: string
  cdevino :: devino

text \<open>\<open>handler\<close>: whether the script has been compiled.\<close>

record speedy_script =
  handler :: bool
  last_cwd :: "cptr option"

text \<open>
  \<open>cwds\<close> are the \<open>SpeedyCwd\<close> that are allocated; \<open>cwd_fd\<close> the directory the descriptor is open on;
  \<open>here\<close> the current directory of the process.
\<close>

record cstate =
  cwds :: "cptr \<Rightarrow> speedy_cwd option"
  cwd_brk :: cptr
  cwd_hash :: "string \<Rightarrow> cptr option"
  scr_hash :: "string \<Rightarrow> speedy_script option"
  cwd_fd :: "devino option"
  here :: devino
  cwd_calls :: nat

text \<open>
  The system: where a path leads to (\<open>None\<close>: \<open>chdir\<close> fails), whether \<open>open(".")\<close>, \<open>fstat\<close>, \<open>stat(".")\<close>
  and \<open>fchdir\<close> work, and what is in memory that was not initialised.
\<close>

record cenv =
  leads :: "nat \<Rightarrow> string \<Rightarrow> devino option"
  opens :: "nat \<Rightarrow> bool"
  fstats :: "nat \<Rightarrow> bool"
  stats :: "nat \<Rightarrow> bool"
  fchdirs :: "nat \<Rightarrow> bool"
  garbage :: "nat \<Rightarrow> devino"

datatype cdeath = Null_deref | Use_after_free cptr

type_synonym 'a cio = "(cdeath, cstate, 'a) M"

definition sys_call :: "(nat \<Rightarrow> 'a) \<Rightarrow> 'a cio" where
  "sys_call f = bnd (gets (\<lambda>s. f (cwd_calls s))) (\<lambda>x. thenM [modify (\<lambda>s. s\<lparr>cwd_calls := Suc (cwd_calls s)\<rparr>)] (ret x))"

definition get_cwd :: "cptr \<Rightarrow> speedy_cwd cio" where
  "get_cwd p = (\<lambda>s. case cwds s p of None \<Rightarrow> Die (Use_after_free p) s | Some c \<Rightarrow> Ok c s)"

definition put_cwd :: "cptr \<Rightarrow> speedy_cwd option \<Rightarrow> unit cio" where
  "put_cwd p c = modify (\<lambda>s. s\<lparr>cwds := (cwds s)(p := c)\<rparr>)"

definition hash_set :: "string \<Rightarrow> cptr option \<Rightarrow> unit cio" where
  "hash_set k p = modify (\<lambda>s. s\<lparr>cwd_hash := (cwd_hash s)(k := p)\<rparr>)"

definition find_cwd :: "devino \<Rightarrow> cptr option cio" where
  "find_cwd devino = gets (\<lambda>s. cwd_hash s (devino_str devino))"

text \<open>Scripts are never freed, so a script stands for its key.\<close>

definition find_scr :: "devino \<Rightarrow> (string \<times> bool) cio" where
  "find_scr devino =
     (let key = devino_str devino in
      bnd (gets (\<lambda>s. scr_hash s key)) (\<lambda>sv.
      case sv of Some _ \<Rightarrow> ret (key, False)
      | None \<Rightarrow> thenM [modify (\<lambda>s. s\<lparr>scr_hash := (scr_hash s)(key \<mapsto> \<lparr>handler = False, last_cwd = None\<rparr>)\<rparr>)]
          (ret (key, True))))"

definition script_cwd :: "string \<Rightarrow> cptr option cio" where
  "script_cwd key = gets (\<lambda>s. case scr_hash s key of None \<Rightarrow> None | Some scr \<Rightarrow> last_cwd scr)"

definition set_script_cwd :: "string \<Rightarrow> cptr \<Rightarrow> unit cio" where
  "set_script_cwd key p = modify (\<lambda>s. s\<lparr>scr_hash := (scr_hash s)(key :=
     map_option (\<lambda>scr. scr\<lparr>last_cwd := Some p\<rparr>) (scr_hash s key))\<rparr>)"

section \<open>Directories\<close>

text \<open>What comes before the last slash, and the slash itself if that is the first character.\<close>

definition fname_dir :: "string \<Rightarrow> string option" where
  "fname_dir p =
     (if CHR ''/'' \<in> set p
      then Some (take (max 1 (length p - 1 - length (takeWhile (\<lambda>c. c \<noteq> CHR ''/'') (rev p)))) p)
      else None)"

definition cwd_refcnt_dec :: "cptr \<Rightarrow> unit cio" where
  "cwd_refcnt_dec p =
     bnd (get_cwd p) (\<lambda>cwd.
     thenM [put_cwd p (Some (cwd\<lparr>refcnt := refcnt cwd - 1\<rparr>))]
      (whenM (refcnt cwd - 1 = 0)
        (seqM [hash_set (devino_str (cdevino cwd)) None, hash_set (cpath cwd) None, put_cwd p None])))"

text \<open>The result: what \<open>*devino\<close> is set to, if it is.\<close>

definition stat_cwd_fd :: "cenv \<Rightarrow> devino option cio" where
  "stat_cwd_fd e =
     bnd (gets cwd_fd) (\<lambda>fd.
     case fd of None \<Rightarrow> ret None
     | Some d \<Rightarrow>
        bnd (sys_call (fstats e)) (\<lambda>ok.
        if ok then ret (Some d)
        else thenM [modify (\<lambda>s. s\<lparr>cwd_fd := None\<rparr>)] (ret None)))"

text \<open>
  \<open>None\<close> and \<open>Some d\<close> for the second argument: \<open>devino\<close> is NULL, or points to a place that holds \<open>d\<close>
  (and the result is what it holds afterwards). The last \<open>stbuf\<close> is never filled in.
\<close>

definition chdir_path :: "cenv \<Rightarrow> string option \<Rightarrow> devino option \<Rightarrow> (int \<times> devino option) cio" where
  "chdir_path e path devino =
     (case path of None \<Rightarrow> ret (0, devino)
      | Some path \<Rightarrow>
        if path = '''' then ret (0, devino)
        else
        bnd (if path = ''.'' then ret 0
             else bnd (sys_call (\<lambda>n. leads e n path)) (\<lambda>r.
               case r of None \<Rightarrow> ret (- 1)
               | Some d \<Rightarrow> thenM [modify (\<lambda>s. s\<lparr>here := d\<rparr>)] (ret 0))) (\<lambda>retval.
        bnd (if retval \<noteq> - 1 then sys_call (opens e) else ret False) (\<lambda>opened.
        thenM [modify (\<lambda>s. s\<lparr>cwd_fd := if opened then Some (here s) else None\<rparr>)]
         (if retval = - 1 \<or> devino = None then ret (retval, devino)
          else bnd (stat_cwd_fd e) (\<lambda>r.
            case r of Some d \<Rightarrow> ret (retval, Some d)
            | None \<Rightarrow>
               bnd (gets cwd_fd) (\<lambda>fd.
               if fd = None
               then bnd (sys_call (stats e)) (\<lambda>ok.
                 ret (retval, if ok then devino else Some \<lparr>d_ino = 0, d_dev = 0\<rparr>))
               else bnd (sys_call (garbage e)) (\<lambda>g. ret (retval, Some g))))))))"

definition quick_cd :: "cenv \<Rightarrow> devino \<Rightarrow> bool cio" where
  "quick_cd e dest =
     bnd (sys_call (garbage e)) (\<lambda>g.
     bnd (stat_cwd_fd e) (\<lambda>r.
     bnd (if r = Some dest then sys_call (fchdirs e) else ret False) (\<lambda>went.
     if went then thenM [modify (\<lambda>s. s\<lparr>here := (case cwd_fd s of None \<Rightarrow> here s | Some d \<Rightarrow> d)\<rparr>)] (ret True)
     else bnd (chdir_path e (Some ''.'') (Some (case r of None \<Rightarrow> g | Some d \<Rightarrow> d))) (\<lambda>(_, devino).
       ret (devino = Some dest)))))"

text \<open>A new \<open>SpeedyCwd\<close>, stored under both its keys.\<close>

definition cwd_insert :: "string \<Rightarrow> devino \<Rightarrow> cptr cio" where
  "cwd_insert path devino =
     bnd (gets cwd_brk) (\<lambda>p.
     thenM
      [modify (\<lambda>s. s\<lparr>cwd_brk := Suc p\<rparr>),
       put_cwd p (Some \<lparr>refcnt = 0, cpath = path, cdevino = devino\<rparr>),
       hash_set (devino_str devino) (Some p),
       hash_set path (Some p)]
      (ret p))"

definition cwd_new :: "cenv \<Rightarrow> string option \<Rightarrow> cptr option cio" where
  "cwd_new e path =
     (if path = None then ret None
      else
        bnd (sys_call (garbage e)) (\<lambda>g.
        bnd (chdir_path e path (Some g)) (\<lambda>(retval, devino).
        if retval = - 1 then ret None
        else bnd (cwd_insert (the path) (the devino)) (\<lambda>p. ret (Some p)))))"

definition store_last_cwd :: "string \<Rightarrow> cptr option \<Rightarrow> unit cio" where
  "store_last_cwd key cwd =
     bnd (script_cwd key) (\<lambda>prev_ptr.
     case cwd of None \<Rightarrow> die Null_deref
     | Some p \<Rightarrow>
        bnd (get_cwd p) (\<lambda>c.
        thenM [put_cwd p (Some (c\<lparr>refcnt := refcnt c + 1\<rparr>)), set_script_cwd key p]
         (case prev_ptr of None \<Rightarrow> ret () | Some q \<Rightarrow> cwd_refcnt_dec q)))"

section \<open>Going to the directory of a run\<close>

text \<open>The directory is that of the script.\<close>

definition cwd_in_script :: "cenv \<Rightarrow> string \<Rightarrow> string \<Rightarrow> unit cio" where
  "cwd_in_script e key scr_path =
     (case fname_dir scr_path of None \<Rightarrow> ret ()
      | Some dir \<Rightarrow>
        bnd (gets (\<lambda>s. cwd_hash s dir)) (\<lambda>sv.
        bnd (case sv of None \<Rightarrow> ret (None, False)
             | Some p \<Rightarrow> bnd (get_cwd p) (\<lambda>c. bnd (quick_cd e (cdevino c)) (\<lambda>done. ret (Some p, done)))) (\<lambda>(cwd, done).
        bnd (if done then ret cwd else cwd_new e (Some dir)) (\<lambda>cwd.
        store_last_cwd key cwd))))"

text \<open>
  The frontend sends the device and inode of the directory: the ways to get there without asking
  for its path. The last one also gives the \<open>SpeedyCwd\<close> it found.
\<close>

definition cwd_by_script :: "cenv \<Rightarrow> string \<Rightarrow> devino \<Rightarrow> bool cio" where
  "cwd_by_script e key fe_cwd =
     bnd (script_cwd key) (\<lambda>last.
     case last of None \<Rightarrow> ret False
     | Some p \<Rightarrow>
        bnd (get_cwd p) (\<lambda>c.
        if cdevino c = fe_cwd
        then bnd (chdir_path e (Some (cpath c)) None) (\<lambda>r. ret (fst r \<noteq> - 1))
        else ret False))"

definition cwd_by_hash :: "cenv \<Rightarrow> devino \<Rightarrow> (bool \<times> cptr option) cio" where
  "cwd_by_hash e fe_cwd =
     bnd (find_cwd fe_cwd) (\<lambda>sv.
     case sv of None \<Rightarrow> ret (False, None)
     | Some p \<Rightarrow>
        bnd (get_cwd p) (\<lambda>c.
        bnd (chdir_path e (Some (cpath c)) None) (\<lambda>r. ret (fst r \<noteq> - 1, Some p))))"

definition cwd_cached :: "cenv \<Rightarrow> string \<Rightarrow> devino \<Rightarrow> (bool \<times> cptr option) cio" where
  "cwd_cached e key fe_cwd =
     bnd (quick_cd e fe_cwd) (\<lambda>done.
     if done then ret (True, None)
     else bnd (cwd_by_script e key fe_cwd) (\<lambda>done.
       if done then ret (True, None) else cwd_by_hash e fe_cwd))"

text \<open>
  \<open>dir\<close> is the path the frontend sends when the backend asks for it (\<open>do_proto2\<close>); the result is
  whether it was asked.
\<close>

definition cwd_from_frontend :: "cenv \<Rightarrow> string \<Rightarrow> devino option \<Rightarrow> string option \<Rightarrow> bool cio" where
  "cwd_from_frontend e key fe_cwd dir =
     bnd (case fe_cwd of None \<Rightarrow> ret (False, None) | Some d \<Rightarrow> cwd_cached e key d) (\<lambda>(done, cwd).
     bnd (if done \<or> dir = None then ret cwd else cwd_new e dir) (\<lambda>cwd.
     thenM [whenM (cwd \<noteq> None) (store_last_cwd key cwd)] (ret (\<not> done))))"

end
