(* ===== verification/CwdSpecs.thy ===== *)
theory CwdSpecs
  imports Cwd
begin

text \<open>
  The hashes of directories and scripts of a backend: no \<open>SpeedyCwd\<close> is used after it was freed and
  none is lost, and the backend gets to the directory the script is to run in as long as paths keep
  leading where they led.
\<close>

section \<open>Keys\<close>

definition in_range :: "devino \<Rightarrow> bool" where
  "in_range d \<longleftrightarrow> d_ino d \<in> {- (2 ^ 63)..<2 ^ 63} \<and> d_dev d \<in> {- (2 ^ 63)..<2 ^ 63}"

lemma nat_mod_16: "nat (i mod 16) < 16"
  by (simp add: nat_less_iff)

lemma HEX_CVT_inj: "HEX_CVT cnt i = HEX_CVT cnt j \<Longrightarrow> i mod 16 ^ cnt = j mod 16 ^ cnt"
proof (induction cnt arbitrary: i j)
  case (Suc cnt)
  have m: "k mod 16 ^ Suc cnt = 16 * (k div 16 mod 16 ^ cnt) + k mod 16" for k :: int
    by (simp add: zmod_zmult2_eq)
  have "nat (i mod 16) = nat (j mod 16)"
    using Suc.prems by (intro hex_digit_inj nat_mod_16) simp
  then have h: "i mod 16 = j mod 16" by (simp add: eq_nat_nat_iff)
  have "i div 16 mod 16 ^ cnt = j div 16 mod 16 ^ cnt"
  proof (cases cnt)
    case (Suc n)
    then have ne: "HEX_CVT cnt x \<noteq> []" for x by simp
    have tl: "(if i div 16 \<noteq> 0 then HEX_CVT cnt (i div 16) else []) =
        (if j div 16 \<noteq> 0 then HEX_CVT cnt (j div 16) else [])"
      using Suc.prems by (simp only: HEX_CVT.simps list.inject)
    show ?thesis
    proof (cases "i div 16 = 0 \<or> j div 16 = 0")
      case True
      then have "i div 16 = 0" "j div 16 = 0" using tl ne by (metis)+
      then show ?thesis by simp
    next
      case False
      then have "HEX_CVT cnt (i div 16) = HEX_CVT cnt (j div 16)" using tl by simp
      then show ?thesis by (rule Suc.IH)
    qed
  qed simp
  then show ?case using h by (simp only: m)
qed simp

lemma HEX_CVT_chars: "c \<in> set (HEX_CVT cnt i) \<Longrightarrow> \<exists>n < 16. c = hex_digit n"
  by (induction cnt arbitrary: i) (auto split: if_splits intro: nat_mod_16)

lemma hex_digit_other: "n < 16 \<Longrightarrow> hex_digit n \<noteq> CHR ''_'' \<and> hex_digit n \<noteq> CHR ''/''"
proof -
  have "list_all (\<lambda>n. hex_digit n \<noteq> CHR ''_'' \<and> hex_digit n \<noteq> CHR ''/'') [0..<16]"
    by (simp add: hex_digit_def upt_rec [of _ 16] upt_rec numeral_eq_Suc)
  moreover assume "n < 16"
  ultimately show ?thesis by (simp add: list_all_iff)
qed

lemma HEX_CVT_no: "CHR ''_'' \<notin> set (HEX_CVT cnt i)" "CHR ''/'' \<notin> set (HEX_CVT cnt i)"
  using HEX_CVT_chars hex_digit_other by metis+

lemma HEX_CVT_range:
  assumes "i \<in> {- (2 ^ 63)..<2 ^ 63}" and "j \<in> {- (2 ^ 63)..<2 ^ 63}"
    and "HEX_CVT HEX_STR_SIZE i = HEX_CVT HEX_STR_SIZE j"
  shows "i = j"
proof -
  have "i mod 2 ^ 64 = j mod 2 ^ 64"
    using HEX_CVT_inj [OF assms(3)] by (simp add: HEX_STR_SIZE_def)
  then have "(i - j) mod 2 ^ 64 = 0" by (simp add: mod_eq_dvd_iff dvd_imp_mod_0)
  moreover have "- (2 ^ 64) < i - j" "i - j < 2 ^ 64" using assms(1,2) by auto
  ultimately show ?thesis by (smt (verit, best) mod_pos_pos_trivial mod_add_self2)
qed

lemma append_mark:
  assumes "x \<notin> set a" and "x \<notin> set b" and "a @ x # c = b @ x # d"
  shows "a = b \<and> c = d"
proof -
  have t: "takeWhile (\<lambda>y. y \<noteq> x) (l @ x # r) = l" if "x \<notin> set l" for l r
    using that by (induction l) auto
  have "a = b" using t [OF assms(1)] t [OF assms(2)] assms(3) by metis
  then show ?thesis using assms(3) by simp
qed

theorem devino_str_inj:
  assumes "in_range a" and "in_range b" and "devino_str a = devino_str b"
  shows "a = b"
proof -
  have "HEX_CVT HEX_STR_SIZE (d_ino a) = HEX_CVT HEX_STR_SIZE (d_ino b) \<and>
      HEX_CVT HEX_STR_SIZE (d_dev a) = HEX_CVT HEX_STR_SIZE (d_dev b)"
    using assms(3) append_mark [OF HEX_CVT_no(1) HEX_CVT_no(1)] by (simp add: devino_str_def)
  then have "d_ino a = d_ino b" "d_dev a = d_dev b"
    using assms(1,2) HEX_CVT_range by (auto simp: in_range_def)
  then show ?thesis by simp
qed

lemma HEX_CVT_length: "length (HEX_CVT cnt i) \<le> cnt"
  by (induction cnt arbitrary: i) auto

lemma devino_str_length: "length (devino_str d) < DEVINO_STR_SIZE"
  using HEX_CVT_length [of HEX_STR_SIZE "d_ino d"] HEX_CVT_length [of HEX_STR_SIZE "d_dev d"]
  by (simp add: devino_str_def DEVINO_STR_SIZE_def)

definition abs_path :: "string \<Rightarrow> bool" where
  "abs_path p \<longleftrightarrow> (\<exists>q. p = CHR ''/'' # q)"

lemma devino_str_rel: "\<not> abs_path (devino_str d)"
proof
  assume "abs_path (devino_str d)"
  then have h: "hd (HEX_CVT HEX_STR_SIZE (d_ino d) @ CHR ''_'' # HEX_CVT HEX_STR_SIZE (d_dev d)) = CHR ''/''"
    by (auto simp: devino_str_def abs_path_def)
  have ne: "HEX_CVT HEX_STR_SIZE (d_ino d) \<noteq> []" by (simp add: HEX_STR_SIZE_def numeral_eq_Suc)
  then show False using h HEX_CVT_no(2) by (metis hd_append2 hd_in_set)
qed

lemma abs_path_simps: "abs_path p \<Longrightarrow> p \<noteq> '''' \<and> p \<noteq> ''.''"
  by (auto simp: abs_path_def)

section \<open>Counting references\<close>

definition users :: "cstate \<Rightarrow> cptr \<Rightarrow> string set" where
  "users s p = {k. \<exists>scr. scr_hash s k = Some scr \<and> last_cwd scr = Some p}"

text \<open>\<open>loose\<close>: the \<open>SpeedyCwd\<close> that may be unused for the moment.\<close>

definition cinv :: "cptr set \<Rightarrow> cstate \<Rightarrow> bool" where
  "cinv loose s \<longleftrightarrow> finite (dom (scr_hash s)) \<and>
     (\<forall>p c. cwds s p = Some c \<longrightarrow> refcnt c = int (card (users s p)) \<and> p < cwd_brk s \<and> (p \<notin> loose \<longrightarrow> users s p \<noteq> {})) \<and>
     (\<forall>k p. cwd_hash s k = Some p \<longrightarrow> (\<exists>c. cwds s p = Some c \<and> (k = devino_str (cdevino c) \<or> k = cpath c))) \<and>
     (\<forall>p. users s p \<noteq> {} \<longrightarrow> cwds s p \<noteq> None)"

lemma cinv_hash: "cinv L s \<Longrightarrow> cwd_hash s k = Some p \<Longrightarrow>
    \<exists>c. cwds s p = Some c \<and> (k = devino_str (cdevino c) \<or> k = cpath c)"
  unfolding cinv_def by blast

lemma cinv_cwd: "cinv L s \<Longrightarrow> cwds s p = Some c \<Longrightarrow>
    refcnt c = int (card (users s p)) \<and> p < cwd_brk s \<and> (p \<notin> L \<longrightarrow> users s p \<noteq> {})"
  unfolding cinv_def by blast

lemma cinv_users: "cinv L s \<Longrightarrow> users s p \<noteq> {} \<Longrightarrow> cwds s p \<noteq> None"
  unfolding cinv_def by blast

lemma cinv_scripts: "cinv L s \<Longrightarrow> finite (dom (scr_hash s))"
  unfolding cinv_def by blast

lemma users_finite: "cinv L s \<Longrightarrow> finite (users s p)"
  by (rule finite_subset [of _ "dom (scr_hash s)"]) (auto simp: users_def cinv_def)

text \<open>Only the process has moved.\<close>

definition walk :: "cstate \<Rightarrow> cstate \<Rightarrow> bool" where
  "walk s t \<longleftrightarrow> cwds t = cwds s \<and> cwd_brk t = cwd_brk s \<and> cwd_hash t = cwd_hash s \<and> scr_hash t = scr_hash s"

lemma walk_refl [simp, intro]: "walk s s" by (simp add: walk_def)
lemma walk_trans: "walk s t \<Longrightarrow> walk t u \<Longrightarrow> walk s u" by (simp add: walk_def)

lemma walk_moves [simp]: "walk s (t\<lparr>cwd_calls := n\<rparr>) = walk s t" "walk s (t\<lparr>here := d\<rparr>) = walk s t"
  "walk s (t\<lparr>cwd_fd := f\<rparr>) = walk s t"
  by (simp_all add: walk_def)

lemma walk_users: "walk s t \<Longrightarrow> users t = users s"
  by (simp add: walk_def users_def fun_eq_iff)

lemma walk_cinv: "walk s t \<Longrightarrow> cinv L t = cinv L s"
  unfolding cinv_def walk_def users_def by (elim conjE) (simp only:)

lemma wp_sys_call [wps]: "wp (sys_call f) Q s = Q (f (cwd_calls s)) (s\<lparr>cwd_calls := Suc (cwd_calls s)\<rparr>)"
  by (simp add: sys_call_def wps)

lemma wp_get_cwd [wps]: "wp (get_cwd p) Q s \<longleftrightarrow> (\<exists>c. cwds s p = Some c \<and> Q c s)"
  by (simp add: wp_def get_cwd_def split: option.splits)

lemma stat_cwd_fd_walk: "wp (stat_cwd_fd e) (\<lambda>_ t. walk s t) s"
  by (auto simp: stat_cwd_fd_def wps split: option.splits)

lemma chdir_path_walk: "wp (chdir_path e p d) (\<lambda>_ t. walk s t) s"
  by (auto simp: chdir_path_def stat_cwd_fd_def wps split: option.splits)

lemma quick_cd_walk: "wp (quick_cd e d) (\<lambda>_ t. walk s t) s"
proof -
  have "wp (chdir_path e (Some ''.'') x) (\<lambda>_ t. walk s t) u" if "walk s u" for x u
    by (rule wp_mono [OF chdir_path_walk]) (rule walk_trans [OF that])
  then show ?thesis
    by (auto simp: quick_cd_def stat_cwd_fd_def wps split_beta split: option.splits)
qed

section \<open>New and dropped directories\<close>

lemma put_cwd_users: "users (s\<lparr>cwds := x\<rparr>) = users s" "users (s\<lparr>cwd_hash := y\<rparr>) = users s"
  "users (s\<lparr>cwd_brk := b\<rparr>) = users s"
  by (simp_all add: users_def fun_eq_iff)

lemma cinv_mono: "cinv L s \<Longrightarrow> L \<subseteq> M \<Longrightarrow> cinv M s"
  unfolding cinv_def by blast

definition inserted :: "speedy_cwd \<Rightarrow> cstate \<Rightarrow> cstate" where
  "inserted c t = t\<lparr>cwd_brk := Suc (cwd_brk t), cwds := (cwds t)(cwd_brk t := Some c),
     cwd_hash := ((cwd_hash t)(devino_str (cdevino c) := Some (cwd_brk t)))(cpath c := Some (cwd_brk t))\<rparr>"

lemma inserted_simps [simp]: "cwd_brk (inserted c t) = Suc (cwd_brk t)" "users (inserted c t) = users t"
  "scr_hash (inserted c t) = scr_hash t"
  "cwds (inserted c t) p = (if p = cwd_brk t then Some c else cwds t p)"
  "cwd_hash (inserted c t) k =
     (if k = cpath c \<or> k = devino_str (cdevino c) then Some (cwd_brk t) else cwd_hash t k)"
  by (simp_all add: inserted_def users_def fun_eq_iff)

lemma cinv_inserted:
  assumes I: "cinv {} t" and c: "refcnt c = 0"
  shows "cinv {cwd_brk t} (inserted c t)" and "cwds t (cwd_brk t) = None"
proof -
  show fr: "cwds t (cwd_brk t) = None" using I unfolding cinv_def by (metis less_irrefl not_None_eq)
  then have nu: "users t (cwd_brk t) = {}" using I unfolding cinv_def by blast
  have old: "\<exists>d. cwds t p = Some d \<and> (k = devino_str (cdevino d) \<or> k = cpath d)" if "cwd_hash t k = Some p" for k p
    using I that unfolding cinv_def by blast
  have ref: "refcnt d = int (card (users t p)) \<and> p < cwd_brk t \<and> users t p \<noteq> {}" if "cwds t p = Some d" for p d
    using I that unfolding cinv_def by blast
  show "cinv {cwd_brk t} (inserted c t)"
    unfolding cinv_def
  proof (intro conjI allI impI)
    show "finite (dom (scr_hash (inserted c t)))" using I by (simp add: cinv_def)
  next
    fix p d assume d: "cwds (inserted c t) p = Some d"
    then show "refcnt d = int (card (users (inserted c t) p))" using ref [of p d] nu c by (simp split: if_splits)
    show "p < cwd_brk (inserted c t)" using d ref [of p d] by (simp split: if_splits)
    show "users (inserted c t) p \<noteq> {}" if "p \<notin> {cwd_brk t}" using d that ref [of p d] by simp
  next
    fix k p assume k: "cwd_hash (inserted c t) k = Some p"
    then show "\<exists>d. cwds (inserted c t) p = Some d \<and> (k = devino_str (cdevino d) \<or> k = cpath d)"
      using old [of k p] fr by (auto split: if_splits)
  next
    fix p assume "users (inserted c t) p \<noteq> {}"
    then show "cwds (inserted c t) p \<noteq> None" using I by (simp add: cinv_def)
  qed
qed

definition made :: "cstate \<Rightarrow> cptr option \<Rightarrow> cstate \<Rightarrow> bool" where
  "made s r t \<longleftrightarrow> scr_hash t = scr_hash s \<and>
     (case r of None \<Rightarrow> walk s t
      | Some p \<Rightarrow> cinv {p} t \<and> cwds t p \<noteq> None \<and> cwds s p = None \<and> (\<forall>q. q \<noteq> p \<longrightarrow> cwds t q = cwds s q))"

lemma cwd_new_spec:
  assumes I: "cinv {} s"
  shows "wp (cwd_new e path) (made s) s"
proof (cases path)
  case (Some x)
  have ins: "wp (bnd (cwd_insert x d) (\<lambda>p. ret (Some p))) (made s) t" if w: "walk s t" for d t
  proof -
    let ?c = "\<lparr>refcnt = 0, cpath = x, cdevino = d\<rparr>"
    have I': "cinv {} t" using I walk_cinv [OF w] by simp
    note n = cinv_inserted [OF I', of ?c]
    have "made s (Some (cwd_brk t)) (inserted ?c t)" using n w by (simp add: made_def walk_def)
    then show ?thesis by (simp add: cwd_insert_def put_cwd_def hash_set_def wps inserted_def)
  qed
  have "wp (chdir_path e (Some x) (Some g)) (\<lambda>(retval, devino). wp (if retval = - 1 then ret None
        else bnd (cwd_insert x (the devino)) (\<lambda>p. ret (Some p))) (made s)) u"
    if u: "walk s u" for g u
  proof (rule wp_mono [OF chdir_path_walk], clarify)
    fix retval :: int and devino t assume "walk u t"
    then have w: "walk s t" using walk_trans u by blast
    then have "made s None t" by (simp add: made_def walk_def)
    then show "wp (if retval = - 1 then ret None else bnd (cwd_insert x (the devino)) (\<lambda>p. ret (Some p))) (made s) t"
      using ins [OF w] by (simp add: wp_ret)
  qed
  then have "wp (bnd (chdir_path e (Some x) (Some g)) (\<lambda>(retval, devino). if retval = - 1 then ret None
        else bnd (cwd_insert x (the devino)) (\<lambda>p. ret (Some p)))) (made s) u"
    if "walk s u" for g u
    using that by (simp only: wp_bnd split_def)
  from this [of "s\<lparr>cwd_calls := Suc (cwd_calls s)\<rparr>" "garbage e (cwd_calls s)"] show ?thesis
    unfolding cwd_new_def Some option.sel by (simp only: option.distinct if_False wp_bnd wp_sys_call) simp
qed (simp add: cwd_new_def wps made_def)

section \<open>Storing and dropping\<close>

lemma users_stored: "users (s\<lparr>scr_hash := (scr_hash s)(key := map_option (\<lambda>scr. scr\<lparr>last_cwd := Some p\<rparr>) (scr_hash s key))\<rparr>) q =
    (if scr_hash s key = None then users s q else if q = p then insert key (users s q) else users s q - {key})"
  by (auto simp: users_def split: if_splits)

lemma cinv_tighten: "cinv {q} t \<Longrightarrow> users t q \<noteq> {} \<Longrightarrow> cinv {} t"
  unfolding cinv_def by (metis singletonD)

text \<open>After the count of \<open>q\<close> has one script too many.\<close>

lemma cwd_refcnt_dec_spec:
  assumes I: "cinv {q} (s\<lparr>cwds := (cwds s)(q := Some (c\<lparr>refcnt := refcnt c - 1\<rparr>))\<rparr>)" and q: "cwds s q = Some c"
  shows "wp (cwd_refcnt_dec q) (\<lambda>_ t. cinv {} t \<and> scr_hash t = scr_hash s) s"
proof -
  let ?c = "c\<lparr>refcnt := refcnt c - 1\<rparr>"
  let ?t = "s\<lparr>cwds := (cwds s)(q := Some ?c)\<rparr>"
  have fin: "finite (users s q)" using users_finite [OF I, of q] by (simp add: put_cwd_users)
  have "cwds ?t q = Some ?c" by simp
  then have "refcnt ?c = int (card (users ?t q))" using cinv_cwd [OF I] by blast
  then have rq: "refcnt c - 1 = int (card (users s q))" by (simp add: put_cwd_users)
  show ?thesis
  proof (cases "refcnt c - 1 = 0")
    case False
    then have "users s q \<noteq> {}" using rq by auto
    then have "cinv {} ?t" by (intro cinv_tighten [OF I]) (simp add: put_cwd_users)
    then show ?thesis using q False by (simp add: cwd_refcnt_dec_def put_cwd_def wps)
  next
    case True
    then have nu: "users s q = {}" using rq fin by simp
    let ?h = "((cwd_hash s)(devino_str (cdevino c) := None))(cpath c := None)"
    let ?u = "s\<lparr>cwd_hash := ?h, cwds := (cwds s)(q := None)\<rparr>"
    have old: "\<exists>d. cwds ?t p = Some d \<and> (k = devino_str (cdevino d) \<or> k = cpath d)" if "cwd_hash s k = Some p" for k p
      by (rule cinv_hash [OF I]) (use that in simp)
    have "cinv {} ?u"
      unfolding cinv_def
    proof (intro conjI allI impI)
      show "finite (dom (scr_hash ?u))" using cinv_scripts [OF I] by simp
    next
      fix p d assume "cwds ?u p = Some d"
      then have "cwds ?t p = Some d" "p \<noteq> q" by (auto split: if_splits)
      then have *: "refcnt d = int (card (users ?t p)) \<and> p < cwd_brk ?t \<and> users ?t p \<noteq> {}"
        using cinv_cwd [OF I] by blast
      then show "refcnt d = int (card (users ?u p))" "p < cwd_brk ?u" "users ?u p \<noteq> {}"
        by (simp_all add: users_def)
    next
      fix k p assume k: "cwd_hash ?u k = Some p"
      then have k': "cwd_hash s k = Some p" "k \<noteq> devino_str (cdevino c)" "k \<noteq> cpath c" by (auto split: if_splits)
      then have "p \<noteq> q" using old [of k p] by auto
      then show "\<exists>d. cwds ?u p = Some d \<and> (k = devino_str (cdevino d) \<or> k = cpath d)"
        using old [OF k'(1)] by simp
    next
      fix p assume "users ?u p \<noteq> {}"
      then have "users s p \<noteq> {}" by (simp add: users_def)
      moreover from this have "p \<noteq> q" using nu by auto
      ultimately show "cwds ?u p \<noteq> None" using cinv_users [OF I, of p] by (simp add: put_cwd_users)
    qed
    then show ?thesis using q True by (simp add: cwd_refcnt_dec_def put_cwd_def hash_set_def wps)
  qed
qed

text \<open>
  A script takes over a directory, new or already in use, and leaves the one it was in: nobody points
  to a freed one, and every one left is in use.
\<close>

lemma store_last_cwd_spec:
  assumes I: "cinv {p} s" and p: "cwds s p \<noteq> None" and k: "scr_hash s key \<noteq> None"
  shows "wp (store_last_cwd key (Some p)) (\<lambda>_ t. cinv {} t \<and> dom (scr_hash t) = dom (scr_hash s)) s"
proof -
  obtain c where c: "cwds s p = Some c" using p by blast
  obtain scr where scr: "scr_hash s key = Some scr" using k by blast
  let ?c = "c\<lparr>refcnt := refcnt c + 1\<rparr>"
  let ?h = "(scr_hash s)(key := map_option (\<lambda>scr. scr\<lparr>last_cwd := Some p\<rparr>) (scr_hash s key))"
  let ?t = "s\<lparr>cwds := (cwds s)(p := Some ?c), scr_hash := ?h\<rparr>"
  have u: "users ?t q = (if q = p then insert key (users s q) else users s q - {key})" for q
    using users_stored [of s key p q] scr by (simp add: users_def)
  have fin: "finite (users s q)" for q by (rule users_finite [OF I])
  have d: "dom ?h = dom (scr_hash s)" using scr by auto
  have prev: "key \<in> users s q \<longleftrightarrow> last_cwd scr = Some q" for q using scr by (auto simp: users_def)
  have cp: "refcnt c = int (card (users s p))" using cinv_cwd [OF I c] by blast
  text \<open>All that is left to settle is the count of the directory the script was in.\<close>
  have base: "cinv {q} v"
    if v: "scr_hash v = ?h" "cwd_hash v = cwd_hash s" "cwd_brk v = cwd_brk s"
      and q: "\<And>x e. cwds v x = Some e \<Longrightarrow> \<exists>e'. cwds s x = Some e' \<and> cpath e = cpath e' \<and> cdevino e = cdevino e' \<and>
        refcnt e = int (card (users ?t x))" "\<And>x. cwds v x = None \<longleftrightarrow> cwds s x = None"
      and one: "\<And>x. x \<noteq> p \<Longrightarrow> x \<noteq> q \<Longrightarrow> key \<notin> users s x" for v q
  proof -
    have uv: "users v = users ?t" using v(1) by (simp add: users_def fun_eq_iff)
    show ?thesis
      unfolding cinv_def
    proof (intro conjI allI impI)
      show "finite (dom (scr_hash v))" using cinv_scripts [OF I] d v(1) by simp
    next
      fix x e assume x: "cwds v x = Some e"
      show "refcnt e = int (card (users v x))" using q(1) [OF x] uv by auto
      obtain e' where e': "cwds s x = Some e'" using q(1) [OF x] by blast
      show "x < cwd_brk v" using cinv_cwd [OF I e'] v(3) by simp
      show "users v x \<noteq> {}" if "x \<notin> {q}"
        using cinv_cwd [OF I e'] u [of x] one [of x] that uv by (cases "x = p") auto
    next
      fix k x assume "cwd_hash v k = Some x"
      then obtain e where e: "cwds s x = Some e" "k = devino_str (cdevino e) \<or> k = cpath e"
        using cinv_hash [OF I] v(2) by metis
      then obtain e' where "cwds v x = Some e'" using q(2) [of x] by fastforce
      then show "\<exists>c. cwds v x = Some c \<and> (k = devino_str (cdevino c) \<or> k = cpath c)"
        using q(1) [of x e'] e by auto
    next
      fix x assume "users v x \<noteq> {}"
      then have "x = p \<or> users s x \<noteq> {}" using u [of x] uv by (auto split: if_splits)
      then show "cwds v x \<noteq> None" using cinv_users [OF I, of x] p q(2) [of x] by auto
    qed
  qed
  have old: "refcnt e = int (card (users s x))" if "cwds s x = Some e" for x e using cinv_cwd [OF I that] by blast
  have fin_none: "cinv {} ?t" if n: "last_cwd scr = None"
  proof (rule cinv_tighten [of p])
    show "cinv {p} ?t"
    proof (rule base)
      fix x e assume x: "cwds ?t x = Some e"
      have "key \<notin> users s x" using prev n by simp
      then show "\<exists>e'. cwds s x = Some e' \<and> cpath e = cpath e' \<and> cdevino e = cdevino e' \<and> refcnt e = int (card (users ?t x))"
        using x c old [of x] u [of x] fin [of x] by (cases "x = p") auto
    qed (use c prev n in auto)
    show "users ?t p \<noteq> {}" using u by simp
  qed
  have fin_some: "wp (cwd_refcnt_dec q) (\<lambda>_ t. cinv {} t \<and> scr_hash t = scr_hash ?t) ?t" if n: "last_cwd scr = Some q" for q
  proof -
    have kq: "key \<in> users s q" "\<And>x. key \<in> users s x \<Longrightarrow> x = q" using prev n by auto
    have "cwds s q \<noteq> None" using cinv_users [OF I] kq(1) by blast
    then obtain e where e: "cwds ?t q = Some e" using c by (cases "q = p") auto
    show ?thesis
    proof (rule cwd_refcnt_dec_spec [OF _ e])
      show "cinv {q} (?t\<lparr>cwds := (cwds ?t)(q := Some (e\<lparr>refcnt := refcnt e - 1\<rparr>))\<rparr>)"
      proof (rule base)
        fix x f assume x: "cwds (?t\<lparr>cwds := (cwds ?t)(q := Some (e\<lparr>refcnt := refcnt e - 1\<rparr>))\<rparr>) x = Some f"
        have cd: "int (card (users ?t x)) = int (card (users s x)) + (if x = p then 1 else 0) - (if x = q then 1 else 0)"
        proof (cases "x = q")
          case True
          then have "key \<in> users s x" using kq(1) by simp
          moreover from this have "0 < card (users s x)" using fin [of x] card_gt_0_iff by blast
          ultimately show ?thesis using u [of x] True
            by (cases "q = p") (auto simp: insert_absorb card_Diff_singleton_if of_nat_diff)
        next
          case False
          then have "key \<notin> users s x" using kq(2) by blast
          then show ?thesis using u [of x] fin [of x] False by (cases "x = p") auto
        qed
        show "\<exists>e'. cwds s x = Some e' \<and> cpath f = cpath e' \<and> cdevino f = cdevino e' \<and> refcnt f = int (card (users ?t x))"
          using x e c old [of x] unfolding cd by (cases "x = q"; cases "x = p") auto
      qed (use c e kq(2) in \<open>auto split: if_splits\<close>)
    qed
  qed
  have sc: "wp (script_cwd key) R s = R (last_cwd scr) s" for R using scr by (simp add: script_cwd_def wps)
  show ?thesis
  proof (cases "last_cwd scr")
    case None
    then show ?thesis using fin_none c d scr
      by (simp add: store_last_cwd_def wp_bnd sc) (simp add: wps put_cwd_def set_script_cwd_def)
  next
    case (Some q)
    have "wp (cwd_refcnt_dec q) (\<lambda>_ t. cinv {} t \<and> dom (scr_hash t) = dom (scr_hash s)) ?t"
      by (rule wp_mono [OF fin_some [OF Some]]) (use d in simp)
    then show ?thesis using Some c scr
      by (simp add: store_last_cwd_def wp_bnd sc) (simp add: wps put_cwd_def set_script_cwd_def)
  qed
qed

section \<open>Going to the directory of a run\<close>

text \<open>What the hashes guarantee between two runs.\<close>

definition cwd_ok :: "string \<Rightarrow> cstate \<Rightarrow> bool" where
  "cwd_ok key s \<longleftrightarrow> cinv {} s \<and> scr_hash s key \<noteq> None"

lemma cwd_ok_walk: "walk s t \<Longrightarrow> cwd_ok key t = cwd_ok key s"
  using walk_cinv [of s t "{}"] by (simp add: cwd_ok_def walk_def)

lemma find_scr_spec:
  assumes I: "cinv {} s"
  shows "wp (find_scr d) (\<lambda>(key, is_new) t. cwd_ok key t \<and> key = devino_str d \<and> is_new = (scr_hash s key = None)) s"
proof -
  let ?k = "devino_str d"
  let ?t = "s\<lparr>scr_hash := (scr_hash s)(?k \<mapsto> \<lparr>handler = False, last_cwd = None\<rparr>)\<rparr>"
  have "cinv {} ?t" if n: "scr_hash s ?k = None"
  proof -
    have u: "users ?t = users s" using n by (auto simp: users_def fun_eq_iff)
    show ?thesis
      unfolding cinv_def u using cinv_scripts [OF I] cinv_cwd [OF I] cinv_hash [OF I] cinv_users [OF I] by simp
  qed
  then show ?thesis
    using I by (auto simp: find_scr_def Let_def wps cwd_ok_def split: option.splits)
qed

lemma stored_spec:
  assumes K: "cwd_ok key s" and m: "made s r t" and r: "r = Some p"
  shows "wp (store_last_cwd key r) (\<lambda>_ t. cwd_ok key t) t"
proof -
  have t: "cinv {p} t" "cwds t p \<noteq> None" "scr_hash t key \<noteq> None"
    using K m r by (simp_all add: made_def cwd_ok_def)
  show ?thesis unfolding r
    by (rule wp_mono [OF store_last_cwd_spec [OF t]]) (use t(3) in \<open>auto simp: cwd_ok_def domIff\<close>)
qed

lemma kept_spec:
  assumes K: "cwd_ok key s" and p: "cwds s p \<noteq> None"
  shows "wp (store_last_cwd key (Some p)) (\<lambda>_ t. cwd_ok key t) s"
proof -
  have "cinv {p} s" "scr_hash s key \<noteq> None" using K cinv_mono [of "{}" s "{p}"] by (simp_all add: cwd_ok_def)
  from store_last_cwd_spec [OF this(1) p this(2)] show ?thesis
    by (rule wp_mono) (use K in \<open>auto simp: cwd_ok_def domIff\<close>)
qed

lemma chdir_walk: "walk s u \<Longrightarrow> wp (chdir_path e p x) (\<lambda>r t. walk s t) u"
  by (rule wp_mono [OF chdir_path_walk]) (rule walk_trans)

lemma script_cwd_alive:
  assumes "cinv {} s" and "scr_hash s key = Some scr" and "last_cwd scr = Some p"
  shows "cwds s p \<noteq> None"
proof -
  have "key \<in> users s p" using assms(2,3) by (auto simp: users_def)
  then show ?thesis using cinv_users [OF assms(1)] by blast
qed

lemma cwd_by_script_spec:
  assumes I: "cinv {} s"
  shows "wp (cwd_by_script e key d) (\<lambda>r t. walk s t) s"
  using script_cwd_alive [OF I, of key] chdir_walk [OF walk_refl]
  by (auto simp: cwd_by_script_def script_cwd_def wps split: option.splits)

lemma cwd_by_hash_spec:
  assumes I: "cinv {} s"
  shows "wp (cwd_by_hash e d) (\<lambda>(done, r) t. walk s t \<and> (\<forall>p. r = Some p \<longrightarrow> cwds t p \<noteq> None)) s"
proof (cases "cwd_hash s (devino_str d)")
  case None
  then show ?thesis by (simp add: cwd_by_hash_def find_cwd_def wps)
next
  case (Some p)
  then obtain c where c: "cwds s p = Some c" using cinv_hash [OF I, of _ p] by blast
  have "wp (chdir_path e (Some (cpath c)) None) (\<lambda>r t. walk s t \<and> cwds t p \<noteq> None) s"
    by (rule wp_mono [OF chdir_path_walk]) (use c in \<open>simp add: walk_def\<close>)
  then show ?thesis using Some c by (simp add: cwd_by_hash_def find_cwd_def wps)
qed

lemma cwd_cached_spec:
  assumes I: "cinv {} s"
  shows "wp (cwd_cached e key d) (\<lambda>(done, r) t. walk s t \<and> (\<forall>p. r = Some p \<longrightarrow> cwds t p \<noteq> None)) s"
    (is "wp _ ?Q s")
proof -
  have h: "wp (if x then ret (True, None) else cwd_by_hash e d) ?Q u" if w: "walk s u" for x u
  proof (cases x)
    case False
    have "wp (cwd_by_hash e d) ?Q u"
      by (rule wp_mono [OF cwd_by_hash_spec]) (use I w walk_cinv [OF w] walk_trans [OF w] in auto)
    then show ?thesis using False by simp
  qed (use w in \<open>simp add: wp_ret\<close>)
  have "wp (if x then ret (True, None) else bnd (cwd_by_script e key d) (\<lambda>done.
       if done then ret (True, None) else cwd_by_hash e d)) ?Q u" if w: "walk s u" for x u
  proof (cases x)
    case False
    have "wp (cwd_by_script e key d) (\<lambda>x. wp (if x then ret (True, None) else cwd_by_hash e d) ?Q) u"
      by (rule wp_mono [OF cwd_by_script_spec])
        (use I walk_cinv [OF w] in simp, rule h, rule walk_trans [OF w])
    then show ?thesis using False by (simp add: wp_bnd)
  qed (use w in \<open>simp add: wp_ret\<close>)
  then show ?thesis unfolding cwd_cached_def wp_bnd by (rule wp_mono [OF quick_cd_walk])
qed

text \<open>
  Whatever the system answers, a run leaves the hashes in order: no \<open>SpeedyCwd\<close> that is freed is used,
  and none stays behind that no script is in.
\<close>

theorem cwd_from_frontend_spec:
  assumes K: "cwd_ok key s"
  shows "wp (cwd_from_frontend e key fe_cwd dir) (\<lambda>_. cwd_ok key) s"
proof -
  have I: "cinv {} s" using K by (simp add: cwd_ok_def)
  have store: "wp (whenM (r \<noteq> None) (store_last_cwd key r)) (\<lambda>_. cwd_ok key) t"
    if "cwd_ok key t" "\<And>p. r = Some p \<Longrightarrow> cwds t p \<noteq> None" for r t
    using that kept_spec by (cases r) (auto simp: wps)
  have new: "wp (whenM (r \<noteq> None) (store_last_cwd key r)) (\<lambda>_. cwd_ok key) u"
    if "cwd_ok key t" "made t r u" for r t u
  proof (cases r)
    case None
    then show ?thesis using that cwd_ok_walk [of t u key] by (simp add: wps made_def)
  next
    case (Some p)
    show ?thesis using stored_spec [OF that Some] Some by (simp add: wps)
  qed
  have rest: "wp (if x \<or> dir = None then ret r else cwd_new e dir)
      (\<lambda>r. wp (whenM (r \<noteq> None) (store_last_cwd key r)) (\<lambda>_. cwd_ok key)) t"
    if w: "walk s t" and r: "\<And>p. r = Some p \<Longrightarrow> cwds t p \<noteq> None" for x r t
  proof -
    have k: "cwd_ok key t" using K cwd_ok_walk [OF w] by simp
    have n: "wp (cwd_new e dir) (\<lambda>r. wp (whenM (r \<noteq> None) (store_last_cwd key r)) (\<lambda>_. cwd_ok key)) t"
      by (rule wp_mono [OF cwd_new_spec]) (use k new [OF k] in \<open>auto simp: cwd_ok_def\<close>)
    have s: "wp (whenM (r \<noteq> None) (store_last_cwd key r)) (\<lambda>_. cwd_ok key) t"
      by (rule store [OF k r])
    show ?thesis
    proof (cases "x \<or> dir = None")
      case True
      then show ?thesis using s by (simp only: if_True wp_ret)
    next
      case False
      then show ?thesis using n by (simp only: if_False)
    qed
  qed
  have "wp (case fe_cwd of None \<Rightarrow> ret (False, None) | Some d \<Rightarrow> cwd_cached e key d)
      (\<lambda>(x, r). wp (if x \<or> dir = None then ret r else cwd_new e dir)
        (\<lambda>r. wp (whenM (r \<noteq> None) (store_last_cwd key r)) (\<lambda>_. cwd_ok key))) s"
  proof (cases fe_cwd)
    case None
    have "wp (if dir = None then ret None else cwd_new e dir)
        (\<lambda>r. wp (whenM (r \<noteq> None) (store_last_cwd key r)) (\<lambda>_. cwd_ok key)) s"
      using rest [of s None False] by simp
    then show ?thesis using None by (simp add: wp_ret)
  next
    case (Some d)
    have "wp (cwd_cached e key d) (\<lambda>(x, r). wp (if x \<or> dir = None then ret r else cwd_new e dir)
        (\<lambda>r. wp (whenM (r \<noteq> None) (store_last_cwd key r)) (\<lambda>_. cwd_ok key))) s"
      by (rule wp_mono [OF cwd_cached_spec [OF I]]) (use rest in blast)
    then show ?thesis using Some by simp
  qed
  then show ?thesis
    unfolding cwd_from_frontend_def
    by (simp only: wp_bnd wp_thenM wp_seqM_Cons wp_seqM_Nil wp_ret split_def)
qed

text \<open>
  The other way of asking for a directory can only fail where the code does not look: if the
  directory of the script cannot be entered.
\<close>

definition null_only :: "cdeath \<Rightarrow> bool" where "null_only x \<longleftrightarrow> x = Null_deref"

theorem cwd_in_script_spec:
  assumes K: "cwd_ok key s"
  shows "wpx False (cwd_in_script e key path) (\<lambda>_. cwd_ok key) null_only s"
proof -
  have I: "cinv {} s" using K by (simp add: cwd_ok_def)
  have store: "wpx False (store_last_cwd key r) (\<lambda>_. cwd_ok key) null_only u"
    if "cwd_ok key t" "made t r u" for r t u
  proof (cases r)
    case None
    then show ?thesis by (simp add: store_last_cwd_def script_cwd_def wpxs null_only_def)
  next
    case (Some p)
    show ?thesis by (rule wpx_wp [OF stored_spec [OF that Some]])
  qed
  have keep: "wpx False (store_last_cwd key r) (\<lambda>_. cwd_ok key) null_only t"
    if r: "cwd_ok key t" "\<And>p. r = Some p \<Longrightarrow> cwds t p \<noteq> None" for r t
  proof (cases r)
    case None
    then show ?thesis by (simp add: store_last_cwd_def script_cwd_def wpxs null_only_def)
  next
    case (Some p)
    show ?thesis unfolding Some by (rule wpx_wp [OF kept_spec]) (use r Some in auto)
  qed
  have rest: "wpx False (if x then ret r else cwd_new e (Some dir))
      (\<lambda>r. wpx False (store_last_cwd key r) (\<lambda>_. cwd_ok key) null_only) null_only t"
    if w: "walk s t" and r: "\<And>p. r = Some p \<Longrightarrow> cwds t p \<noteq> None" for x r t dir
  proof -
    have k: "cwd_ok key t" using K cwd_ok_walk [OF w] by simp
    have n: "wpx False (cwd_new e (Some dir)) (\<lambda>r. wpx False (store_last_cwd key r) (\<lambda>_. cwd_ok key) null_only) null_only t"
      by (rule wpx_mono [OF wpx_wp [OF cwd_new_spec]]) (use k store [OF k] in \<open>auto simp: cwd_ok_def\<close>)
    show ?thesis using n keep [OF k r] by (cases x) (simp_all add: wpx_ret)
  qed
  have find: "wpx False (case sv of None \<Rightarrow> ret (None, False)
             | Some p \<Rightarrow> bnd (get_cwd p) (\<lambda>c. bnd (quick_cd e (cdevino c)) (\<lambda>done. ret (Some p, done))))
        (\<lambda>(r, x). wpx False (if x then ret r else cwd_new e (Some dir))
          (\<lambda>r. wpx False (store_last_cwd key r) (\<lambda>_. cwd_ok key) null_only) null_only) null_only s"
    if sv: "cwd_hash s dir = sv" for sv dir
  proof (cases sv)
    case None
    then show ?thesis using rest [of s None False dir] by (simp add: wpx_ret)
  next
    case (Some p)
    then obtain c where c: "cwds s p = Some c" using cinv_hash [OF I] sv by blast
    have "wp (quick_cd e (cdevino c)) (\<lambda>x t. wpx False (if x then ret (Some p) else cwd_new e (Some dir))
          (\<lambda>r. wpx False (store_last_cwd key r) (\<lambda>_. cwd_ok key) null_only) null_only t) s"
      by (rule wp_mono [OF quick_cd_walk], rule rest) (use c in \<open>auto simp: walk_def\<close>)
    then have "wpx False (quick_cd e (cdevino c)) (\<lambda>x t. wpx False (if x then ret (Some p) else cwd_new e (Some dir))
          (\<lambda>r. wpx False (store_last_cwd key r) (\<lambda>_. cwd_ok key) null_only) null_only t) null_only s"
      by (rule wpx_wp)
    moreover have "wpx False (get_cwd p) Q null_only s = Q c s" for Q
      by (rule wpx_eq) (simp add: wps c)
    ultimately show ?thesis using Some by (simp add: wpx_bnd wpx_ret)
  qed
  show ?thesis
  proof (cases "fname_dir path")
    case None
    then show ?thesis using K by (simp add: cwd_in_script_def wpxs)
  next
    case (Some dir)
    then show ?thesis
      unfolding cwd_in_script_def using find [OF refl, of dir]
      by (simp only: option.case wpx_bnd wpx_gets split_def)
  qed
qed

section \<open>The right directory\<close>

text \<open>The system at its best: directories can be opened and entered.\<close>

definition smooth :: "cenv \<Rightarrow> bool" where
  "smooth e \<longleftrightarrow> (\<forall>n. opens e n \<and> fstats e n \<and> fchdirs e n)"

text \<open>Paths still lead where they led when they were stored.\<close>

definition steady_paths :: "cenv \<Rightarrow> cstate \<Rightarrow> bool" where
  "steady_paths e s \<longleftrightarrow> (\<forall>p c. cwds s p = Some c \<longrightarrow> in_range (cdevino c) \<and> abs_path (cpath c) \<and>
     (\<forall>n. leads e n (cpath c) = Some (cdevino c)))"

lemma quick_cd_right:
  assumes "smooth e"
  shows "wp (quick_cd e d) (\<lambda>ok t. walk s t \<and> ok = (here t = d) \<and> (\<not> ok \<longrightarrow> here t = here s)) s"
  using assms
  by (auto simp: quick_cd_def stat_cwd_fd_def chdir_path_def smooth_def wps split: option.splits)

lemma chdir_path_right:
  assumes "abs_path p" and "\<And>n. leads e n p = Some d"
  shows "wp (chdir_path e (Some p) None) (\<lambda>r t. walk s t \<and> fst r \<noteq> - 1 \<and> here t = d) s"
  using assms abs_path_simps [OF assms(1)] by (simp add: chdir_path_def wps)

lemma cwd_new_right:
  assumes "smooth e" and "abs_path p" and "\<And>n. leads e n p = Some d"
  shows "wp (cwd_new e (Some p)) (\<lambda>r t. r \<noteq> None \<and> here t = d) s"
  using assms abs_path_simps [OF assms(2)]
  by (auto simp: cwd_new_def chdir_path_def cwd_insert_def put_cwd_def hash_set_def stat_cwd_fd_def smooth_def wps
    split: option.splits)

lemma store_last_cwd_here: "m = store_last_cwd key r \<Longrightarrow> m s = Ok x t \<Longrightarrow> here t = here s"
  by (auto simp: store_last_cwd_def script_cwd_def get_cwd_def put_cwd_def set_script_cwd_def cwd_refcnt_dec_def
    hash_set_def run_simps split: option.splits if_splits)

lemma cwd_cached_right:
  assumes I: "cinv {} s" and e: "smooth e" "steady_paths e s" and d: "in_range d"
  shows "wp (cwd_cached e key d) (\<lambda>x t. walk s t \<and> (fst x \<longrightarrow> here t = d) \<and> (snd x \<noteq> None \<longrightarrow> fst x)) s"
    (is "wp _ ?Q s")
proof -
  have hash: "wp (cwd_by_hash e d) ?Q t" if w: "walk s t" for t
  proof (cases "cwd_hash t (devino_str d)")
    case None
    then show ?thesis using w by (simp add: cwd_by_hash_def find_cwd_def wps)
  next
    case (Some p)
    then obtain c where c: "cwds t p = Some c" "devino_str d = devino_str (cdevino c) \<or> devino_str d = cpath c"
      using cinv_hash [OF I, of _ p] w by (auto simp: walk_def)
    have S: "in_range (cdevino c)" "abs_path (cpath c)" "\<And>n. leads e n (cpath c) = Some (cdevino c)"
      using e(2) c(1) w by (auto simp: steady_paths_def walk_def)
    have "devino_str d \<noteq> cpath c" using S(2) devino_str_rel by metis
    then have "cdevino c = d" using c(2) devino_str_inj [OF d S(1)] by simp
    then have "wp (chdir_path e (Some (cpath c)) None) (\<lambda>r t'. ?Q (fst r \<noteq> - 1, Some p) t') t"
      using walk_trans [OF w] by (intro wp_mono [OF chdir_path_right [OF S(2,3)]]) auto
    then show ?thesis using Some c(1) by (simp add: cwd_by_hash_def find_cwd_def wps)
  qed
  have scr: "wp (cwd_by_script e key d) (\<lambda>ok t. walk s t \<and> (ok \<longrightarrow> here t = d)) u" if w: "walk s u" for u
  proof -
    have one: "wp (bnd (get_cwd p) (\<lambda>c.
        if cdevino c = d then bnd (chdir_path e (Some (cpath c)) None) (\<lambda>r. ret (fst r \<noteq> - 1)) else ret False))
        (\<lambda>ok t. walk s t \<and> (ok \<longrightarrow> here t = d)) u" if p: "scr_hash u key = Some x" "last_cwd x = Some p" for p x
    proof -
      obtain c where c: "cwds u p = Some c"
        using script_cwd_alive [OF _ p] I walk_cinv [OF w, of "{}"] by auto
      have S: "abs_path (cpath c)" "\<And>n. leads e n (cpath c) = Some (cdevino c)"
        using e(2) c w by (auto simp: steady_paths_def walk_def)
      have "wp (chdir_path e (Some (cpath c)) None) (\<lambda>r t. walk s t \<and> (cdevino c = d \<longrightarrow> here t = d)) u"
        using walk_trans [OF w] by (intro wp_mono [OF chdir_path_right [OF S]]) auto
      then have "cdevino c = d \<Longrightarrow> wp (chdir_path e (Some (cpath c)) None) (\<lambda>r t. walk s t \<and> here t = d) u"
        by (rule wp_mono) auto
      then show ?thesis using c w by (auto simp: wps elim: wp_mono)
    qed
    show ?thesis
    proof (cases "case scr_hash u key of None \<Rightarrow> None | Some x \<Rightarrow> last_cwd x")
      case None
      then show ?thesis using w by (simp add: cwd_by_script_def script_cwd_def wps)
    next
      case (Some p)
      then obtain x where x: "scr_hash u key = Some x" "last_cwd x = Some p" by (auto split: option.splits)
      show ?thesis using one [OF x] x by (simp add: cwd_by_script_def script_cwd_def wp_bnd wp_gets)
    qed
  qed
  have "wp (if x then ret (True, None) else bnd (cwd_by_script e key d) (\<lambda>done.
       if done then ret (True, None) else cwd_by_hash e d)) ?Q u"
    if w: "walk s u \<and> x = (here u = d) \<and> (\<not> x \<longrightarrow> here u = here s)" for x u
  proof (cases x)
    case True
    have "walk s u" "here u = d" using w True by blast+
    then show ?thesis using True by (simp add: wp_ret)
  next
    case False
    have "wp (cwd_by_script e key d) (\<lambda>x. wp (if x then ret (True, None) else cwd_by_hash e d) ?Q) u"
    proof (rule wp_mono [OF scr])
      show "walk s u" using w by blast
      fix ok t assume t: "walk s t \<and> (ok \<longrightarrow> here t = d)"
      then show "wp (if ok then ret (True, None) else cwd_by_hash e d) ?Q t"
        using hash [of t] by (cases ok) (simp_all add: wp_ret)
    qed
    then show ?thesis using False by (simp add: wp_bnd)
  qed
  then show ?thesis unfolding cwd_cached_def wp_bnd by (rule wp_mono [OF quick_cd_right [OF e(1)]])
qed

text \<open>
  With a smooth system and paths that still lead where they led, the script runs in the directory
  the frontend is in, whether or not the frontend sent its number.
\<close>

theorem cwd_from_frontend_right:
  assumes K: "cwd_ok key s" and e: "smooth e" "steady_paths e s" and d: "in_range d"
    and fe: "fe_cwd \<in> {None, Some d}" and dir: "abs_path p" "\<And>n. leads e n p = Some d"
  shows "wp (cwd_from_frontend e key fe_cwd (Some p)) (\<lambda>_ t. here t = d) s"
proof -
  have I: "cinv {} s" using K by (simp add: cwd_ok_def)
  have store: "wp (whenM (r \<noteq> None) (store_last_cwd key r)) (\<lambda>_ t. here t = d) t"
    if m: "made u r t" and k: "cwd_ok key u" and h: "here t = d" for u r t
  proof (cases r)
    case None
    then show ?thesis using h by (simp add: wps)
  next
    case (Some x)
    from wp_imp_Ok [OF stored_spec [OF k m Some]] obtain y v where "store_last_cwd key r t = Ok y v" by blast
    then have "wp (store_last_cwd key r) (\<lambda>_ t. here t = d) t"
      using store_last_cwd_here [OF refl, of key r t y v] h by (simp add: wp_Ok)
    then show ?thesis by (simp add: wp_whenM Some)
  qed
  have new: "wp (cwd_new e (Some p)) (\<lambda>r. wp (whenM (r \<noteq> None) (store_last_cwd key r)) (\<lambda>_ t. here t = d)) u"
    if w: "walk s u" for u
  proof -
    have k: "cwd_ok key u" using K cwd_ok_walk [OF w] by simp
    then have "wp (cwd_new e (Some p)) (\<lambda>r t. made u r t \<and> r \<noteq> None \<and> here t = d) u"
      by (intro wp_conjI cwd_new_spec cwd_new_right e dir) (simp add: cwd_ok_def)
    then show ?thesis by (rule wp_mono) (use store k in blast)
  qed
  have rest: "wp (if ok \<or> Some p = None then ret r else cwd_new e (Some p))
      (\<lambda>r. wp (whenM (r \<noteq> None) (store_last_cwd key r)) (\<lambda>_ t. here t = d)) u"
    if w: "walk s u" and h: "ok \<longrightarrow> here u = d" "ok \<longrightarrow> r = None \<or> cwds u (the r) \<noteq> None" for ok r u
  proof (cases ok)
    case True
    have k: "cwd_ok key u" using K cwd_ok_walk [OF w] by simp
    have "wp (whenM (r \<noteq> None) (store_last_cwd key r)) (\<lambda>_ t. here t = d) u"
    proof (cases r)
      case None
      then show ?thesis using True h by (simp add: wps)
    next
      case (Some x)
      have "cwds u x \<noteq> None" using h(2) True Some by simp
      from wp_imp_Ok [OF kept_spec [OF k this]] obtain y v where "store_last_cwd key r u = Ok y v"
        using Some by blast
      then have "wp (store_last_cwd key r) (\<lambda>_ t. here t = d) u"
        using store_last_cwd_here [OF refl, of key r u y v] h(1) True by (simp add: wp_Ok)
      then show ?thesis by (simp add: wp_whenM Some)
    qed
    then show ?thesis using True by (simp only: simp_thms if_True wp_ret)
  next
    case False
    then show ?thesis using new [OF w] by (simp only: simp_thms option.distinct if_False)
  qed
  have "wp (case fe_cwd of None \<Rightarrow> ret (False, None) | Some d \<Rightarrow> cwd_cached e key d)
      (\<lambda>x. wp (if fst x \<or> Some p = None then ret (snd x) else cwd_new e (Some p))
        (\<lambda>r. wp (whenM (r \<noteq> None) (store_last_cwd key r)) (\<lambda>_ t. here t = d))) s"
  proof (cases fe_cwd)
    case None
    have "wp (if False \<or> Some p = None then ret None else cwd_new e (Some p))
        (\<lambda>r. wp (whenM (r \<noteq> None) (store_last_cwd key r)) (\<lambda>_ t. here t = d)) s"
      by (rule rest) auto
    then show ?thesis unfolding None option.case wp_ret fst_conv snd_conv .
  next
    case (Some d')
    have "d' = d" using fe Some by simp
    have al: "wp (cwd_cached e key d) (\<lambda>x t. \<forall>p. snd x = Some p \<longrightarrow> cwds t p \<noteq> None) s"
      by (rule wp_mono [OF cwd_cached_spec [OF I]]) auto
    have "wp (cwd_cached e key d) (\<lambda>x. wp (if fst x \<or> Some p = None then ret (snd x) else cwd_new e (Some p))
        (\<lambda>r. wp (whenM (r \<noteq> None) (store_last_cwd key r)) (\<lambda>_ t. here t = d))) s"
    proof (rule wp_mono [OF wp_conjI [OF al cwd_cached_right [OF I e d]]])
      fix x t
      assume x: "(\<forall>p. snd x = Some p \<longrightarrow> cwds t p \<noteq> None) \<and>
        walk s t \<and> (fst x \<longrightarrow> here t = d) \<and> (snd x \<noteq> None \<longrightarrow> fst x)"
      then have "fst x \<longrightarrow> snd x = None \<or> cwds t (the (snd x)) \<noteq> None"
        by (cases "snd x") simp_all
      then show "wp (if fst x \<or> Some p = None then ret (snd x) else cwd_new e (Some p))
        (\<lambda>r. wp (whenM (r \<noteq> None) (store_last_cwd key r)) (\<lambda>_ t. here t = d)) t"
        using x by (intro rest) simp_all
    qed
    then show ?thesis using Some \<open>d' = d\<close> by simp
  qed
  then have "wp (bnd (bnd (case fe_cwd of None \<Rightarrow> ret (False, None) | Some d \<Rightarrow> cwd_cached e key d)
      (\<lambda>x. if fst x \<or> Some p = None then ret (snd x) else cwd_new e (Some p)))
      (\<lambda>r. whenM (r \<noteq> None) (store_last_cwd key r))) (\<lambda>_ t. here t = d) s"
    by (simp only: wp_bnd)
  then show ?thesis
    unfolding cwd_from_frontend_def
    by (simp only: wp_bnd wp_thenM wp_seqM_Cons wp_seqM_Nil wp_ret split_def)
qed

text \<open>
  A remembered path is trusted: if the directory was moved and another one has its path, the script
  runs in that one, and the frontend is not asked.
\<close>

theorem moved_directory:
  assumes k: "scr_hash s key = Some scr" "last_cwd scr = Some p" "cwds s p = Some c" "cdevino c = d"
    and fd: "cwd_fd s \<noteq> Some d" and h: "here s \<noteq> d" and e: "smooth e"
    and moved: "abs_path (cpath c)" "\<And>n. leads e n (cpath c) = Some d'"
  shows "wp (cwd_from_frontend e key (Some d) dir) (\<lambda>asked t. \<not> asked \<and> here t = d') s"
proof -
  have q: "wp (quick_cd e d) (\<lambda>ok t. \<not> ok \<and> walk s t) s"
    using fd h e by (auto simp: quick_cd_def stat_cwd_fd_def chdir_path_def smooth_def wps split: option.splits)
  have by_script: "wp (cwd_by_script e key d) (\<lambda>ok t. ok \<and> here t = d') u" if "walk s u" for u
    using chdir_path_right [OF moved, of u] that k
    by (auto simp: cwd_by_script_def script_cwd_def walk_def wps elim: wp_mono)
  have "wp (quick_cd e d) (\<lambda>x. wp (if x then ret (True, None) else bnd (cwd_by_script e key d) (\<lambda>done.
       if done then ret (True, None) else cwd_by_hash e d)) (\<lambda>x t. x = (True, None) \<and> here t = d')) s"
  proof (intro wp_mono [OF q])
    fix x u assume u: "\<not> x \<and> walk s u"
    have "wp (cwd_by_script e key d) (\<lambda>x. wp (if x then ret (True, None) else cwd_by_hash e d)
        (\<lambda>x t. x = (True, None) \<and> here t = d')) u"
      if m: "wp (cwd_by_script e key d) (\<lambda>ok t. ok \<and> here t = d') u"
      by (rule wp_mono [OF m]) (simp add: wp_ret)
    then show "wp (if x then ret (True, None) else bnd (cwd_by_script e key d) (\<lambda>done.
       if done then ret (True, None) else cwd_by_hash e d)) (\<lambda>x t. x = (True, None) \<and> here t = d') u"
      using u by_script by (simp add: wp_bnd)
  qed
  then have "wp (cwd_cached e key d) (\<lambda>x t. x = (True, None) \<and> here t = d') s"
    unfolding cwd_cached_def by (simp only: wp_bnd)
  then show ?thesis
    unfolding cwd_from_frontend_def by (simp add: wp_bnd) (rule wp_mono, assumption, simp add: wps)
qed

text \<open>
  Where \<open>fchdir\<close> and \<open>open(".")\<close> fail, \<open>quick_cd\<close> compares the directory it could not enter with
  itself, and the process stays where it is.
\<close>

theorem quick_cd_wrong:
  assumes "cwd_fd s = Some d" and "\<And>n. fstats e n \<and> stats e n \<and> \<not> fchdirs e n \<and> \<not> opens e n"
  shows "wp (quick_cd e d) (\<lambda>ok t. ok \<and> here t = here s) s"
  using assms by (simp add: quick_cd_def stat_cwd_fd_def chdir_path_def wps)

end
