(* ===== verification/Sig.thy ===== *)
theory Sig
  imports Prelude
begin

text \<open>
  Waiting for signals (src/src/speedy_sig.c): the list of signals that were caught, and the masks
  and handlers that are set up and put back. Which signals come while the process is suspended is
  an answer of the system.
\<close>

section \<open>State\<close>

definition SPEEDY_MAXSIG :: nat where "SPEEDY_MAXSIG = 3"

datatype sigaction = Sig_handler | Old_action nat

record sig_list =
  signum :: "int list"
  sigact_save :: "sigaction list"
  sig_rcvd :: "int list"
  unblock_sigs :: "int set"
  sigset_save :: "int set"

text \<open>\<open>sigmask\<close> and \<open>actions\<close> belong to the process; \<open>suspends\<close> counts the calls of \<open>sigsuspend\<close>.\<close>

record sigst =
  got_sigs :: "int list"
  blockall_save :: "int set"
  all_blocked :: bool
  sigmask :: "int set"
  actions :: "int \<Rightarrow> sigaction"
  suspends :: nat

datatype sig_how = SIG_BLOCK | SIG_UNBLOCK

section \<open>Blocking everything\<close>

definition speedy_sig_blockall :: "sigst \<Rightarrow> sigst" where
  "speedy_sig_blockall s = s\<lparr>blockall_save := sigmask s, sigmask := UNIV, all_blocked := True\<rparr>"

definition speedy_sig_blockall_undo :: "sigst \<Rightarrow> sigst" where
  "speedy_sig_blockall_undo s = s\<lparr>sigmask := blockall_save s, all_blocked := False\<rparr>"

section \<open>Catching signals\<close>

text \<open>\<open>-1\<close> if the signal is there, else the place after the last one.\<close>

primrec sig_find_from :: "nat \<Rightarrow> nat \<Rightarrow> int list \<Rightarrow> int \<Rightarrow> int" where
  "sig_find_from 0 i rcvd sig = int i"
| "sig_find_from (Suc n) i rcvd sig =
     (if rcvd ! i = 0 then int i
      else if rcvd ! i = sig then - 1
      else sig_find_from n (Suc i) rcvd sig)"

definition sig_find :: "int list \<Rightarrow> int \<Rightarrow> int" where
  "sig_find rcvd sig = sig_find_from SPEEDY_MAXSIG 0 rcvd sig"

definition sig_handler :: "int \<Rightarrow> sigst \<Rightarrow> sigst" where
  "sig_handler sig s =
     (let i = sig_find (got_sigs s) sig in
      if 0 \<le> i \<and> i < int SPEEDY_MAXSIG
      then let g = (got_sigs s)[nat i := sig] in
        s\<lparr>got_sigs := if i + 1 < int SPEEDY_MAXSIG then g[nat (i + 1) := 0] else g\<rparr>
      else s)"

text \<open>The signals that come in one \<open>sigsuspend\<close>, with the mask \<open>m\<close>, and run the handler.\<close>

definition sigsuspend :: "(nat \<Rightarrow> int list) \<Rightarrow> int set \<Rightarrow> sigst \<Rightarrow> sigst" where
  "sigsuspend comes m s =
     fold sig_handler (filter (\<lambda>x. x \<notin> m \<and> actions s x = Sig_handler) (comes (suspends s)))
       (s\<lparr>suspends := Suc (suspends s)\<rparr>)"

primrec sig_wait_loop :: "nat \<Rightarrow> (nat \<Rightarrow> int list) \<Rightarrow> sig_list \<Rightarrow> sigst \<Rightarrow> sigst option" where
  "sig_wait_loop 0 comes sl s = None"
| "sig_wait_loop (Suc fuel) comes sl s =
     (if got_sigs s ! 0 \<noteq> 0 then Some s
      else sig_wait_loop fuel comes sl (sigsuspend comes (unblock_sigs sl) s))"

definition sig_wait_basic :: "nat \<Rightarrow> (nat \<Rightarrow> int list) \<Rightarrow> sig_list \<Rightarrow> sigst \<Rightarrow> sigst option" where
  "sig_wait_basic fuel comes sl s = sig_wait_loop fuel comes sl (s\<lparr>got_sigs := (got_sigs s)[0 := 0]\<rparr>)"

text \<open>The cached time, which is invalidated as well, is not part of this state.\<close>

definition speedy_sig_wait :: "nat \<Rightarrow> (nat \<Rightarrow> int list) \<Rightarrow> sig_list \<Rightarrow> sigst \<Rightarrow> (sig_list \<times> sigst) option" where
  "speedy_sig_wait fuel comes sl s =
     (case sig_wait_basic fuel comes sl s of None \<Rightarrow> None
      | Some t \<Rightarrow> Some (sl\<lparr>sig_rcvd := got_sigs t\<rparr>, t))"

definition speedy_sig_got :: "sig_list \<Rightarrow> int \<Rightarrow> bool" where
  "speedy_sig_got sl sig \<longleftrightarrow> sig_find (sig_rcvd sl) sig = - 1"

section \<open>Setting up and putting back\<close>

primrec set_actions :: "int list \<Rightarrow> (int \<Rightarrow> sigaction) \<Rightarrow> sigaction list \<times> (int \<Rightarrow> sigaction)" where
  "set_actions [] acts = ([], acts)"
| "set_actions (x # xs) acts =
     (case set_actions xs (acts(x := Sig_handler)) of (olds, acts') \<Rightarrow> (acts x # olds, acts'))"

definition sig_init2 :: "sig_list \<Rightarrow> sig_how \<Rightarrow> sigst \<Rightarrow> sig_list \<times> sigst" where
  "sig_init2 sl how s =
     (case set_actions (signum sl) (actions s) of (olds, acts) \<Rightarrow>
      let change = (\<lambda>m. if how = SIG_BLOCK then m \<union> set (signum sl) else m - set (signum sl));
          save = (if all_blocked s then blockall_save s else sigmask s);
          s1 = (if all_blocked s then s\<lparr>actions := acts, blockall_save := change (blockall_save s)\<rparr>
                else s\<lparr>actions := acts, sigmask := change (sigmask s)\<rparr>)
      in (sl\<lparr>sigact_save := olds, sigset_save := save, unblock_sigs := save - set (signum sl)\<rparr>, s1))"

text \<open>
  \<open>None\<close>: more signals than there is room for, and the process dies. \<open>sig_rcvd\<close> is not set before the
  first wait.
\<close>

definition speedy_sig_init :: "int list \<Rightarrow> sig_how \<Rightarrow> sigst \<Rightarrow> (sig_list \<times> sigst) option" where
  "speedy_sig_init sigs how s =
     (if SPEEDY_MAXSIG < length sigs then None
      else Some (sig_init2 \<lparr>signum = sigs, sigact_save = [], sig_rcvd = replicate SPEEDY_MAXSIG 0,
        unblock_sigs = {}, sigset_save = {}\<rparr> how s))"

text \<open>
  \<open>pending n\<close>: what \<open>sigpending\<close> answers after \<open>n\<close> suspensions, \<open>None\<close> if it fails.
\<close>

primrec sig_drain :: "nat \<Rightarrow> (nat \<Rightarrow> int list) \<Rightarrow> (nat \<Rightarrow> int set option) \<Rightarrow> sig_list \<Rightarrow> sigst \<Rightarrow> sigst option" where
  "sig_drain 0 comes pending sl s = None"
| "sig_drain (Suc fuel) comes pending sl s =
     (case pending (suspends s) of None \<Rightarrow> Some s
      | Some p \<Rightarrow>
         if \<exists>x \<in> set (signum sl). x \<in> p
         then case sig_wait_basic fuel comes sl s of None \<Rightarrow> None
              | Some t \<Rightarrow> sig_drain fuel comes pending sl t
         else Some s)"

primrec put_actions :: "(int \<times> sigaction) list \<Rightarrow> (int \<Rightarrow> sigaction) \<Rightarrow> int \<Rightarrow> sigaction" where
  "put_actions [] acts = acts"
| "put_actions (p # ps) acts = put_actions ps (acts(fst p := snd p))"

definition speedy_sig_free :: "nat \<Rightarrow> (nat \<Rightarrow> int list) \<Rightarrow> (nat \<Rightarrow> int set option) \<Rightarrow> sig_list \<Rightarrow> sigst \<Rightarrow> sigst option" where
  "speedy_sig_free fuel comes pending sl s =
     (case sig_drain fuel comes pending sl s of None \<Rightarrow> None
      | Some t \<Rightarrow>
         let u = (if all_blocked t then t\<lparr>blockall_save := sigset_save sl\<rparr>
                  else t\<lparr>sigmask := sigset_save sl\<rparr>)
         in Some (u\<lparr>actions := put_actions (zip (signum sl) (sigact_save sl)) (actions u)\<rparr>))"

section \<open>What is caught\<close>

text \<open>The signals in the array, up to the first zero.\<close>

definition caught :: "int list \<Rightarrow> int list" where
  "caught g = takeWhile (\<lambda>x. x \<noteq> 0) g"

lemma sig_find_caught:
  assumes "length g = SPEEDY_MAXSIG" and "x \<noteq> 0"
  shows "sig_find g x = (if x \<in> set (caught g) then - 1 else int (length (caught g)))"
proof -
  obtain a b c where g: "g = [a, b, c]"
    using assms(1) by (auto simp: SPEEDY_MAXSIG_def numeral_eq_Suc length_Suc_conv)
  show ?thesis using assms(2) by (auto simp: g sig_find_def SPEEDY_MAXSIG_def numeral_eq_Suc caught_def)
qed

text \<open>There are no more signals with a handler than places in the array, so none is lost.\<close>

definition few :: "sigst \<Rightarrow> bool" where
  "few s \<longleftrightarrow> finite {x. actions s x = Sig_handler} \<and> card {x. actions s x = Sig_handler} \<le> SPEEDY_MAXSIG \<and>
     actions s 0 \<noteq> Sig_handler"

definition caught_ok :: "sigst \<Rightarrow> bool" where
  "caught_ok s \<longleftrightarrow> length (got_sigs s) = SPEEDY_MAXSIG \<and> distinct (caught (got_sigs s)) \<and>
     set (caught (got_sigs s)) \<subseteq> {x. actions s x = Sig_handler}"

lemma caught_insert:
  assumes l: "length g = SPEEDY_MAXSIG" and x: "x \<noteq> 0" "x \<notin> set (caught g)" and n: "length (caught g) < SPEEDY_MAXSIG"
  shows "caught (let i = int (length (caught g)); h = g[nat i := x] in
    if i + 1 < int SPEEDY_MAXSIG then h[nat (i + 1) := 0] else h) = caught g @ [x]"
proof -
  obtain a b c where g: "g = [a, b, c]"
    using l by (auto simp: SPEEDY_MAXSIG_def numeral_eq_Suc length_Suc_conv)
  show ?thesis
    using x n by (cases "a = 0"; cases "b = 0"; cases "c = 0")
      (auto simp: g caught_def SPEEDY_MAXSIG_def numeral_eq_Suc Let_def)
qed

lemma sig_handler_caught:
  assumes ok: "caught_ok s" and few: "few s" and x: "actions s x = Sig_handler"
  shows "caught_ok (sig_handler x s)" and "few (sig_handler x s)"
    and "set (caught (got_sigs (sig_handler x s))) = insert x (set (caught (got_sigs s)))"
    and "sig_handler x s = s\<lparr>got_sigs := got_sigs (sig_handler x s)\<rparr>"
proof -
  show e: "sig_handler x s = s\<lparr>got_sigs := got_sigs (sig_handler x s)\<rparr>"
    by (simp add: sig_handler_def Let_def)
  then have a: "actions (sig_handler x s) = actions s" by (metis sigst.ext_inject sigst.surjective sigst.update_convs(1))
  then show "few (sig_handler x s)" using few by (simp add: few_def)
  have x0: "x \<noteq> 0" using few x by (auto simp: few_def)
  have l: "length (got_sigs s) = SPEEDY_MAXSIG" using ok by (simp add: caught_ok_def)
  have sub: "set (caught (got_sigs s)) \<subseteq> {y. actions s y = Sig_handler}" "distinct (caught (got_sigs s))"
    using ok by (simp_all add: caught_ok_def)
  note f = sig_find_caught [OF l x0]
  have "caught_ok (sig_handler x s) \<and> set (caught (got_sigs (sig_handler x s))) = insert x (set (caught (got_sigs s)))"
  proof (cases "x \<in> set (caught (got_sigs s))")
    case True
    then have "sig_handler x s = s" unfolding sig_handler_def f by simp
    then show ?thesis using ok True by auto
  next
    case False
    have "card (insert x (set (caught (got_sigs s)))) \<le> card {y. actions s y = Sig_handler}"
      using few sub x by (intro card_mono) (auto simp: few_def)
    then have n: "length (caught (got_sigs s)) < SPEEDY_MAXSIG"
      using few False sub(2) by (simp add: few_def distinct_card)
    have "got_sigs (sig_handler x s) = (let i = int (length (caught (got_sigs s))); h = (got_sigs s)[nat i := x] in
        if i + 1 < int SPEEDY_MAXSIG then h[nat (i + 1) := 0] else h)"
      using n False unfolding sig_handler_def f by (simp add: Let_def)
    then have c: "caught (got_sigs (sig_handler x s)) = caught (got_sigs s) @ [x]"
      using caught_insert [OF l x0 False n] by simp
    have "length (got_sigs (sig_handler x s)) = SPEEDY_MAXSIG" using l by (simp add: sig_handler_def Let_def)
    then show ?thesis using c sub x False a by (auto simp: caught_ok_def)
  qed
  then show "caught_ok (sig_handler x s)"
    and "set (caught (got_sigs (sig_handler x s))) = insert x (set (caught (got_sigs s)))" by blast+
qed

lemma handlers_caught:
  assumes "caught_ok s" and "few s" and "\<forall>x \<in> set xs. actions s x = Sig_handler"
  shows "caught_ok (fold sig_handler xs s) \<and> few (fold sig_handler xs s) \<and>
    set (caught (got_sigs (fold sig_handler xs s))) = set xs \<union> set (caught (got_sigs s)) \<and>
    fold sig_handler xs s = s\<lparr>got_sigs := got_sigs (fold sig_handler xs s)\<rparr>"
  using assms
proof (induction xs arbitrary: s)
  case (Cons x xs)
  let ?t = "sig_handler x s"
  note h = sig_handler_caught [OF Cons.prems(1,2), of x]
  have x: "actions s x = Sig_handler" using Cons.prems(3) by simp
  have a: "actions ?t = actions s" using h(4) [OF x] by (metis sigst.ext_inject sigst.surjective sigst.update_convs(1))
  have IH: "caught_ok (fold sig_handler xs ?t) \<and> few (fold sig_handler xs ?t) \<and>
    set (caught (got_sigs (fold sig_handler xs ?t))) = set xs \<union> set (caught (got_sigs ?t)) \<and>
    fold sig_handler xs ?t = ?t\<lparr>got_sigs := got_sigs (fold sig_handler xs ?t)\<rparr>"
    by (rule Cons.IH) (use h x a Cons.prems(3) in auto)
  moreover have "?t\<lparr>got_sigs := g\<rparr> = s\<lparr>got_sigs := g\<rparr>" for g using h(4) [OF x] by (metis sigst.update_convs(1) sigst.surjective)
  ultimately show ?case using h(3) [OF x] by simp
qed simp

section \<open>Waiting\<close>

definition handled :: "(nat \<Rightarrow> int list) \<Rightarrow> sig_list \<Rightarrow> sigst \<Rightarrow> nat \<Rightarrow> int list" where
  "handled comes sl s k = filter (\<lambda>x. x \<notin> unblock_sigs sl \<and> actions s x = Sig_handler) (comes k)"

lemma caught_empty: "length g = SPEEDY_MAXSIG \<Longrightarrow> caught g = [] \<longleftrightarrow> g ! 0 = 0"
  by (cases g) (auto simp: caught_def SPEEDY_MAXSIG_def)

lemma sig_wait_loop_spec:
  assumes "caught_ok s" and "few s" and "caught (got_sigs s) = []"
    and "\<forall>k < n. handled comes sl s (suspends s + k) = []" and "handled comes sl s (suspends s + n) \<noteq> []"
  shows "\<exists>t. sig_wait_loop (n + 2) comes sl s = Some t \<and> suspends t = suspends s + n + 1 \<and>
    caught_ok t \<and> set (caught (got_sigs t)) = set (handled comes sl s (suspends s + n)) \<and>
    t = s\<lparr>got_sigs := got_sigs t, suspends := suspends t\<rparr>"
  using assms
proof (induction n arbitrary: s)
  case 0
  let ?s = "s\<lparr>suspends := Suc (suspends s)\<rparr>" and ?xs = "handled comes sl s (suspends s)"
  let ?t = "fold sig_handler ?xs ?s"
  have "caught_ok ?s" "few ?s" using 0(1,2) by (simp_all add: caught_ok_def few_def)
  then have h: "caught_ok ?t \<and> few ?t \<and> set (caught (got_sigs ?t)) = set ?xs \<union> set (caught (got_sigs ?s)) \<and>
      ?t = ?s\<lparr>got_sigs := got_sigs ?t\<rparr>"
    by (rule handlers_caught) (auto simp: handled_def)
  have u: "sigsuspend comes (unblock_sigs sl) s = ?t" by (simp add: sigsuspend_def handled_def)
  have "caught (got_sigs ?t) \<noteq> []" using h 0(5) by (metis Nat.add_0_right Un_empty set_empty)
  then have "got_sigs ?t ! 0 \<noteq> 0" using h caught_empty [of "got_sigs ?t"] by (simp add: caught_ok_def)
  moreover have "got_sigs s ! 0 = 0" using 0(1,3) caught_empty [of "got_sigs s"] by (simp add: caught_ok_def)
  ultimately have "sig_wait_loop (0 + 2) comes sl s = Some ?t" using u by (simp add: numeral_2_eq_2)
  moreover have "suspends ?t = suspends s + 1" "?t = s\<lparr>got_sigs := got_sigs ?t, suspends := suspends ?t\<rparr>"
    using h by (metis (no_types, lifting) Suc_eq_plus1 sigst.select_convs(6) sigst.surjective sigst.update_convs(1,6))+
  ultimately show ?case using h 0(3) by (intro exI [of _ ?t]) simp
next
  case (Suc n)
  let ?s = "s\<lparr>suspends := Suc (suspends s)\<rparr>"
  have e: "handled comes sl s (suspends s) = []" using Suc.prems(4) by force
  have u: "sigsuspend comes (unblock_sigs sl) s = ?s" using e by (simp add: sigsuspend_def handled_def)
  have g: "got_sigs s ! 0 = 0" using Suc.prems(1,3) caught_empty [of "got_sigs s"] by (simp add: caught_ok_def)
  have hs: "handled comes sl ?s = handled comes sl s" by (simp add: handled_def fun_eq_iff)
  have "\<exists>t. sig_wait_loop (n + 2) comes sl ?s = Some t \<and> suspends t = suspends ?s + n + 1 \<and>
    caught_ok t \<and> set (caught (got_sigs t)) = set (handled comes sl ?s (suspends ?s + n)) \<and>
    t = ?s\<lparr>got_sigs := got_sigs t, suspends := suspends t\<rparr>"
  proof (rule Suc.IH)
    show "\<forall>k < n. handled comes sl ?s (suspends ?s + k) = []"
      using Suc.prems(4) by (auto simp: hs)
  qed (use Suc.prems in \<open>simp_all add: hs caught_ok_def few_def\<close>)
  then obtain t where t: "sig_wait_loop (n + 2) comes sl ?s = Some t" "suspends t = suspends s + Suc n + 1"
    "caught_ok t" "set (caught (got_sigs t)) = set (handled comes sl s (suspends s + Suc n))"
    "t = s\<lparr>got_sigs := got_sigs t, suspends := suspends t\<rparr>"
    by (auto simp: hs)
  have "sig_wait_loop (Suc n + 2) comes sl s = Some t" using t(1) u g by simp
  then show ?case using t(2-5) by blast
qed

theorem sig_wait_spec:
  assumes "length (got_sigs s) = SPEEDY_MAXSIG" and "few s"
    and "\<forall>k < n. handled comes sl s (suspends s + k) = []" and "handled comes sl s (suspends s + n) \<noteq> []"
  shows "\<exists>sl' t. speedy_sig_wait (n + 2) comes sl s = Some (sl', t) \<and> suspends t = suspends s + n + 1 \<and>
    (\<forall>x. x \<noteq> 0 \<longrightarrow> speedy_sig_got sl' x = (x \<in> set (handled comes sl s (suspends s + n)))) \<and>
    sigmask t = sigmask s \<and> actions t = actions s"
proof -
  let ?s = "s\<lparr>got_sigs := (got_sigs s)[0 := 0]\<rparr>"
  have c: "caught (got_sigs ?s) = []" using assms(1) by (cases "got_sigs s") (auto simp: caught_def SPEEDY_MAXSIG_def)
  have hs: "handled comes sl ?s = handled comes sl s" by (simp add: handled_def fun_eq_iff)
  have "\<exists>t. sig_wait_loop (n + 2) comes sl ?s = Some t \<and> suspends t = suspends ?s + n + 1 \<and>
    caught_ok t \<and> set (caught (got_sigs t)) = set (handled comes sl ?s (suspends ?s + n)) \<and>
    t = ?s\<lparr>got_sigs := got_sigs t, suspends := suspends t\<rparr>"
    by (rule sig_wait_loop_spec) (use assms c in \<open>simp_all add: caught_ok_def few_def hs\<close>)
  then obtain t where t: "sig_wait_loop (n + 2) comes sl ?s = Some t" "suspends t = suspends s + n + 1"
    "caught_ok t" "set (caught (got_sigs t)) = set (handled comes sl s (suspends s + n))"
    "t = ?s\<lparr>got_sigs := got_sigs t, suspends := suspends t\<rparr>" by (auto simp: hs)
  have "speedy_sig_got (sl\<lparr>sig_rcvd := got_sigs t\<rparr>) x = (x \<in> set (caught (got_sigs t)))" if "x \<noteq> 0" for x
    using sig_find_caught [of "got_sigs t" x] t(3) that by (simp add: speedy_sig_got_def caught_ok_def)
  moreover have "sigmask t = sigmask s" "actions t = actions s"
    by (subst t(5), simp)+
  ultimately show ?thesis
    using t(1,2,4) by (simp add: speedy_sig_wait_def sig_wait_basic_def)
qed

section \<open>Setting up and putting back\<close>

lemma set_actions_spec:
  "distinct xs \<Longrightarrow> set_actions xs acts = (map acts xs, \<lambda>x. if x \<in> set xs then Sig_handler else acts x)"
proof (induction xs arbitrary: acts)
  case (Cons x xs)
  have "set_actions xs (acts(x := Sig_handler)) =
    (map (acts(x := Sig_handler)) xs, \<lambda>y. if y \<in> set xs then Sig_handler else (acts(x := Sig_handler)) y)"
    by (rule Cons.IH) (use Cons.prems in simp)
  moreover have "map (acts(x := Sig_handler)) xs = map acts xs" using Cons.prems by auto
  ultimately show ?case by (auto simp: fun_eq_iff)
qed simp

lemma put_actions_spec:
  "distinct xs \<Longrightarrow> put_actions (zip xs (map f xs)) acts = (\<lambda>x. if x \<in> set xs then f x else acts x)"
proof (induction xs arbitrary: acts)
  case (Cons x xs)
  have "put_actions (zip xs (map f xs)) (acts(x := f x)) = (\<lambda>y. if y \<in> set xs then f y else (acts(x := f x)) y)"
    by (rule Cons.IH) (use Cons.prems in simp)
  then show ?case by (auto simp: fun_eq_iff)
qed simp

definition same_setup :: "sigst \<Rightarrow> sigst \<Rightarrow> bool" where
  "same_setup s t \<longleftrightarrow> actions t = actions s \<and> sigmask t = sigmask s \<and> blockall_save t = blockall_save s \<and>
     all_blocked t = all_blocked s"

lemma same_setup_trans: "same_setup s t \<Longrightarrow> same_setup t u \<Longrightarrow> same_setup s u"
  by (simp add: same_setup_def)

lemma sigsuspend_setup: "same_setup s (sigsuspend comes m s)"
proof -
  have "same_setup s (fold sig_handler xs t)" if "same_setup s t" for xs t
    using that by (induction xs arbitrary: t) (simp_all add: sig_handler_def same_setup_def Let_def)
  then show ?thesis by (simp add: sigsuspend_def same_setup_def)
qed

lemma sig_wait_loop_setup: "sig_wait_loop fuel comes sl s = Some t \<Longrightarrow> same_setup s t"
proof (induction fuel arbitrary: s)
  case (Suc fuel)
  show ?case
  proof (cases "got_sigs s ! 0 = 0")
    case True
    then have "sig_wait_loop fuel comes sl (sigsuspend comes (unblock_sigs sl) s) = Some t" using Suc.prems by simp
    from same_setup_trans [OF sigsuspend_setup Suc.IH [OF this]] show ?thesis .
  qed (use Suc.prems in \<open>simp add: same_setup_def\<close>)
qed simp

lemma sig_drain_setup: "sig_drain fuel comes pending sl s = Some t \<Longrightarrow> same_setup s t"
proof (induction fuel arbitrary: s)
  case (Suc fuel)
  show ?case
  proof (cases "pending (suspends s)")
    case (Some p)
    show ?thesis
    proof (cases "\<exists>x \<in> set (signum sl). x \<in> p")
      case True
      then obtain u where u: "sig_wait_basic fuel comes sl s = Some u" "sig_drain fuel comes pending sl u = Some t"
        using Suc.prems Some by (auto split: option.splits)
      have "same_setup s u" using sig_wait_loop_setup u(1) by (fastforce simp: sig_wait_basic_def same_setup_def)
      then show ?thesis using Suc.IH [OF u(2)] same_setup_trans by blast
    qed (use Suc.prems Some in \<open>simp add: same_setup_def\<close>)
  qed (use Suc.prems in \<open>simp add: same_setup_def\<close>)
qed simp

text \<open>
  Whatever was done in between, freeing puts the handlers and the mask back that were there when the
  list was set up, and it does so at once if none of the signals is pending.
\<close>

theorem sig_init_free:
  assumes d: "distinct sigs" and i: "speedy_sig_init sigs how s = Some (sl, s1)"
    and u: "actions u = actions s1" "all_blocked u = all_blocked s1"
  shows "(\<forall>fuel t. speedy_sig_free fuel comes pending sl u = Some t \<longrightarrow> actions t = actions s \<and>
      (if all_blocked s then blockall_save t = blockall_save s \<and> sigmask t = sigmask u else sigmask t = sigmask s)) \<and>
    (\<forall>p. pending (suspends u) = Some p \<and> p \<inter> set sigs = {} \<longrightarrow> speedy_sig_free (Suc fuel) comes pending sl u \<noteq> None)"
proof -
  have sl: "signum sl = sigs" "sigact_save sl = map (actions s) sigs"
      "sigset_save sl = (if all_blocked s then blockall_save s else sigmask s)"
    and s1: "actions s1 = (\<lambda>x. if x \<in> set sigs then Sig_handler else actions s x)" "all_blocked s1 = all_blocked s"
    using i d by (auto simp: speedy_sig_init_def sig_init2_def set_actions_spec Let_def split: if_splits)
  have put: "actions t = actions s \<and> (if all_blocked s then blockall_save t = blockall_save s \<and> sigmask t = sigmask u
      else sigmask t = sigmask s)" if t: "speedy_sig_free fuel comes pending sl u = Some t" for fuel t
  proof -
    obtain v where v: "sig_drain fuel comes pending sl u = Some v" using t by (auto simp: speedy_sig_free_def split: option.splits)
    have sv: "same_setup u v" by (rule sig_drain_setup [OF v])
    have "actions t = put_actions (zip sigs (map (actions s) sigs)) (actions v)"
      using t v sl by (auto simp: speedy_sig_free_def Let_def)
    also have "\<dots> = (\<lambda>x. if x \<in> set sigs then actions s x else actions v x)" by (rule put_actions_spec [OF d])
    also have "\<dots> = actions s" using sv u(1) s1(1) by (auto simp: same_setup_def)
    finally have "actions t = actions s" .
    then show ?thesis using t v sl sv u(2) s1(2) by (auto simp: speedy_sig_free_def Let_def same_setup_def)
  qed
  have "speedy_sig_free (Suc fuel) comes pending sl u \<noteq> None"
    if p: "pending (suspends u) = Some p" "p \<inter> set sigs = {}" for p
    using p sl(1) by (auto simp: speedy_sig_free_def Let_def)
  then show ?thesis using put by blast
qed

end
