(* ===== verification/ScriptFile.thy ===== *)
theory ScriptFile
  imports Prelude Util
begin

text \<open>
  The script as a file (src/src/speedy_script.c apart from \<open>speedy_script_find\<close>): it stays open for
  a while, is opened and stat-ed again when that is over, and is then compared with what it was.
\<close>

record script_stat =
  st_dev :: int
  st_ino :: int
  st_mtime :: int
  st_size :: nat

text \<open>
  \<open>kfds\<close> are the open descriptors of the process and \<open>opens\<close> the number of calls of \<open>open\<close> so far;
  \<open>script_map\<close> whether the script is mapped, and what is seen of it.
\<close>

record sfstate =
  the_stat :: script_stat
  script_fd :: int
  last_open :: int
  kfds :: "int set"
  opens_done :: nat
  script_map :: "char map_info option"

text \<open>What \<open>open\<close> and \<open>fstat\<close> on the script answer: a new descriptor and the stat data if both work.\<close>

datatype open_answer = Open_fails | Stat_fails int | Opened int script_stat

datatype sfdeath = Bad_close int | No_script_name | Script_unreadable

type_synonym 'a sfio = "(sfdeath, sfstate, 'a) M"

definition fd_close :: "int \<Rightarrow> unit sfio" where
  "fd_close fd = (\<lambda>s. if fd \<in> kfds s then Ok () (s\<lparr>kfds := kfds s - {fd}\<rparr>) else Die (Bad_close fd) s)"

definition speedy_util_open_stat :: "(nat \<Rightarrow> open_answer) \<Rightarrow> (int \<times> script_stat option) sfio" where
  "speedy_util_open_stat opens =
     bnd (gets (\<lambda>s. opens (opens_done s))) (\<lambda>r.
     thenM [modify (\<lambda>s. s\<lparr>opens_done := Suc (opens_done s)\<rparr>)]
      (case r of
        Open_fails \<Rightarrow> ret (- 1, None)
      | Stat_fails fd \<Rightarrow> thenM [modify (\<lambda>s. s\<lparr>kfds := insert fd (kfds s)\<rparr>), fd_close fd] (ret (- 1, None))
      | Opened fd st \<Rightarrow> thenM [modify (\<lambda>s. s\<lparr>kfds := insert fd (kfds s)\<rparr>)] (ret (fd, Some st))))"

definition speedy_script_close :: "unit sfio" where
  "speedy_script_close =
     bnd (gets last_open) (\<lambda>l.
     bnd (gets script_fd) (\<lambda>fd.
     seqM [whenM (l \<noteq> 0) (fd_close fd), modify (\<lambda>s. s\<lparr>last_open := 0\<rparr>)]))"

text \<open>
  \<open>now\<close>: the time; \<open>restat\<close>: the option RestatTimeout; \<open>fname\<close>: the name of the script, if there is
  one.
\<close>

definition speedy_script_open_failure :: "(nat \<Rightarrow> open_answer) \<Rightarrow> int \<Rightarrow> string option \<Rightarrow> int \<Rightarrow> int sfio" where
  "speedy_script_open_failure opens restat fname now =
     bnd (gets last_open) (\<lambda>l.
     if l = 0 \<or> now - l > restat
     then thenM [speedy_script_close]
       (if fname = None then ret 1
        else bnd (speedy_util_open_stat opens) (\<lambda>(fd, st).
          thenM [modify (\<lambda>s. s\<lparr>script_fd := fd, the_stat := (case st of None \<Rightarrow> the_stat s | Some x \<Rightarrow> x)\<rparr>)]
           (if fd = - 1 then ret 2
            else thenM [modify (\<lambda>s. s\<lparr>last_open := now\<rparr>)] (ret 0))))
     else ret 0)"

definition speedy_script_missing :: "'a sfio" where
  "speedy_script_missing = die No_script_name"

definition speedy_script_open :: "(nat \<Rightarrow> open_answer) \<Rightarrow> int \<Rightarrow> string option \<Rightarrow> int \<Rightarrow> int sfio" where
  "speedy_script_open opens restat fname now =
     bnd (speedy_script_open_failure opens restat fname now) (\<lambda>r.
     if r = 1 then speedy_script_missing
     else if r = 2 then die Script_unreadable
     else gets script_fd)"

definition speedy_script_changed :: "(nat \<Rightarrow> open_answer) \<Rightarrow> int \<Rightarrow> string option \<Rightarrow> int \<Rightarrow> bool sfio" where
  "speedy_script_changed opens restat fname now =
     bnd (gets last_open) (\<lambda>l.
     if l = 0 then ret False
     else bnd (gets the_stat) (\<lambda>stbuf.
       bnd (speedy_script_open opens restat fname now) (\<lambda>_.
       bnd (gets the_stat) (\<lambda>st.
       ret (st_mtime stbuf \<noteq> st_mtime st \<or> st_ino stbuf \<noteq> st_ino st \<or> st_dev stbuf \<noteq> st_dev st)))))"

definition speedy_script_getstat :: "(nat \<Rightarrow> open_answer) \<Rightarrow> int \<Rightarrow> string option \<Rightarrow> int \<Rightarrow> script_stat sfio" where
  "speedy_script_getstat opens restat fname now =
     bnd (speedy_script_open opens restat fname now) (\<lambda>_. gets the_stat)"

definition speedy_script_munmap :: "unit sfio" where
  "speedy_script_munmap = modify (\<lambda>s. s\<lparr>script_map := None\<rparr>)"

text \<open>\<open>mapped\<close> and \<open>rd\<close>: what \<open>mmap\<close> and \<open>read\<close> answer.\<close>

definition speedy_script_mmap :: "nat \<Rightarrow> (nat \<Rightarrow> open_answer) \<Rightarrow> int \<Rightarrow> string option \<Rightarrow> int
    \<Rightarrow> char list option \<Rightarrow> (nat \<Rightarrow> char list option) \<Rightarrow> int \<Rightarrow> char map_info option sfio" where
  "speedy_script_mmap fuel opens restat fname now mapped rd max_size =
     thenM [speedy_script_munmap]
      (bnd (speedy_script_open opens restat fname now) (\<lambda>fd.
       bnd (speedy_script_getstat opens restat fname now) (\<lambda>st.
       case speedy_util_mapin fuel mapped rd max_size (st_size st) of
         None \<Rightarrow> hang
       | Some mi \<Rightarrow> thenM [modify (\<lambda>s. s\<lparr>script_map := mi\<rparr>)] (gets script_map))))"

section \<open>One descriptor at a time\<close>

text \<open>New descriptors are not open yet.\<close>

definition fresh_fds :: "(nat \<Rightarrow> open_answer) \<Rightarrow> int set \<Rightarrow> bool" where
  "fresh_fds opens own \<longleftrightarrow> (\<forall>i. case opens i of Open_fails \<Rightarrow> True
     | Stat_fails fd \<Rightarrow> 0 \<le> fd \<and> fd \<notin> own | Opened fd st \<Rightarrow> 0 \<le> fd \<and> fd \<notin> own)"

text \<open>\<open>own\<close>: the descriptors the rest of the process has open.\<close>

definition one_fd :: "int set \<Rightarrow> sfstate \<Rightarrow> bool" where
  "one_fd own s \<longleftrightarrow> kfds s = own \<union> (if last_open s = 0 then {} else {script_fd s}) \<and>
     (last_open s \<noteq> 0 \<longrightarrow> script_fd s \<notin> own)"

lemma wp_fd_close [wps]: "wp (fd_close fd) Q s \<longleftrightarrow> fd \<in> kfds s \<and> Q () (s\<lparr>kfds := kfds s - {fd}\<rparr>)"
  by (simp add: wp_def fd_close_def)

lemma script_close_spec:
  assumes "one_fd own s"
  shows "wp speedy_script_close (\<lambda>_ t. one_fd own t \<and> last_open t = 0 \<and> kfds t = own \<and>
    the_stat t = the_stat s \<and> opens_done t = opens_done s) s"
  using assms by (auto simp: speedy_script_close_def one_fd_def wps)

text \<open>
  What opening does: nothing within the timeout; after it, the script is opened anew, and it is
  open on exactly one descriptor if that works and on none if not.
\<close>

definition reopened :: "(nat \<Rightarrow> open_answer) \<Rightarrow> int \<Rightarrow> int set \<Rightarrow> sfstate \<Rightarrow> int \<Rightarrow> sfstate \<Rightarrow> bool" where
  "reopened opens now own s r t \<longleftrightarrow> one_fd own t \<and>
     (case opens (opens_done s) of Opened fd st \<Rightarrow> r = 0 \<and> last_open t = now \<and> script_fd t = fd \<and> the_stat t = st
      | _ \<Rightarrow> r = 2 \<and> last_open t = 0 \<and> the_stat t = the_stat s)"

lemma open_failure_spec:
  assumes one: "one_fd own s" and fr: "fresh_fds opens own" and now: "now \<noteq> 0"
  shows "wp (speedy_script_open_failure opens restat fname now) (\<lambda>r t. one_fd own t \<and> r \<in> {0, 1, 2} \<and>
    (r = 0 \<longleftrightarrow> last_open t \<noteq> 0) \<and>
    (if last_open s \<noteq> 0 \<and> now - last_open s \<le> restat then r = 0 \<and> t = s
     else if fname = None then r = 1 \<and> the_stat t = the_stat s else reopened opens now own s r t)) s" (is "wp _ ?Q s")
proof (cases "last_open s \<noteq> 0 \<and> now - last_open s \<le> restat")
  case True
  then show ?thesis using one by (auto simp: speedy_script_open_failure_def wps)
next
  case False
  have fr': "case opens (opens_done s) of Open_fails \<Rightarrow> True
     | Stat_fails fd \<Rightarrow> 0 \<le> fd \<and> fd \<notin> own | Opened fd st \<Rightarrow> 0 \<le> fd \<and> fd \<notin> own"
    using fr by (simp add: fresh_fds_def)
  let ?rest = "if fname = None then ret 1
        else bnd (speedy_util_open_stat opens) (\<lambda>(fd, st).
          thenM [modify (\<lambda>s. s\<lparr>script_fd := fd, the_stat := (case st of None \<Rightarrow> the_stat s | Some x \<Rightarrow> x)\<rparr>)]
           (if fd = - 1 then ret 2
            else thenM [modify (\<lambda>s. s\<lparr>last_open := now\<rparr>)] (ret 0)))"
  have "wp ?rest ?Q t"
    if t: "one_fd own t" "last_open t = 0" "kfds t = own" "the_stat t = the_stat s" "opens_done t = opens_done s" for t
    using t fr' now False
    by (cases "opens (opens_done s)") (auto simp: speedy_util_open_stat_def wps reopened_def one_fd_def)
  then have "wp speedy_script_close (\<lambda>_. wp ?rest ?Q) s"
    by (intro wp_mono [OF script_close_spec [OF one]]) blast
  moreover have "last_open s = 0 \<or> restat < now - last_open s" using False by auto
  ultimately show ?thesis by (simp only: speedy_script_open_failure_def wp_bnd wp_gets if_True wp_thenM wp_seqM_Cons wp_seqM_Nil)
qed

text \<open>
  The script counts as changed exactly if it was opened anew and is another file or has another
  modification time than it had; whatever happens, no descriptor is lost or closed twice.
\<close>

definition sf_deaths :: "string option \<Rightarrow> sfdeath \<Rightarrow> bool" where
  "sf_deaths fname e \<longleftrightarrow> e = (if fname = None then No_script_name else Script_unreadable)"

theorem changed_spec:
  assumes one: "one_fd own s" and fr: "fresh_fds opens own" and now: "now \<noteq> 0"
  shows "wpx False (speedy_script_changed opens restat fname now) (\<lambda>r t. one_fd own t \<and>
    r = (last_open s \<noteq> 0 \<and> restat < now - last_open s \<and>
      (st_dev (the_stat t), st_ino (the_stat t), st_mtime (the_stat t)) \<noteq>
      (st_dev (the_stat s), st_ino (the_stat s), st_mtime (the_stat s))) \<and>
    (last_open s \<noteq> 0 \<and> restat < now - last_open s \<longrightarrow>
      (\<exists>fd. opens (opens_done s) = Opened fd (the_stat t) \<and> script_fd t = fd \<and> last_open t = now)))
    (sf_deaths fname) s"
proof (cases "last_open s = 0")
  case True
  then show ?thesis using one by (simp add: speedy_script_changed_def wpxs)
next
  case False
  show ?thesis
    unfolding speedy_script_changed_def speedy_script_open_def
    using False
    by (simp add: wpx_bnd wpx_gets)
      (rule wpx_mono [OF wpx_wp [OF open_failure_spec [OF one fr now]]],
        auto simp: wpxs speedy_script_missing_def sf_deaths_def reopened_def split: if_splits open_answer.splits)
qed

end
