(* ===== verification/ExampleRequest.thy ===== *)
theory ExampleRequest
  imports Examples BackendRun OptSpecs CwdSpecs Sig ScriptFile
begin

text \<open>
  Concrete states for the properties about options, directories, signals, the script as a file and
  the loops of the backends.
\<close>

section \<open>Processes that leave the temp file alone\<close>

lemma ex_coop_on: "coop_on P n m (\<lambda>i. (m - i) * n) (\<lambda>_ s. s)"
  unfolding coop_on_def
proof (intro allI impI)
  fix i a s
  assume "i < m" "good a s" "P a s" "room ((m - i) * n) s"
  moreover have "(m - Suc i) * n + n = (m - i) * n" if "i < m"
    using that by (metis Suc_diff_Suc add.commute mult_Suc)
  ultimately show "steady s s \<and> room ((m - Suc i) * n + n) s \<and> (\<exists>b. good b s \<and> P b s)"
    by (auto simp: steady_def)
qed

lemma ex_rely: "backend_rely g b m (\<lambda>i. 0) (\<lambda>_ s. s)"
  using ex_coop_on [of _ 0 m] by (simp add: backend_rely_def)

section \<open>Options\<close>

definition ex_rec :: "string \<Rightarrow> char \<Rightarrow> otype \<Rightarrow> oval \<Rightarrow> optrec" where
  "ex_rec n c t v = \<lparr>oname = n, ovalue = v, oletter = c, otyp = t, ochanged = False, omust_free = False\<rparr>"

definition ex_opts :: ostate where
  "ex_opts = \<lparr>optdefs = [ex_rec ''BACKENDPROG'' CHR ''p'' OTYPE_STR (Str_at 1),
       ex_rec ''GROUP'' CHR ''g'' OTYPE_STR (Str_at 2),
       ex_rec ''MAXRUNS'' CHR ''r'' OTYPE_WHOLE (Int_at 0),
       ex_rec ''TIMEOUT'' CHR ''t'' OTYPE_NATURAL (Int_at 1)],
     opt_ints = (\<lambda>_. 500), str_mem = (\<lambda>a. if a < 3 then Some (if a = 0 then ''default'' else if a = 1 then ''/usr/bin/be'' else ''none'') else None),
     str_static = 3, str_brk = 3, optdefs_save = [], exec_argv = strlist_init, exec_envp = strlist_init,
     perl_argv = strlist_init, orig_argv = [], script_argv_loc = 0, got_shbang = False\<rparr>"

lemma ex_opts_fresh: "fresh_opts ex_opts"
  by (simp add: fresh_opts_def ex_opts_def ex_rec_def)

lemma ex_opts_inv: "oinv ex_opts"
proof -
  have "shape (optdefs ex_opts)"
    by (auto simp: shape_def ex_opts_def ex_rec_def is_str_def int_cell_def less_Suc_eq)
  then show ?thesis
    by (auto simp: oinv_def legal_def legal_val_def INT_OPTVAL_def alive_def owns_def default_addr_def ex_opts_def
      ex_rec_def is_str_def int_cell_def less_Suc_eq)
qed

lemma ex_init: "case speedy_opt_init False [''speedy'', ''-w -- -r5'', ''x.pl'', ''-a''] [''SPEEDY_TIMEOUT=7''] ex_opts of
    Ok _ t \<Rightarrow> ptrs (exec_argv t) = [''perl'', ''-w'', ''--'', ''-r5'', ''x.pl'', ''-a''] \<and> opt_ints t 0 = 5 \<and> opt_ints t 1 = 7
  | _ \<Rightarrow> False"
  by code_simp

section \<open>Directories\<close>

definition ex_dir :: devino where "ex_dir = \<lparr>d_ino = 4242, d_dev = 17\<rparr>"
definition ex_dir2 :: devino where "ex_dir2 = \<lparr>d_ino = 4243, d_dev = 17\<rparr>"

text \<open>One script, which ran in \<open>/a\<close> the last time.\<close>

definition ex_cstate :: cstate where
  "ex_cstate = \<lparr>cwds = (\<lambda>p. if p = 0 then Some \<lparr>refcnt = 1, cpath = ''/a'', cdevino = ex_dir\<rparr> else None),
     cwd_brk = 1, cwd_hash = (\<lambda>k. if k = devino_str ex_dir \<or> k = ''/a'' then Some 0 else None),
     scr_hash = (\<lambda>k. if k = ''1_2'' then Some \<lparr>handler = True, last_cwd = Some 0\<rparr> else None),
     cwd_fd = None, here = ex_dir2, cwd_calls = 0\<rparr>"

lemma ex_users: "users ex_cstate p = (if p = 0 then {''1_2''} else {})"
  by (auto simp: users_def ex_cstate_def split: if_splits)

lemma ex_cwd_ok: "cwd_ok ''1_2'' ex_cstate"
proof -
  have "dom (scr_hash ex_cstate) = {''1_2''}" by (auto simp: ex_cstate_def split: if_splits)
  then show ?thesis
    by (simp add: cwd_ok_def cinv_def ex_users) (simp add: ex_cstate_def)
qed

text \<open>Every path leads to \<open>d\<close> and every call works.\<close>

definition ex_cenv :: "devino \<Rightarrow> cenv" where
  "ex_cenv d = \<lparr>leads = (\<lambda>_ _. Some d), opens = (\<lambda>_. True), fstats = (\<lambda>_. True), stats = (\<lambda>_. True),
     fchdirs = (\<lambda>_. True), garbage = (\<lambda>_. ex_dir2)\<rparr>"

lemma ex_smooth: "smooth (ex_cenv d)" by (simp add: smooth_def ex_cenv_def)

lemma ex_in_range: "in_range ex_dir" by (simp add: in_range_def ex_dir_def)

lemma ex_steady_paths: "steady_paths (ex_cenv ex_dir) ex_cstate"
  using ex_in_range by (auto simp: steady_paths_def ex_cenv_def ex_cstate_def abs_path_def split: if_splits)

section \<open>Signals\<close>

text \<open>Signals 14 and 15 are caught; 14 comes in the second suspension.\<close>

definition ex_sigst :: sigst where
  "ex_sigst = \<lparr>got_sigs = [0, 0, 0], blockall_save = {}, all_blocked = False, sigmask = {14, 15},
     actions = (\<lambda>x. if x = 14 \<or> x = 15 then Sig_handler else Old_action 0), suspends = 0\<rparr>"

definition ex_siglist :: sig_list where
  "ex_siglist = \<lparr>signum = [14, 15], sigact_save = [Old_action 0, Old_action 0], sig_rcvd = [0, 0, 0],
     unblock_sigs = {}, sigset_save = {}\<rparr>"

definition ex_comes :: "nat \<Rightarrow> int list" where "ex_comes k = (if k = 0 then [2] else [14])"

lemma ex_few: "few ex_sigst"
proof -
  have "{x. actions ex_sigst x = Sig_handler} = {14, 15}" by (auto simp: ex_sigst_def split: if_splits)
  then show ?thesis by (simp add: few_def SPEEDY_MAXSIG_def) (simp add: ex_sigst_def)
qed

text \<open>Before the handlers were set.\<close>

definition ex_sig0 :: sigst where
  "ex_sig0 = ex_sigst\<lparr>sigmask := {}, actions := (\<lambda>_. Old_action 0)\<rparr>"

section \<open>The script as a file\<close>

text \<open>Opened at 100 on descriptor 5; the next \<open>open\<close> shows a newer file.\<close>

definition ex_stat :: "int \<Rightarrow> script_stat" where
  "ex_stat t = \<lparr>st_dev = 1, st_ino = 2, st_mtime = t, st_size = 10\<rparr>"

definition ex_sf :: sfstate where
  "ex_sf = \<lparr>the_stat = ex_stat 50, script_fd = 5, last_open = 100, kfds = {0, 5}, opens_done = 0, script_map = None\<rparr>"

lemma ex_sf_one: "one_fd {0} ex_sf"
  by (auto simp: one_fd_def ex_sf_def)

lemma ex_sf_fresh: "fresh_fds (\<lambda>_. Opened 5 (ex_stat 60)) {0}"
  by (simp add: fresh_fds_def)

end
