(* ===== verification/Ipc.thy ===== *)
theory Ipc
  imports Prelude Util
begin

unbundle bit_operations_syntax

text \<open>
  Sockets between frontends and backends (src/src/speedy_ipc.c): a backend listens on a socket whose
  name is made of its slot number, a frontend connects to it three times, and the backend accepts
  the three connections as its standard input, output and error. The state is that of the kernel
  (sockets, names of sockets) and of one process (descriptors); which calls fail and which
  connections come from others are answers of the system.
\<close>

section \<open>State\<close>

definition IPC_NUMFDS :: nat where "IPC_NUMFDS = 3"
definition PREF_FD_ACCEPT_I :: int where "PREF_FD_ACCEPT_I = 0"
definition PREF_FD_ACCEPT_O :: int where "PREF_FD_ACCEPT_O = 1"
definition PREF_FD_ACCEPT_E :: int where "PREF_FD_ACCEPT_E = 2"
definition PREF_FD_LISTENER :: int where "PREF_FD_LISTENER = 18"

text \<open>The size of \<open>sun_path\<close>.\<close>

definition SUN_PATH :: nat where "SUN_PATH = 108"

text \<open>\<open>sk_name\<close> is empty for a socket that is not bound; \<open>sk_queue\<close> holds the sockets that have connected
  and are not accepted yet; \<open>sk_peer\<close> is the other end of an accepted connection.\<close>

record ksock =
  sk_name :: string
  sk_listens :: bool
  sk_queue :: "nat list"
  sk_peer :: "nat option"

text \<open>
  Open files are numbers, \<open>socks\<close> says which of them are sockets; those from \<open>sock_brk\<close> on are not in
  use. \<open>desc\<close> are the descriptors of the process, \<open>cloexec\<close> those closed by \<open>exec\<close>. \<open>bound_paths\<close> are the
  names of sockets with their permissions. \<open>listener_id\<close> is the device and inode in \<open>listener_stbuf\<close>,
  \<open>polled\<close> the largest descriptor \<open>listener_pi\<close> has room for.
\<close>

record net =
  socks :: "nat \<Rightarrow> ksock option"
  sock_brk :: nat
  desc :: "int \<rightharpoonup> nat"
  cloexec :: "int set"
  bound_paths :: "string \<rightharpoonup> nat \<times> int"
  cur_umask :: int
  listener :: int
  listener_id :: "int \<times> int"
  polled :: int
  net_calls :: nat

datatype sockres = Sock_ok | No_bufspace | Sock_error

text \<open>
  The system, by the number of the call: what \<open>socket\<close> answers, whether \<open>bind\<close>, \<open>listen\<close>, \<open>connect\<close>
  and \<open>accept\<close> work, the connections of others that come while the process waits, the device and
  inode of an open file, the owner of a name; how many descriptors a process may have; the name of
  the socket of a slot (\<open>speedy_util_fname\<close> with \<open>'S'\<close>) and the effective user.
\<close>

record netenv =
  n_socket :: "nat \<Rightarrow> sockres"
  n_bind :: "nat \<Rightarrow> bool"
  n_listen :: "nat \<Rightarrow> bool"
  n_connect :: "nat \<Rightarrow> bool"
  n_accept :: "nat \<Rightarrow> bool"
  n_arrive :: "nat \<Rightarrow> nat list"
  n_id :: "nat \<Rightarrow> int \<times> int"
  n_owner :: "nat \<Rightarrow> string \<Rightarrow> int"
  n_maxfd :: nat
  n_fname :: "int \<Rightarrow> string"
  n_euid :: int

datatype ipcdeath = Path_too_long string | Cannot_create_socket | Cannot_bind | Cannot_listen | Accept_failed

type_synonym 'a nio = "(ipcdeath, net, 'a) M"

definition ncall :: "(nat \<Rightarrow> 'a) \<Rightarrow> 'a nio" where
  "ncall f = bnd (gets (\<lambda>s. f (net_calls s))) (\<lambda>x. thenM [modify (\<lambda>s. s\<lparr>net_calls := Suc (net_calls s)\<rparr>)] (ret x))"

text \<open>A new descriptor is the lowest that is not in use, \<open>-1\<close> if there is none.\<close>

primrec first_free :: "nat \<Rightarrow> (int \<rightharpoonup> nat) \<Rightarrow> int \<Rightarrow> int" where
  "first_free 0 d fd = - 1"
| "first_free (Suc n) d fd = (if d fd = None then fd else first_free n d (fd + 1))"

definition open_desc :: "netenv \<Rightarrow> nat \<Rightarrow> int nio" where
  "open_desc e k =
     bnd (gets (\<lambda>s. first_free (n_maxfd e) (desc s) 0)) (\<lambda>fd.
     thenM [whenM (fd \<noteq> - 1) (modify (\<lambda>s. s\<lparr>desc := (desc s)(fd \<mapsto> k)\<rparr>))] (ret fd))"

definition sys_close :: "int \<Rightarrow> unit nio" where
  "sys_close fd = modify (\<lambda>s. s\<lparr>desc := (desc s)(fd := None), cloexec := cloexec s - {fd}\<rparr>)"

text \<open>\<open>dup2\<close> and \<open>close\<close> leave the new descriptor open over \<open>exec\<close>.\<close>

definition pref_fd :: "int \<Rightarrow> int \<Rightarrow> int nio" where
  "pref_fd oldfd newfd =
     bnd (gets (\<lambda>s. speedy_util_pref_fd oldfd newfd (desc s))) (\<lambda>(fd, d).
     thenM [modify (\<lambda>s. s\<lparr>desc := d, cloexec := (if fd = oldfd then cloexec s else cloexec s - {oldfd, newfd})\<rparr>)]
       (ret fd))"

definition new_sock :: "ksock" where
  "new_sock = \<lparr>sk_name = '''', sk_listens = False, sk_queue = [], sk_peer = None\<rparr>"

definition add_sock :: "ksock \<Rightarrow> nat nio" where
  "add_sock sk =
     bnd (gets sock_brk) (\<lambda>k.
     thenM [modify (\<lambda>s. s\<lparr>socks := (socks s)(k \<mapsto> sk), sock_brk := Suc k\<rparr>)] (ret k))"

definition upd_sock :: "nat \<Rightarrow> (ksock \<Rightarrow> ksock) \<Rightarrow> unit nio" where
  "upd_sock k f = modify (\<lambda>s. s\<lparr>socks := (socks s)(k := map_option f (socks s k))\<rparr>)"

text \<open>The socket at a descriptor.\<close>

definition sock_at :: "int \<Rightarrow> net \<Rightarrow> (nat \<times> ksock) option" where
  "sock_at fd s = (case desc s fd of None \<Rightarrow> None | Some k \<Rightarrow> map_option (Pair k) (socks s k))"

section \<open>Names and new sockets\<close>

definition get_fname :: "netenv \<Rightarrow> int \<Rightarrow> bool \<Rightarrow> string nio" where
  "get_fname e slotnum do_unlink =
     thenM [whenM do_unlink (modify (\<lambda>s. s\<lparr>bound_paths := (bound_paths s)(n_fname e slotnum := None)\<rparr>))]
       (ret (n_fname e slotnum))"

definition make_sockname :: "netenv \<Rightarrow> int \<Rightarrow> bool \<Rightarrow> string nio" where
  "make_sockname e slotnum do_unlink =
     bnd (get_fname e slotnum do_unlink) (\<lambda>fname.
     if length fname + 1 > SUN_PATH then die (Path_too_long fname) else ret fname)"

text \<open>One second passes between two tries.\<close>

primrec make_sock_loop :: "nat \<Rightarrow> netenv \<Rightarrow> int nio" where
  "make_sock_loop 0 e = die Cannot_create_socket"
| "make_sock_loop (Suc i) e =
     bnd (ncall (n_socket e)) (\<lambda>r.
     case r of
       No_bufspace \<Rightarrow> make_sock_loop i e
     | Sock_error \<Rightarrow> die Cannot_create_socket
     | Sock_ok \<Rightarrow>
         bnd (add_sock new_sock) (\<lambda>k.
         bnd (open_desc e k) (\<lambda>fd.
         if fd \<noteq> - 1 then ret fd else die Cannot_create_socket)))"

definition make_sock :: "netenv \<Rightarrow> int nio" where
  "make_sock e = make_sock_loop 300 e"

definition ipc_cleanup :: "netenv \<Rightarrow> int \<Rightarrow> unit nio" where
  "ipc_cleanup e slotnum = bnd (get_fname e slotnum True) (\<lambda>_. ret ())"

section \<open>Backends\<close>

text \<open>Whether the descriptor for the listener is open on a socket with the right name, which exists and
  belongs to the user.\<close>

definition inherited :: "netenv \<Rightarrow> string \<Rightarrow> bool nio" where
  "inherited e fname =
     bnd (gets (\<lambda>s. case sock_at PREF_FD_LISTENER s of None \<Rightarrow> False | Some (k, sk) \<Rightarrow> sk_name sk = fname)) (\<lambda>named.
     bnd (gets (\<lambda>s. bound_paths s fname \<noteq> None)) (\<lambda>there.
     if named \<and> there then bnd (ncall (\<lambda>n. n_owner e n fname)) (\<lambda>uid. ret (uid = n_euid e))
     else ret False))"

text \<open>\<open>bind\<close> makes the name, which must not be there, with what the mask leaves of all permissions.\<close>

definition sys_bind :: "netenv \<Rightarrow> int \<Rightarrow> string \<Rightarrow> bool nio" where
  "sys_bind e fd fname =
     bnd (ncall (n_bind e)) (\<lambda>ok.
     bnd (gets (sock_at fd)) (\<lambda>x.
     bnd (gets (\<lambda>s. bound_paths s fname)) (\<lambda>p.
     case x of None \<Rightarrow> ret False
     | Some (k, sk) \<Rightarrow>
         if ok \<and> p = None
         then thenM
           [upd_sock k (\<lambda>sk. sk\<lparr>sk_name := fname\<rparr>),
            modify (\<lambda>s. s\<lparr>bound_paths := (bound_paths s)(fname \<mapsto> (k, 511 AND NOT (cur_umask s)))\<rparr>)]
           (ret True)
         else ret False)))"

definition sys_listen :: "netenv \<Rightarrow> int \<Rightarrow> bool nio" where
  "sys_listen e fd =
     bnd (ncall (n_listen e)) (\<lambda>ok.
     bnd (gets (sock_at fd)) (\<lambda>x.
     case x of None \<Rightarrow> ret False
     | Some (k, sk) \<Rightarrow> if ok then thenM [upd_sock k (\<lambda>sk. sk\<lparr>sk_listens := True\<rparr>)] (ret True) else ret False))"

text \<open>\<open>umask(077)\<close>.\<close>

definition listen_bind :: "netenv \<Rightarrow> int \<Rightarrow> unit nio" where
  "listen_bind e slotnum =
     bnd (gets cur_umask) (\<lambda>saved_umask.
     thenM [modify (\<lambda>s. s\<lparr>cur_umask := 63\<rparr>)]
      (bnd (make_sock e) (\<lambda>fd.
       thenM [modify (\<lambda>s. s\<lparr>listener := fd\<rparr>)]
        (bnd (make_sockname e slotnum True) (\<lambda>sa.
         bnd (sys_bind e fd sa) (\<lambda>ok.
         seqM
          [whenM (\<not> ok) (die Cannot_bind),
           modify (\<lambda>s. s\<lparr>cur_umask := saved_umask\<rparr>)]))))))"

definition speedy_ipc_listen :: "netenv \<Rightarrow> int \<Rightarrow> unit nio" where
  "speedy_ipc_listen e slotnum =
     bnd (get_fname e slotnum False) (\<lambda>fname.
     bnd (inherited e fname) (\<lambda>inh.
     thenM
      [modify (\<lambda>s. s\<lparr>listener := (if inh then PREF_FD_LISTENER else - 1)\<rparr>),
       whenM (\<not> inh) (listen_bind e slotnum)]
      (bnd (gets listener) (\<lambda>l.
       bnd (sys_listen e l) (\<lambda>ok.
       thenM
        [whenM (\<not> ok) (die Cannot_listen),
         modify (\<lambda>s. case desc s l of None \<Rightarrow> s | Some k \<Rightarrow> s\<lparr>listener_id := n_id e k\<rparr>)]
        (bnd (pref_fd l PREF_FD_LISTENER) (\<lambda>l.
         modify (\<lambda>s. s\<lparr>listener := l, cloexec := insert l (cloexec s), polled := l\<rparr>))))))))"

definition ipc_unlisten :: "unit nio" where
  "ipc_unlisten =
     bnd (gets listener) (\<lambda>l.
     seqM [sys_close l, modify (\<lambda>s. s\<lparr>listener := - 1, polled := - 1\<rparr>)])"

text \<open>Whether the descriptor of the listener is closed or open on something else.\<close>

definition fd_lost :: "netenv \<Rightarrow> net \<Rightarrow> bool" where
  "fd_lost e s =
     (case desc s (listener s) of None \<Rightarrow> True
      | Some k \<Rightarrow> fst (n_id e k) \<noteq> fst (listener_id s) \<or> snd (n_id e k) \<noteq> snd (listener_id s))"

definition speedy_ipc_listen_fixfd :: "netenv \<Rightarrow> int \<Rightarrow> unit nio" where
  "speedy_ipc_listen_fixfd e slotnum =
     bnd (gets (fd_lost e)) (\<lambda>lost.
     whenM lost (seqM [ipc_unlisten, speedy_ipc_listen e slotnum]))"

text \<open>Connections that come during a call are queued at the listener.\<close>

definition arrivals :: "netenv \<Rightarrow> unit nio" where
  "arrivals e =
     bnd (ncall (n_arrive e)) (\<lambda>xs.
     bnd (gets (\<lambda>s. sock_at (listener s) s)) (\<lambda>x.
     case x of None \<Rightarrow> ret ()
     | Some (k, sk) \<Rightarrow> upd_sock k (\<lambda>sk. sk\<lparr>sk_queue := sk_queue sk @ xs\<rparr>)))"

text \<open>\<open>accept\<close> waits for a connection if there is none.\<close>

definition sys_accept :: "netenv \<Rightarrow> int nio" where
  "sys_accept e =
     thenM [arrivals e]
      (bnd (ncall (n_accept e)) (\<lambda>ok.
       bnd (gets (\<lambda>s. sock_at (listener s) s)) (\<lambda>x.
       case x of None \<Rightarrow> ret (- 1)
       | Some (k, sk) \<Rightarrow>
           if \<not> ok \<or> \<not> sk_listens sk then ret (- 1)
           else (case sk_queue sk of [] \<Rightarrow> hang
             | c # cs \<Rightarrow>
                 thenM [upd_sock k (\<lambda>sk. sk\<lparr>sk_queue := cs\<rparr>)]
                   (bnd (add_sock (new_sock\<lparr>sk_peer := Some c\<rparr>)) (open_desc e))))))"

definition do_accept :: "netenv \<Rightarrow> int \<Rightarrow> unit nio" where
  "do_accept e fd =
     bnd (sys_accept e) (\<lambda>a.
     bnd (pref_fd a fd) (\<lambda>sock. whenM (sock = - 1) (die Accept_failed)))"

definition accept_ready :: "netenv \<Rightarrow> bool nio" where
  "accept_ready e =
     thenM [arrivals e]
      (gets (\<lambda>s. case sock_at (listener s) s of None \<Rightarrow> False
         | Some (k, sk) \<Rightarrow> listener s \<le> polled s \<and> sk_queue sk \<noteq> []))"

definition speedy_ipc_accept :: "netenv \<Rightarrow> bool nio" where
  "speedy_ipc_accept e =
     bnd (accept_ready e) (\<lambda>ready.
     if ready then thenM [do_accept e PREF_FD_ACCEPT_I, do_accept e PREF_FD_ACCEPT_O, do_accept e PREF_FD_ACCEPT_E] (ret True)
     else ret False)"

section \<open>Frontends\<close>

definition sys_connect :: "netenv \<Rightarrow> int \<Rightarrow> string \<Rightarrow> bool nio" where
  "sys_connect e fd sa =
     bnd (ncall (n_connect e)) (\<lambda>ok.
     bnd (gets (\<lambda>s. (sock_at fd s, bound_paths s sa))) (\<lambda>x.
     case x of
       (Some (c, _), Some (k, _)) \<Rightarrow>
         bnd (gets (\<lambda>s. case socks s k of None \<Rightarrow> False | Some sk \<Rightarrow> sk_listens sk)) (\<lambda>l.
         if ok \<and> l then thenM [upd_sock k (\<lambda>sk. sk\<lparr>sk_queue := sk_queue sk @ [c]\<rparr>)] (ret True)
         else ret False)
     | _ \<Rightarrow> ret False))"

definition do_connect :: "netenv \<Rightarrow> int \<Rightarrow> int \<Rightarrow> bool nio" where
  "do_connect e slotnum fd = bnd (make_sockname e slotnum False) (sys_connect e fd)"

primrec make_socks :: "nat \<Rightarrow> netenv \<Rightarrow> int list nio" where
  "make_socks 0 e = ret []"
| "make_socks (Suc n) e = bnd (make_sock e) (\<lambda>fd. bnd (make_socks n e) (\<lambda>fds. ret (fd # fds)))"

definition speedy_ipc_connect_prepare :: "netenv \<Rightarrow> int list nio" where
  "speedy_ipc_connect_prepare e = make_socks IPC_NUMFDS e"

text \<open>\<open>fds\<close> is what is left of \<open>ss\<close>.\<close>

primrec connect_all :: "netenv \<Rightarrow> int \<Rightarrow> int list \<Rightarrow> int list \<Rightarrow> bool nio" where
  "connect_all e slotnum ss [] = ret True"
| "connect_all e slotnum ss (fd # fds) =
     bnd (do_connect e slotnum fd) (\<lambda>ok.
     if ok then connect_all e slotnum ss fds
     else thenM (map sys_close ss) (ret False))"

definition ipc_connect :: "netenv \<Rightarrow> int \<Rightarrow> int list \<Rightarrow> bool nio" where
  "ipc_connect e slotnum ss = connect_all e slotnum ss ss"

end
