(* ===== verification/IpcSpecs.thy ===== *)
theory IpcSpecs
  imports Ipc
begin

text \<open>
  What the functions on sockets promise: after listening, the name of the slot leads to a socket only
  the user can use and the process listens on it, also after a script has closed or replaced the
  descriptor; connecting leaves no socket open if it fails; and the three connections of a frontend
  are accepted in the order in which they were made.
\<close>

section \<open>Descriptors and new sockets\<close>

lemma first_free_spec: "first_free n d i = fd \<Longrightarrow> fd \<noteq> - 1 \<Longrightarrow> d fd = None \<and> i \<le> fd"
  by (induction n arbitrary: i) (auto split: if_splits, fastforce)

definition no_accept :: "ipcdeath \<Rightarrow> bool" where
  "no_accept e \<longleftrightarrow> e \<noteq> Accept_failed"

text \<open>\<open>fd\<close> is open on a new socket and nothing else has changed.\<close>

definition sock_made :: "net \<Rightarrow> int \<Rightarrow> net \<Rightarrow> bool" where
  "sock_made s fd t \<longleftrightarrow> 0 \<le> fd \<and> desc s fd = None \<and>
     (\<exists>n. t = s\<lparr>socks := (socks s)(sock_brk s \<mapsto> new_sock), sock_brk := Suc (sock_brk s),
       desc := (desc s)(fd \<mapsto> sock_brk s), net_calls := n\<rparr>)"

lemma make_sock_loop_spec: "wpx h (make_sock_loop n e) (sock_made s) no_accept s"
proof (induction n arbitrary: s)
  case 0
  then show ?case by (simp add: wpxs no_accept_def)
next
  case (Suc n)
  let ?s = "s\<lparr>net_calls := Suc (net_calls s)\<rparr>"
  have "wpx h (make_sock_loop n e) (sock_made s) no_accept ?s"
    by (rule wpx_mono [OF Suc]) (auto simp: sock_made_def)
  moreover have "wpx h (bnd (add_sock new_sock) (\<lambda>k. bnd (open_desc e k) (\<lambda>fd.
      if fd \<noteq> - 1 then ret fd else die Cannot_create_socket))) (sock_made s) no_accept ?s"
    using first_free_spec [of "n_maxfd e" "desc s" 0]
    by (auto simp: add_sock_def open_desc_def wpxs no_accept_def sock_made_def intro!: exI [of _ "Suc (net_calls s)"])
  moreover have "wpx h (die Cannot_create_socket) (sock_made s) no_accept ?s"
    by (simp add: wpxs no_accept_def)
  ultimately show ?case
    by (cases "n_socket e (net_calls s)") (simp_all add: ncall_def wpx_bnd wpx_gets wpx_thenM wpx_seqM wpx_modify wpx_ret)
qed

lemma make_sock_spec: "wpx h (make_sock e) (sock_made s) no_accept s"
  unfolding make_sock_def by (rule make_sock_loop_spec)

section \<open>Listening\<close>

definition listening :: "netenv \<Rightarrow> int \<Rightarrow> net \<Rightarrow> bool" where
  "listening e slotnum s \<longleftrightarrow> listener s = PREF_FD_LISTENER \<and> polled s = listener s \<and>
     (\<exists>k sk. sock_at (listener s) s = Some (k, sk) \<and> sk_listens sk \<and> sk_name sk = n_fname e slotnum \<and>
        listener_id s = n_id e k)"

text \<open>A new socket, named after the slot and readable and writable for the user alone.\<close>

definition freshly_bound :: "netenv \<Rightarrow> int \<Rightarrow> net \<Rightarrow> net \<Rightarrow> bool" where
  "freshly_bound e slotnum s t \<longleftrightarrow> 0 \<le> listener t \<and> desc t = (desc s)(listener t \<mapsto> sock_brk s) \<and>
     socks t (sock_brk s) = Some (new_sock\<lparr>sk_name := n_fname e slotnum\<rparr>) \<and>
     bound_paths t = (bound_paths s)(n_fname e slotnum \<mapsto> (sock_brk s, 448)) \<and>
     cur_umask t = cur_umask s \<and> cloexec t = cloexec s"

lemma listen_bind_spec: "wpx h (listen_bind e slotnum) (\<lambda>_. freshly_bound e slotnum s) no_accept s"
proof -
  let ?f = "n_fname e slotnum"
  have rest: "wpx h (thenM [modify (\<lambda>s. s\<lparr>listener := fd\<rparr>)]
        (bnd (make_sockname e slotnum True) (\<lambda>sa.
         bnd (sys_bind e fd sa) (\<lambda>ok.
         seqM
          [whenM (\<not> ok) (die Cannot_bind),
           modify (\<lambda>t. t\<lparr>cur_umask := cur_umask s\<rparr>)])))) (\<lambda>_. freshly_bound e slotnum s) no_accept t"
    if "sock_made (s\<lparr>cur_umask := 63\<rparr>) fd t" for fd t
  proof -
    have fd: "0 \<le> fd" and t: "desc t = (desc s)(fd \<mapsto> sock_brk s)" "socks t (sock_brk s) = Some new_sock"
      "bound_paths t = bound_paths s" "cur_umask t = 63" "cloexec t = cloexec s"
      using that by (auto simp: sock_made_def)
    have m: "(511 :: int) AND NOT 63 = 448" by simp
    show ?thesis
      using fd t m
      by (auto simp: make_sockname_def get_fname_def sys_bind_def ncall_def sock_at_def upd_sock_def wpxs
          no_accept_def freshly_bound_def split: option.splits)
  qed
  show ?thesis
    unfolding listen_bind_def
    by (simp only: wpx_bnd wpx_gets wpx_thenM wpx_seqM wpx_modify)
      (rule wpx_mono [OF make_sock_spec], use rest in \<open>simp only: wpx_bnd wpx_gets wpx_thenM wpx_seqM wpx_modify\<close>)
qed

lemma get_fname_keep: "get_fname e slotnum False = ret (n_fname e slotnum)"
  by (simp add: get_fname_def fun_eq_iff run_simps)

definition would_inherit :: "string \<Rightarrow> net \<Rightarrow> bool" where
  "would_inherit fname s \<longleftrightarrow> (\<exists>k sk. sock_at PREF_FD_LISTENER s = Some (k, sk) \<and> sk_name sk = fname) \<and>
     bound_paths s fname \<noteq> None"

lemma inherited_spec:
  "wp (inherited e fname) (\<lambda>inh t. (\<exists>n. t = s\<lparr>net_calls := n\<rparr>) \<and> (inh \<longrightarrow> would_inherit fname s)) s"
proof -
  have "s = s\<lparr>net_calls := net_calls s\<rparr>" by simp
  then have "\<exists>n. s = s\<lparr>net_calls := n\<rparr>" ..
  then show ?thesis
    by (auto simp: inherited_def ncall_def would_inherit_def wps split: option.splits)
qed

text \<open>
  Listening either sets up a new socket or takes over the one the descriptor for the listener is open
  on, which has the name of the slot.
\<close>

theorem ipc_listen_spec:
  "wpx h (speedy_ipc_listen e slotnum) (\<lambda>_ t. listening e slotnum t \<and> PREF_FD_LISTENER \<in> cloexec t \<and>
     cur_umask t = cur_umask s \<and>
     (desc t = desc s \<and> bound_paths t = bound_paths s \<and> bound_paths s (n_fname e slotnum) \<noteq> None \<or>
      bound_paths t = (bound_paths s)(n_fname e slotnum \<mapsto> (sock_brk s, 448)) \<and>
      desc t PREF_FD_LISTENER = Some (sock_brk s))) no_accept s" (is "wpx h _ ?Q no_accept s")
proof -
  let ?f = "n_fname e slotnum"
  let ?rest = "bnd (gets listener) (\<lambda>l.
       bnd (sys_listen e l) (\<lambda>ok.
       thenM
        [whenM (\<not> ok) (die Cannot_listen),
         modify (\<lambda>s. case desc s l of None \<Rightarrow> s | Some k \<Rightarrow> s\<lparr>listener_id := n_id e k\<rparr>)]
        (bnd (pref_fd l PREF_FD_LISTENER) (\<lambda>l.
         modify (\<lambda>s. s\<lparr>listener := l, cloexec := insert l (cloexec s), polled := l\<rparr>)))))"
  have old: "wpx h ?rest ?Q no_accept t"
    if t: "listener t = PREF_FD_LISTENER" "sock_at PREF_FD_LISTENER t = Some (k, sk)" "sk_name sk = ?f"
      "desc t = desc s" "bound_paths t = bound_paths s" "bound_paths s ?f \<noteq> None" "cur_umask t = cur_umask s" for t k sk
    using t
    by (auto simp: sys_listen_def ncall_def sock_at_def upd_sock_def pref_fd_def speedy_util_pref_fd_def wpxs
        no_accept_def listening_def split: option.splits)
  have new: "wpx h ?rest ?Q no_accept t" if t: "freshly_bound e slotnum s t" for t
    using t
    by (auto simp: freshly_bound_def sys_listen_def ncall_def sock_at_def upd_sock_def pref_fd_def
        speedy_util_pref_fd_def PREF_FD_DONTCARE_def PREF_FD_LISTENER_def wpxs no_accept_def listening_def
        split: option.splits)
  have bind: "wpx h (listen_bind e slotnum) (\<lambda>_. wpx h ?rest ?Q no_accept) no_accept t"
    if "desc t = desc s" "bound_paths t = bound_paths s" "cur_umask t = cur_umask s" "sock_brk t = sock_brk s"
      "cloexec t = cloexec s" for t
    by (rule wpx_mono [OF listen_bind_spec]) (use that new in \<open>auto simp: freshly_bound_def\<close>)
  have tail: "wpx h (thenM
      [modify (\<lambda>s. s\<lparr>listener := (if inh then PREF_FD_LISTENER else - 1)\<rparr>), whenM (\<not> inh) (listen_bind e slotnum)] ?rest)
      ?Q no_accept t"
    if t: "\<exists>n. t = s\<lparr>net_calls := n\<rparr>" and inh: "inh \<Longrightarrow> would_inherit ?f s" for inh t
  proof (cases inh)
    case True
    then obtain k sk where "sock_at PREF_FD_LISTENER s = Some (k, sk)" "sk_name sk = ?f" "bound_paths s ?f \<noteq> None"
      using inh by (auto simp: would_inherit_def)
    then have "wpx h ?rest ?Q no_accept (t\<lparr>listener := PREF_FD_LISTENER\<rparr>)"
      using t by (intro old [of _ k sk]) (auto simp: sock_at_def split: option.splits)
    then show ?thesis using True by (simp only: wpx_thenM wpx_seqM wpx_modify wpx_whenM if_True not_True_eq_False if_False)
  next
    case False
    have "wpx h (listen_bind e slotnum) (\<lambda>_. wpx h ?rest ?Q no_accept) no_accept (t\<lparr>listener := - 1\<rparr>)"
      using t by (intro bind) auto
    then show ?thesis
      using False by (simp only: wpx_thenM wpx_seqM wpx_modify wpx_whenM if_True not_False_eq_True if_False)
  qed
  have "wpx h (inherited e ?f) (\<lambda>inh. wpx h (thenM
      [modify (\<lambda>s. s\<lparr>listener := (if inh then PREF_FD_LISTENER else - 1)\<rparr>), whenM (\<not> inh) (listen_bind e slotnum)] ?rest)
      ?Q no_accept) no_accept s"
    by (rule wpx_mono [OF wpx_wp [OF inherited_spec]], rule tail) auto
  then show ?thesis
    unfolding speedy_ipc_listen_def get_fname_keep wpx_bnd wpx_ret .
qed

text \<open>
  Whatever a script has done to the descriptors, after \<open>speedy_ipc_listen_fixfd\<close> the process listens
  again on a socket with the name of the slot.
\<close>

definition was_listening :: "netenv \<Rightarrow> int \<Rightarrow> net \<Rightarrow> bool" where
  "was_listening e slotnum s \<longleftrightarrow> listener s = PREF_FD_LISTENER \<and> polled s = listener s \<and>
     (\<exists>k sk. listener_id s = n_id e k \<and> socks s k = Some sk \<and> sk_listens sk \<and> sk_name sk = n_fname e slotnum)"

theorem ipc_fixfd_spec:
  assumes "was_listening e slotnum s" and "inj (n_id e)"
  shows "wpx h (speedy_ipc_listen_fixfd e slotnum) (\<lambda>_ t. listening e slotnum t \<and>
    (\<not> fd_lost e s \<longrightarrow> t = s) \<and> cur_umask t = cur_umask s) no_accept s"
proof (cases "fd_lost e s")
  case True
  have "wpx h (speedy_ipc_listen e slotnum) (\<lambda>_ t. listening e slotnum t \<and> cur_umask t = cur_umask s) no_accept u"
    if "cur_umask u = cur_umask s" for u
    by (rule wpx_mono [OF ipc_listen_spec]) (use that in simp)
  then show ?thesis
    using True by (simp add: speedy_ipc_listen_fixfd_def ipc_unlisten_def sys_close_def wpxs)
next
  case False
  then obtain k where k: "desc s (listener s) = Some k" "n_id e k = listener_id s"
    by (auto simp: fd_lost_def prod_eq_iff split: option.splits)
  then have "listening e slotnum s"
    using assms injD [OF assms(2)] by (force simp: was_listening_def listening_def sock_at_def)
  then show ?thesis using False by (simp add: speedy_ipc_listen_fixfd_def wpxs)
qed

section \<open>Connecting\<close>

text \<open>A quiet system: nobody else connects, and no call fails.\<close>

definition quiet :: "netenv \<Rightarrow> bool" where
  "quiet e \<longleftrightarrow> (\<forall>n. n_arrive e n = [] \<and> n_accept e n \<and> n_connect e n)"

definition welcomed :: "netenv \<Rightarrow> int \<Rightarrow> net \<Rightarrow> bool" where
  "welcomed e slotnum s \<longleftrightarrow> quiet e \<and> (\<exists>k m sk. bound_paths s (n_fname e slotnum) = Some (k, m) \<and>
     socks s k = Some sk \<and> sk_listens sk)"

text \<open>The sockets \<open>cs\<close> have queued at the socket \<open>k\<close>.\<close>

definition queued_at :: "nat \<Rightarrow> nat list \<Rightarrow> net \<Rightarrow> net \<Rightarrow> bool" where
  "queued_at k cs s t \<longleftrightarrow> (\<exists>sk n. socks s k = Some sk \<and> sk_listens sk \<and>
     t = s\<lparr>socks := (socks s)(k \<mapsto> sk\<lparr>sk_queue := sk_queue sk @ cs\<rparr>), net_calls := n\<rparr>)"

lemma queued_at_trans: "queued_at k cs s t \<Longrightarrow> queued_at k ds t u \<Longrightarrow> queued_at k (cs @ ds) s u"
  by (auto simp: queued_at_def) (rule exI, rule refl)

definition are_socks :: "int list \<Rightarrow> net \<Rightarrow> bool" where
  "are_socks fds s \<longleftrightarrow> (\<forall>fd \<in> set fds. sock_at fd s \<noteq> None)"

lemma queued_at_keeps:
  assumes "queued_at k cs s t"
  shows "desc t = desc s" and "bound_paths t = bound_paths s" and "are_socks fds s \<Longrightarrow> are_socks fds t"
    and "welcomed e slotnum t = welcomed e slotnum s"
  using assms by (auto simp: queued_at_def are_socks_def sock_at_def welcomed_def split: option.splits if_splits)

lemma quiet_connects: "quiet e \<Longrightarrow> n_connect e n" by (simp add: quiet_def)

lemma do_connect_spec:
  assumes "sock_at fd s \<noteq> None" and "length (n_fname e slotnum) < SUN_PATH"
  shows "wp (do_connect e slotnum fd) (\<lambda>ok t.
    if ok then \<exists>k m. bound_paths s (n_fname e slotnum) = Some (k, m) \<and> queued_at k [the (desc s fd)] s t
    else (\<exists>n. t = s\<lparr>net_calls := n\<rparr>) \<and> \<not> welcomed e slotnum s) s"
  using assms quiet_connects [of e "net_calls s"]
  by (auto simp: do_connect_def make_sockname_def get_fname_keep sys_connect_def ncall_def upd_sock_def wps
      queued_at_def sock_at_def welcomed_def split: option.splits intro!: exI [of _ "Suc (net_calls s)"])

lemma wp_sys_close: "wp (sys_close fd) Q s = Q () (s\<lparr>desc := (desc s)(fd := None), cloexec := cloexec s - {fd}\<rparr>)"
  by (simp add: sys_close_def wps)

lemma close_all_spec:
  "wp (seqM (map sys_close fds)) (\<lambda>_ t. desc t = (\<lambda>fd. if fd \<in> set fds then None else desc s fd) \<and>
     bound_paths t = bound_paths s) s"
proof (induction fds arbitrary: s)
  case (Cons fd fds)
  let ?s = "s\<lparr>desc := (desc s)(fd := None), cloexec := cloexec s - {fd}\<rparr>"
  have "wp (seqM (map sys_close fds)) (\<lambda>_ t. desc t = (\<lambda>x. if x \<in> set (fd # fds) then None else desc s x) \<and>
     bound_paths t = bound_paths s) ?s"
    by (rule wp_mono [OF Cons]) (auto simp: fun_eq_iff)
  then show ?case by (simp add: wp_sys_close wps)
qed (simp add: wps)

definition all_connected :: "netenv \<Rightarrow> int \<Rightarrow> int list \<Rightarrow> net \<Rightarrow> net \<Rightarrow> bool" where
  "all_connected e slotnum fds s t \<longleftrightarrow> fds = [] \<and> t = s \<or> (\<exists>k m. bound_paths s (n_fname e slotnum) = Some (k, m) \<and>
     queued_at k (map (\<lambda>fd. the (desc s fd)) fds) s t)"

definition all_closed :: "int list \<Rightarrow> net \<Rightarrow> net \<Rightarrow> bool" where
  "all_closed ss s t \<longleftrightarrow> desc t = (\<lambda>fd. if fd \<in> set ss then None else desc s fd) \<and> bound_paths t = bound_paths s"

lemma connect_all_spec:
  assumes "are_socks fds s" and "length (n_fname e slotnum) < SUN_PATH"
  shows "wp (connect_all e slotnum ss fds) (\<lambda>ok t. if ok then all_connected e slotnum fds s t else all_closed ss s t \<and> \<not> welcomed e slotnum s) s"
  using assms(1)
proof (induction fds arbitrary: s)
  case Nil
  then show ?case by (simp add: wps all_connected_def)
next
  case (Cons fd fds)
  have fd: "sock_at fd s \<noteq> None" and fds: "are_socks fds s" using Cons(2) by (auto simp: are_socks_def)
  let ?Q = "\<lambda>ok t. if ok then all_connected e slotnum (fd # fds) s t else all_closed ss s t \<and> \<not> welcomed e slotnum s"
  have on: "wp (connect_all e slotnum ss fds) ?Q t"
    if k: "bound_paths s (n_fname e slotnum) = Some (k, m)" and t: "queued_at k [the (desc s fd)] s t" for k m t
  proof (rule wp_mono [OF Cons(1)])
    show "are_socks fds t" by (rule queued_at_keeps(3) [OF t fds])
    fix ok u
    assume u: "if ok then all_connected e slotnum fds t u else all_closed ss t u \<and> \<not> welcomed e slotnum t"
    have same: "desc t = desc s" "bound_paths t = bound_paths s"
      "welcomed e slotnum t = welcomed e slotnum s"
      using queued_at_keeps [OF t] by auto
    show "?Q ok u"
    proof (cases ok)
      case True
      then have "queued_at k (map (\<lambda>fd. the (desc s fd)) (fd # fds)) s u"
        using u t queued_at_trans [OF t] by (auto simp: all_connected_def same k)
      then show ?thesis using True k by (auto simp: all_connected_def)
    next
      case False
      then show ?thesis using u by (simp add: all_closed_def same cong: if_cong)
    qed
  qed
  have off: "wp (thenM (map sys_close ss) (ret False)) ?Q t" if "t = s\<lparr>net_calls := n\<rparr>" "\<not> welcomed e slotnum s" for t n
    unfolding wp_thenM wp_ret
    by (rule wp_mono [OF close_all_spec]) (use that in \<open>simp add: all_closed_def cong: if_cong\<close>)
  show ?case
    unfolding connect_all.simps wp_bnd
  proof (rule wp_mono [OF do_connect_spec [OF fd assms(2)]])
    fix ok t
    assume t: "if ok then \<exists>k m. bound_paths s (n_fname e slotnum) = Some (k, m) \<and> queued_at k [the (desc s fd)] s t
      else (\<exists>n. t = s\<lparr>net_calls := n\<rparr>) \<and> \<not> welcomed e slotnum s"
    show "wp (if ok then connect_all e slotnum ss fds else thenM (map sys_close ss) (ret False)) ?Q t"
    proof (cases ok)
      case True
      then obtain k m where "bound_paths s (n_fname e slotnum) = Some (k, m)" "queued_at k [the (desc s fd)] s t"
        using t by auto
      from on [OF this] show ?thesis using True by (simp only: if_True)
    next
      case False
      then obtain n where "t = s\<lparr>net_calls := n\<rparr>" "\<not> welcomed e slotnum s" using t by auto
      from off [OF this] show ?thesis using False by (simp only: if_False)
    qed
  qed
qed

text \<open>
  A frontend is connected with all its sockets, which are queued in order, or with none, and then
  they are all closed.
\<close>

theorem ipc_connect_spec:
  assumes "are_socks ss s" and "length (n_fname e slotnum) < SUN_PATH"
  shows "wp (ipc_connect e slotnum ss) (\<lambda>ok t. if ok then all_connected e slotnum ss s t else all_closed ss s t \<and> \<not> welcomed e slotnum s) s"
  unfolding ipc_connect_def by (rule connect_all_spec [OF assms])

section \<open>Accepting\<close>

definition listener_queue :: "net \<Rightarrow> nat list" where
  "listener_queue s = (case sock_at (listener s) s of None \<Rightarrow> [] | Some (k, sk) \<Rightarrow> sk_queue sk)"

definition peer_at :: "int \<Rightarrow> net \<Rightarrow> nat option" where
  "peer_at fd s = (case sock_at fd s of None \<Rightarrow> None | Some (k, sk) \<Rightarrow> sk_peer sk)"

text \<open>\<open>k\<close> is the socket of the listener; the descriptors in \<open>fds\<close> are in use.\<close>

definition accepting :: "nat \<Rightarrow> nat list \<Rightarrow> net \<Rightarrow> bool" where
  "accepting k cs s \<longleftrightarrow> listener s = PREF_FD_LISTENER \<and> polled s = listener s \<and> desc s PREF_FD_LISTENER = Some k \<and>
     k < sock_brk s \<and> (\<exists>sk. socks s k = Some sk \<and> sk_listens sk \<and> sk_queue sk = cs)"

lemma do_accept_spec:
  assumes q: "quiet e" and a: "accepting k (c # cs) s"
    and fd: "first_free (n_maxfd e) (desc s) 0 = fd" "0 \<le> fd" "fd \<noteq> PREF_FD_LISTENER"
  shows "wp (do_accept e fd) (\<lambda>_ t. accepting k cs t \<and> desc t = (desc s)(fd \<mapsto> sock_brk s) \<and>
    sock_brk t = Suc (sock_brk s) \<and>
    socks t (sock_brk s) = Some (new_sock\<lparr>sk_peer := Some c\<rparr>) \<and>
    (\<forall>j. j \<noteq> k \<longrightarrow> j \<noteq> sock_brk s \<longrightarrow> socks t j = socks s j)) s"
  using assms
  by (auto simp: do_accept_def sys_accept_def arrivals_def ncall_def sock_at_def upd_sock_def add_sock_def open_desc_def
      pref_fd_def speedy_util_pref_fd_def accepting_def quiet_def wps split: option.splits)

text \<open>
  The three connections that are queued become standard input, output and error, in the order in
  which they were made.
\<close>

definition std_closed :: "(int \<rightharpoonup> nat) \<Rightarrow> bool" where
  "std_closed d \<longleftrightarrow> d 0 = None \<and> d 1 = None \<and> d 2 = None"

definition std_peers :: "nat list \<Rightarrow> net \<Rightarrow> bool" where
  "std_peers cs t \<longleftrightarrow> map (\<lambda>fd. peer_at fd t) [PREF_FD_ACCEPT_I, PREF_FD_ACCEPT_O, PREF_FD_ACCEPT_E] = map Some cs"

theorem ipc_accept_spec:
  assumes q: "quiet e" and a: "accepting k [c0, c1, c2] s" and d: "std_closed (desc s)" and n: "3 \<le> n_maxfd e"
  shows "wp (speedy_ipc_accept e) (\<lambda>ok t. ok \<and> std_peers [c0, c1, c2] t \<and> accepting k [] t) s"
proof -
  obtain m where m: "n_maxfd e = Suc (Suc (Suc m))" using n by (auto simp: numeral_eq_Suc le_iff_add)
  have third: "wp (do_accept e 2) (\<lambda>_ t. std_peers [c0, c1, c2] t \<and> accepting k [] t) v"
    if v: "accepting k [c2] v" "desc v = (desc s)(0 \<mapsto> i, 1 \<mapsto> j)" "i < sock_brk v" "j < sock_brk v" "i \<noteq> k" "j \<noteq> k"
      "socks v i = Some (new_sock\<lparr>sk_peer := Some c0\<rparr>)" "socks v j = Some (new_sock\<lparr>sk_peer := Some c1\<rparr>)" for v i j
  proof (rule wp_mono [OF do_accept_spec [OF q v(1)]])
    show "first_free (n_maxfd e) (desc v) 0 = 2" using d by (simp add: m v std_closed_def)
  qed (use v in \<open>auto simp: std_peers_def peer_at_def sock_at_def PREF_FD_LISTENER_def PREF_FD_ACCEPT_I_def
      PREF_FD_ACCEPT_O_def PREF_FD_ACCEPT_E_def\<close>)
  have second: "wp (do_accept e 1) (\<lambda>_. wp (do_accept e 2) (\<lambda>_ t. std_peers [c0, c1, c2] t \<and> accepting k [] t)) u"
    if u: "accepting k [c1, c2] u" "desc u = (desc s)(0 \<mapsto> i)" "i < sock_brk u" "i \<noteq> k"
      "socks u i = Some (new_sock\<lparr>sk_peer := Some c0\<rparr>)" for u i
  proof (rule wp_mono [OF do_accept_spec [OF q u(1)]])
    show "first_free (n_maxfd e) (desc u) 0 = 1" using d by (simp add: m u std_closed_def)
    have "k < sock_brk u" using u(1) by (simp add: accepting_def)
    then show "wp (do_accept e 2) (\<lambda>_ t. std_peers [c0, c1, c2] t \<and> accepting k [] t) t"
      if "accepting k [c2] t \<and> desc t = (desc u)(1 \<mapsto> sock_brk u) \<and> sock_brk t = Suc (sock_brk u) \<and>
        socks t (sock_brk u) = Some (new_sock\<lparr>sk_peer := Some c1\<rparr>) \<and>
        (\<forall>j. j \<noteq> k \<longrightarrow> j \<noteq> sock_brk u \<longrightarrow> socks t j = socks u j)" for t
      using that u by (intro third [of _ i "sock_brk u"]) auto
  qed (simp_all add: PREF_FD_LISTENER_def)
  have first: "wp (do_accept e 0) (\<lambda>_. wp (do_accept e 1) (\<lambda>_. wp (do_accept e 2)
      (\<lambda>_ t. std_peers [c0, c1, c2] t \<and> accepting k [] t))) (s\<lparr>net_calls := x, socks := ss\<rparr>)" (is "wp _ _ ?s")
    if "ss = socks s" for x ss
  proof (rule wp_mono [OF do_accept_spec [OF q, of k c0 "[c1, c2]"]])
    show "accepting k [c0, c1, c2] ?s" using a that by (simp add: accepting_def)
    show "first_free (n_maxfd e) (desc ?s) 0 = 0" using d by (simp add: m std_closed_def)
    have k: "k < sock_brk ?s" using a by (simp add: accepting_def)
    show "wp (do_accept e 1) (\<lambda>_. wp (do_accept e 2) (\<lambda>_ t. std_peers [c0, c1, c2] t \<and> accepting k [] t)) t"
      if "accepting k [c1, c2] t \<and> desc t = (desc ?s)(0 \<mapsto> sock_brk ?s) \<and> sock_brk t = Suc (sock_brk ?s) \<and>
        socks t (sock_brk ?s) = Some (new_sock\<lparr>sk_peer := Some c0\<rparr>) \<and>
        (\<forall>j. j \<noteq> k \<longrightarrow> j \<noteq> sock_brk ?s \<longrightarrow> socks t j = socks ?s j)" for t
      using that k by (intro second [of _ "sock_brk s"]) auto
  qed (simp_all add: PREF_FD_LISTENER_def)
  obtain sk where sk: "socks s k = Some sk" "sk_queue sk = [c0, c1, c2]" and l: "sock_at (listener s) s = Some (k, sk)"
    "polled s = listener s"
    using a by (auto simp: accepting_def sock_at_def)
  have "wp (accept_ready e) (\<lambda>ok t. ok \<and> t = s\<lparr>net_calls := Suc (net_calls s), socks := socks s\<rparr>) s"
    using q l sk
    by (auto simp: accept_ready_def arrivals_def ncall_def upd_sock_def quiet_def wps sock_at_def fun_upd_idem
        split: option.splits)
  then show ?thesis
    unfolding speedy_ipc_accept_def wp_bnd PREF_FD_ACCEPT_I_def PREF_FD_ACCEPT_O_def PREF_FD_ACCEPT_E_def
  proof (rule wp_mono)
    fix ok t
    assume "ok \<and> t = s\<lparr>net_calls := Suc (net_calls s), socks := socks s\<rparr>"
    then show "wp (if ok then thenM [do_accept e 0, do_accept e 1, do_accept e 2] (ret True) else ret False)
        (\<lambda>ok t. ok \<and> std_peers [c0, c1, c2] t \<and> accepting k [] t) t"
      using first [OF refl, of "Suc (net_calls s)"]
      by (simp only: if_True wp_thenM wp_seqM_Cons wp_seqM_Nil wp_ret simp_thms)
  qed
qed

text \<open>
  From a frontend's three sockets to the backend's descriptors: the process changes in between.
\<close>

theorem connect_accept:
  assumes q: "quiet e" and n: "3 \<le> n_maxfd e" and len: "length (n_fname e slotnum) < SUN_PATH"
    and a: "accepting k [] (s\<lparr>desc := be\<rparr>)" and p: "bound_paths s (n_fname e slotnum) = Some (k, m)"
    and be: "std_closed be" and ss: "are_socks [f0, f1, f2] s"
  shows "wp (bnd (ipc_connect e slotnum [f0, f1, f2]) (\<lambda>ok.
      if ok then thenM [modify (\<lambda>t. t\<lparr>desc := be\<rparr>)] (speedy_ipc_accept e) else ret False))
    (\<lambda>ok t. ok \<and> std_peers (map (\<lambda>fd. the (desc s fd)) [f0, f1, f2]) t) s"
proof -
  let ?cs = "map (\<lambda>fd. the (desc s fd)) [f0, f1, f2]"
  have w: "welcomed e slotnum s" using q p a by (auto simp: welcomed_def accepting_def)
  show ?thesis
    unfolding wp_bnd
  proof (rule wp_mono [OF ipc_connect_spec [OF ss len]])
    fix ok t
    assume t: "if ok then all_connected e slotnum [f0, f1, f2] s t else all_closed [f0, f1, f2] s t \<and> \<not> welcomed e slotnum s"
    then have ok: ok and qd: "queued_at k ?cs s t" using w p by (auto simp: all_connected_def split: if_splits)
    have "accepting k ?cs (t\<lparr>desc := be\<rparr>)"
      using qd a by (auto simp: queued_at_def accepting_def)
    then have "wp (speedy_ipc_accept e) (\<lambda>ok t. ok \<and> std_peers ?cs t \<and> accepting k [] t) (t\<lparr>desc := be\<rparr>)"
      using ipc_accept_spec [OF q, of k _ _ _ "t\<lparr>desc := be\<rparr>"] be n by simp
    then show "wp (if ok then thenM [modify (\<lambda>t. t\<lparr>desc := be\<rparr>)] (speedy_ipc_accept e) else ret False)
        (\<lambda>ok t. ok \<and> std_peers ?cs t) t"
      using ok by (simp only: if_True wp_thenM wp_seqM_Cons wp_seqM_Nil wp_modify wp_ret) (erule wp_mono, blast)
  qed
qed

end
