(* ===== verification/Apache.thy ===== *)
theory Apache
  imports Prelude Bytes
begin

text \<open>
  The Apache 1 module (src/src/mod_speedycgi.c): a frontend within the web server. The API of the
  server is not part of the sources: what its functions answer are the fields of \<open>aapi\<close>, what the
  module asks of them is recorded in order in \<open>alog\<close>. The functions of the frontend that it calls
  are modelled in the other theories; here they are events too, and \<open>speedy_frontend_connect\<close> is an
  answer.
\<close>

section \<open>The request and the server\<close>

datatype amethod = M_GET | M_POST | M_OPTIONS | M_other nat

datatype finfo = No_file | Is_dir | Is_file

datatype astatus = DECLINED | OK | HTTP_REDIRECT | FORBIDDEN | NOT_FOUND | SERVER_ERROR | Api_status int

record request_rec =
  r_filename :: string
  r_protocol :: string
  r_method_number :: amethod
  r_allowed :: "amethod set"
  r_finfo :: finfo
  r_header_only :: bool
  r_content_length :: bool

datatype aevent =
    Time_invalidate | Opt_restore | Log_error string
  | Add_vars | Set_script_argv "string list" | Mkenv "string list" | Connect
  | Shut_script | Soak_out | Soak_err | Send_header | Send_script_output | Internal_redirect string
  | Close_io | Close_err | Opt_init "string list" | Opt_save | Opt_set nat string
  | Chdir_file string | Exec string

text \<open>
  \<open>a_bwrite n\<close> is how much of its data the \<open>n\<close>-th write to the script takes (\<open>-1\<close>: an error); \<open>a_scan\<close>
  what \<open>ap_scan_script_header_err_buff\<close> returns, and with which status and location in the headers.
\<close>

record aapi =
  a_execcgi :: bool
  a_suexec :: bool
  a_can_exec :: bool
  a_setup_block :: "astatus option"
  a_connect :: bool
  a_mkenv :: "string list \<Rightarrow> byte list"
  a_should_block :: bool
  a_bwrite :: "nat \<Rightarrow> int"
  a_scan :: "astatus option"
  a_status :: int
  a_location :: "string option"

text \<open>\<open>client_left\<close> is what \<open>ap_get_client_block\<close> will return, call by call, before it returns 0.\<close>

record ast =
  rq :: request_rec
  client_left :: "byte list list"
  to_script :: "byte list"
  bwrites :: nat
  alog :: "aevent list"

type_synonym 'a aio = "(unit, ast, 'a) M"

definition event :: "aevent \<Rightarrow> unit aio" where
  "event x = modify (\<lambda>s. s\<lparr>alog := alog s @ [x]\<rparr>)"

definition rq_upd :: "(request_rec \<Rightarrow> request_rec) \<Rightarrow> unit aio" where
  "rq_upd f = modify (\<lambda>s. s\<lparr>rq := f (rq s)\<rparr>)"

definition log_scripterror :: "astatus \<Rightarrow> string \<Rightarrow> astatus aio" where
  "log_scripterror status msg = thenM [event (Log_error msg)] (ret status)"

section \<open>Configuration\<close>

text \<open>The callback of the directives: \<open>i\<close> is the place of the option in the table.\<close>

definition set_option :: "nat \<Rightarrow> string \<Rightarrow> unit aio" where
  "set_option i arg = event (Opt_set i arg)"

definition cgi_init :: "unit aio" where
  "cgi_init = seqM [event (Opt_init ['''']), event Opt_save]"

section \<open>Talking to the backend\<close>

text \<open>\<open>ap_get_client_block\<close>: the next part of the body, \<open>None\<close> at its end.\<close>

definition get_client_block :: "byte list option aio" where
  "get_client_block =
     bnd (gets client_left) (\<lambda>xs.
     case xs of [] \<Rightarrow> ret None
     | x # xs \<Rightarrow> thenM [modify (\<lambda>s. s\<lparr>client_left := xs\<rparr>)] (ret (if x = [] then None else Some x)))"

definition bwrite :: "aapi \<Rightarrow> byte list \<Rightarrow> int aio" where
  "bwrite e x =
     bnd (gets (\<lambda>s. min (a_bwrite e (bwrites s)) (int (length x)))) (\<lambda>n.
     thenM [modify (\<lambda>s. s\<lparr>bwrites := Suc (bwrites s), to_script := to_script s @ take (nat n) x\<rparr>)] (ret n))"

primrec dump_body :: "nat \<Rightarrow> unit aio" where
  "dump_body 0 = hang"
| "dump_body (Suc fuel) = bnd get_client_block (\<lambda>b. case b of None \<Rightarrow> ret () | Some _ \<Rightarrow> dump_body fuel)"

primrec copy_body :: "nat \<Rightarrow> aapi \<Rightarrow> unit aio" where
  "copy_body 0 e = hang"
| "copy_body (Suc fuel) e =
     bnd get_client_block (\<lambda>b.
     case b of None \<Rightarrow> ret ()
     | Some x \<Rightarrow>
         bnd (bwrite e x) (\<lambda>n.
         if n < int (length x) then dump_body fuel else copy_body fuel e))"

definition starts_slash :: "string \<Rightarrow> bool" where
  "starts_slash l \<longleftrightarrow> l \<noteq> [] \<and> hd l = CHR ''/''"

definition script_return :: "aapi \<Rightarrow> astatus aio" where
  "script_return e =
     (case a_scan e of Some st \<Rightarrow> ret st
      | None \<Rightarrow>
        (case a_location e of
          Some l \<Rightarrow>
            if starts_slash l \<and> a_status e = 200
            then thenM
              [event Soak_out, event Soak_err,
               rq_upd (\<lambda>r. r\<lparr>r_method_number := M_GET\<rparr>),
               rq_upd (\<lambda>r. r\<lparr>r_content_length := False\<rparr>),
               event (Internal_redirect l)]
              (ret OK)
            else if a_status e = 200 then ret HTTP_REDIRECT
            else bnd (gets (\<lambda>s. r_header_only (rq s))) (\<lambda>ho.
              thenM [event Send_header, whenM (\<not> ho) (event Send_script_output), event Close_io, event Soak_err, event Close_err]
                (ret OK))
        | None \<Rightarrow> bnd (gets (\<lambda>s. r_header_only (rq s))) (\<lambda>ho.
              thenM [event Send_header, whenM (\<not> ho) (event Send_script_output), event Close_io, event Soak_err, event Close_err]
                (ret OK))))"

definition talk_to_be :: "aapi \<Rightarrow> bool \<Rightarrow> astatus aio" where
  "talk_to_be e nph =
     bnd (gets (\<lambda>s. Suc (length (client_left s)))) (\<lambda>fuel.
     thenM [whenM (a_should_block e) (copy_body fuel e), event Shut_script]
       (if \<not> nph then script_return e
        else thenM [event Send_script_output] (ret OK)))"

section \<open>The handler\<close>

text \<open>The file name without its directories.\<close>

definition base_name :: "string \<Rightarrow> string" where
  "base_name f = rev (takeWhile (\<lambda>c. c \<noteq> CHR ''/'') (rev f))"

definition is_nph :: "string \<Rightarrow> bool" where
  "is_nph f \<longleftrightarrow> take 4 (base_name f) = ''nph-''"

text \<open>The request goes to a backend.\<close>

definition run_backend :: "aapi \<Rightarrow> request_rec \<Rightarrow> astatus aio" where
  "run_backend e r =
     (case a_setup_block e of Some st \<Rightarrow> ret st
      | None \<Rightarrow>
        thenM [event Add_vars, event (Set_script_argv [r_filename r]), event (Mkenv [r_filename r]), event Connect]
         (if \<not> a_connect e
          then log_scripterror SERVER_ERROR ''couldn't spawn child process''
          else bnd (bwrite e (a_mkenv e [r_filename r])) (\<lambda>_. talk_to_be e (is_nph (r_filename r)))))"

definition cgi_handler :: "aapi \<Rightarrow> astatus aio" where
  "cgi_handler e =
     thenM [event Time_invalidate, event Opt_restore]
      (bnd (gets rq) (\<lambda>r.
       if r_method_number r = M_OPTIONS
       then thenM [rq_upd (\<lambda>r. r\<lparr>r_allowed := r_allowed r \<union> {M_GET}\<rparr>), rq_upd (\<lambda>r. r\<lparr>r_allowed := r_allowed r \<union> {M_POST}\<rparr>)]
         (ret DECLINED)
       else if \<not> a_execcgi e then log_scripterror FORBIDDEN ''Options ExecCGI is off in this directory''
       else if is_nph (r_filename r) \<and> r_protocol r = ''INCLUDED''
       then log_scripterror FORBIDDEN ''attempt to include NPH CGI script''
       else if r_finfo r = No_file then log_scripterror NOT_FOUND ''script not found or unable to stat''
       else if r_finfo r = Is_dir then log_scripterror FORBIDDEN ''attempt to invoke directory as script''
       else if \<not> a_suexec e \<and> \<not> a_can_exec e then log_scripterror FORBIDDEN ''file permissions deny server execution''
       else run_backend e r))"

text \<open>In the child that becomes a backend; \<open>global_r\<close> is the request.\<close>

definition mod_execvp :: "string \<Rightarrow> unit aio" where
  "mod_execvp filename =
     bnd (gets rq) (\<lambda>r. seqM [event (Chdir_file (r_filename r)), event (Exec filename)])"

section \<open>The body of the request\<close>

text \<open>The parts of the body, up to the first empty one.\<close>

definition parts :: "byte list list \<Rightarrow> byte list list" where
  "parts xs = takeWhile (\<lambda>x. x \<noteq> []) xs"

text \<open>Of the parts \<open>xs\<close>, written from the \<open>n\<close>-th write on, what the script takes.\<close>

primrec taken_by_script :: "aapi \<Rightarrow> nat \<Rightarrow> byte list list \<Rightarrow> byte list" where
  "taken_by_script e n [] = []"
| "taken_by_script e n (x # xs) =
     take (nat (a_bwrite e n)) x @
     (if a_bwrite e n < int (length x) then [] else taken_by_script e (Suc n) xs)"

text \<open>After the body has been read: nothing of it is left.\<close>

definition after_body :: "ast \<Rightarrow> ast \<Rightarrow> bool" where
  "after_body s t \<longleftrightarrow> client_left t = drop (Suc (length (parts (client_left s)))) (client_left s) \<and> rq t = rq s \<and> alog t = alog s"

lemma parts_simps [simp]: "parts [] = []" "parts ([] # xs) = []" "x \<noteq> [] \<Longrightarrow> parts (x # xs) = x # parts xs"
  by (simp_all add: parts_def)

lemma wp_get_client_block [wps]:
  "wp get_client_block Q s = (case client_left s of [] \<Rightarrow> Q None s
     | x # xs \<Rightarrow> Q (if x = [] then None else Some x) (s\<lparr>client_left := xs\<rparr>))"
  by (auto simp: get_client_block_def wps split: list.splits)

lemma dump_body_spec:
  "length (client_left s) < fuel \<Longrightarrow> wp (dump_body fuel) (\<lambda>_ t. after_body s t \<and> to_script t = to_script s \<and> bwrites t = bwrites s) s"
proof (induction fuel arbitrary: s)
  case (Suc fuel)
  show ?case
  proof (cases "client_left s")
    case Nil
    then show ?thesis by (simp add: wps after_body_def)
  next
    case (Cons x xs)
    show ?thesis
    proof (cases "x = []")
      case True
      then show ?thesis using Cons by (simp add: wps after_body_def)
    next
      case False
      have "wp (dump_body fuel) (\<lambda>_ t. after_body s t \<and> to_script t = to_script s \<and> bwrites t = bwrites s) (s\<lparr>client_left := xs\<rparr>)"
        by (rule wp_mono [OF Suc(1)]) (use Suc(2) Cons False in \<open>auto simp: after_body_def\<close>)
      then show ?thesis using Cons False by (simp add: wps)
    qed
  qed
qed simp

theorem copy_body_spec:
  "length (client_left s) < fuel \<Longrightarrow> wp (copy_body fuel e) (\<lambda>_ t. after_body s t \<and>
     to_script t = to_script s @ taken_by_script e (bwrites s) (parts (client_left s))) s"
proof (induction fuel arbitrary: s)
  case (Suc fuel)
  let ?Q = "\<lambda>s _ t. after_body s t \<and> to_script t = to_script s @ taken_by_script e (bwrites s) (parts (client_left s))"
  show ?case
  proof (cases "client_left s")
    case Nil
    then show ?thesis by (simp add: wps after_body_def)
  next
    case (Cons x xs)
    show ?thesis
    proof (cases "x = []")
      case True
      then show ?thesis using Cons by (simp add: wps after_body_def)
    next
      case False
      let ?n = "min (a_bwrite e (bwrites s)) (int (length x))"
      let ?t = "s\<lparr>client_left := xs, bwrites := Suc (bwrites s), to_script := to_script s @ take (nat ?n) x\<rparr>"
      have n: "take (nat ?n) x = take (nat (a_bwrite e (bwrites s))) x" by (simp add: min_def)
      have l: "length (client_left ?t) < fuel" using Suc(2) Cons by simp
      have "wp (if ?n < int (length x) then dump_body fuel else copy_body fuel e) (?Q s) ?t"
      proof (cases "a_bwrite e (bwrites s) < int (length x)")
        case True
        then have "wp (dump_body fuel) (?Q s) ?t"
          by (intro wp_mono [OF dump_body_spec [OF l]]) (use Cons False n in \<open>auto simp: after_body_def\<close>)
        then show ?thesis using True by simp
      next
        case na: False
        then have "wp (copy_body fuel e) (?Q s) ?t"
          by (intro wp_mono [OF Suc(1) [OF l]]) (use Cons False n in \<open>auto simp: after_body_def\<close>)
        then show ?thesis using na by simp
      qed
      then show ?thesis using Cons False by (simp add: bwrite_def wps)
    qed
  qed
qed simp

end
