(* ===== verification/ApacheSpecs.thy ===== *)
theory ApacheSpecs
  imports Apache Wire
begin

text \<open>
  The Apache 1 module: which requests reach a backend, what the backend is sent, and that the whole
  body of the request is read in any case.
\<close>

section \<open>Talking to the backend\<close>

text \<open>What the module says about the answer of the script, which it asks for after the body.\<close>

definition answered :: "aapi \<Rightarrow> bool \<Rightarrow> astatus" where
  "answered e nph =
     (if nph then OK
      else case a_scan e of Some st \<Rightarrow> st
      | None \<Rightarrow> (case a_location e of None \<Rightarrow> OK
        | Some l \<Rightarrow> if a_status e = 200 \<and> \<not> starts_slash l then HTTP_REDIRECT else OK))"

definition redirected :: "aapi \<Rightarrow> string option" where
  "redirected e = (if a_scan e = None \<and> a_status e = 200
     then case a_location e of Some l \<Rightarrow> if starts_slash l then Some l else None | None \<Rightarrow> None else None)"

text \<open>
  The script answers: its output is read whole before an internal redirect, which is a GET without a
  body, and sent on otherwise.
\<close>

lemma script_return_spec:
  "wp (script_return e) (\<lambda>st t. st = answered e False \<and> to_script t = to_script s \<and> client_left t = client_left s \<and>
     (\<exists>evs. alog t = alog s @ evs \<and> Connect \<notin> set evs \<and>
       (\<forall>l. Internal_redirect l \<in> set evs \<longleftrightarrow> redirected e = Some l) \<and>
       (redirected e \<noteq> None \<longrightarrow> take 2 evs = [Soak_out, Soak_err] \<and> r_method_number (rq t) = M_GET \<and> \<not> r_content_length (rq t)) \<and>
       (Send_script_output \<in> set evs \<longrightarrow> \<not> r_header_only (rq s)))) s"
  by (auto simp: script_return_def wps event_def rq_upd_def answered_def redirected_def split: option.splits)

definition body_taken :: "aapi \<Rightarrow> ast \<Rightarrow> byte list" where
  "body_taken e s = (if a_should_block e then taken_by_script e (bwrites s) (parts (client_left s)) else [])"

lemma talk_to_be_spec:
  "wp (talk_to_be e nph) (\<lambda>st t. st = answered e nph \<and> to_script t = to_script s @ body_taken e s \<and>
     (a_should_block e \<longrightarrow> client_left t = drop (Suc (length (parts (client_left s)))) (client_left s)) \<and>
     (\<exists>evs. alog t = alog s @ Shut_script # evs \<and> Connect \<notin> set evs)) s"
proof -
  have rest: "wp (thenM [event Shut_script]
       (if \<not> nph then script_return e else thenM [event Send_script_output] (ret OK)))
     (\<lambda>st v. st = answered e nph \<and> to_script v = to_script t \<and> client_left v = client_left t \<and>
       (\<exists>evs. alog v = alog t @ Shut_script # evs \<and> Connect \<notin> set evs)) t" for t
  proof (cases nph)
    case True
    then show ?thesis by (simp add: event_def wps answered_def)
  next
    case False
    let ?u = "t\<lparr>alog := alog t @ [Shut_script]\<rparr>"
    have "wp (script_return e) (\<lambda>st v. st = answered e nph \<and> to_script v = to_script t \<and> client_left v = client_left t \<and>
       (\<exists>evs. alog v = alog t @ Shut_script # evs \<and> Connect \<notin> set evs)) ?u"
      by (rule wp_mono [OF script_return_spec]) (use False in auto)
    then show ?thesis using False by (simp add: event_def wps)
  qed
  show ?thesis
  proof (cases "a_should_block e")
    case True
    have "wp (copy_body (Suc (length (client_left s))) e) (\<lambda>_. wp (thenM [event Shut_script]
       (if \<not> nph then script_return e else thenM [event Send_script_output] (ret OK)))
      (\<lambda>st t. st = answered e nph \<and> to_script t = to_script s @ body_taken e s \<and>
       (a_should_block e \<longrightarrow> client_left t = drop (Suc (length (parts (client_left s)))) (client_left s)) \<and>
       (\<exists>evs. alog t = alog s @ Shut_script # evs \<and> Connect \<notin> set evs))) s"
      by (rule wp_mono [OF copy_body_spec], simp, rule wp_mono [OF rest])
        (use True in \<open>auto simp: after_body_def body_taken_def\<close>)
    then show ?thesis using True by (simp add: talk_to_be_def wp_bnd wp_gets wp_thenM wp_seqM_Cons wp_seqM_Nil wp_whenM)
  next
    case False
    have "wp (thenM [event Shut_script]
       (if \<not> nph then script_return e else thenM [event Send_script_output] (ret OK)))
      (\<lambda>st t. st = answered e nph \<and> to_script t = to_script s @ body_taken e s \<and>
       (a_should_block e \<longrightarrow> client_left t = drop (Suc (length (parts (client_left s)))) (client_left s)) \<and>
       (\<exists>evs. alog t = alog s @ Shut_script # evs \<and> Connect \<notin> set evs)) s"
      by (rule wp_mono [OF rest]) (use False in \<open>auto simp: body_taken_def\<close>)
    then show ?thesis using False by (simp add: talk_to_be_def wp_bnd wp_gets wp_thenM wp_seqM_Cons wp_seqM_Nil wp_whenM)
  qed
qed

section \<open>Which requests reach a backend\<close>

text \<open>The first of the reasons to refuse a request that holds, with its status.\<close>

primrec first_reason :: "(bool \<times> astatus) list \<Rightarrow> astatus option" where
  "first_reason [] = None"
| "first_reason (p # ps) = (if fst p then Some (snd p) else first_reason ps)"

definition refusal :: "aapi \<Rightarrow> request_rec \<Rightarrow> astatus option" where
  "refusal e r = first_reason
     [(r_method_number r = M_OPTIONS, DECLINED),
      (\<not> a_execcgi e, FORBIDDEN),
      (is_nph (r_filename r) \<and> r_protocol r = ''INCLUDED'', FORBIDDEN),
      (r_finfo r = No_file, NOT_FOUND),
      (r_finfo r = Is_dir, FORBIDDEN),
      (\<not> a_suexec e \<and> \<not> a_can_exec e, FORBIDDEN),
      (a_setup_block e \<noteq> None, case a_setup_block e of None \<Rightarrow> OK | Some st \<Rightarrow> st)]"

text \<open>A request that reaches a backend: it gets the request data, then the body.\<close>

definition request_served :: "aapi \<Rightarrow> ast \<Rightarrow> astatus \<Rightarrow> ast \<Rightarrow> bool" where
  "request_served e s st t \<longleftrightarrow>
     (let data = a_mkenv e [r_filename (rq s)];
          s' = s\<lparr>bwrites := Suc (bwrites s)\<rparr> in
      if a_connect e
      then st = answered e (is_nph (r_filename (rq s))) \<and>
        to_script t = to_script s @ take (nat (a_bwrite e (bwrites s))) data @ body_taken e s' \<and>
        (a_should_block e \<longrightarrow> client_left t = drop (Suc (length (parts (client_left s)))) (client_left s))
      else st = SERVER_ERROR \<and> to_script t = to_script s)"

lemma run_backend_spec:
  assumes "a_setup_block e = None"
  shows "wp (run_backend e (rq s)) (\<lambda>st t. request_served e s st t \<and> (\<exists>evs. alog t = alog s @ evs \<and> Connect \<in> set evs)) s"
proof (cases "a_connect e")
  case False
  then show ?thesis
    using assms by (simp add: run_backend_def log_scripterror_def event_def wps request_served_def)
next
  case True
  let ?data = "a_mkenv e [r_filename (rq s)]"
  have t: "wp (talk_to_be e (is_nph (r_filename (rq s)))) (\<lambda>st t. request_served e s st t \<and>
      (\<exists>evs. alog t = alog s @ evs \<and> Connect \<in> set evs)) u"
    if "rq u = rq s" "client_left u = client_left s" "bwrites u = Suc (bwrites s)"
      "to_script u = to_script s @ take (nat (a_bwrite e (bwrites s))) ?data"
      "alog u = alog s @ evs" "Connect \<in> set evs" for u evs
    by (rule wp_mono [OF talk_to_be_spec]) (use that True in \<open>auto simp: request_served_def body_taken_def Let_def\<close>)
  have m: "take (nat (min (a_bwrite e (bwrites s)) (int (length ?data)))) ?data = take (nat (a_bwrite e (bwrites s))) ?data"
    by (simp add: min_def)
  show ?thesis
    using assms True
    by (simp add: run_backend_def event_def bwrite_def wps)
      (rule t [of _ "[Add_vars, Set_script_argv [r_filename (rq s)], Mkenv [r_filename (rq s)], Connect]"], simp_all add: m)
qed

text \<open>
  The options are restored first, whatever the request is. A backend is asked for exactly if there is
  no reason to refuse the request, and otherwise the request is left as it is and its status is that
  of the first reason.
\<close>

theorem cgi_handler_spec:
  "wp (cgi_handler e) (\<lambda>st t. \<exists>evs. alog t = alog s @ [Time_invalidate, Opt_restore] @ evs \<and>
     (Connect \<in> set evs \<longleftrightarrow> refusal e (rq s) = None) \<and>
     (case refusal e (rq s) of
       None \<Rightarrow> request_served e s st t
     | Some x \<Rightarrow> st = x \<and> to_script t = to_script s \<and> client_left t = client_left s)) s"
proof (cases "refusal e (rq s)")
  case None
  let ?s = "s\<lparr>alog := alog s @ [Time_invalidate, Opt_restore]\<rparr>"
  have c: "r_method_number (rq s) \<noteq> M_OPTIONS" "a_execcgi e" "\<not> (is_nph (r_filename (rq s)) \<and> r_protocol (rq s) = ''INCLUDED'')"
    "r_finfo (rq s) \<noteq> No_file" "r_finfo (rq s) \<noteq> Is_dir" "a_suexec e \<or> a_can_exec e" "a_setup_block e = None"
    using None by (auto simp: refusal_def split: if_splits)
  have "wp (run_backend e (rq ?s)) (\<lambda>st t. \<exists>evs. alog t = alog s @ [Time_invalidate, Opt_restore] @ evs \<and>
     Connect \<in> set evs \<and> request_served e s st t) ?s"
    by (rule wp_mono [OF run_backend_spec [OF c(7)]]) (auto simp: request_served_def body_taken_def Let_def)
  then show ?thesis
    using None c by (auto simp: cgi_handler_def event_def wps)
next
  case (Some x)
  then show ?thesis
    by (auto simp: cgi_handler_def event_def rq_upd_def log_scripterror_def run_backend_def wps refusal_def
        split: if_splits option.splits)
qed

text \<open>
  When every write is taken whole, a backend reads the request the module made, and what is left for
  the script is the body.
\<close>

theorem apache_request_arrives:
  assumes a: "refusal e (rq s) = None" "a_connect e" "a_should_block e" "to_script s = []"
    and all: "\<And>n. \<forall>x \<in> {a_mkenv e [r_filename (rq s)]} \<union> set (parts (client_left s)). int (length x) \<le> a_bwrite e n"
    and env: "a_mkenv e [r_filename (rq s)] = sb_content (speedy_frontend_mkenv junk envp (prog # args) m fname script_stat dir_stat in_script)"
    and ok: "\<And>x. x \<in> set envp \<union> set args \<Longrightarrow> length x < 2 ^ 31" "wire_str fname" "devino_ok script_stat"
      "\<And>d. dir_stat = Some d \<Longrightarrow> devino_ok d"
  shows "wp (cgi_handler e) (\<lambda>_ t. \<exists>req. read_request junk' (to_script t) = Some (req, concat (parts (client_left s))) \<and>
    rq_env req = filter (\<lambda>x. x \<noteq> []) envp \<and> rq_path req = Some fname \<and> rq_script req = script_stat) s"
proof (rule wp_mono [OF cgi_handler_spec])
  fix st t
  assume "\<exists>evs. alog t = alog s @ [Time_invalidate, Opt_restore] @ evs \<and>
     (Connect \<in> set evs \<longleftrightarrow> refusal e (rq s) = None) \<and>
     (case refusal e (rq s) of
       None \<Rightarrow> request_served e s st t
     | Some x \<Rightarrow> st = x \<and> to_script t = to_script s \<and> client_left t = client_left s)"
  then have "request_served e s st t" using a by auto
  moreover have "taken_by_script e n xs = concat xs" if "\<forall>n. \<forall>x \<in> set xs. int (length x) \<le> a_bwrite e n" for n xs
    using that
  proof (induction xs arbitrary: n)
    case (Cons x xs)
    then have "int (length x) \<le> a_bwrite e n" by simp
    then have "\<not> a_bwrite e n < int (length x)" "length x \<le> nat (a_bwrite e n)" by linarith+
    then show ?case using Cons by simp
  qed simp
  moreover have "length (a_mkenv e [r_filename (rq s)]) \<le> nat (a_bwrite e (bwrites s))"
    using all [of "bwrites s"] by (simp add: le_nat_iff nat_le_iff)
  ultimately have "to_script t = env_wire envp args fname script_stat dir_stat in_script @ concat (parts (client_left s))"
    using a all mkenv_spec [of junk envp "prog # args" m fname script_stat dir_stat in_script]
    by (simp add: request_served_def body_taken_def env holds_def Let_def nat_le_iff)
  then show "\<exists>req. read_request junk' (to_script t) = Some (req, concat (parts (client_left s))) \<and>
    rq_env req = filter (\<lambda>x. x \<noteq> []) envp \<and> rq_path req = Some fname \<and> rq_script req = script_stat"
    using read_request_wire [OF ok] by simp
qed

end
