(* ===== verification/Apache2.thy ===== *)
theory Apache2
  imports Prelude Apache
begin

text \<open>
  The Apache 2 module (src/src/mod_speedycgi2.c). As for Apache 1 the answers of the server are fields
  of a record (\<open>aapi2\<close>) and what the module asks of it is an event; \<open>speedy_frontend_connect\<close> is an
  answer.
\<close>

section \<open>The server\<close>

datatype bucket = Eos | Flush_bucket | Data "byte list"

datatype brigade_res = Brigade "bucket list" | Brigade_error int

datatype aevent2 =
    A_log string | A_init "string list" | A_save | A_set nat string | A_invalidate | A_restore | A_script_argv "string list"
  | A_mkenv "string list" | A_connect | A_lock | A_unlock | A_files "int list" | A_add_vars | A_close_out
  | A_discard | A_log_err | A_redirect string | A_pass | A_pass_raw | A_close_err | A_chdir string | A_exec string

text \<open>
  Statuses of the portable runtime are numbers, 0 for success. \<open>b_write n\<close> is the status of the
  \<open>n\<close>-th write to the script and how many bytes of the data it got to. \<open>b_stack\<close> is what is in the
  array of sockets before anything is stored there. \<open>b_threads\<close>: the runtime has threads.
\<close>

record aapi2 =
  b_handler :: string
  b_execcgi :: bool
  b_alias_type :: "string option"
  b_reject_path_info :: bool
  b_path_info :: "string option"
  b_threads :: bool
  b_is_threaded :: bool
  b_args :: "string option"
  b_argmax :: nat
  b_unescape :: "string \<Rightarrow> string"
  b_escape :: "string \<Rightarrow> string"
  b_lock :: int
  b_unlock :: int
  b_connect :: "int list option"
  b_stack :: "int list"
  b_mkenv :: "string list \<Rightarrow> byte list"
  b_write :: "nat \<Rightarrow> int \<times> nat"
  b_scan :: "astatus option"
  b_status :: int
  b_location :: "string option"

text \<open>\<open>did_this\<close>: the options are set up; \<open>files\<close>: the descriptors of the streams of the script.\<close>

record ast2 =
  rq2 :: request_rec
  did_this :: bool
  brigades :: "brigade_res list"
  files :: "int list option"
  to_script2 :: "byte list"
  fwrites :: nat
  log2 :: "aevent2 list"

type_synonym 'a aio2 = "(unit, ast2, 'a) M"

definition APR_SUCCESS :: int where "APR_SUCCESS = 0"
definition APR_EGENERAL :: int where "APR_EGENERAL = 20014"

definition event2 :: "aevent2 \<Rightarrow> unit aio2" where
  "event2 x = modify (\<lambda>s. s\<lparr>log2 := log2 s @ [x]\<rparr>)"

definition rq2_upd :: "(request_rec \<Rightarrow> request_rec) \<Rightarrow> unit aio2" where
  "rq2_upd f = modify (\<lambda>s. s\<lparr>rq2 := f (rq2 s)\<rparr>)"

definition log_scripterror2 :: "astatus \<Rightarrow> string \<Rightarrow> astatus aio2" where
  "log_scripterror2 status msg = thenM [event2 (A_log msg)] (ret status)"

definition set_option2 :: "nat \<Rightarrow> string \<Rightarrow> unit aio2" where
  "set_option2 i arg = event2 (A_set i arg)"

definition one_time_init :: "unit aio2" where
  "one_time_init = seqM [event2 (A_init ['''']), event2 A_save]"

definition lower :: "char \<Rightarrow> char" where
  "lower c = (if of_char c \<in> {65..90 :: nat} then char_of (of_char c + 32 :: nat) else c)"

definition is_scriptaliased :: "aapi2 \<Rightarrow> bool" where
  "is_scriptaliased e = (case b_alias_type e of None \<Rightarrow> False | Some t \<Rightarrow> map lower t = ''speedycgi-script'')"

section \<open>The command line\<close>

text \<open>\<open>ap_getword_nulls\<close>: a word that ends at a plus or at the end, and what follows it.\<close>

definition getword_nulls :: "string \<Rightarrow> string \<times> string" where
  "getword_nulls line = (takeWhile (\<lambda>c. c \<noteq> CHR ''+'') line, tl (dropWhile (\<lambda>c. c \<noteq> CHR ''+'') line))"

primrec command_words :: "nat \<Rightarrow> aapi2 \<Rightarrow> string \<Rightarrow> string list" where
  "command_words 0 e args = []"
| "command_words (Suc n) e args =
     (case getword_nulls args of (w, args) \<Rightarrow> b_escape e (b_unescape e w) # command_words n e args)"

text \<open>
  The test for an equals sign assigns what has been assigned before, so \<open>args\<close> is \<open>r->args\<close> in every
  case.
\<close>

definition default_build_command :: "aapi2 \<Rightarrow> request_rec \<Rightarrow> string list" where
  "default_build_command e r =
     (let args = b_args e;
          args = (case b_args e of Some a \<Rightarrow> if a \<noteq> '''' \<and> CHR ''='' \<notin> set a then b_args e else args | None \<Rightarrow> args);
          numwords = (case args of None \<Rightarrow> 1 | Some a \<Rightarrow> 2 + length (filter (\<lambda>c. c = CHR ''+'') a));
          numwords = (if numwords > b_argmax e - 1 then b_argmax e - 1 else numwords)
      in r_filename r # command_words (numwords - 1) e (case args of None \<Rightarrow> '''' | Some a \<Rightarrow> a))"

section \<open>Connecting to a backend\<close>

definition file_write :: "aapi2 \<Rightarrow> byte list \<Rightarrow> int aio2" where
  "file_write e x =
     bnd (gets (\<lambda>s. b_write e (fwrites s))) (\<lambda>(rv, n).
     thenM [modify (\<lambda>s. s\<lparr>fwrites := Suc (fwrites s),
        to_script2 := to_script2 s @ (if rv = APR_SUCCESS then x else take n x)\<rparr>)] (ret rv))"

text \<open>\<open>rc\<close> is assigned again when the mutex is unlocked.\<close>

definition run_cgi_child :: "aapi2 \<Rightarrow> string list \<Rightarrow> int aio2" where
  "run_cgi_child e argv =
     (if argv = [] then thenM [event2 (A_log ''argv[0] passed in as null'')] (ret APR_EGENERAL)
      else
        bnd (if b_threads e then thenM [event2 A_lock] (ret (b_lock e)) else ret APR_SUCCESS) (\<lambda>rc.
        if rc \<noteq> APR_SUCCESS then thenM [event2 (A_log ''Cannot lock speedy_mutex'')] (ret rc)
        else
          bnd (gets did_this) (\<lambda>did.
          thenM
           [whenM (\<not> did) (seqM [one_time_init, modify (\<lambda>s. s\<lparr>did_this := True\<rparr>)]),
            event2 A_invalidate,
            event2 A_restore,
            event2 (A_script_argv argv),
            event2 (A_mkenv argv),
            event2 A_connect]
           (let socks = (case b_connect e of None \<Rightarrow> b_stack e | Some ss \<Rightarrow> ss);
                rc = (if b_connect e = None then APR_EGENERAL else rc) in
            bnd (if b_threads e then thenM [event2 A_unlock] (ret (b_unlock e)) else ret rc) (\<lambda>rc.
            if b_threads e \<and> rc \<noteq> APR_SUCCESS then thenM [event2 (A_log ''Cannot unlock speedy_mutex'')] (ret rc)
            else if rc = APR_SUCCESS
            then thenM
              [modify (\<lambda>s. s\<lparr>files := Some socks\<rparr>), event2 (A_files socks)]
              (file_write e (b_mkenv e argv))
            else ret rc)))))"

section \<open>The body of the request\<close>

text \<open>
  One brigade: whether the end of the body was seen, and whether the script has stopped reading.
\<close>

primrec copy_brigade :: "aapi2 \<Rightarrow> bucket list \<Rightarrow> bool \<Rightarrow> (bool \<times> bool) aio2" where
  "copy_brigade e [] stopped = ret (False, stopped)"
| "copy_brigade e (b # bs) stopped =
     (case b of
       Eos \<Rightarrow> ret (True, stopped)
     | Flush_bucket \<Rightarrow> copy_brigade e bs stopped
     | Data x \<Rightarrow>
         if stopped then copy_brigade e bs stopped
         else bnd (file_write e x) (\<lambda>rv. copy_brigade e bs (rv \<noteq> APR_SUCCESS)))"

text \<open>\<open>Some rv\<close>: the server could not read the body. Without a further brigade it waits for ever.\<close>

primrec copy_body2 :: "nat \<Rightarrow> aapi2 \<Rightarrow> bool \<Rightarrow> int option aio2" where
  "copy_body2 0 e stopped = hang"
| "copy_body2 (Suc fuel) e stopped =
     bnd (gets brigades) (\<lambda>bs.
     case bs of [] \<Rightarrow> hang
     | Brigade_error rv # rest \<Rightarrow> thenM [modify (\<lambda>s. s\<lparr>brigades := rest\<rparr>)] (ret (Some rv))
     | Brigade b # rest \<Rightarrow>
         thenM [modify (\<lambda>s. s\<lparr>brigades := rest\<rparr>)]
          (bnd (copy_brigade e b stopped) (\<lambda>(eos, stopped).
           if eos then ret None else copy_body2 fuel e stopped)))"

section \<open>The handler\<close>

definition script_return2 :: "aapi2 \<Rightarrow> astatus aio2" where
  "script_return2 e =
     (case b_scan e of Some st \<Rightarrow> ret st
      | None \<Rightarrow>
        (let onwards = thenM [event2 A_pass, event2 A_log_err, event2 A_close_err] (ret OK) in
         case b_location e of
           Some l \<Rightarrow>
             if starts_slash l \<and> b_status e = 200
             then thenM
               [event2 A_discard, event2 A_log_err,
                rq2_upd (\<lambda>r. r\<lparr>r_method_number := M_GET\<rparr>),
                rq2_upd (\<lambda>r. r\<lparr>r_content_length := False\<rparr>),
                event2 (A_redirect l)]
               (ret OK)
             else if b_status e = 200 then thenM [event2 A_discard] (ret HTTP_REDIRECT)
             else onwards
         | None \<Rightarrow> onwards))"

definition run_script2 :: "aapi2 \<Rightarrow> request_rec \<Rightarrow> astatus aio2" where
  "run_script2 e r =
     thenM [event2 A_add_vars]
      (bnd (run_cgi_child e (default_build_command e r)) (\<lambda>rv.
       if rv \<noteq> APR_SUCCESS then log_scripterror2 SERVER_ERROR ''couldn't spawn child process''
       else
         bnd (gets (\<lambda>s. length (brigades s))) (\<lambda>fuel.
         bnd (copy_body2 fuel e False) (\<lambda>res.
         case res of Some rv \<Rightarrow> ret (Api_status rv)
         | None \<Rightarrow>
             thenM [event2 A_close_out]
               (if \<not> is_nph (r_filename r) then script_return2 e
                else thenM [event2 A_pass_raw] (ret OK))))))"

definition cgi_handler2 :: "aapi2 \<Rightarrow> astatus aio2" where
  "cgi_handler2 e =
     bnd (gets rq2) (\<lambda>r.
     if b_handler e \<noteq> ''application/x-httpd-cgi'' \<and> b_handler e \<noteq> ''speedycgi-script'' then ret DECLINED
     else if r_method_number r = M_OPTIONS
     then thenM [rq2_upd (\<lambda>r. r\<lparr>r_allowed := r_allowed r \<union> {M_GET}\<rparr>), rq2_upd (\<lambda>r. r\<lparr>r_allowed := r_allowed r \<union> {M_POST}\<rparr>)]
       (ret DECLINED)
     else if \<not> b_execcgi e \<and> \<not> is_scriptaliased e
     then log_scripterror2 FORBIDDEN ''Options ExecCGI is off in this directory''
     else if is_nph (r_filename r) \<and> r_protocol r = ''INCLUDED''
     then log_scripterror2 FORBIDDEN ''attempt to include NPH CGI script''
     else if r_finfo r = No_file then log_scripterror2 NOT_FOUND ''script not found or unable to stat''
     else if r_finfo r = Is_dir then log_scripterror2 FORBIDDEN ''attempt to invoke directory as script''
     else if b_reject_path_info e \<and> (case b_path_info e of None \<Rightarrow> False | Some p \<Rightarrow> p \<noteq> '''')
     then log_scripterror2 NOT_FOUND ''AcceptPathInfo off disallows user's path''
     else if b_threads e \<and> b_is_threaded e
     then log_scripterror2 FORBIDDEN ''cannot use mod_speedycgi with a threaded mpm''
     else run_script2 e r)"

definition mod_execvp2 :: "string \<Rightarrow> unit aio2" where
  "mod_execvp2 filename =
     bnd (gets rq2) (\<lambda>r. seqM [event2 (A_chdir (r_filename r)), event2 (A_exec filename)])"

end
