(* ===== verification/Apache2Specs.thy ===== *)
theory Apache2Specs
  imports Prelude Apache2 ApacheSpecs
begin

text \<open>
  The Apache 2 module: the command line, what the script gets of the body, which requests reach a
  backend, and what becomes of a failed connection.
\<close>

section \<open>The command line\<close>

text \<open>The words between the pluses.\<close>

fun plus_words :: "string \<Rightarrow> string \<Rightarrow> string list" where
  "plus_words w [] = [w]"
| "plus_words w (c # cs) = (if c = CHR ''+'' then w # plus_words [] cs else plus_words (w @ [c]) cs)"

lemma plus_words_getword:
  "plus_words w a = (w @ fst (getword_nulls a)) #
     (if CHR ''+'' \<in> set a then plus_words [] (snd (getword_nulls a)) else [])"
  by (induction w a rule: plus_words.induct) (auto simp: getword_nulls_def)

lemma command_words_spec:
  "n \<le> Suc (length (filter (\<lambda>c. c = CHR ''+'') a)) \<Longrightarrow>
     command_words n e a = map (\<lambda>w. b_escape e (b_unescape e w)) (take n (plus_words [] a))"
proof (induction n arbitrary: a)
  case (Suc n)
  show ?case
  proof (cases "CHR ''+'' \<in> set a")
    case True
    have "length (filter (\<lambda>c. c = CHR ''+'') a) = Suc (length (filter (\<lambda>c. c = CHR ''+'') (snd (getword_nulls a))))"
      using True by (induction a) (auto simp: getword_nulls_def)
    then have "n \<le> Suc (length (filter (\<lambda>c. c = CHR ''+'') (snd (getword_nulls a))))" using Suc(2) by simp
    from Suc(1) [OF this] show ?thesis
      using True plus_words_getword [of "[]" a] by (simp add: case_prod_unfold)
  next
    case False
    then have "length (filter (\<lambda>c. c = CHR ''+'') a) = 0" by (auto simp: filter_empty_conv)
    then have "n = 0" using Suc(2) by simp
    then show ?thesis using False plus_words_getword [of "[]" a] by (simp add: case_prod_unfold)
  qed
qed simp

text \<open>
  The words of the query string become arguments, as many as the limit allows, also when it contains
  an equals sign.
\<close>

theorem build_command_spec:
  "default_build_command e r = r_filename r #
     (case b_args e of None \<Rightarrow> []
      | Some a \<Rightarrow> map (\<lambda>w. b_escape e (b_unescape e w)) (take (b_argmax e - 2) (plus_words [] a)))"
proof (cases "b_args e")
  case None
  then show ?thesis by (simp add: default_build_command_def)
next
  case (Some a)
  have l: "length (plus_words w a) = Suc (length (filter (\<lambda>c. c = CHR ''+'') a))" for w
    by (induction w a rule: plus_words.induct) auto
  let ?n = "Suc (length (filter (\<lambda>c. c = CHR ''+'') a))"
  let ?m = "if 2 + length (filter (\<lambda>c. c = CHR ''+'') a) > b_argmax e - 1 then b_argmax e - 1
      else 2 + length (filter (\<lambda>c. c = CHR ''+'') a)"
  have "default_build_command e r = r_filename r # command_words (?m - 1) e a"
    by (simp only: default_build_command_def Let_def Some option.case if_cancel)
  moreover have "?m - 1 = min (b_argmax e - 2) ?n" by auto
  moreover have "take (min (b_argmax e - 2) ?n) (plus_words [] a) = take (b_argmax e - 2) (plus_words [] a)"
    using l [of "[]"] by (metis min.commute take_all_iff take_take le_refl)
  ultimately show ?thesis
    using Some command_words_spec [of "min (b_argmax e - 2) ?n" a e] by simp
qed

section \<open>The body\<close>

text \<open>The data of the body, up to its end; \<open>None\<close> if the end does not come.\<close>

fun until_eos :: "brigade_res list \<Rightarrow> bucket list option" where
  "until_eos [] = None"
| "until_eos (Brigade_error rv # bs) = None"
| "until_eos (Brigade b # bs) =
     (if Eos \<in> set b then Some (takeWhile (\<lambda>x. x \<noteq> Eos) b) else map_option ((@) b) (until_eos bs))"

fun taken2 :: "aapi2 \<Rightarrow> nat \<Rightarrow> bucket list \<Rightarrow> byte list" where
  "taken2 e n [] = []"
| "taken2 e n (Eos # bs) = []"
| "taken2 e n (Flush_bucket # bs) = taken2 e n bs"
| "taken2 e n (Data x # bs) = (case b_write e n of (rv, k) \<Rightarrow> if rv = APR_SUCCESS then x @ taken2 e (Suc n) bs else take k x)"

definition get2 :: "aapi2 \<Rightarrow> nat \<Rightarrow> bool \<Rightarrow> bucket list \<Rightarrow> byte list" where
  "get2 e n stopped bs = (if stopped then [] else taken2 e n bs)"

lemma get2_simps [simp]:
  "get2 e n stopped [] = []" "get2 e n stopped (Flush_bucket # bs) = get2 e n stopped bs" "get2 e n True bs = []"
  "get2 e n False (Data x # bs) = (case b_write e n of (rv, k) \<Rightarrow>
     (if rv = APR_SUCCESS then x else take k x) @ get2 e (Suc n) (rv \<noteq> APR_SUCCESS) bs)"
  by (auto simp: get2_def split: prod.splits)

definition body_step :: "ast2 \<Rightarrow> ast2 \<Rightarrow> bool" where
  "body_step s t \<longleftrightarrow> rq2 t = rq2 s \<and> files t = files s \<and> log2 t = log2 s \<and> did_this t = did_this s"

lemma copy_brigade_spec:
  "wp (copy_brigade e b stopped) (\<lambda>(eos, st) t. eos = (Eos \<in> set b) \<and> body_step s t \<and> brigades t = brigades s \<and>
     (\<exists>x. to_script2 t = to_script2 s @ x \<and>
       (\<forall>bs. get2 e (fwrites s) stopped (takeWhile (\<lambda>x. x \<noteq> Eos) b @ bs) = x @ get2 e (fwrites t) st bs))) s"
proof (induction b arbitrary: s stopped)
  case Nil
  then show ?case by (simp add: wps body_step_def)
next
  case (Cons b bs)
  show ?case
  proof (cases b)
    case Eos
    then show ?thesis by (simp add: wps body_step_def)
  next
    case Flush_bucket
    then show ?thesis by (simp, intro wp_mono [OF Cons]) auto
  next
    case (Data x)
    show ?thesis
    proof (cases stopped)
      case True
      then show ?thesis using Data by (simp, intro wp_mono [OF Cons]) auto
    next
      case False
      obtain rv k where w: "b_write e (fwrites s) = (rv, k)" by force
      let ?x = "if rv = APR_SUCCESS then x else take k x"
      let ?t = "s\<lparr>fwrites := Suc (fwrites s), to_script2 := to_script2 s @ ?x\<rparr>"
      have "wp (copy_brigade e bs (rv \<noteq> APR_SUCCESS)) (\<lambda>(eos, st) t. eos = (Eos \<in> set (b # bs)) \<and> body_step s t \<and>
        brigades t = brigades s \<and> (\<exists>y. to_script2 t = to_script2 s @ y \<and>
        (\<forall>cs. get2 e (fwrites s) stopped (takeWhile (\<lambda>x. x \<noteq> Eos) (b # bs) @ cs) = y @ get2 e (fwrites t) st cs))) ?t"
        by (rule wp_mono [OF Cons]) (use Data False w in \<open>auto simp: body_step_def\<close>)
      then show ?thesis using Data False w by (simp add: file_write_def wps)
    qed
  qed
qed

lemma copy_body2_step:
  assumes "until_eos (brigades s) = Some bs" and "length (brigades s) \<le> fuel"
  shows "wp (copy_body2 fuel e stopped) (\<lambda>r t. r = None \<and> to_script2 t = to_script2 s @ get2 e (fwrites s) stopped bs \<and>
    body_step s t) s"
  using assms
proof (induction fuel arbitrary: s stopped bs)
  case 0
  then show ?case by simp
next
  case (Suc fuel)
  obtain b rest where b: "brigades s = Brigade b # rest"
    using Suc(2) by (cases "brigades s" rule: until_eos.cases) auto
  let ?Q = "\<lambda>r t. r = None \<and> to_script2 t = to_script2 s @ get2 e (fwrites s) stopped bs \<and> body_step s t"
  have "wp (if eos then ret None else copy_body2 fuel e st) ?Q t"
    if t: "eos = (Eos \<in> set b)" "body_step s t" "brigades t = rest" "to_script2 t = to_script2 s @ x"
      "\<And>cs. get2 e (fwrites s) stopped (takeWhile (\<lambda>x. x \<noteq> Eos) b @ cs) = x @ get2 e (fwrites t) st cs" for eos st x t
  proof (cases "Eos \<in> set b")
    case True
    then have "bs = takeWhile (\<lambda>x. x \<noteq> Eos) b" using Suc(2) b by simp
    then show ?thesis using True t t(5) [of "[]"] by (simp add: wps)
  next
    case False
    then obtain cs where cs: "until_eos rest = Some cs" "bs = b @ cs" using Suc(2) b by auto
    have w: "takeWhile (\<lambda>x. x \<noteq> Eos) b = b" using False by (auto simp: takeWhile_eq_all_conv)
    have "wp (copy_body2 fuel e st) ?Q t"
      by (rule wp_mono [OF Suc(1)]) (use cs t b w Suc(3) t(5) [of cs] in \<open>auto simp: body_step_def\<close>)
    then show ?thesis using False t by simp
  qed
  then have "wp (copy_brigade e b stopped) (\<lambda>x. wp (case x of (eos, st) \<Rightarrow> if eos then ret None else copy_body2 fuel e st) ?Q)
      (s\<lparr>brigades := rest\<rparr>)"
    by (intro wp_mono [OF copy_brigade_spec]) (auto simp: body_step_def)
  then show ?case by (simp add: b wp_bnd wp_gets wp_thenM wp_seqM_Cons wp_seqM_Nil wp_modify wp_ret)
qed

text \<open>
  The script gets the data of the body up to the first write that fails; the body is read to its end in
  any case.
\<close>

theorem copy_body2_spec:
  assumes "until_eos (brigades s) = Some bs"
  shows "wp (copy_body2 (length (brigades s)) e False) (\<lambda>r t. r = None \<and>
    to_script2 t = to_script2 s @ taken2 e (fwrites s) bs \<and> body_step s t) s"
  using copy_body2_step [OF assms order_refl, of e False] by (simp add: get2_def)

section \<open>Connecting\<close>

lemma wp_event2: "wp (event2 x) Q s = Q () (s\<lparr>log2 := log2 s @ [x]\<rparr>)"
  by (simp add: event2_def wps)

definition mutex_ok :: "aapi2 \<Rightarrow> bool" where
  "mutex_ok e \<longleftrightarrow> (b_threads e \<longrightarrow> b_lock e = APR_SUCCESS \<and> b_unlock e = APR_SUCCESS)"

text \<open>The options are set up and saved once, and restored before every request.\<close>

definition child_events :: "aapi2 \<Rightarrow> string list \<Rightarrow> bool \<Rightarrow> aevent2 list" where
  "child_events e argv did =
     (if b_threads e then [A_lock] else []) @ (if did then [] else [A_init [''''], A_save]) @
     [A_invalidate, A_restore, A_script_argv argv, A_mkenv argv, A_connect] @ (if b_threads e then [A_unlock] else [])"

definition sent2 :: "aapi2 \<Rightarrow> ast2 \<Rightarrow> byte list \<Rightarrow> byte list" where
  "sent2 e s x = (case b_write e (fwrites s) of (rv, n) \<Rightarrow> if rv = APR_SUCCESS then x else take n x)"

lemma run_cgi_child_connected:
  assumes "argv \<noteq> []" and "mutex_ok e" and "b_connect e = Some ss"
  shows "wp (run_cgi_child e argv) (\<lambda>rc t. rc = fst (b_write e (fwrites s)) \<and> files t = Some ss \<and> did_this t \<and>
    rq2 t = rq2 s \<and> brigades t = brigades s \<and> fwrites t = Suc (fwrites s) \<and>
    to_script2 t = to_script2 s @ sent2 e s (b_mkenv e argv) \<and>
    log2 t = log2 s @ child_events e argv (did_this s) @ [A_files ss]) s"
  using assms
  by (cases "b_write e (fwrites s)")
    (auto simp: run_cgi_child_def one_time_init_def event2_def file_write_def mutex_ok_def sent2_def child_events_def
      wps APR_SUCCESS_def Let_def)

text \<open>
  What becomes of a failed connection: without threads it is reported; with threads the error is
  overwritten when the mutex is unlocked, and the request data is written to whatever descriptors
  happen to be in the array.
\<close>

theorem run_cgi_child_failed:
  assumes "argv \<noteq> []" and "mutex_ok e" and "b_connect e = None"
  shows "wp (run_cgi_child e argv) (\<lambda>rc t.
    if b_threads e
    then files t = Some (b_stack e) \<and> rc = fst (b_write e (fwrites s)) \<and>
      to_script2 t = to_script2 s @ sent2 e s (b_mkenv e argv)
    else files t = files s \<and> rc = APR_EGENERAL \<and> to_script2 t = to_script2 s) s"
  using assms
  by (cases "b_write e (fwrites s)")
    (auto simp: run_cgi_child_def one_time_init_def event2_def file_write_def mutex_ok_def sent2_def
      wps APR_SUCCESS_def APR_EGENERAL_def Let_def)

section \<open>Which requests reach a backend\<close>

definition refusal2 :: "aapi2 \<Rightarrow> request_rec \<Rightarrow> astatus option" where
  "refusal2 e r = first_reason
     [(b_handler e \<noteq> ''application/x-httpd-cgi'' \<and> b_handler e \<noteq> ''speedycgi-script'', DECLINED),
      (r_method_number r = M_OPTIONS, DECLINED),
      (\<not> b_execcgi e \<and> \<not> is_scriptaliased e, FORBIDDEN),
      (is_nph (r_filename r) \<and> r_protocol r = ''INCLUDED'', FORBIDDEN),
      (r_finfo r = No_file, NOT_FOUND),
      (r_finfo r = Is_dir, FORBIDDEN),
      (b_reject_path_info e \<and> (case b_path_info e of None \<Rightarrow> False | Some p \<Rightarrow> p \<noteq> ''''), NOT_FOUND),
      (b_threads e \<and> b_is_threaded e, FORBIDDEN)]"

definition answered2 :: "aapi2 \<Rightarrow> bool \<Rightarrow> astatus" where
  "answered2 e nph =
     (if nph then OK
      else case b_scan e of Some st \<Rightarrow> st
      | None \<Rightarrow> (case b_location e of None \<Rightarrow> OK
        | Some l \<Rightarrow> if b_status e = 200 \<and> \<not> starts_slash l then HTTP_REDIRECT else OK))"

lemma script_return2_spec:
  "wp (script_return2 e) (\<lambda>st t. st = answered2 e False \<and> to_script2 t = to_script2 s \<and>
     (\<exists>evs. log2 t = log2 s @ evs \<and> A_connect \<notin> set evs)) s"
  by (auto simp: script_return2_def Let_def wps event2_def rq2_upd_def answered2_def split: option.splits)

text \<open>
  A backend is asked for exactly if there is no reason to refuse the request; it is sent the request
  data and then the data of the body. The streams of the script are those of the backend.
\<close>

theorem cgi_handler2_spec:
  assumes m: "mutex_ok e" and c: "b_connect e = Some ss" and w: "fst (b_write e (fwrites s)) = APR_SUCCESS"
    and b: "until_eos (brigades s) = Some bs"
  shows "wp (cgi_handler2 e) (\<lambda>st t. \<exists>evs. log2 t = log2 s @ evs \<and>
     (A_connect \<in> set evs \<longleftrightarrow> refusal2 e (rq2 s) = None) \<and>
     (case refusal2 e (rq2 s) of
       Some x \<Rightarrow> st = x \<and> to_script2 t = to_script2 s \<and> files t = files s
     | None \<Rightarrow> st = answered2 e (is_nph (r_filename (rq2 s))) \<and>
         to_script2 t = to_script2 s @ b_mkenv e (default_build_command e (rq2 s)) @ taken2 e (Suc (fwrites s)) bs)) s"
    (is "wp _ ?Q s")
proof (cases "refusal2 e (rq2 s)")
  case (Some x)
  then show ?thesis
    by (auto simp: cgi_handler2_def event2_def rq2_upd_def log_scripterror2_def wps refusal2_def split: if_splits)
next
  case None
  let ?r = "rq2 s" and ?argv = "default_build_command e (rq2 s)"
  let ?R = "\<lambda>st t. \<exists>evs. log2 t = log2 s @ evs \<and> A_connect \<in> set evs \<and> st = answered2 e (is_nph (r_filename ?r)) \<and>
    to_script2 t = to_script2 s @ b_mkenv e ?argv @ taken2 e (Suc (fwrites s)) bs"
  let ?answer = "thenM [event2 A_close_out]
               (if \<not> is_nph (r_filename ?r) then script_return2 e else thenM [event2 A_pass_raw] (ret OK))"
  have fin: "wp ?answer ?R t"
    if t: "log2 t = log2 s @ evs" "A_connect \<in> set evs"
      "to_script2 t = to_script2 s @ b_mkenv e ?argv @ taken2 e (Suc (fwrites s)) bs" for t evs
  proof (cases "is_nph (r_filename ?r)")
    case True
    then show ?thesis using t by (simp add: event2_def wps answered2_def)
  next
    case False
    have "wp (script_return2 e) ?R (t\<lparr>log2 := log2 t @ [A_close_out]\<rparr>)"
      by (rule wp_mono [OF script_return2_spec]) (use t False in auto)
    then show ?thesis using False by (simp add: event2_def wps)
  qed
  have bd: "wp (bnd (gets (\<lambda>s. length (brigades s))) (\<lambda>fuel. bnd (copy_body2 fuel e False) (\<lambda>res.
      case res of Some rv \<Rightarrow> ret (Api_status rv) | None \<Rightarrow> ?answer))) ?R u"
    if u: "log2 u = log2 s @ evs" "A_connect \<in> set evs" "brigades u = brigades s" "fwrites u = Suc (fwrites s)"
      "to_script2 u = to_script2 s @ b_mkenv e ?argv" for u evs
  proof -
    have "until_eos (brigades u) = Some bs" using b u by simp
    from copy_body2_spec [OF this, of e]
    have "wp (copy_body2 (length (brigades u)) e False) (\<lambda>res. wp (case res of Some rv \<Rightarrow> ret (Api_status rv) | None \<Rightarrow> ?answer) ?R) u"
      by (rule wp_mono) (use fin u in \<open>auto simp: body_step_def\<close>)
    then show ?thesis by (simp only: wp_bnd wp_gets)
  qed
  have argv: "?argv \<noteq> []" by (simp add: build_command_spec)
  have run: "wp (run_cgi_child e ?argv) (\<lambda>rv. wp (if rv \<noteq> APR_SUCCESS then log_scripterror2 SERVER_ERROR ''couldn't spawn child process''
       else bnd (gets (\<lambda>s. length (brigades s))) (\<lambda>fuel. bnd (copy_body2 fuel e False) (\<lambda>res.
      case res of Some rv \<Rightarrow> ret (Api_status rv) | None \<Rightarrow> ?answer))) ?R) (s\<lparr>log2 := log2 s @ [A_add_vars]\<rparr>)"
  proof (rule wp_mono [OF run_cgi_child_connected [OF argv m c]])
    fix rc :: int and t :: ast2
    let ?s = "s\<lparr>log2 := log2 s @ [A_add_vars]\<rparr>"
    assume t: "rc = fst (b_write e (fwrites ?s)) \<and> files t = Some ss \<and> did_this t \<and>
      rq2 t = rq2 ?s \<and> brigades t = brigades ?s \<and> fwrites t = Suc (fwrites ?s) \<and>
      to_script2 t = to_script2 ?s @ sent2 e ?s (b_mkenv e ?argv) \<and>
      log2 t = log2 ?s @ child_events e ?argv (did_this ?s) @ [A_files ss]"
    then have rc: "rc = APR_SUCCESS" using w by simp
    have "wp (bnd (gets (\<lambda>s. length (brigades s))) (\<lambda>fuel. bnd (copy_body2 fuel e False) (\<lambda>res.
      case res of Some rv \<Rightarrow> ret (Api_status rv) | None \<Rightarrow> ?answer))) ?R t"
      by (rule bd [of _ "A_add_vars # child_events e ?argv (did_this s) @ [A_files ss]"])
        (use t w in \<open>auto simp: child_events_def sent2_def split: prod.splits\<close>)
    then show "wp (if rc \<noteq> APR_SUCCESS then log_scripterror2 SERVER_ERROR ''couldn't spawn child process''
       else bnd (gets (\<lambda>s. length (brigades s))) (\<lambda>fuel. bnd (copy_body2 fuel e False) (\<lambda>res.
      case res of Some rv \<Rightarrow> ret (Api_status rv) | None \<Rightarrow> ?answer))) ?R t"
      using rc by (simp only: if_False simp_thms)
  qed
  have "wp (run_script2 e ?r) ?R s"
    unfolding run_script2_def wp_thenM wp_seqM_Cons wp_seqM_Nil wp_event2 wp_bnd [of "run_cgi_child e ?argv"] by (rule run)
  moreover have h: "cgi_handler2 e s = run_script2 e ?r s"
    using None by (auto simp: cgi_handler2_def refusal2_def run_simps split: if_splits)
  ultimately have "wp (cgi_handler2 e) ?R s" by (simp only: wp_def h)
  then show ?thesis by (rule wp_mono) (use None in auto)
qed

end
