(* ===== verification/OneRun.thy ===== *)
theory OneRun
  imports Prelude Wire Cwd Opt
begin

text \<open>
  One request in a backend (\<open>onerun\<close>, \<open>load_script\<close> and \<open>cleanup_after_perl\<close> of src/src/speedy_perl.c):
  the request is read from standard input, the directory entered, the script compiled if it is new,
  run, and the options it has changed are taken over. The Perl interpreter is not part of the
  sources: whether a script compiles, what it returns and where it leaves the process are answers.
\<close>

section \<open>State\<close>

text \<open>
  \<open>the_env\<close> and \<open>perl_args\<close> are \<open>%ENV\<close> and \<open>@ARGV\<close>, \<open>perl_name\<close> is \<open>$0\<close>, \<open>perl_sub\<close> whether the
  variable with the code to call holds a handler; \<open>evals\<close> are the texts perl was told to compile, \<open>perl_runs\<close> records where and
  what it was told to run.
\<close>

record orun =
  cst :: cstate
  opt :: ostate
  the_env :: "byte list \<rightharpoonup> byte list"
  perl_args :: "byte list list"
  perl_name :: "byte list option"
  perl_sub :: bool
  evals :: "string list"
  perl_runs :: "(devino \<times> string) list"
  alarm_on :: bool
  fd_suspect :: bool

text \<open>
  \<open>o_proto2\<close> is the directory the frontend sends when it is asked; \<open>o_script\<close> the contents of the file
  at a path, if it can be read, \<open>o_compiles\<close> whether evaluating a text makes a handler; \<open>o_leaves\<close> the
  directory in which the script leaves the process, \<open>o_forked\<close> whether it was a forked child that came
  back, \<open>o_devnull\<close> whether the streams can be reopened, \<open>o_changed\<close> whether the script has set options
  and \<open>o_opts\<close> their values in the hash of the module.
\<close>

record oenv =
  o_cenv :: cenv
  o_junk :: "nat \<Rightarrow> byte"
  o_proto2 :: "string option"
  o_script :: "byte list option \<Rightarrow> string option"
  o_compiles :: "string \<Rightarrow> bool"
  o_leaves :: devino
  o_exit :: int
  o_forked :: bool
  o_devnull :: bool
  o_changed :: bool
  o_opts :: "nat \<Rightarrow> string option"

datatype rundeath =
  Run_protocol | Run_cwd cdeath | Run_opt odeath | Run_unreadable | Run_compile | Run_exit | Run_devnull

type_synonym 'a rio = "(rundeath, orun, 'a) M"

text \<open>Functions on a part of the state.\<close>

definition on_cwd :: "'a cio \<Rightarrow> 'a rio" where
  "on_cwd m = (\<lambda>s. case m (cst s) of Ok a c \<Rightarrow> Ok a (s\<lparr>cst := c\<rparr>) | Die x c \<Rightarrow> Die (Run_cwd x) (s\<lparr>cst := c\<rparr>) | Hang \<Rightarrow> Hang)"

definition on_opt :: "'a oio \<Rightarrow> 'a rio" where
  "on_opt m = (\<lambda>s. case m (opt s) of Ok a c \<Rightarrow> Ok a (s\<lparr>opt := c\<rparr>) | Die x c \<Rightarrow> Die (Run_opt x) (s\<lparr>opt := c\<rparr>) | Hang \<Rightarrow> Hang)"

section \<open>Running\<close>

text \<open>A C string as characters.\<close>

definition c_chars :: "byte list \<Rightarrow> string" where
  "c_chars bs = map (\<lambda>b. char_of (unat b)) (takeWhile (\<lambda>b. b \<noteq> 0) bs)"

text \<open>
  The code of the script becomes the body of \<open>handler\<close> in a package named after device and inode.
\<close>

definition PACKAGE_FMT :: "string \<Rightarrow> string" where
  "PACKAGE_FMT hex_str = ''CGI::SpeedyCGI::_'' @ hex_str"

definition handler_code :: "devino \<Rightarrow> string \<Rightarrow> string" where
  "handler_code devino contents =
     ''package '' @ PACKAGE_FMT (devino_str devino) @ ''; sub handler { '' @ contents @ ''; }''"

definition load_script :: "oenv \<Rightarrow> devino \<Rightarrow> string \<Rightarrow> byte list option \<Rightarrow> unit rio" where
  "load_script e devino key scr_path =
     (case o_script e scr_path of
       None \<Rightarrow> die Run_unreadable
     | Some contents \<Rightarrow>
         (let sv = handler_code devino contents; ok = o_compiles e sv in
          seqM
           [modify (\<lambda>s. s\<lparr>evals := evals s @ [sv]\<rparr>),
            modify (\<lambda>s. s\<lparr>cst := (cst s)\<lparr>scr_hash := (scr_hash (cst s))(key :=
              map_option (\<lambda>sc. sc\<lparr>handler := ok\<rparr>) (scr_hash (cst s) key))\<rparr>\<rparr>),
            whenM (\<not> ok) (die Run_compile)]))"

definition all_done_run :: "unit rio" where
  "all_done_run = die Run_exit"

definition cleanup_after_perl :: "oenv \<Rightarrow> unit rio" where
  "cleanup_after_perl e =
     seqM
      [modify (\<lambda>s. s\<lparr>alarm_on := False\<rparr>),
       whenM (o_forked e) all_done_run,
       modify (\<lambda>s. s\<lparr>fd_suspect := True\<rparr>)]"

text \<open>The code of the script runs in the directory the process is in, and may change it.\<close>

definition perl_run_script :: "oenv \<Rightarrow> string \<Rightarrow> unit rio" where
  "perl_run_script e key =
     modify (\<lambda>s. s\<lparr>perl_runs := perl_runs s @ [(here (cst s), key)], alarm_on := True, cst := (cst s)\<lparr>here := o_leaves e\<rparr>\<rparr>)"

primrec copy_opts :: "nat list \<Rightarrow> oenv \<Rightarrow> unit rio" where
  "copy_opts [] e = ret ()"
| "copy_opts (i # is) e =
     (case o_opts e i of None \<Rightarrow> copy_opts is e
      | Some v \<Rightarrow> bnd (on_opt (speedy_opt_set i v)) (\<lambda>_. copy_opts is e))"

text \<open>From the wire to the directory.\<close>

definition enter_cwd :: "oenv \<Rightarrow> request \<Rightarrow> string \<Rightarrow> unit rio" where
  "enter_cwd e rq key =
     (if rq_where rq = Some SPEEDY_CWD_IN_SCRIPT
      then (case rq_path rq of None \<Rightarrow> ret ()
        | Some p \<Rightarrow> on_cwd (cwd_in_script (o_cenv e) key (c_chars p)))
      else bnd (on_cwd (cwd_from_frontend (o_cenv e) key (rq_cwd rq) (o_proto2 e))) (\<lambda>_. ret ()))"

definition onerun :: "oenv \<Rightarrow> bool \<Rightarrow> byte list \<Rightarrow> int rio" where
  "onerun e single_script stdin =
     (case read_request (o_junk e) stdin of None \<Rightarrow> die Run_protocol
      | Some (rq, _) \<Rightarrow>
         thenM [modify (\<lambda>s. s\<lparr>the_env := perl_env (rq_env rq), perl_args := rq_argv rq\<rparr>)]
          (bnd (on_cwd (find_scr (rq_script rq))) (\<lambda>(key, is_new).
           thenM
            [enter_cwd e rq key,
             whenM is_new (load_script e (rq_script rq) key (rq_path rq)),
             modify (\<lambda>s. s\<lparr>perl_name := rq_path rq\<rparr>),
             whenM (\<not> single_script) (modify (\<lambda>s. s\<lparr>perl_sub :=
               (case scr_hash (cst s) key of None \<Rightarrow> False | Some sc \<Rightarrow> handler sc)\<rparr>)),
             perl_run_script e key,
             cleanup_after_perl e,
             whenM (\<not> o_devnull e) (die Run_devnull),
             whenM (o_changed e) (bnd (gets (\<lambda>s. [0..<length (optdefs (opt s))])) (\<lambda>is. copy_opts is e))]
            (ret (o_exit e)))))"

section \<open>Starting the interpreter\<close>

text \<open>
  \<open>speedy_xs_init\<close> puts the values of the options into the hash of the module: \<open>None\<close> for one that is
  not stored.
\<close>

definition export_opt :: "ostate \<Rightarrow> nat \<Rightarrow> (string + int) option" where
  "export_opt s i =
     (let r = optdefs s ! i in
      if otyp r = OTYPE_STR
      then map_option Inl (STR_OPTVAL s r)
      else Some (Inr (INT_OPTVAL s r)))"

end
