(* ===== verification/OneRunSpecs.thy ===== *)
theory OneRunSpecs
  imports Prelude OneRun CwdSpecs OptSpecs
begin

text \<open>
  One request in a backend: nothing of the run before it is left in the environment and the
  arguments, the script is compiled when it is called, and the invariants of directories and options
  hold again at the end.
\<close>

section \<open>Parts of the state\<close>

lemma wpx_on_cwd [wpxs]:
  "wpx h (on_cwd m) Q E s = wpx h m (\<lambda>a c. Q a (s\<lparr>cst := c\<rparr>)) (\<lambda>x. E (Run_cwd x)) (cst s)"
  by (simp add: wpx_def on_cwd_def split: res.splits)

lemma wpx_on_opt [wpxs]:
  "wpx h (on_opt m) Q E s = wpx h m (\<lambda>a c. Q a (s\<lparr>opt := c\<rparr>)) (\<lambda>x. E (Run_opt x)) (opt s)"
  by (simp add: wpx_def on_opt_def split: res.splits)

section \<open>Compiled scripts stay compiled\<close>

definition handlers :: "cstate \<Rightarrow> string \<Rightarrow> bool option" where
  "handlers s k = map_option handler (scr_hash s k)"

definition keeps_handlers :: "'a cio \<Rightarrow> bool" where
  "keeps_handlers m \<longleftrightarrow> (\<forall>s a t. m s = Ok a t \<longrightarrow> handlers t = handlers s)"

named_theorems khs

lemma kh_ret [khs]: "keeps_handlers (ret a)" by (simp add: keeps_handlers_def run_simps)
lemma kh_gets [khs]: "keeps_handlers (gets f)" by (simp add: keeps_handlers_def run_simps)
lemma kh_die [khs]: "keeps_handlers (die x)" by (simp add: keeps_handlers_def run_simps)

lemma kh_bnd [khs]: "keeps_handlers m \<Longrightarrow> (\<And>a. keeps_handlers (f a)) \<Longrightarrow> keeps_handlers (bnd m f)"
  unfolding keeps_handlers_def by (auto simp: run_simps split: res.splits)

lemma kh_modify: "(\<And>s. handlers (f s) = handlers s) \<Longrightarrow> keeps_handlers (modify f)"
  by (simp add: keeps_handlers_def run_simps)

lemma kh_whenM [khs]: "keeps_handlers m \<Longrightarrow> keeps_handlers (whenM b m)"
  by (simp add: whenM_def kh_ret)

lemma kh_seqM [khs]: "keeps_handlers (seqM [])"
  "keeps_handlers m \<Longrightarrow> keeps_handlers (seqM ms) \<Longrightarrow> keeps_handlers (seqM (m # ms))"
  by (simp_all add: khs)

lemma kh_thenM [khs]: "keeps_handlers (seqM ms) \<Longrightarrow> keeps_handlers m \<Longrightarrow> keeps_handlers (thenM ms m)"
  by (simp add: thenM_def khs)

lemma kh_if [khs]: "keeps_handlers m \<Longrightarrow> keeps_handlers m' \<Longrightarrow> keeps_handlers (if b then m else m')"
  by simp

lemma kh_case_option [khs]:
  "keeps_handlers m \<Longrightarrow> (\<And>x. keeps_handlers (f x)) \<Longrightarrow> keeps_handlers (case y of None \<Rightarrow> m | Some x \<Rightarrow> f x)"
  by (simp split: option.splits)

lemma kh_case_prod [khs]: "(\<And>x y. keeps_handlers (f x y)) \<Longrightarrow> keeps_handlers (case p of (x, y) \<Rightarrow> f x y)"
  by (simp split: prod.splits)

lemma handlers_upds [simp]: "handlers (s\<lparr>cwds := a\<rparr>) = handlers s" "handlers (s\<lparr>cwd_brk := b\<rparr>) = handlers s"
  "handlers (s\<lparr>cwd_hash := c\<rparr>) = handlers s" "handlers (s\<lparr>cwd_fd := d\<rparr>) = handlers s" "handlers (s\<lparr>here := e\<rparr>) = handlers s"
  "handlers (s\<lparr>cwd_calls := n\<rparr>) = handlers s"
  by (simp_all add: handlers_def fun_eq_iff)

lemma kh_basic [khs]: "keeps_handlers (sys_call f)" "keeps_handlers (put_cwd p c)" "keeps_handlers (hash_set k q)"
  "keeps_handlers (find_cwd d)" "keeps_handlers (script_cwd key)"
  unfolding sys_call_def put_cwd_def hash_set_def find_cwd_def script_cwd_def
  by (intro khs kh_modify handlers_upds)+

lemma kh_get_cwd [khs]: "keeps_handlers (get_cwd p)"
  by (simp add: keeps_handlers_def get_cwd_def split: option.splits)

lemma kh_set_script_cwd [khs]: "keeps_handlers (set_script_cwd key p)"
  unfolding set_script_cwd_def by (intro kh_modify) (auto simp: handlers_def fun_eq_iff option.map_comp comp_def)

lemma kh_cwd [khs]: "keeps_handlers (cwd_refcnt_dec p)" "keeps_handlers (stat_cwd_fd e)"
  unfolding cwd_refcnt_dec_def stat_cwd_fd_def by (intro khs kh_modify handlers_upds)+

lemma kh_chdir_path [khs]: "keeps_handlers (chdir_path e p d)"
  unfolding chdir_path_def by (intro khs kh_modify handlers_upds)

lemma kh_quick_cd [khs]: "keeps_handlers (quick_cd e d)"
  unfolding quick_cd_def by (intro khs kh_modify handlers_upds)

lemma kh_cwd_new [khs]: "keeps_handlers (cwd_new e p)"
  unfolding cwd_new_def cwd_insert_def by (intro khs kh_modify handlers_upds)

lemma kh_store [khs]: "keeps_handlers (store_last_cwd key p)"
  unfolding store_last_cwd_def by (intro khs kh_modify handlers_upds)

lemma kh_enter: "keeps_handlers (cwd_in_script e key p)" "keeps_handlers (cwd_from_frontend e key d q)"
  unfolding cwd_in_script_def cwd_from_frontend_def cwd_cached_def cwd_by_script_def cwd_by_hash_def
  by (intro khs kh_modify handlers_upds)+

lemma wpx_keeps_handlers:
  "keeps_handlers m \<Longrightarrow> wpx h m Q E s \<Longrightarrow> wpx h m (\<lambda>a t. Q a t \<and> handlers t = handlers s) E s"
  by (auto simp: wpx_def keeps_handlers_def split: res.splits)

lemma wpx_and: "wpx h m Q E s \<Longrightarrow> wpx h m R (\<lambda>_. True) s \<Longrightarrow> wpx h m (\<lambda>a t. Q a t \<and> R a t) E s"
  by (simp add: wpx_def split: res.splits)

section \<open>A run\<close>

lemma wpx_then_modify: "wpx h (thenM [modify f] m) Q E s = wpx h m Q E (f s)"
  by (simp add: wpxs)

text \<open>Between two requests: every known script is compiled.\<close>

definition run_inv :: "orun \<Rightarrow> bool" where
  "run_inv s \<longleftrightarrow> cinv {} (cst s) \<and> oinv (opt s) \<and> (\<forall>k. handlers (cst s) k \<noteq> Some False)"

text \<open>A run does not end through a freed string or directory.\<close>

definition run_deaths :: "rundeath \<Rightarrow> bool" where
  "run_deaths x \<longleftrightarrow> (\<forall>y. x \<noteq> Run_opt y) \<and> (\<forall>p. x \<noteq> Run_cwd (Use_after_free p))"

lemma run_deaths_simps [simp]: "run_deaths Run_protocol" "run_deaths Run_unreadable" "run_deaths Run_compile"
  "run_deaths Run_exit" "run_deaths Run_devnull" "run_deaths (Run_cwd Null_deref)"
  by (simp_all add: run_deaths_def)

lemma find_scr_handlers:
  assumes "cinv {} s"
  shows "wp (find_scr d) (\<lambda>(key, is_new) t. cwd_ok key t \<and> key = devino_str d \<and> is_new = (scr_hash s key = None) \<and>
    (\<forall>k. handlers t k = (if is_new \<and> k = key then Some False else handlers s k)) \<and> cwds t = cwds s \<and> here t = here s) s"
proof -
  have "wp (find_scr d) (\<lambda>(key, is_new) t. key = devino_str d \<and>
    (\<forall>k. handlers t k = (if is_new \<and> k = key then Some False else handlers s k)) \<and> cwds t = cwds s \<and> here t = here s) s"
    by (auto simp: find_scr_def wps Let_def handlers_def split: option.splits)
  from wp_conjI [OF find_scr_spec [OF assms, of d] this] show ?thesis
    by (rule wp_mono) auto
qed

lemma enter_cwd_spec:
  assumes k: "cwd_ok key (cst s)"
  shows "wpx False (enter_cwd e rq key) (\<lambda>_ t. cwd_ok key (cst t) \<and> handlers (cst t) = handlers (cst s) \<and>
    (\<exists>c. t = s\<lparr>cst := c\<rparr>)) run_deaths s"
proof -
  have self: "\<exists>c. s = s\<lparr>cst := c\<rparr>" by (rule exI [of _ "cst s"]) simp
  have n: "wpx False (cwd_in_script (o_cenv e) key p) (\<lambda>_ c. cwd_ok key c \<and> handlers c = handlers (cst s))
      (\<lambda>x. run_deaths (Run_cwd x)) (cst s)" for p
    using wpx_keeps_handlers [OF kh_enter(1) cwd_in_script_spec [OF k, of "o_cenv e" p]]
    by (auto simp: wpx_def null_only_def split: res.splits)
  have f: "wpx False (cwd_from_frontend (o_cenv e) key d p) (\<lambda>_ c. cwd_ok key c \<and> handlers c = handlers (cst s))
      (\<lambda>x. run_deaths (Run_cwd x)) (cst s)" for d p
    by (rule wpx_keeps_handlers [OF kh_enter(2) wpx_wp [OF cwd_from_frontend_spec [OF k]]])
  show ?thesis
    using k self
    by (auto simp: enter_cwd_def wpxs split: option.splits intro!: wpx_mono [OF n] wpx_mono [OF f])
qed

lemma copy_opts_spec:
  "oinv (opt s) \<Longrightarrow> \<forall>i \<in> set is. i < length (optdefs (opt s)) \<Longrightarrow>
     wpx h (copy_opts is e) (\<lambda>_ t. oinv (opt t) \<and> (\<exists>c. t = s\<lparr>opt := c\<rparr>)) E s"
proof (induction "is" arbitrary: s)
  case Nil
  have "\<exists>c. s = s\<lparr>opt := c\<rparr>" by (rule exI [of _ "opt s"]) simp
  then show ?case using Nil by (simp add: wpxs)
next
  case (Cons i "is")
  have self: "\<exists>c. s = s\<lparr>opt := c\<rparr>" by (rule exI [of _ "opt s"]) simp
  show ?case
  proof (cases "o_opts e i")
    case None
    then show ?thesis using Cons by simp
  next
    case (Some v)
    have "wpx h (speedy_opt_set i v) (\<lambda>_ c. wpx h (copy_opts is e) (\<lambda>_ t. oinv (opt t) \<and> (\<exists>c. t = s\<lparr>opt := c\<rparr>)) E (s\<lparr>opt := c\<rparr>))
        (\<lambda>x. E (Run_opt x)) (opt s)"
    proof (rule wpx_mono [OF set_wpx])
      fix a c assume c: "sets (opt s) c"
      then have l: "length (optdefs c) = length (optdefs (opt s))" by (simp add: sets_def setting_length)
      show "wpx h (copy_opts is e) (\<lambda>_ t. oinv (opt t) \<and> (\<exists>c. t = s\<lparr>opt := c\<rparr>)) E (s\<lparr>opt := c\<rparr>)"
        by (rule wpx_mono [OF Cons(1)]) (use c l Cons(3) in \<open>auto simp: sets_def\<close>)
    qed (use Cons in auto)
    then show ?thesis using Some by (simp add: wpxs)
  qed
qed

text \<open>What is left of the request when it has been served; \<open>D\<close> says of the directory in which the script
  ran what is known about it.\<close>

text \<open>A script is compiled when it is not known yet.\<close>

definition compiled :: "oenv \<Rightarrow> request \<Rightarrow> orun \<Rightarrow> string list" where
  "compiled e rq s = (if scr_hash (cst s) (devino_str (rq_script rq)) = None
     then [handler_code (rq_script rq) (the (o_script e (rq_path rq)))] else [])"

definition ran_request :: "oenv \<Rightarrow> (devino \<Rightarrow> bool) \<Rightarrow> bool \<Rightarrow> request \<Rightarrow> orun \<Rightarrow> orun \<Rightarrow> bool" where
  "ran_request e D single rq s t \<longleftrightarrow> the_env t = perl_env (rq_env rq) \<and> perl_args t = rq_argv rq \<and> perl_name t = rq_path rq \<and>
     (\<exists>d. D d \<and> perl_runs t = perl_runs s @ [(d, devino_str (rq_script rq))]) \<and> evals t = evals s @ compiled e rq s \<and> (\<not> single \<longrightarrow> perl_sub t) \<and>
     handlers (cst t) (devino_str (rq_script rq)) = Some True \<and> \<not> alarm_on t \<and> fd_suspect t"

definition lands :: "oenv \<Rightarrow> request \<Rightarrow> cstate \<Rightarrow> (devino \<Rightarrow> bool) \<Rightarrow> bool" where
  "lands e rq c D \<longleftrightarrow> (\<forall>u key. cwd_ok key (cst u) \<longrightarrow> cwds (cst u) = cwds c \<longrightarrow>
     wpx False (enter_cwd e rq key) (\<lambda>_ t. D (here (cst t))) (\<lambda>_. True) u)"

lemma onerun_lands:
  assumes I: "run_inv s"
    and D: "\<And>rq rest. read_request (o_junk e) stdin = Some (rq, rest) \<Longrightarrow> lands e rq (cst s) D"
  shows "wpx False (onerun e single stdin) (\<lambda>r t. run_inv t \<and> r = o_exit e \<and>
    (\<exists>rq rest. read_request (o_junk e) stdin = Some (rq, rest) \<and> ran_request e D single rq s t)) run_deaths s"
proof (cases "read_request (o_junk e) stdin")
  case None
  then show ?thesis by (simp add: onerun_def wpxs)
next
  case (Some p)
  then obtain rq rest where rq: "read_request (o_junk e) stdin = Some (rq, rest)" by (cases p) auto
  let ?Q = "\<lambda>r t. run_inv t \<and> r = o_exit e \<and> ran_request e D single rq s t"
  let ?s = "s\<lparr>the_env := perl_env (rq_env rq), perl_args := rq_argv rq\<rparr>"
  let ?tail = "\<lambda>key. [modify (\<lambda>s. s\<lparr>perl_name := rq_path rq\<rparr>),
             whenM (\<not> single) (modify (\<lambda>s. s\<lparr>perl_sub :=
               (case scr_hash (cst s) key of None \<Rightarrow> False | Some sc \<Rightarrow> handler sc)\<rparr>)),
             perl_run_script e key,
             cleanup_after_perl e,
             whenM (\<not> o_devnull e) (die Run_devnull),
             whenM (o_changed e) (bnd (gets (\<lambda>s. [0..<length (optdefs (opt s))])) (\<lambda>is. copy_opts is e))]"
  have fin: "wpx False (seqM (?tail key)) (\<lambda>_. wpx False (ret (o_exit e)) ?Q run_deaths) run_deaths u"
    if u: "cwd_ok key (cst u)" "\<And>k. handlers (cst u) k \<noteq> Some False" "oinv (opt u)" "key = devino_str (rq_script rq)"
      "the_env u = perl_env (rq_env rq)" "perl_args u = rq_argv rq" "perl_runs u = perl_runs s" "D (here (cst u))"
      "evals u = evals s @ compiled e rq s" for u key
  proof -
    obtain sc where sc: "scr_hash (cst u) key = Some sc" "handler sc"
      using u(1) u(2) [of key] by (auto simp: cwd_ok_def handlers_def)
    define v where "v = u\<lparr>perl_name := rq_path rq, perl_sub := (if single then perl_sub u else True),
      perl_runs := perl_runs u @ [(here (cst u), key)], cst := (cst u)\<lparr>here := o_leaves e\<rparr>, alarm_on := False, fd_suspect := True\<rparr>"
    have w: "walk (cst u) ((cst u)\<lparr>here := o_leaves e\<rparr>)" by simp
    have v: "?Q (o_exit e) (v\<lparr>opt := c\<rparr>)" if "oinv c" for c
      using that u sc walk_cinv [OF w]
      by (auto simp: v_def run_inv_def ran_request_def cwd_ok_def handlers_def)
    have o: "oinv (opt v)" using u by (simp add: v_def)
    have "wpx False (copy_opts [0..<length (optdefs (opt v))] e) (\<lambda>_. ?Q (o_exit e)) run_deaths v"
      by (rule wpx_mono [OF copy_opts_spec [OF o]]) (use v in auto)
    moreover have "?Q (o_exit e) v" using v [OF o] by simp
    ultimately show ?thesis
      using sc by (cases single) (simp_all add: wpxs v_def perl_run_script_def cleanup_after_perl_def all_done_run_def)
  qed
  have load: "wpx False (whenM is_new (load_script e (rq_script rq) key (rq_path rq)))
      (\<lambda>_. wpx False (seqM (?tail key)) (\<lambda>_. wpx False (ret (o_exit e)) ?Q run_deaths) run_deaths) run_deaths u"
    if u: "cwd_ok key (cst u)" "\<And>k. handlers (cst u) k = Some False \<Longrightarrow> is_new \<and> k = key" "oinv (opt u)"
      "key = devino_str (rq_script rq)" "the_env u = perl_env (rq_env rq)" "perl_args u = rq_argv rq"
      "perl_runs u = perl_runs s" "D (here (cst u))" "evals u = evals s"
      "is_new = (scr_hash (cst s) (devino_str (rq_script rq)) = None)" for u key is_new
  proof (cases is_new)
    case False
    then have "evals u = evals s @ compiled e rq s" using u(9,10) by (simp add: compiled_def)
    then show ?thesis using fin [OF u(1) _ u(3-8)] u(2) False by (simp only: wpx_whenM if_False) blast
  next
    case True
    let ?c = "(cst u)\<lparr>scr_hash := (scr_hash (cst u))(key :=
        map_option (\<lambda>sc. sc\<lparr>handler := True\<rparr>) (scr_hash (cst u) key))\<rparr>"
    have us: "users ?c = users (cst u)"
      by (auto simp: users_def fun_eq_iff)
    have "dom (scr_hash ?c) = dom (scr_hash (cst u))" by (auto split: if_splits)
    then have ck: "cwd_ok key ?c"
      using u(1) us by (simp add: cwd_ok_def cinv_def del: dom_fun_upd)
    have ch: "handlers ?c k \<noteq> Some False" for k
      using u(2) [of k] by (auto simp: handlers_def)
    show ?thesis
    proof (cases "o_script e (rq_path rq)")
      case None
      then show ?thesis using True by (simp add: load_script_def wpx_whenM wpx_die)
    next
      case (Some src)
      let ?v = "u\<lparr>evals := evals u @ [handler_code (rq_script rq) src], cst := ?c\<rparr>"
      have "wpx False (seqM (?tail key)) (\<lambda>_. wpx False (ret (o_exit e)) ?Q run_deaths) run_deaths ?v"
        using u True Some ck ch by (intro fin) (auto simp: compiled_def)
      then show ?thesis using True Some
        by (cases "o_compiles e (handler_code (rq_script rq) src)")
          (simp_all add: load_script_def Let_def wpx_whenM wpx_seqM wpx_modify wpx_die wpx_ret del: seqM.simps)
    qed
  qed
  have "wpx False (find_scr (rq_script rq)) (\<lambda>(key, is_new) c. wpx False (seqM [enter_cwd e rq key,
      whenM is_new (load_script e (rq_script rq) key (rq_path rq))])
    (\<lambda>_. wpx False (seqM (?tail key)) (\<lambda>_. wpx False (ret (o_exit e)) ?Q run_deaths) run_deaths) run_deaths (?s\<lparr>cst := c\<rparr>))
    (\<lambda>x. run_deaths (Run_cwd x)) (cst ?s)"
  proof (rule wpx_mono [OF wpx_wp [OF find_scr_handlers]])
    show "cinv {} (cst ?s)" using I by (simp add: run_inv_def)
    fix p c
    assume p: "(\<lambda>(key, is_new) c. cwd_ok key c \<and> key = devino_str (rq_script rq) \<and>
      is_new = (scr_hash (cst ?s) key = None) \<and>
      (\<forall>k. handlers c k = (if is_new \<and> k = key then Some False else handlers (cst ?s) k)) \<and>
      cwds c = cwds (cst ?s) \<and> here c = here (cst ?s)) p c"
    obtain key is_new where [simp]: "p = (key, is_new)" by (cases p)
    have k: "cwd_ok key (cst (?s\<lparr>cst := c\<rparr>))" using p by auto
    have "cwds (cst (?s\<lparr>cst := c\<rparr>)) = cwds (cst s)" using p by auto
    then have e: "wpx False (enter_cwd e rq key) (\<lambda>_ t. D (here (cst t))) (\<lambda>_. True) (?s\<lparr>cst := c\<rparr>)"
      using D [OF rq] k unfolding lands_def by blast
    have "wpx False (enter_cwd e rq key) (\<lambda>_. wpx False (whenM is_new (load_script e (rq_script rq) key (rq_path rq)))
      (\<lambda>_. wpx False (seqM (?tail key)) (\<lambda>_. wpx False (ret (o_exit e)) ?Q run_deaths) run_deaths) run_deaths) run_deaths
      (?s\<lparr>cst := c\<rparr>)"
      by (rule wpx_mono [OF wpx_and [OF enter_cwd_spec [OF k] e]], rule load)
        (use p I in \<open>auto simp: run_inv_def split: if_splits\<close>)
    then show "(\<lambda>(key, is_new) c. wpx False (seqM [enter_cwd e rq key, whenM is_new (load_script e (rq_script rq) key (rq_path rq))])
      (\<lambda>_. wpx False (seqM (?tail key)) (\<lambda>_. wpx False (ret (o_exit e)) ?Q run_deaths) run_deaths) run_deaths (?s\<lparr>cst := c\<rparr>)) p c"
      by (simp add: wpx_seqM del: seqM.simps)
  qed
  then have "wpx False (onerun e single stdin) ?Q run_deaths s"
    unfolding onerun_def rq option.case prod.case wpx_then_modify wpx_bnd wpx_on_cwd
    by (rule wpx_mono) (simp add: wpx_thenM wpx_seqM split: prod.splits del: seqM.simps)
  then show ?thesis using rq by (elim wpx_mono) auto
qed


theorem onerun_spec:
  assumes "run_inv s"
  shows "wpx False (onerun e single stdin) (\<lambda>r t. run_inv t \<and> r = o_exit e \<and>
    (\<exists>rq rest. read_request (o_junk e) stdin = Some (rq, rest) \<and> ran_request e (\<lambda>_. True) single rq s t)) run_deaths s"
proof (rule onerun_lands [OF assms])
  show "lands e rq (cst s) (\<lambda>_. True)" for rq
    unfolding lands_def
  proof (intro allI impI)
    fix u :: orun and key
    assume "cwd_ok key (cst u)"
    from enter_cwd_spec [OF this, of e rq]
    show "wpx False (enter_cwd e rq key) (\<lambda>_ _. True) (\<lambda>_. True) u"
      by (auto simp: wpx_def split: res.splits)
  qed
qed

text \<open>
  From the frontend's buffer to the call of the script: its environment and arguments are those the
  frontend was given, without empty strings, and it runs in the directory of the frontend.
\<close>

definition run_served :: "byte list list \<Rightarrow> byte list list \<Rightarrow> byte list \<Rightarrow> devino \<Rightarrow> devino \<Rightarrow> orun \<Rightarrow> orun \<Rightarrow> bool" where
  "run_served envp args fname script_stat d s t \<longleftrightarrow> the_env t = perl_env (filter (\<lambda>x. x \<noteq> []) envp) \<and>
     perl_args t = filter (\<lambda>x. x \<noteq> []) args \<and> perl_name t = Some fname \<and>
     perl_runs t = perl_runs s @ [(d, devino_str script_stat)]"

lemma enter_cwd_lands:
  assumes e: "smooth (o_cenv e)" "steady_paths (o_cenv e) c" and d: "in_range d"
    and rq: "rq_where rq \<noteq> Some SPEEDY_CWD_IN_SCRIPT" "rq_cwd rq \<in> {None, Some d}"
    and p: "o_proto2 e = Some p" "abs_path p" "\<And>n. leads (o_cenv e) n p = Some d"
  shows "lands e rq c (\<lambda>x. x = d)"
  unfolding lands_def
proof (intro allI impI)
  fix u :: orun and key
  assume u: "cwd_ok key (cst u)" "cwds (cst u) = cwds c"
  have "steady_paths (o_cenv e) (cst u)" using e(2) u(2) by (simp add: steady_paths_def)
  from wpx_wp [OF cwd_from_frontend_right [OF u(1) e(1) this d rq(2) p(2,3)]]
  show "wpx False (enter_cwd e rq key) (\<lambda>_ t. here (cst t) = d) (\<lambda>_. True) u"
    using rq p by (simp add: enter_cwd_def wpxs)
qed

theorem request_served_right:
  assumes I: "run_inv s" and e: "smooth (o_cenv e)" "steady_paths (o_cenv e) (cst s)" and d: "in_range d"
    and p: "o_proto2 e = Some p" "abs_path p" "\<And>n. leads (o_cenv e) n p = Some d"
    and ok: "\<And>x. x \<in> set envp \<union> set args \<Longrightarrow> length x < 2 ^ 31" "wire_str fname" "devino_ok script_stat"
    and dir: "dir_stat \<in> {None, Some d}" "devino_ok d"
  shows "wpx False (onerun e single (sb_content (speedy_frontend_mkenv junk envp (prog # args) m fname script_stat dir_stat False)))
    (\<lambda>r t. run_inv t \<and> r = o_exit e \<and> run_served envp args fname script_stat d s t) run_deaths s"
proof -
  let ?rq = "\<lparr>rq_env = filter (\<lambda>s. s \<noteq> []) envp, rq_argv = filter (\<lambda>s. s \<noteq> []) args, rq_path = Some fname,
    rq_script = script_stat, rq_where = Some (if dir_stat = None then SPEEDY_CWD_UNKNOWN else SPEEDY_CWD_DEVINO), rq_cwd = dir_stat\<rparr>"
  have read: "read_request (o_junk e)
      (sb_content (speedy_frontend_mkenv junk envp (prog # args) m fname script_stat dir_stat False)) = Some (?rq, [])"
    using mkenv_spec [of junk envp "prog # args" m fname script_stat dir_stat False]
      read_request_wire [OF ok, where dir_stat = dir_stat and junk = "o_junk e" and in_script = False and rest = "[]"] dir
    by (auto simp: holds_def)
  have "lands e ?rq (cst s) (\<lambda>x. x = d)"
    by (rule enter_cwd_lands [OF e d _ _ p])
      (use dir in \<open>auto simp: SPEEDY_CWD_IN_SCRIPT_def SPEEDY_CWD_UNKNOWN_def SPEEDY_CWD_DEVINO_def\<close>)
  then show ?thesis
    using read by (intro wpx_mono [OF onerun_lands [OF I]]) (auto simp: ran_request_def run_served_def)
qed

end
