(* ===== verification/ExampleNet.thy ===== *)
theory ExampleNet
  imports ExampleRequest IpcSpecs ApacheSpecs Apache2Specs OneRunSpecs
begin

text \<open>
  Concrete states for the properties about sockets, the modules of the web server and a request in a
  backend.
\<close>

section \<open>Sockets\<close>

text \<open>Every call works and nobody else connects.\<close>

definition ex_netenv :: netenv where
  "ex_netenv = \<lparr>n_socket = (\<lambda>_. Sock_ok), n_bind = (\<lambda>_. True), n_listen = (\<lambda>_. True), n_connect = (\<lambda>_. True),
     n_accept = (\<lambda>_. True), n_arrive = (\<lambda>_. []), n_id = (\<lambda>k. (1, int k)), n_owner = (\<lambda>_ _. 500), n_maxfd = 20,
     n_fname = (\<lambda>_. ''/tmp/be.S7''), n_euid = 500\<rparr>"

text \<open>A backend listens on socket 0; a frontend has made sockets 1 to 3.\<close>

definition ex_net :: net where
  "ex_net = \<lparr>socks = (\<lambda>k. if k = 0 then Some (new_sock\<lparr>sk_name := ''/tmp/be.S7'', sk_listens := True\<rparr>)
       else if k < 4 then Some new_sock else None),
     sock_brk = 4, desc = (\<lambda>fd. if fd = 3 then Some 1 else if fd = 4 then Some 2 else if fd = 5 then Some 3 else None),
     cloexec = {}, bound_paths = [''/tmp/be.S7'' \<mapsto> (0, 448)], cur_umask = 18, listener = 18, listener_id = (1, 0),
     polled = 18, net_calls = 0\<rparr>"

definition ex_be_desc :: "int \<rightharpoonup> nat" where
  "ex_be_desc = [18 \<mapsto> 0]"

lemma ex_quiet: "quiet ex_netenv"
  by (simp add: quiet_def ex_netenv_def)

lemma ex_accepting: "accepting 0 [] (ex_net\<lparr>desc := ex_be_desc\<rparr>)"
  by (simp add: accepting_def ex_net_def ex_be_desc_def PREF_FD_LISTENER_def new_sock_def)

lemma ex_std_closed: "std_closed ex_be_desc"
  by (simp add: std_closed_def ex_be_desc_def)

lemma ex_are_socks: "are_socks [3, 4, 5] ex_net"
  by (simp add: are_socks_def sock_at_def ex_net_def)

lemma ex_was_listening: "was_listening ex_netenv 7 ex_net"
  by (simp add: was_listening_def ex_net_def ex_netenv_def PREF_FD_LISTENER_def new_sock_def)

lemma ex_inj: "inj (n_id ex_netenv)"
  by (simp add: ex_netenv_def inj_def)

section \<open>The web server\<close>

definition ex_scr_dev :: devino where "ex_scr_dev = \<lparr>d_ino = 5, d_dev = 6\<rparr>"

definition ex_data :: "byte list" where
  "ex_data = sb_content (speedy_frontend_mkenv (\<lambda>_. 0) [[65, 61, 66]] [[47], [97]] 0 [47, 120] ex_scr_dev None False)"

definition ex_request :: request_rec where
  "ex_request = \<lparr>r_filename = ''/cgi/x'', r_protocol = ''HTTP/1.0'', r_method_number = M_POST, r_allowed = {},
     r_finfo = Is_file, r_header_only = False, r_content_length = True\<rparr>"

definition ex_aapi :: aapi where
  "ex_aapi = \<lparr>a_execcgi = True, a_suexec = False, a_can_exec = True, a_setup_block = None, a_connect = True,
     a_mkenv = (\<lambda>_. ex_data), a_should_block = True, a_bwrite = (\<lambda>_. int (length ex_data) + 9), a_scan = None, a_status = 200,
     a_location = None\<rparr>"

definition ex_ast :: ast where
  "ex_ast = \<lparr>rq = ex_request, client_left = [[104, 105], [33]], to_script = [], bwrites = 0, alog = []\<rparr>"

lemma ex_refusal: "refusal ex_aapi (rq ex_ast) = None"
  by (simp add: refusal_def ex_aapi_def ex_ast_def ex_request_def)

definition ex_aapi2 :: "bool \<Rightarrow> aapi2" where
  "ex_aapi2 up = \<lparr>b_handler = ''speedycgi-script'', b_execcgi = True, b_alias_type = None, b_reject_path_info = False,
     b_path_info = None, b_threads = True, b_is_threaded = False, b_args = Some ''a+b'', b_argmax = 10,
     b_unescape = (\<lambda>x. x), b_escape = (\<lambda>x. x), b_lock = 0, b_unlock = 0, b_connect = (if up then Some [3, 4, 5] else None),
     b_stack = [0, 1, 2], b_mkenv = (\<lambda>_. ex_data), b_write = (\<lambda>_. (0, 0)), b_scan = None, b_status = 200, b_location = None\<rparr>"

definition ex_ast2 :: ast2 where
  "ex_ast2 = \<lparr>rq2 = ex_request, did_this = False, brigades = [Brigade [Data [104]], Brigade [Data [105], Eos]],
     files = None, to_script2 = [], fwrites = 0, log2 = []\<rparr>"

lemma ex_mutex_ok: "mutex_ok (ex_aapi2 up)"
  by (simp add: mutex_ok_def ex_aapi2_def APR_SUCCESS_def)

lemma ex_until_eos: "until_eos (brigades ex_ast2) = Some [Data [104], Data [105]]"
  by (simp add: ex_ast2_def)

lemma ex_refusal2: "refusal2 (ex_aapi2 up) (rq2 ex_ast2) = None"
  by (simp add: refusal2_def ex_aapi2_def ex_ast2_def ex_request_def)

section \<open>A request in a backend\<close>

definition ex_orun :: orun where
  "ex_orun = \<lparr>cst = ex_cstate, opt = ex_opts, the_env = (\<lambda>_. None), perl_args = [[122]], perl_name = None, perl_sub = False,
     evals = [], perl_runs = [], alarm_on = False, fd_suspect = False\<rparr>"

definition ex_oenv :: oenv where
  "ex_oenv = \<lparr>o_cenv = ex_cenv ex_dir, o_junk = (\<lambda>_. 0), o_proto2 = Some ''/a'', o_script = (\<lambda>_. Some ''exit 3''), o_compiles = (\<lambda>_. True), o_leaves = ex_dir2,
     o_exit = 3, o_forked = False, o_devnull = True, o_changed = True,
     o_opts = (\<lambda>i. if i = 1 then Some ''g2'' else None)\<rparr>"

lemma ex_run_inv: "run_inv ex_orun"
  using ex_cwd_ok ex_opts_inv by (auto simp: run_inv_def ex_orun_def cwd_ok_def handlers_def) (auto simp: ex_cstate_def split: if_splits)

end
