(* ===== verification/Spec2Isabelle.thy ===== *)
theory Spec2Isabelle
  imports Examples ExampleRequest ExampleNet Util
begin

text \<open>
  A verification library for SpeedyCGI, which keeps Perl programs running between requests.

  A frontend (the program of src/src/speedy_main.c or an Apache module) takes a request, finds or
  starts a backend process that has the script loaded, sends it environment and arguments over a
  socket, copies standard input, output and error, and ends with the backend's status. All
  processes of a user meet in one temp file, mapped into memory and locked with \<open>fcntl\<close>: an array of
  slots that holds groups, scripts, backends and frontends on doubly linked lists of slot numbers.

  The theories and what they model:

  \<^item> Prelude: the state-and-failure monad of the C functions that work on the temp file, its
    weakest-precondition rules (\<open>wp\<close>: returns and satisfies; \<open>wpx h\<close>: may also die in a declared
    way, and not return if \<open>h\<close>), invariants of step relations.
  \<^item> Slots (speedy_slot.c, speedy_slot.h, the header of speedy_file.h): the file as the state
    \<open>sys\<close>, every access through \<open>SLOT_CHECK\<close>, the list operations, allocation. SlotViews,
    SlotLists, SlotListOps, SlotAlloc: \<open>repr a s\<close>, the file \<open>s\<close> holds the lists of the abstract
    state \<open>a\<close>; each operation refines its abstract counterpart on lists.
  \<^item> FileInv, Backends, BackendSpecs, BackendQueue (speedy_backend.c): \<open>wfile\<close> adds that running
    frontends and their backends point at each other.
  \<^item> GroupOps, GroupSpecs (speedy_group.c), GoodFile, Scripts (\<open>speedy_script_find\<close>): \<open>good\<close> adds
    that valid groups come first and waiting backends come first and in order.
  \<^item> Frontends, FrontendQueue, FrontendConnect, FrontendGet, FrontendRun (speedy_frontend.c up to
    \<open>speedy_frontend_connect\<close>): what other processes do between two critical sections is the function
    \<open>others\<close>, of which \<open>coop\<close> says that it keeps the file good and does not remove the caller's own
    frontend. Loops over lists have as fuel the number of slots, which the specifications show to be
    enough; the loop that waits for a backend has as fuel the number of wake-ups.
  \<^item> BackendMain, BackendMainSpecs, BackendLoop (speedy_backend_main.c: joining or making a group, the
    turns of the parent of its backends), BackendRun (\<open>speedy_perl_run\<close> of speedy_perl.c: a backend from
    one run of the script to the next). Other processes are again a function; \<open>coop_on\<close> and
    \<open>backend_rely\<close> say what they leave alone. The fuel of both loops is the number of turns; a bound
    on the runs bounds the turns of a backend.
  \<^item> Bytes, Circ (speedy_circ.c), CopyBuf (speedy_cb.c; the queue interface \<open>fifo\<close> as a locale),
    Wire (the request the frontend builds and the backend reads; the locale \<open>codec\<close>), Poll
    (speedy_poll.c in both versions; the locale \<open>poller\<close>), FdTable, MainLoop, MainLoopSpecs
    (speedy_main.c).
  \<^item> Util (speedy_util.c), FileLock, FileSpecs, FileRecovery (speedy_file.c: open, map, lock, extend,
    remove; the invariant of a process and its reachable states).
  \<^item> ScriptFile (speedy_script.c: the script as a file), Sig (speedy_sig.c), Opt (speedy_opt.c), with
    OptArgv (parsing a command line again) and OptSpecs (\<open>oinv\<close>: values are legal, no string is freed
    twice or while in use; saving and restoring).
  \<^item> Cwd, CwdSpecs (the hashes of directories and scripts of speedy_perl.c, and the part of \<open>onerun\<close>
    that goes to the directory of a run; \<open>cinv\<close>: reference counts are exact).
  \<^item> OneRun, OneRunSpecs (\<open>onerun\<close>, \<open>load_script\<close> and \<open>cleanup_after_perl\<close> of speedy_perl.c): one request
    in a backend, from the bytes of the frontend over directory and compiling to the options the
    script has changed. It is built on the models of Wire, Cwd and Opt; \<open>run_inv\<close> joins their
    invariants, and Perl (whether a text compiles, what a script returns and where it leaves the
    process) is the record \<open>oenv\<close>.
  \<^item> Ipc, IpcSpecs (speedy_ipc.c): sockets, their names and the descriptors of a process; listening,
    getting back a lost descriptor, connecting three times and accepting three times. The 300 tries
    of \<open>make_sock\<close> are the fuel of its loop, as in the code.
  \<^item> Apache, ApacheSpecs (mod_speedycgi.c) and Apache2, Apache2Specs (mod_speedycgi2.c): the frontends
    within the web server. Its API is not part of the sources: its answers are the records \<open>aapi\<close> and
    \<open>aapi2\<close>, what is asked of it is a list of events. The fuel of the loops over the body is what is
    left of it. \<open>refusal\<close> and \<open>refusal2\<close> are the reasons for which a request does not reach a backend.
  \<^item> ExampleFile, Examples, ExampleRequest, ExampleNet: concrete states for the witnesses of the
    properties below.

  The system is an argument: the answers of \<open>kill\<close>, \<open>fork\<close>, \<open>connect\<close>, \<open>stat\<close>, \<open>waitpid\<close> and the
  clock are in the record \<open>answers\<close>, those of \<open>read\<close>, \<open>write\<close>, \<open>poll\<close> in \<open>menv\<close>, failing system
  calls of speedy_file.c in \<open>fails\<close>, those of \<open>chdir\<close> and its like in \<open>cenv\<close>. Slot numbers are 16-bit words as in the code.

  Not modelled: the start of the Perl interpreter (\<open>speedy_perl_init\<close>, \<open>xs_init\<close>) and the handles Perl
  keeps on the streams, calls to an interface that is not part of the sources; \<open>main\<close> of the frontend
  up to the copy loop (ids and signals); error printing; the debug and profiling variants; the
  generated option table; the Perl programs of the build.
\<close>

section \<open>The temp file: slots, groups, scripts\<close>

text \<open>C1: On every list of the file, \<open>speedy_slot_remove\<close> takes exactly the given slot out of the list
  and leaves every other list, the free list and all contents alone.\<close>

theorem slot_remove_correct:
  assumes "repr a s" and "n \<in> set (lst a l)"
  shows "wp (speedy_slot_remove n (href l) (tref l))
     (\<lambda>_ t. repr (upl l (remove1 n (lst a l)) a) t \<and> frame (live a) s t) s"
  using assms by (rule remove_repr)

theorem slot_remove_correct_witness:
  "wp (speedy_slot_remove 3 (href (LBe 1)) (tref (LBe 1)))
     (\<lambda>_ t. repr (upl (LBe 1) [4] ex_abs) t \<and> frame (live ex_abs) ex_sys t) ex_sys"
  using slot_remove_correct [OF ex_repr, of 3 "LBe 1"] by (simp add: ex_abs_def)

text \<open>C2: \<open>speedy_slot_alloc\<close> returns a slot nobody holds and no list has, cleared, and the file stays
  well formed with the slot taken off the free list (or the file one slot longer).\<close>

theorem slot_alloc_fresh:
  assumes "repr a s" and "room (Suc k) s"
  shows "wp speedy_slot_alloc (\<lambda>n t. repr (take_free a) t \<and> held (take_free a) t n
     \<and> pay t n = U_zero \<and> nxt t n = 0 \<and> prv t n = 0 \<and> grow n s t \<and> room k t
     \<and> n \<notin> listed a \<and> n \<notin> live a \<and> \<not> held a s n) s"
  using assms by (rule alloc_spec)

theorem slot_alloc_fresh_witness:
  "wp speedy_slot_alloc (\<lambda>n t. repr (take_free ex_abs) t \<and> held (take_free ex_abs) t n
     \<and> pay t n = U_zero \<and> nxt t n = 0 \<and> prv t n = 0 \<and> grow n ex_sys t \<and> room 4 t
     \<and> n \<notin> listed ex_abs \<and> n \<notin> live ex_abs \<and> \<not> held ex_abs ex_sys n) ex_sys"
  using slot_alloc_fresh [OF ex_repr, of 4] ex_room by simp



text \<open>C4: \<open>speedy_group_invalidate\<close> frees the scripts and the name of a group and moves it to the end
  of the list, and sends SIGTERM to its waiting backends only, in their order.\<close>

theorem group_invalidate_correct:
  assumes "wfile a s" and "g \<in> live a" and "g \<in> set (lst a LGroups)"
  shows "wp (speedy_group_invalidate g) (\<lambda>_ t. wfile (inval g a) t \<and>
     calm (live a) (live a) (bes a) s t \<and>
     klog t = klog s @ (if lst a (LScr g) = [] then [] else
       [(be_pid (be s b), SIGTERM). b \<leftarrow> takeWhile (waiting s) (lst a (LBe g)),
          be_pid (be s b) \<noteq> 0 \<and> be_pid (be s b) \<noteq> mypid s])) s"
  using assms by (rule invalidate_spec)

theorem group_invalidate_correct_witness:
  "wp (speedy_group_invalidate 1) (\<lambda>_ t. wfile (inval 1 ex_abs) t \<and>
     calm (live ex_abs) (live ex_abs) (bes ex_abs) ex_sys t \<and>
     klog t = klog ex_sys @ (if lst ex_abs (LScr 1) = [] then [] else
       [(be_pid (be ex_sys b), SIGTERM). b \<leftarrow> takeWhile (waiting ex_sys) (lst ex_abs (LBe 1)),
          be_pid (be ex_sys b) \<noteq> 0 \<and> be_pid (be ex_sys b) \<noteq> mypid ex_sys])) ex_sys"
  by (rule group_invalidate_correct [OF ex_wfile]) (simp_all add: ex_abs_def)



section \<open>Backends\<close>

text \<open>C6: \<open>speedy_backend_be_wait_put\<close> puts the backend among the waiting ones at the place its
  maturity gives it, and marks it as waiting; the rest of the list keeps its order.\<close>

theorem be_wait_put_correct:
  assumes "wfile a s" and "b \<in> set (lst a (LBe g))" and "fe_running (be s b) \<in> {0, b}"
  shows "wp (speedy_backend_be_wait_put g b) (\<lambda>_ t.
     wfile (upl (LBe g) (put_sorted t b (remove1 b (lst a (LBe g)))) a) t \<and>
     waiting t b \<and> be_pid (be t b) = be_pid (be s b) \<and> maturity (be t b) = maturity (be s b) \<and>
     calm (live a \<union> {b}) (live a) (bes a - {b}) s t) s"
  using assms by (rule be_wait_put_spec)

theorem be_wait_put_correct_witness:
  "wp (speedy_backend_be_wait_put 1 3) (\<lambda>_ t.
     wfile (upl (LBe 1) (put_sorted t 3 (remove1 3 (lst ex_abs (LBe 1)))) ex_abs) t \<and>
     waiting t 3 \<and> be_pid (be t 3) = be_pid (be ex_sys 3) \<and> maturity (be t 3) = maturity (be ex_sys 3) \<and>
     calm (live ex_abs \<union> {3}) (live ex_abs) (bes ex_abs - {3}) ex_sys t) ex_sys"
  by (rule be_wait_put_correct [OF ex_wfile]) (simp_all add: ex_abs_def)





section \<open>Frontends\<close>



text \<open>C10: The status a frontend collects is what the backend left in its slot, none while the backend
  runs, and SIGKILL when the backend is gone; its slot leaves the list of running frontends exactly
  when there is a status.\<close>

theorem collect_status_correct:
  assumes "good a s" and "f \<in> set (lst a LFeRun)" and "me s f"
  shows "wp (speedy_frontend_collect_status f) (\<lambda>x t. x = status s f \<and>
     (\<exists>b. good b t \<and> lst b LFeRun = (if x = None then lst a LFeRun else remove1 f (lst a LFeRun)))) s"
  using assms by (rule collect_status_spec)

theorem collect_status_correct_witness:
  "wp (speedy_frontend_collect_status 6) (\<lambda>x t. x = status (ex_as 106) 6 \<and>
     (\<exists>b. good b t \<and> lst b LFeRun = (if x = None then lst ex_abs LFeRun
        else remove1 6 (lst ex_abs LFeRun)))) (ex_as 106)"
  by (rule collect_status_correct [OF ex_as_good]) (simp_all add: ex_abs_def me_def)

section \<open>Copying\<close>

text \<open>C11: The circular buffer is a queue: whatever fits and is put and taken, the bytes come out in the
  order they went in, across every wrap of the buffer.\<close>

theorem circ_in_order:
  assumes "circ_ok c" and "qfits (buf_len c) (int (length (circ_data c))) xs"
    and "qrun circ_put (\<lambda>n. speedy_circ_adj_len (- n)) circ_data xs c = (out, c')"
  shows "circ_ok c' \<and> out @ circ_data c' = circ_data c @ qputs xs \<and> buf_len c' = buf_len c"
  using assms by (rule circ.in_order)

theorem circ_in_order_witness:
  "\<exists>out c'. qrun circ_put (\<lambda>n. speedy_circ_adj_len (- n)) circ_data
       [Put [1, 2, 3], Get 2, Put [4, 5, 6], Get 3] (speedy_circ_init (Some \<lparr>sb_buf = [0, 0, 0, 0], alloced = 4, sb_len = 0\<rparr>))
       = (out, c') \<and> out @ circ_data c' = [1, 2, 3, 4, 5, 6]"
proof -
  let ?c = "speedy_circ_init (Some \<lparr>sb_buf = [0, 0, 0, 0], alloced = 4, sb_len = 0\<rparr>)"
  let ?x = "[Put [1, 2, 3], Get 2, Put [4, 5, 6], Get 3] :: byte qop list"
  have c: "circ_ok ?c" "circ_data ?c = []" "buf_len ?c = 4"
    by (simp_all add: circ_ok_def circ_data_def speedy_circ_init_def cmem_def speedy_circ_data_segs_def get_segs_def
        segs_read_def)
  obtain out c' where r: "qrun circ_put (\<lambda>n. speedy_circ_adj_len (- n)) circ_data ?x ?c = (out, c')"
    by fastforce
  have "circ_ok c' \<and> out @ circ_data c' = circ_data ?c @ qputs ?x \<and> buf_len c' = buf_len ?c"
    by (rule circ_in_order [OF c(1) _ r]) (simp add: c)
  then show ?thesis using r c by auto
qed

text \<open>C12: Whatever sequence of answers the kernel gives, a copy buffer delivers the bytes it read in
  order, loses none before a write error and sends none after it.\<close>

theorem copy_buffer_faithful:
  assumes "cb_ok cb" and "cb_run k xs cb = (cb', gots, sents)"
  shows "cb_ok cb' \<and> cb_same cb cb' \<and> (write_err cb \<noteq> 0 \<longrightarrow> write_err cb' \<noteq> 0 \<and> sents = [])
    \<and> (write_err cb' = 0 \<longrightarrow> sents @ cb_data cb' = cb_data cb @ gots)
    \<and> (\<exists>rest. cb_data cb @ gots = sents @ rest)"
  using assms by (rule cb_run_spec)

theorem copy_buffer_faithful_witness:
  "\<exists>cb' gots sents. cb_run \<lparr>k_oom = False, k_junk = (\<lambda>_. 0)\<rparr> [Inl (Rd [7, 8, 9]), Inr (Wr 2), Inr (WrErr EAGAIN)] ex_cb_in
      = (cb', gots, sents) \<and> (write_err cb' = 0 \<longrightarrow> sents @ cb_data cb' = cb_data ex_cb_in @ gots)"
proof -
  have "cb_ok ex_cb_in" unfolding ex_cb_in_def by (rule main_cb_in_ok) simp_all
  from copy_buffer_faithful [OF this] show ?thesis by (metis prod_cases3)
qed

text \<open>C13: What the frontend sends is what the backend reads: environment, arguments, script and
  directory come back, except that empty strings are dropped.\<close>

theorem request_roundtrip:
  assumes "\<And>s. s \<in> set envp \<union> set args \<Longrightarrow> length s < 2 ^ 31" and "wire_str fname"
    and "devino_ok script_stat" and "\<And>d. dir_stat = Some d \<Longrightarrow> devino_ok d"
  shows "read_request junk' (sb_content (speedy_frontend_mkenv junk envp (prog # args) min_alloc
      fname script_stat dir_stat in_script)) =
    Some (\<lparr>rq_env = filter (\<lambda>s. s \<noteq> []) envp, rq_argv = filter (\<lambda>s. s \<noteq> []) args,
      rq_path = Some fname, rq_script = script_stat,
      rq_where = Some (if in_script then SPEEDY_CWD_IN_SCRIPT
        else if dir_stat = None then SPEEDY_CWD_UNKNOWN else SPEEDY_CWD_DEVINO),
      rq_cwd = (if in_script then None else dir_stat)\<rparr>, [])"
  using mkenv_spec [of junk envp "prog # args" min_alloc fname script_stat dir_stat in_script]
    read_request_wire [OF assms, where rest = "[]" and junk = junk']
  by (simp add: holds_def)

theorem request_roundtrip_witness:
  "read_request (\<lambda>_. 0) (sb_content (speedy_frontend_mkenv (\<lambda>_. 0) [[65, 61, 66]] [[47], [], [97]] 0
      [47, 120] \<lparr>d_ino = 5, d_dev = 6\<rparr> None False)) =
    Some (\<lparr>rq_env = [[65, 61, 66]], rq_argv = [[97]], rq_path = Some [47, 120],
      rq_script = \<lparr>d_ino = 5, d_dev = 6\<rparr>, rq_where = Some SPEEDY_CWD_UNKNOWN, rq_cwd = None\<rparr>, [])"
proof -
  have "length s < 2 ^ 31" if "s \<in> set [[65, 61, 66]] \<union> set [[], [97]]" for s :: "byte list"
    using that by auto
  from request_roundtrip [where envp = "[[65, 61, 66]]" and args = "[[], [97]]" and fname = "[47, 120]" and script_stat = "\<lparr>d_ino = 5, d_dev = 6\<rparr>"
      and dir_stat = None and junk = "\<lambda>_. 0" and junk' = "\<lambda>_. 0" and prog = "[47]" and min_alloc = 0
      and in_script = False, OF this]
  show ?thesis by (simp add: wire_str_def devino_ok_def)
qed

text \<open>C14: The two versions of the poll code agree: what \<open>select\<close> has marked, \<open>poll\<close> has marked, and a
  descriptor \<open>poll\<close> has marked is one \<open>select\<close> has marked, for reading or for writing.\<close>

theorem poll_and_select_agree:
  assumes "pt_ok p" and "\<And>fd d. (fd, d) \<in> set xs \<Longrightarrow> fd \<le> pt_maxfd p" and "fd \<le> pt_maxfd p"
  shows "(speedy_poll_isset (fold (\<lambda>(fd, d) p. speedy_poll_set p fd (sel_flag d)) xs (speedy_poll_reset pi)) fd (sel_flag d)
      \<longrightarrow> pt_isset (fold (\<lambda>(fd, d) p. pt_set p fd (pt_flag d)) xs (pt_reset p)) fd (pt_flag d))
    \<and> (pt_isset (fold (\<lambda>(fd, d) p. pt_set p fd (pt_flag d)) xs (pt_reset p)) fd (pt_flag d)
      \<longrightarrow> (\<exists>d'. speedy_poll_isset (fold (\<lambda>(fd, d) p. speedy_poll_set p fd (sel_flag d)) xs (speedy_poll_reset pi)) fd (sel_flag d')))"
proof -
  note agree = poll_select_agree [where xs = xs and pi = pi, OF assms(1) _ assms(3)]
  show ?thesis
    by (intro conjI impI) ((rule agree(1), erule assms(2), assumption), (rule agree(2), erule assms(2), assumption))
qed

theorem poll_and_select_agree_witness:
  "pt_isset (pt_set (pt_reset (pt_init (\<lambda>_. ex_pollfd) 4)) 3 (pt_flag In)) 3 (pt_flag In)"
proof -
  have "3 \<le> pt_maxfd (pt_init (\<lambda>_. ex_pollfd) 4)" by (simp add: pt_init_def pt_reset_def)
  from poll_and_select_agree [OF pt_init_ok _ this, of "[(3, In)]" "speedy_poll_init 4" In] this
  show ?thesis by (simp add: isset_set)
qed

text \<open>C15: Over \<open>poll\<close>, the table never overflows: while a descriptor within the announced maximum has
  no entry there is room for one, and setting it keeps that so.\<close>

theorem poll_table_room:
  assumes "pt_ok pi" and "fd \<le> pt_maxfd pi"
  shows "(fdmap pi ! fd = None \<longrightarrow> numfds pi < length (fds pi)) \<and> pt_ok (pt_set pi fd flags)
    \<and> pt_maxfd (pt_set pi fd flags) = pt_maxfd pi"
  using assms by (simp add: pt_room pt_set_ok)

theorem poll_table_room_witness:
  "pt_ok (pt_set (pt_init (\<lambda>_. ex_pollfd) 4) 4 1)"
  proof -
  have "4 \<le> pt_maxfd (pt_init (\<lambda>_. ex_pollfd) 4)" by (simp add: pt_init_def pt_reset_def)
  from poll_table_room [OF pt_init_ok this] show ?thesis by blast
qed

text \<open>C16: A descriptor of the frontend program is closed at most once, whatever it does.\<close>

theorem fd_closed_once:
  assumes "fd < length (fdinfo t)"
  shows "\<exists>cs. calls (fd_changes badf xs t) = calls t @ cs \<and> count_list cs (Close fd) \<le> 1"
  using assms by (rule fd_changes_once)

theorem fd_closed_once_witness:
  "\<exists>cs. calls (fd_changes (\<lambda>_. False) [(0, FD_CLOSE), (0, FD_CLOSE)] ex_fdt) = calls ex_fdt @ cs
    \<and> count_list cs (Close 0) \<le> 1"
proof -
  have "0 < length (fdinfo ex_fdt)" by code_simp
  then show ?thesis by (rule fd_closed_once)
qed

text \<open>C17: In a run of the frontend program, however the kernel slices reads and writes, each of the
  three streams is delivered in order and nothing is made up; the first byte of the output is the
  backend's request, not output; the exit status is collected at most once.\<close>

theorem streams_in_order_correct:
  assumes "cb_ok cb_in" and "0 \<le> bufsizget"
    and "copy_loop fuel e (mstart e junk bufsizget cb_in ss t) = Some r"
  shows "(\<exists>rest. cb_data cb_in @ rcvd 0 (trace (turn_state r)) = sent 0 (trace (turn_state r)) @ rest)
    \<and> (\<exists>rest. tl (rcvd 1 (trace (turn_state r))) = sent 1 (trace (turn_state r)) @ rest)
    \<and> (\<exists>rest. rcvd 2 (trace (turn_state r)) = sent 2 (trace (turn_state r)) @ rest)
    \<and> collected (trace (turn_state r)) \<le> 1"
  using streams_in_order(1-4) [OF assms] by blast

theorem streams_in_order_correct_witness:
  "\<exists>r. copy_loop 9 ex_env ex_start = Some r
    \<and> (\<exists>rest. tl (rcvd 1 (trace (turn_state r))) = sent 1 (trace (turn_state r)) @ rest)"
proof -
  obtain s where s: "copy_loop 9 ex_env ex_start = Some (Done s)"
    using ex_loop by (auto split: option.splits turn.splits)
  from streams_in_order_correct [OF ex_cb_in_ok _ this [unfolded ex_start_def]] s
  show ?thesis by auto
qed

text \<open>C18: When the program ends in the usual way, the backend's exit status is known and everything the
  backend wrote has been delivered, up to end of file, unless the receiver failed.\<close>

theorem streams_complete_correct:
  assumes "cb_ok cb_in" and "0 \<le> bufsizget"
    and "copy_loop fuel e (mstart e junk bufsizget cb_in ss t) = Some (Done s)"
  shows "exit_st s \<noteq> None \<and> collected (trace s) = 1
    \<and> (write_err (cbuf_of s 1) = 0 \<longrightarrow> eof (cbuf_of s 1) \<and> sent 1 (trace s) = tl (rcvd 1 (trace s)))
    \<and> (write_err (cbuf_of s 2) = 0 \<longrightarrow> eof (cbuf_of s 2) \<and> sent 2 (trace s) = rcvd 2 (trace s))"
  using streams_complete [OF assms] by blast

theorem streams_complete_correct_witness:
  "\<exists>s. copy_loop 9 ex_env ex_start = Some (Done s) \<and> exit_st s \<noteq> None \<and> sent 1 (trace s) = [104, 105]"
proof -
  obtain s where s: "copy_loop 9 ex_env ex_start = Some (Done s)" "sent 1 (trace s) = [104, 105]"
    using ex_loop by (auto split: option.splits turn.splits)
  from streams_complete_correct [OF ex_cb_in_ok _ s(1) [unfolded ex_start_def]] s
  show ?thesis by auto
qed

section \<open>Processes and the temp file as a file\<close>



text \<open>C20: In every state a process can reach, with other processes at work on the file in between, the
  file is locked (and signals are blocked) exactly in state \<open>FS_CORRUPT\<close>, and no call reads through
  a null pointer or closes a descriptor that is not its own.\<close>

theorem file_states_correct:
  assumes "reach fs_init (fs_step isbe) s" and "isbe \<longrightarrow> st \<noteq> FS_OPEN"
  shows "wpx False (speedy_file_set_state st)
    (\<lambda>r t. r = cur_state s \<and> cur_state t = st \<and> (file_locked t \<longleftrightarrow> st = FS_CORRUPT)
       \<and> sigs_blocked t = file_locked t \<and> (st = FS_CLOSED \<longrightarrow> file_fd t = None \<and> fmap t = None)
       \<and> reach fs_init (fs_step isbe) t) fdies s"
  using assms by (rule reachable_call)

theorem file_states_correct_witness:
  "wpx False (speedy_file_set_state FS_CORRUPT)
    (\<lambda>r t. r = cur_state ex_proc \<and> cur_state t = FS_CORRUPT \<and> (file_locked t \<longleftrightarrow> FS_CORRUPT = FS_CORRUPT)
       \<and> sigs_blocked t = file_locked t \<and> (FS_CORRUPT = FS_CLOSED \<longrightarrow> file_fd t = None \<and> fmap t = None)
       \<and> reach fs_init (fs_step True) t) fdies ex_proc"
  by (rule file_states_correct) (simp_all add: ex_proc_init reach_init)

text \<open>C21: When no system call fails, taking the lock ends the process in two ways only: five tries were
  not enough, or the file the process holds slots of is corrupt.\<close>

theorem file_lock_ends:
  assumes "finv s" and "\<not> file_locked s" and "sane_world s" and "\<And>n. \<not> fails s n"
  shows "wpx False file_lock (\<lambda>_. lock_post s)
    (\<lambda>e. e = Could_not_open \<or> e = File_corrupt \<and> FS_HAVESLOTS \<le> cur_state s) s"
  by (rule safe_no_die [OF safe_file_lock file_lock_spec [OF assms(1-3)] assms(4)])

theorem file_lock_ends_witness:
  "wpx False file_lock (\<lambda>_. lock_post ex_proc)
    (\<lambda>e. e = Could_not_open \<or> e = File_corrupt \<and> FS_HAVESLOTS \<le> cur_state ex_proc) ex_proc"
  by (rule file_lock_ends [OF ex_proc_inv]) (simp add: ex_proc_def)

text \<open>C22: A process that holds slots of a file whose owner died in an update, and whose place a new
  file has already taken, unlinks the new, good file by name before it ends.\<close>

theorem stale_process_unlinks_new_file:
  assumes "replaced s i j n" and "\<not> file_locked s" and "\<not> fd_is_suspect s"
    and "fst (f_time s) - last_reopen s \<le> f_restat s" and "saved_tmpbase s = Some (f_tmpbase s)"
  shows "\<exists>t. file_lock s = Die File_corrupt t \<and> names (dsk t) n = None
    \<and> inodes (dsk t) j = inodes (dsk s) j"
  using assms by (rule stale_lock)

theorem stale_process_unlinks_new_file_witness:
  "\<exists>t. file_lock ex_stale = Die File_corrupt t \<and> names (dsk t) ''f'' = None"
proof -
  have s: "\<not> file_locked ex_stale" "\<not> fd_is_suspect ex_stale"
    "fst (f_time ex_stale) - last_reopen ex_stale \<le> f_restat ex_stale"
    "saved_tmpbase ex_stale = Some (f_tmpbase ex_stale)"
    by (simp_all add: ex_stale_def ex_proc_def)
  from stale_process_unlinks_new_file [OF ex_stale_replaced s] show ?thesis by blast
qed

section \<open>The loops of the backends\<close>





section \<open>Options\<close>

text \<open>C25: The arguments handed to the programs that are started mean the same as those the program
  itself was started with: parsing them in the same environment gives the same options, the same
  arguments of perl and of the script, and the same arguments again.\<close>

theorem exec_argv_roundtrip:
  assumes "fresh_opts s" and "speedy_opt_init show_version argv envp s = Ok () t"
  shows "speedy_opt_init show_version (arg0 # tl (ptrs (exec_argv t))) envp s =
    Ok () (t\<lparr>orig_argv := arg0 # tl (ptrs (exec_argv t))\<rparr>)"
  using assms by (rule init_reparse)

theorem exec_argv_roundtrip_witness:
  "\<exists>t. speedy_opt_init False [''/usr/bin/be'', ''-w'', ''--'', ''-r5'', ''x.pl'', ''-a''] [''SPEEDY_TIMEOUT=7''] ex_opts = Ok () t
    \<and> opt_ints t 0 = 5 \<and> opt_ints t 1 = 7"
proof -
  obtain t where t: "speedy_opt_init False [''speedy'', ''-w -- -r5'', ''x.pl'', ''-a''] [''SPEEDY_TIMEOUT=7''] ex_opts = Ok () t"
    and a: "ptrs (exec_argv t) = [''perl'', ''-w'', ''--'', ''-r5'', ''x.pl'', ''-a'']" "opt_ints t 0 = 5" "opt_ints t 1 = 7"
    using ex_init by (simp split: res.splits)
  from exec_argv_roundtrip [OF ex_opts_fresh t, of "''/usr/bin/be''"] a show ?thesis by simp
qed

text \<open>C26: Whatever the command line and the environment say, after start-up every numeric option has a
  value its type allows, every string option points to a string that has not been freed, and no
  string is freed twice; the only other ends are an unknown option and the version message.\<close>

theorem opt_init_correct:
  assumes "oinv s"
  shows "wpx False (speedy_opt_init show_version argv envp) (\<lambda>_. sets s) opt_deaths s"
  using assms by (rule opt_init_spec)

theorem opt_init_correct_witness:
  "wpx False (speedy_opt_init False [''speedy'', ''-r-3'', ''x.pl''] []) (\<lambda>_. sets ex_opts) opt_deaths ex_opts"
  by (rule opt_init_correct [OF ex_opts_inv])

text \<open>C27: After any sequence of settings and restores in between, restoring gives every string option
  the value it had when the options were saved; no string is freed twice or while it is in use.\<close>

theorem save_restore_correct:
  assumes "oinv s" and "list_all (within (length (optdefs s))) cs"
  shows "wp (seqM (speedy_opt_save # map do_opt cs @ [speedy_opt_restore])) (\<lambda>_ t. oinv t \<and>
    map skel (optdefs t) = map skel (optdefs s) \<and>
    (\<forall>i < length (optdefs s). STR_OPTVAL t (optdefs t ! i) = STR_OPTVAL s (optdefs s ! i))) s"
  using assms by (rule save_restore)

theorem save_restore_correct_witness:
  "wp (seqM (speedy_opt_save # map do_opt [Set_opt 1 ''a'', Restore_opts, Set_opt 1 ''b'', Set_opt 2 ''9''] @ [speedy_opt_restore]))
    (\<lambda>_ t. oinv t \<and> map skel (optdefs t) = map skel (optdefs ex_opts) \<and>
    (\<forall>i < length (optdefs ex_opts). STR_OPTVAL t (optdefs t ! i) = STR_OPTVAL ex_opts (optdefs ex_opts ! i))) ex_opts"
  by (rule save_restore_correct [OF ex_opts_inv]) (simp add: within_def ex_opts_def)

section \<open>The directory of a run\<close>



text \<open>C29: When a remembered path has come to lead elsewhere, the backend runs the script there without
  asking the frontend, although it knows device and inode of the right directory.\<close>

theorem moved_directory_correct:
  assumes "scr_hash s key = Some sc" and "last_cwd sc = Some p" and "cwds s p = Some c" and "cdevino c = d"
    and "cwd_fd s \<noteq> Some d" and "here s \<noteq> d" and "smooth e"
    and "abs_path (cpath c)" and "\<And>n. leads e n (cpath c) = Some d'"
  shows "wp (cwd_from_frontend e key (Some d) dir) (\<lambda>asked t. \<not> asked \<and> here t = d') s"
  using assms by (rule moved_directory)

theorem moved_directory_correct_witness:
  "wp (cwd_from_frontend (ex_cenv ex_dir2) ''1_2'' (Some ex_dir) (Some ''/c'')) (\<lambda>asked t. \<not> asked \<and> here t = ex_dir2) ex_cstate"
  by (rule moved_directory_correct [where p = 0 and sc = "\<lparr>handler = True, last_cwd = Some 0\<rparr>" and
      c = "\<lparr>refcnt = 1, cpath = ''/a'', cdevino = ex_dir\<rparr>", OF _ _ _ _ _ _ ex_smooth])
    (simp_all add: ex_cstate_def ex_cenv_def ex_dir_def ex_dir2_def abs_path_def)

section \<open>Signals and the script as a file\<close>

text \<open>C30: Waiting for signals returns as soon as one that is handled has come, and then exactly those
  that came are reported as received: none is lost and none is left from an earlier wait.\<close>

theorem sig_wait_correct:
  assumes "length (got_sigs s) = SPEEDY_MAXSIG" and "few s"
    and "\<forall>k < n. handled comes sl s (suspends s + k) = []" and "handled comes sl s (suspends s + n) \<noteq> []"
  shows "\<exists>sl' t. speedy_sig_wait (n + 2) comes sl s = Some (sl', t) \<and> suspends t = suspends s + n + 1 \<and>
    (\<forall>x. x \<noteq> 0 \<longrightarrow> speedy_sig_got sl' x = (x \<in> set (handled comes sl s (suspends s + n)))) \<and>
    sigmask t = sigmask s \<and> actions t = actions s"
  using assms by (rule sig_wait_spec)

theorem sig_wait_correct_witness:
  "\<exists>sl' t. speedy_sig_wait 3 ex_comes ex_siglist ex_sigst = Some (sl', t) \<and> speedy_sig_got sl' 14 \<and> \<not> speedy_sig_got sl' 15"
proof -
  have h: "handled ex_comes ex_siglist ex_sigst k = (if k = 0 then [] else [14])" for k
    by (simp add: handled_def ex_comes_def ex_siglist_def ex_sigst_def)
  have s: "length (got_sigs ex_sigst) = SPEEDY_MAXSIG" "suspends ex_sigst = 0"
    by (simp_all add: ex_sigst_def SPEEDY_MAXSIG_def)
  obtain sl' t where w: "speedy_sig_wait (1 + 2) ex_comes ex_siglist ex_sigst = Some (sl', t)"
    "\<forall>x. x \<noteq> 0 \<longrightarrow> speedy_sig_got sl' x = (x \<in> {14})"
    using sig_wait_correct [OF s(1) ex_few, of 1 ex_comes ex_siglist] by (auto simp: h s(2))
  have "speedy_sig_got sl' 14" "\<not> speedy_sig_got sl' 15" using w(2) by (auto dest: spec [of _ 14] spec [of _ 15])
  moreover have "(3 :: nat) = 1 + 2" by simp
  ultimately show ?thesis using w(1) by metis
qed

text \<open>C31: Setting up signals and putting them back leaves every handler and the mask as they were,
  also within a section that blocks all signals; it ends when no signal of the list is pending.\<close>

theorem sig_init_free_correct:
  assumes "distinct sigs" and "speedy_sig_init sigs how s = Some (sl, s1)"
    and "actions u = actions s1" and "all_blocked u = all_blocked s1"
  shows "(\<forall>fuel t. speedy_sig_free fuel comes pending sl u = Some t \<longrightarrow> actions t = actions s \<and>
      (if all_blocked s then blockall_save t = blockall_save s \<and> sigmask t = sigmask u else sigmask t = sigmask s)) \<and>
    (\<forall>p. pending (suspends u) = Some p \<and> p \<inter> set sigs = {} \<longrightarrow> speedy_sig_free (Suc fuel) comes pending sl u \<noteq> None)"
  using assms by (rule sig_init_free)

theorem sig_init_free_correct_witness:
  "\<exists>sl s1 t. speedy_sig_init [14, 15] SIG_BLOCK ex_sig0 = Some (sl, s1) \<and>
    speedy_sig_free 1 ex_comes (\<lambda>_. Some {}) sl s1 = Some t \<and> actions t = actions ex_sig0 \<and> sigmask t = {}"
proof -
  obtain sl s1 where i: "speedy_sig_init [14, 15] SIG_BLOCK ex_sig0 = Some (sl, s1)"
    by (cases "speedy_sig_init [14, 15] SIG_BLOCK ex_sig0") (auto simp: speedy_sig_init_def SPEEDY_MAXSIG_def)
  have a: "\<not> all_blocked ex_sig0" "sigmask ex_sig0 = {}" by (simp_all add: ex_sig0_def ex_sigst_def)
  from sig_init_free_correct [OF _ i refl refl, of ex_comes "\<lambda>_. Some {}" 0] i a show ?thesis by fastforce
qed

text \<open>C32: A script counts as changed exactly if its descriptor had timed out, it was opened again, and it
  is then another file or has another modification time; whatever happens, at most one descriptor is
  open for it and none is closed twice.\<close>

theorem script_changed_correct:
  assumes "one_fd own s" and "fresh_fds opn own" and "tm \<noteq> 0"
  shows "wpx False (speedy_script_changed opn restat fname tm) (\<lambda>r t. one_fd own t \<and>
    r = (last_open s \<noteq> 0 \<and> restat < tm - last_open s \<and>
      (st_dev (the_stat t), st_ino (the_stat t), st_mtime (the_stat t)) \<noteq>
      (st_dev (the_stat s), st_ino (the_stat s), st_mtime (the_stat s))) \<and>
    (last_open s \<noteq> 0 \<and> restat < tm - last_open s \<longrightarrow>
      (\<exists>fd. opn (opens_done s) = Opened fd (the_stat t) \<and> script_fd t = fd \<and> last_open t = tm)))
    (sf_deaths fname) s"
  using assms by (rule changed_spec)

theorem script_changed_correct_witness:
  "wpx False (speedy_script_changed (\<lambda>_. Opened 5 (ex_stat 60)) 30 (Some ''/x.pl'') 200) (\<lambda>r t. r \<and> one_fd {0} t)
    (sf_deaths (Some ''/x.pl'')) ex_sf"
  by (rule wpx_mono [OF script_changed_correct [OF ex_sf_one ex_sf_fresh]])
    (auto simp: ex_sf_def ex_stat_def dest!: sym [of _ "the_stat _"])
section \<open>Sockets\<close>

text \<open>C33: The three sockets a frontend connects with become standard input, output and error of the
  backend, in this order, when nobody else connects and no call fails.\<close>

theorem connect_accept_correct:
  assumes "quiet e" and "3 \<le> n_maxfd e" and "length (n_fname e slotnum) < SUN_PATH"
    and "accepting k [] (s\<lparr>desc := bdesc\<rparr>)" and "bound_paths s (n_fname e slotnum) = Some (k, m)"
    and "std_closed bdesc" and "are_socks [f0, f1, f2] s"
  shows "wp (bnd (ipc_connect e slotnum [f0, f1, f2]) (\<lambda>ok.
      if ok then thenM [modify (\<lambda>t. t\<lparr>desc := bdesc\<rparr>)] (speedy_ipc_accept e) else ret False))
    (\<lambda>ok t. ok \<and> std_peers (map (\<lambda>fd. the (desc s fd)) [f0, f1, f2]) t) s"
  using assms by (rule connect_accept)

theorem connect_accept_correct_witness:
  "wp (bnd (ipc_connect ex_netenv 7 [3, 4, 5]) (\<lambda>ok.
      if ok then thenM [modify (\<lambda>t. t\<lparr>desc := ex_be_desc\<rparr>)] (speedy_ipc_accept ex_netenv) else ret False))
    (\<lambda>ok t. ok \<and> std_peers (map (\<lambda>fd. the (desc ex_net fd)) [3, 4, 5]) t) ex_net"
  by (rule connect_accept_correct [OF ex_quiet _ _ ex_accepting _ ex_std_closed ex_are_socks])
    (simp_all add: ex_netenv_def ex_net_def SUN_PATH_def)



section \<open>A request in a backend\<close>





section \<open>The modules of the web server\<close>


text \<open>C38: When every write is taken whole, what the Apache 1 module sends is read by the backend as the
  request it was made from, and what is left for the script to read is the body, whole.\<close>

theorem apache_body_correct:
  assumes "refusal e (rq s) = None" and "a_connect e" and "a_should_block e" and "to_script s = []"
    and "\<And>n. \<forall>x \<in> {a_mkenv e [r_filename (rq s)]} \<union> set (parts (client_left s)). int (length x) \<le> a_bwrite e n"
    and "a_mkenv e [r_filename (rq s)] = sb_content (speedy_frontend_mkenv junk envp (prog # args) m fname script_stat dir_stat in_script)"
    and "\<And>x. x \<in> set envp \<union> set args \<Longrightarrow> length x < 2 ^ 31" and "wire_str fname" and "devino_ok script_stat"
    and "\<And>d. dir_stat = Some d \<Longrightarrow> devino_ok d"
  shows "wp (cgi_handler e) (\<lambda>_ t. \<exists>req. read_request junk' (to_script t) = Some (req, concat (parts (client_left s))) \<and>
    rq_env req = filter (\<lambda>x. x \<noteq> []) envp \<and> rq_path req = Some fname \<and> rq_script req = script_stat) s"
  using assms by (rule apache_request_arrives)

theorem apache_body_correct_witness:
  "wp (cgi_handler ex_aapi) (\<lambda>_ t. \<exists>req. read_request (\<lambda>_. 0) (to_script t) = Some (req, [104, 105, 33]) \<and>
    rq_env req = [[65, 61, 66]] \<and> rq_path req = Some [47, 120] \<and> rq_script req = ex_scr_dev) ex_ast"
proof -
  have p: "concat (parts (client_left ex_ast)) = [104, 105, 33]" by (simp add: ex_ast_def)
  have "wp (cgi_handler ex_aapi) (\<lambda>_ t. \<exists>req. read_request (\<lambda>_. 0) (to_script t) =
      Some (req, concat (parts (client_left ex_ast))) \<and>
    rq_env req = filter (\<lambda>x. x \<noteq> []) [[65, 61, 66]] \<and> rq_path req = Some [47, 120] \<and> rq_script req = ex_scr_dev) ex_ast"
    by (rule apache_body_correct [OF ex_refusal, where junk = "\<lambda>_. 0" and prog = "[47]" and args = "[[97]]" and m = 0
        and dir_stat = None and in_script = False])
      (auto simp: ex_aapi_def ex_ast_def ex_data_def wire_str_def devino_ok_def ex_scr_dev_def)
  then show ?thesis by (simp add: p)
qed



text \<open>C40: When no backend can be had, the Apache 2 module reports it if the runtime has no threads; with
  threads the error is overwritten as the mutex is unlocked, and the request data is written to
  whatever descriptors are in the array of sockets.\<close>

theorem unlock_hides_failure:
  assumes "argv \<noteq> []" and "mutex_ok e" and "b_connect e = None"
  shows "wp (run_cgi_child e argv) (\<lambda>rc t.
    if b_threads e
    then files t = Some (b_stack e) \<and> rc = fst (b_write e (fwrites s)) \<and>
      to_script2 t = to_script2 s @ sent2 e s (b_mkenv e argv)
    else files t = files s \<and> rc = APR_EGENERAL \<and> to_script2 t = to_script2 s) s"
  using assms by (rule run_cgi_child_failed)

theorem unlock_hides_failure_witness:
  "wp (run_cgi_child (ex_aapi2 False) [''/cgi/x'']) (\<lambda>rc t. rc = APR_SUCCESS \<and> files t = Some [0, 1, 2] \<and> to_script2 t = ex_data) ex_ast2"
  by (rule wp_mono [OF unlock_hides_failure [OF _ ex_mutex_ok]])
    (auto simp: ex_aapi2_def ex_ast2_def sent2_def APR_SUCCESS_def)

end
